(* ===== verification/Prelude.thy ===== *)
theory Prelude
  imports Main "HOL-Library.Word"
begin

text \<open>
  Shared vocabulary of the development.

  C code fails in ways a HOL function does not: it aborts on an assertion, dereferences a null or
  freed pointer, indexes an array out of its bounds, or runs for ever. Each of these is a value of
  \<open>c_fault\<close>, and an operation that can fail returns a value of \<open>'a outcome\<close>: \<open>Inl\<close>
  a fault or \<open>Inr\<close> the result. The collection \<open>outcome_simps\<close> holds the rules that push
  a proof through a sequence of such operations. The counted loops of the sources
  (\<open>for (i = a; i < b; i++)\<close>) are folds of the loop body over the list of the index values,
  with one rule (\<open>rfold_range_rule\<close>) for their invariants.
\<close>

named_theorems outcome_simps \<open>evaluation rules for sequenced outcomes\<close>

datatype c_fault =
    Assert_fail      \<comment> \<open>an \<open>assert\<close> of the source does not hold\<close>
  | Null_deref       \<comment> \<open>a null pointer is dereferenced\<close>
  | Out_of_bounds    \<comment> \<open>an access outside the block it is made through\<close>
  | Dangling         \<comment> \<open>an access through a pointer to memory that was freed\<close>
  | Div_by_zero      \<comment> \<open>an integer division by zero\<close>
  | Int_overflow     \<comment> \<open>a signed \<open>int\<close> leaves its range\<close>
  | Diverges         \<comment> \<open>the code does not return\<close>
  | Exit_status int  \<comment> \<open>the process calls \<open>exit\<close>\<close>

type_synonym 'a outcome = "c_fault + 'a"

section \<open>Sequencing\<close>

definition rbind :: "'a outcome \<Rightarrow> ('a \<Rightarrow> 'b outcome) \<Rightarrow> 'b outcome" where
  "rbind m f = (case m of Inl e \<Rightarrow> Inl e | Inr x \<Rightarrow> f x)"

lemma rbind_simps [simp, outcome_simps]:
  "rbind (Inl e) f = Inl e"
  "rbind (Inr x) f = f x"
  by (simp_all add: rbind_def)

lemma rbind_eq_Inr [outcome_simps]:
  "rbind m f = Inr y \<longleftrightarrow> (\<exists>x. m = Inr x \<and> f x = Inr y)"
  by (cases m) simp_all

lemma rbind_assoc: "rbind (rbind m f) g = rbind m (\<lambda>x. rbind (f x) g)"
  by (cases m) simp_all

lemma rbind_InrE:
  assumes "rbind m f = Inr y"
  obtains x where "m = Inr x" and "f x = Inr y"
  using assms by (auto simp: rbind_eq_Inr)

lemma rbind_cong [fundef_cong]:
  "m = m' \<Longrightarrow> (\<And>x. m' = Inr x \<Longrightarrow> f x = f' x) \<Longrightarrow> rbind m f = rbind m' f'"
  by (cases m') simp_all

definition rassert :: "bool \<Rightarrow> unit outcome" where
  "rassert b = (if b then Inr () else Inl Assert_fail)"

lemma rassert_simps [simp, outcome_simps]:
  "rassert True = Inr ()"
  "rassert False = Inl Assert_fail"
  by (simp_all add: rassert_def)

lemma rassert_eq_Inr [outcome_simps]: "rassert b = Inr u \<longleftrightarrow> b"
  by (simp add: rassert_def)

section \<open>Arrays\<close>

definition rd :: "'a list \<Rightarrow> nat \<Rightarrow> 'a outcome" where
  "rd xs i = (if i < length xs then Inr (xs ! i) else Inl Out_of_bounds)"

definition wr :: "'a list \<Rightarrow> nat \<Rightarrow> 'a \<Rightarrow> 'a list outcome" where
  "wr xs i v = (if i < length xs then Inr (xs[i := v]) else Inl Out_of_bounds)"

lemma rd_in [simp, outcome_simps]: "i < length xs \<Longrightarrow> rd xs i = Inr (xs ! i)"
  by (simp add: rd_def)

lemma wr_in [simp, outcome_simps]: "i < length xs \<Longrightarrow> wr xs i v = Inr (xs[i := v])"
  by (simp add: wr_def)

lemma rd_eq_Inr [outcome_simps]: "rd xs i = Inr v \<longleftrightarrow> i < length xs \<and> v = xs ! i"
  by (auto simp: rd_def)

lemma wr_eq_Inr [outcome_simps]: "wr xs i v = Inr ys \<longleftrightarrow> i < length xs \<and> ys = xs[i := v]"
  by (auto simp: wr_def)

text \<open>A sum over a list of threads or tasks of which one changes.\<close>

lemma sum_list_at:
  assumes "i < length xs"
  shows "(\<Sum>x\<leftarrow>xs[i := y]. f x) + f (xs ! i) = (\<Sum>x\<leftarrow>xs. f x) + (f y :: nat)"
  using assms elem_le_sum_list [of i "map f xs"] by (simp add: map_update sum_list_update)

lemma set_update_at: "i < length ps \<Longrightarrow> q \<in> set ps \<Longrightarrow> q \<noteq> ps ! i \<Longrightarrow> q \<in> set (ps[i := x])"
  by (metis in_set_conv_nth length_list_update nth_list_update_neq)

section \<open>The type \<open>int\<close>\<close>

text \<open>
  A \<open>size_t\<close> or pointer difference stored in an \<open>int\<close> keeps its low 32 bits, read as a signed
  number; adding to an \<open>int\<close> outside its range is a fault.
\<close>

definition c_int :: "nat \<Rightarrow> int" where
  "c_int n = sint (of_nat n :: 32 word)"

definition int_add :: "int \<Rightarrow> int \<Rightarrow> int outcome" where
  "int_add x y =
     (if - 2147483648 \<le> x + y \<and> x + y \<le> 2147483647 then Inr (x + y) else Inl Int_overflow)"

lemma c_int_eq: "c_int n = signed_take_bit 31 (int n)"
  using sint_sbintrunc' [of "int n", where 'a = 32] by (simp add: c_int_def)

lemma c_int_small: "n < 2147483648 \<Longrightarrow> c_int n = int n"
  by (simp add: c_int_eq signed_take_bit_int_eq_self)

lemma c_int_large:
  assumes "2147483648 \<le> n" "n < 4294967296"
  shows "c_int n < 0"
proof -
  have "int n div 2147483648 = 1" using assms by linarith
  then have "bit (int n) 31" by (simp add: bit_iff_odd)
  then show ?thesis by (simp add: c_int_eq)
qed

lemma int_add_in [simp]: "- 2147483648 \<le> x + y \<Longrightarrow> x + y \<le> 2147483647 \<Longrightarrow> int_add x y = Inr (x + y)"
  by (simp add: int_add_def)

section \<open>Counted loops\<close>

fun rfold :: "('i \<Rightarrow> 's \<Rightarrow> 's outcome) \<Rightarrow> 'i list \<Rightarrow> 's \<Rightarrow> 's outcome" where
  "rfold f [] s = Inr s"
| "rfold f (i # is) s = rbind (f i s) (rfold f is)"

lemma rfold_append:
  "rfold f (is @ js) s = rbind (rfold f is s) (rfold f js)"
proof (induction "is" arbitrary: s)
  case (Cons i "is")
  then have "rfold f (is @ js) = (\<lambda>x. rbind (rfold f is x) (rfold f js))" by (simp add: fun_eq_iff)
  then show ?case by (simp add: rbind_assoc)
qed simp

text \<open>Partial correctness: what the body keeps, the loop keeps.\<close>

lemma rfold_preserves:
  assumes "rfold f is s = Inr s'" and "P s"
    and "\<And>i s s'. i \<in> set is \<Longrightarrow> P s \<Longrightarrow> f i s = Inr s' \<Longrightarrow> P s'"
  shows "P s'"
  using assms
proof (induction "is" arbitrary: s)
  case Nil
  then show ?case by simp
next
  case (Cons i "is")
  from Cons.prems(1) obtain t where t: "f i s = Inr t" "rfold f is t = Inr s'"
    by (auto elim: rbind_InrE)
  have "P t" by (rule Cons.prems(3) [OF _ Cons.prems(2) t(1)]) simp
  then show ?case
  proof (rule Cons.IH [OF t(2)])
    fix j u u'
    assume "j \<in> set is" and "P u" and "f j u = Inr u'"
    then show "P u'" by (intro Cons.prems(3) [of j u u']) auto
  qed
qed

text \<open>Total correctness of an upward loop, with an invariant that names the index.\<close>

lemma rfold_range_rule:
  assumes "a \<le> b" and "P a s"
    and "\<And>i s. a \<le> i \<Longrightarrow> i < b \<Longrightarrow> P i s \<Longrightarrow> \<exists>s'. f i s = Inr s' \<and> P (Suc i) s'"
  shows "\<exists>s'. rfold f [a..<b] s = Inr s' \<and> P b s'"
  using assms
proof (induction "b - a" arbitrary: a s)
  case 0
  then show ?case by simp
next
  case (Suc n)
  then have "a < b" by simp
  obtain t where t: "f a s = Inr t" "P (Suc a) t"
    using Suc.prems(2,3) \<open>a < b\<close> by blast
  have "\<exists>s'. rfold f [Suc a..<b] t = Inr s' \<and> P b s'"
    using Suc.hyps(2) \<open>a < b\<close> t(2) Suc.prems(3)
    by (intro Suc.hyps(1)) auto
  then show ?case using t(1) \<open>a < b\<close> by (simp add: upt_conv_Cons)
qed

text \<open>The downward loop \<open>for (i = b; i > a; i--)\<close> runs through \<open>rev [Suc a..<Suc b]\<close>.\<close>

definition down_to :: "nat \<Rightarrow> nat \<Rightarrow> nat list" where
  "down_to b a = rev [Suc a..<Suc b]"

lemma down_to_simps [simp]:
  "b \<le> a \<Longrightarrow> down_to b a = []"
  "a \<le> b \<Longrightarrow> down_to (Suc b) a = Suc b # down_to b a"
  by (simp_all add: down_to_def)

lemma rfold_down_rule:
  assumes "a \<le> b" and "P b s"
    and "\<And>i s. a \<le> i \<Longrightarrow> i < b \<Longrightarrow> P (Suc i) s \<Longrightarrow> \<exists>s'. f (Suc i) s = Inr s' \<and> P i s'"
  shows "\<exists>s'. rfold f (down_to b a) s = Inr s' \<and> P a s'"
  using assms
proof (induction "b - a" arbitrary: b s)
  case 0
  then show ?case by simp
next
  case (Suc n)
  then obtain c where c: "b = Suc c" "a \<le> c" by (cases b) auto
  obtain t where t: "f (Suc c) s = Inr t" "P c t"
    using Suc.prems(2,3) c by blast
  have "\<exists>s'. rfold f (down_to c a) t = Inr s' \<and> P a s'"
    using Suc.hyps(2) c t(2) Suc.prems(3) by (intro Suc.hyps(1)) auto
  then show ?case using t(1) c by simp
qed

section \<open>Lists\<close>

lemma take_list_update_snoc [simp]:
  "i < length xs \<Longrightarrow> take (Suc i) (xs[i := v]) = take i xs @ [v]"
  by (simp add: take_Suc_conv_app_nth)

lemma take_list_update_ge [simp]:
  "n \<le> i \<Longrightarrow> take n (xs[i := v]) = take n xs"
  by simp

lemma rd_Inl: "rd xs i = Inl e \<longleftrightarrow> length xs \<le> i \<and> e = Out_of_bounds"
  by (auto simp: rd_def)

end
