(* ===== verification/Interfaces.thy ===== *)
theory Interfaces
  imports Prelude
begin

text \<open>
  The contracts between components, as locales: a growable sequence its client appends to (the
  vector of strings that \<open>sstring_split\<close> fills), a first-in first-out queue, and a state
  machine with an invariant. Each is interpreted on the model of the component that provides it.
\<close>

section \<open>Growable sequences\<close>

text \<open>
  \<open>push x s\<close> appends; \<open>view\<close> is what a reader of the sequence sees, \<open>img\<close> what he sees of a pushed
  element, \<open>room\<close> how many more elements surely fit.
\<close>

locale seq_container =
  fixes push :: "'x \<Rightarrow> 's \<Rightarrow> 's outcome"
    and view :: "'s \<Rightarrow> 'y list"
    and img :: "'x \<Rightarrow> 'y"
    and room :: "'s \<Rightarrow> nat"
    and ok :: "'s \<Rightarrow> bool"
  assumes push_ok: "ok s \<Longrightarrow> 0 < room s \<Longrightarrow>
    \<exists>s'. push x s = Inr s' \<and> ok s' \<and> view s' = view s @ [img x] \<and> room s' = room s - 1"
begin

lemma push_all:
  assumes "ok s" "length xs \<le> room s"
  shows "\<exists>s'. rfold push xs s = Inr s' \<and> ok s' \<and> view s' = view s @ map img xs \<and>
           room s' = room s - length xs"
  using assms
proof (induction xs arbitrary: s)
  case (Cons x xs)
  obtain s1 where s1: "push x s = Inr s1" "ok s1" "view s1 = view s @ [img x]" "room s1 = room s - 1"
    using push_ok [of s x] Cons.prems by auto
  then show ?case using Cons.IH [of s1] Cons.prems(2) by fastforce
qed simp

end

section \<open>First-in first-out queues\<close>

text \<open>
  \<open>enq a d\<close> stores \<open>d\<close> in a node at the address \<open>a\<close> that the allocator returned, which \<open>fresh\<close> says
  is not in use.
\<close>

locale fifo_queue =
  fixes enq :: "'a \<Rightarrow> 'd \<Rightarrow> 'q \<Rightarrow> 'q outcome"
    and deq :: "'q \<Rightarrow> ('d \<times> 'q) outcome"
    and view :: "'q \<Rightarrow> 'd list"
    and ok :: "'q \<Rightarrow> bool"
    and fresh :: "'a \<Rightarrow> 'q \<Rightarrow> bool"
  assumes enq_ok: "ok q \<Longrightarrow> fresh a q \<Longrightarrow> \<exists>q'. enq a d q = Inr q' \<and> ok q' \<and> view q' = view q @ [d]"
    and deq_ok: "ok q \<Longrightarrow> view q = d # ds \<Longrightarrow> \<exists>q'. deq q = Inr (d, q') \<and> ok q' \<and> view q' = ds"
begin

text \<open>Draining the queue takes the elements out in the order they are in.\<close>

fun drain :: "nat \<Rightarrow> 'q \<Rightarrow> ('d list \<times> 'q) outcome" where
  "drain 0 q = Inr ([], q)"
| "drain (Suc n) q = rbind (deq q) (\<lambda>(d, q). rbind (drain n q) (\<lambda>(ds, q). Inr (d # ds, q)))"

lemma drain_view:
  "ok q \<Longrightarrow> view q = ds \<Longrightarrow> \<exists>q'. drain (length ds) q = Inr (ds, q') \<and> ok q' \<and> view q' = []"
proof (induction ds arbitrary: q)
  case (Cons d ds)
  then obtain q1 where "deq q = Inr (d, q1)" "ok q1" "view q1 = ds" using deq_ok by blast
  then show ?case using Cons.IH [of q1] by auto
qed simp

lemma enq_then_drain:
  assumes "ok q" "fresh a q"
  shows "\<exists>q1 q2. enq a d q = Inr q1 \<and> drain (Suc (length (view q))) q1 = Inr (view q @ [d], q2) \<and> view q2 = []"
proof -
  obtain q1 where q1: "enq a d q = Inr q1" "ok q1" "view q1 = view q @ [d]" using enq_ok [OF assms] by blast
  then show ?thesis using drain_view [OF q1(2,3)] by auto
qed

end

section \<open>State machines\<close>

text \<open>An invariant of the initial states that every step keeps holds in every reachable state.\<close>

locale state_machine =
  fixes init :: "'s \<Rightarrow> bool"
    and step :: "'s \<Rightarrow> 's \<Rightarrow> bool"
    and inv :: "'s \<Rightarrow> bool"
  assumes inv_init: "init s \<Longrightarrow> inv s"
    and inv_step: "inv s \<Longrightarrow> step s t \<Longrightarrow> inv t"
begin

lemma inv_steps: "step\<^sup>*\<^sup>* s t \<Longrightarrow> inv s \<Longrightarrow> inv t"
  by (induction rule: rtranclp_induct) (auto intro: inv_step)

lemma reachable_inv: "init s \<Longrightarrow> step\<^sup>*\<^sup>* s t \<Longrightarrow> inv t"
  by (blast intro: inv_steps inv_init)

end

end
