(* ===== verification/Vector_Impl.thy ===== *)
theory Vector_Impl
  imports Prelude Interfaces
begin

text \<open>
  The dynamic array of \<open>vector/vector.c\<close>.

  The record has the fields of \<open>struct vector\<close>: the three user callbacks, the array of element
  pointers (\<open>None\<close> is the null pointer), the size and the capacity. The callbacks read and change
  a world of type \<open>'w\<close>, so their side effects (allocation, destruction) are threaded through every
  operation in the order of the source. \<open>GROWTH_FACTOR\<close>, \<open>INITIAL_CAPACITY\<close> (from the header,
  which the repository does not hold) and the C heap (\<open>malloc\<close> of a number of bytes, \<open>free\<close> of the
  block of that many bytes) are the fields of the parameter \<open>vec_env\<close>. Sizes are natural numbers,
  with the wrap-around of \<open>size_t\<close> written out where the code can reach it. An operation takes the
  struct its \<open>this\<close> points to; a null \<open>this\<close> stops at the first \<open>assert\<close> of each operation.
\<close>

section \<open>State and callbacks\<close>

record ('a, 'w) vector =
  copy_constructor :: "'a option \<Rightarrow> 'w \<Rightarrow> 'a option \<times> 'w"
  destructor :: "'a option \<Rightarrow> 'w \<Rightarrow> 'w"
  default_constructor :: "'w \<Rightarrow> 'a option \<times> 'w"
  array :: "'a option list"
  vsize :: nat
  capacity :: nat

record 'w vec_env =
  growth_factor :: nat
  initial_capacity :: nat
  vmalloc :: "nat \<Rightarrow> 'w \<Rightarrow> bool \<times> 'w"
  vfree :: "nat \<Rightarrow> 'w \<Rightarrow> 'w"

definition sizeof_vector :: nat where "sizeof_vector = 48"
definition sizeof_ptr :: nat where "sizeof_ptr = 8"

text \<open>\<open>malloc(sizeof(void*) * n)\<close>: the product wraps, and the block has that many bytes' slots.\<close>

definition malloc_slots :: "'w vec_env \<Rightarrow> nat \<Rightarrow> 'w \<Rightarrow> 'a option list option \<times> 'w" where
  "malloc_slots env n w =
     (let bytes = (sizeof_ptr * n) mod 2 ^ 64; (ok, w') = vmalloc env bytes w
      in (if ok then Some (replicate (bytes div sizeof_ptr) None) else None, w'))"

section \<open>Operations\<close>

partial_function (option) grow_from :: "nat \<Rightarrow> nat \<Rightarrow> nat \<Rightarrow> nat option" where
  "grow_from gf target c =
     (if c < target then grow_from gf target ((c * gf) mod 2 ^ 64) else Some c)"

definition get_new_capacity :: "nat \<Rightarrow> nat \<Rightarrow> nat option" where
  "get_new_capacity gf target = grow_from gf target 1"

text \<open>The statements the loop bodies are made of.\<close>

definition destroy_slot :: "nat \<Rightarrow> ('a, 'w) vector \<times> 'w \<Rightarrow> (('a, 'w) vector \<times> 'w) outcome" where
  "destroy_slot i s = (case s of (v, w) \<Rightarrow>
     rbind (rd (array v) i) (\<lambda>x. Inr (v, destructor v x w)))"

definition null_slot :: "nat \<Rightarrow> ('a, 'w) vector \<times> 'w \<Rightarrow> (('a, 'w) vector \<times> 'w) outcome" where
  "null_slot i s = (case s of (v, w) \<Rightarrow>
     rbind (wr (array v) i None) (\<lambda>xs. Inr (v\<lparr>array := xs\<rparr>, w)))"

definition default_slot :: "nat \<Rightarrow> ('a, 'w) vector \<times> 'w \<Rightarrow> (('a, 'w) vector \<times> 'w) outcome" where
  "default_slot i s = (case s of (v, w) \<Rightarrow> (case default_constructor v w of (x, w') \<Rightarrow>
     rbind (wr (array v) i x) (\<lambda>xs. Inr (v\<lparr>array := xs\<rparr>, w'))))"

definition copy_slot :: "nat \<Rightarrow> 'a option \<Rightarrow> ('a, 'w) vector \<times> 'w \<Rightarrow> (('a, 'w) vector \<times> 'w) outcome" where
  "copy_slot i x s = (case s of (v, w) \<Rightarrow> (case copy_constructor v x w of (y, w') \<Rightarrow>
     rbind (wr (array v) i y) (\<lambda>xs. Inr (v\<lparr>array := xs\<rparr>, w'))))"

definition set_vsize :: "nat \<Rightarrow> ('a, 'w) vector \<times> 'w \<Rightarrow> (('a, 'w) vector \<times> 'w) outcome" where
  "set_vsize n s = (case s of (v, w) \<Rightarrow> Inr (v\<lparr>vsize := n\<rparr>, w))"

definition vector_create ::
  "'w vec_env \<Rightarrow> ('a option \<Rightarrow> 'w \<Rightarrow> 'a option \<times> 'w) \<Rightarrow> ('a option \<Rightarrow> 'w \<Rightarrow> 'w) \<Rightarrow>
   ('w \<Rightarrow> 'a option \<times> 'w) \<Rightarrow> 'w \<Rightarrow> (('a, 'w) vector option \<times> 'w) outcome" where
  "vector_create env cp dt df w =
     (case vmalloc env sizeof_vector w of (ok, w1) \<Rightarrow>
      if \<not> ok then Inr (None, w1)
      else (case malloc_slots env (initial_capacity env) w1 of
              (None, w2) \<Rightarrow> Inr (None, vfree env sizeof_vector w2)
            | (Some xs, w2) \<Rightarrow>
                rbind (rfold default_slot [0..<initial_capacity env]
                        (\<lparr>copy_constructor = cp, destructor = dt, default_constructor = df,
                          array = xs, vsize = 0, capacity = initial_capacity env\<rparr>, w2))
                  (\<lambda>(v, w3). Inr (Some v, w3))))"

definition vector_destroy :: "'w vec_env \<Rightarrow> ('a, 'w) vector \<times> 'w \<Rightarrow> 'w outcome" where
  "vector_destroy env s =
     rbind (rfold (\<lambda>i s. rbind (destroy_slot i s) (null_slot i)) [0..<vsize (fst s)] s)
       (\<lambda>(v, w). Inr (vfree env sizeof_vector (vfree env (sizeof_ptr * length (array v)) w)))"

definition vector_size :: "('a, 'w) vector \<Rightarrow> nat" where
  "vector_size v = vsize v"

definition vector_capacity :: "('a, 'w) vector \<Rightarrow> nat" where
  "vector_capacity v = capacity v"

definition vector_empty :: "('a, 'w) vector \<Rightarrow> bool" where
  "vector_empty v = (vsize v = 0)"

definition vector_reserve ::
  "'w vec_env \<Rightarrow> nat \<Rightarrow> ('a, 'w) vector \<times> 'w \<Rightarrow> (('a, 'w) vector \<times> 'w) outcome" where
  "vector_reserve env n s = (case s of (v, w) \<Rightarrow>
     if n \<le> capacity v then Inr (v, w)
     else (case get_new_capacity (growth_factor env) n of
        None \<Rightarrow> Inl Diverges
      | Some nc \<Rightarrow>
          (case malloc_slots env nc w of
             (None, w') \<Rightarrow> Inr (v, w')
           | (Some new_array, w') \<Rightarrow>
               rbind (rfold (\<lambda>i na. rbind (rd (array v) i) (wr na i)) [0..<vsize v] new_array)
                (\<lambda>na. rbind (rfold default_slot [vsize v..<nc] (v\<lparr>array := na\<rparr>, w'))
                  (\<lambda>(v', w''). Inr (v'\<lparr>capacity := nc\<rparr>,
                                    vfree env (sizeof_ptr * length (array v)) w''))))))"

definition vector_resize ::
  "'w vec_env \<Rightarrow> nat \<Rightarrow> ('a, 'w) vector \<times> 'w \<Rightarrow> (('a, 'w) vector \<times> 'w) outcome" where
  "vector_resize env n s =
     (let sz = vsize (fst s) in
      if n < sz then
        rbind (rfold (\<lambda>i s. rbind (destroy_slot i s) (default_slot i)) [n..<sz] s) (set_vsize n)
      else if n > sz then
        rbind (if n > capacity (fst s) then vector_reserve env n s else Inr s)
          (\<lambda>s'. rbind (rfold default_slot [vsize (fst s')..<n] s') (set_vsize n))
      else Inr s)"

definition vector_at :: "('a, 'w) vector \<Rightarrow> nat \<Rightarrow> nat outcome" where
  "vector_at v position = rbind (rassert (position < vsize v)) (\<lambda>_. Inr position)"

definition vector_set ::
  "nat \<Rightarrow> 'a option \<Rightarrow> ('a, 'w) vector \<times> 'w \<Rightarrow> (('a, 'w) vector \<times> 'w) outcome" where
  "vector_set position x s = rbind (destroy_slot position s) (copy_slot position x)"

definition vector_get :: "('a, 'w) vector \<Rightarrow> nat \<Rightarrow> 'a option outcome" where
  "vector_get v position =
     rbind (rassert (position < capacity v)) (\<lambda>_. rd (array v) position)"

definition vector_front :: "('a, 'w) vector \<Rightarrow> 'a option outcome" where
  "vector_front v = rbind (rassert (vsize v > 0)) (\<lambda>_. rd (array v) 0)"

definition vector_back :: "('a, 'w) vector \<Rightarrow> 'a option outcome" where
  "vector_back v = rbind (rassert (vsize v > 0)) (\<lambda>_. rd (array v) (vsize v - 1))"

definition vector_push_back ::
  "'w vec_env \<Rightarrow> 'a option \<Rightarrow> ('a, 'w) vector \<times> 'w \<Rightarrow> (('a, 'w) vector \<times> 'w) outcome" where
  "vector_push_back env x s =
     rbind (if vsize (fst s) = capacity (fst s)
            then vector_reserve env (vsize (fst s) + 1) s else Inr s)
       (\<lambda>s. rbind (copy_slot (vsize (fst s)) x s) (set_vsize (vsize (fst s) + 1)))"

text \<open>\<open>this->size - 1\<close> on \<open>size_t\<close>.\<close>

definition pred64 :: "nat \<Rightarrow> nat" where
  "pred64 n = (n + (2 ^ 64 - 1)) mod 2 ^ 64"

definition vector_pop_back :: "('a, 'w) vector \<times> 'w \<Rightarrow> (('a, 'w) vector \<times> 'w) outcome" where
  "vector_pop_back s =
     (let i = pred64 (vsize (fst s)) in
      rbind (rbind (destroy_slot i s) (null_slot i)) (set_vsize i))"

definition vector_insert ::
  "'w vec_env \<Rightarrow> nat \<Rightarrow> 'a option \<Rightarrow> ('a, 'w) vector \<times> 'w \<Rightarrow> (('a, 'w) vector \<times> 'w) outcome" where
  "vector_insert env position x s =
     rbind (if vsize (fst s) = capacity (fst s)
            then vector_reserve env (vsize (fst s) + 1) s else Inr s)
       (\<lambda>s. rbind (rfold (\<lambda>i s. rbind (destroy_slot i s)
                      (\<lambda>s. rbind (rd (array (fst s)) (i - 1)) (\<lambda>y. copy_slot i y s)))
                    (down_to (vsize (fst s)) position) s)
         (\<lambda>s. rbind (copy_slot position x s) (set_vsize (vsize (fst s) + 1))))"

definition vector_erase ::
  "nat \<Rightarrow> ('a, 'w) vector \<times> 'w \<Rightarrow> (('a, 'w) vector \<times> 'w) outcome" where
  "vector_erase position s =
     rbind (rassert (position < vector_size (fst s)))
      (\<lambda>_. rbind (rfold (\<lambda>i s. rbind (destroy_slot i s)
                      (\<lambda>s. rbind (rd (array (fst s)) (i + 1)) (\<lambda>y. copy_slot i y s)))
                    [position..<vsize (fst s) - 1] s)
        (\<lambda>s. rbind (destroy_slot (vsize (fst s) - 1) s) (set_vsize (vsize (fst s) - 1))))"

definition vector_clear :: "('a, 'w) vector \<times> 'w \<Rightarrow> (('a, 'w) vector \<times> 'w) outcome" where
  "vector_clear s =
     rbind (rfold (\<lambda>i s. rbind (destroy_slot i s) (null_slot i)) [0..<vsize (fst s)] s)
       (set_vsize 0)"

section \<open>Capacity growth\<close>

text \<open>While the product does not wrap, the loop multiplies by the growth factor until it arrives.\<close>

lemma grow_from_unfold:
  "grow_from gf target c = (if c < target then grow_from gf target ((c * gf) mod 2 ^ 64) else Some c)"
  by (simp add: grow_from.simps)

lemma grow_from_power:
  assumes "2 \<le> gf" "0 < target" "target * gf \<le> 2 ^ 64"
    and "\<And>j. j < k \<Longrightarrow> gf ^ j < target"
  shows "\<exists>m. grow_from gf target (gf ^ k) = Some (gf ^ m) \<and> target \<le> gf ^ m \<and> (\<forall>j < m. gf ^ j < target)"
  using assms(4)
proof (induction "target - gf ^ k" arbitrary: k rule: less_induct)
  case less
  show ?case
  proof (cases "gf ^ k < target")
    case True
    then have lt: "gf ^ Suc k < 2 ^ 64"
    proof -
      have "gf ^ Suc k < target * gf" using True assms(1) by (simp add: mult.commute)
      then show ?thesis using assms(3) by (rule less_le_trans)
    qed
    have "gf ^ k < gf ^ Suc k" using assms(1) by simp
    then have dec: "target - gf ^ Suc k < target - gf ^ k" using True by linarith
    have "grow_from gf target (gf ^ k) = grow_from gf target (gf ^ Suc k)"
      using True lt by (subst grow_from_unfold) (simp add: mult.commute)
    moreover have "\<And>j. j < Suc k \<Longrightarrow> gf ^ j < target"
      using less.prems True less_Suc_eq by auto
    ultimately show ?thesis using less.hyps [OF dec] by simp
  next
    case False
    then show ?thesis using less.prems by (subst grow_from_unfold) auto
  qed
qed

lemma get_new_capacity_power:
  assumes "2 \<le> gf" "0 < target" "target * gf \<le> 2 ^ 64"
  shows "\<exists>m. get_new_capacity gf target = Some (gf ^ m) \<and> target \<le> gf ^ m \<and> (\<forall>j < m. gf ^ j < target)"
  using grow_from_power [OF assms, of 0] by (simp add: get_new_capacity_def)

text \<open>Once it wraps, a growth factor of two runs through the powers of two to zero and stays there.\<close>

lemma grow_from_never:
  assumes "\<And>c. c \<in> S \<Longrightarrow> c < target \<and> (c * gf) mod 2 ^ 64 \<in> S" and "c \<in> S"
  shows "grow_from gf target c = None"
proof (rule ccontr)
  assume "grow_from gf target c \<noteq> None"
  then obtain r where r: "grow_from gf target c = Some r" by blast
  have "target = target \<longrightarrow> gf = gf \<longrightarrow> c \<notin> S"
  proof (rule grow_from.raw_induct [where P = "\<lambda>gf' target' c' r. target' = target \<longrightarrow> gf' = gf \<longrightarrow> c' \<notin> S", OF _ r])
    fix f gf' target' c' r'
    assume IH: "\<And>gf' target' c' r. f gf' target' c' = Some r \<Longrightarrow> target' = target \<longrightarrow> gf' = gf \<longrightarrow> c' \<notin> S"
      and eq: "(if c' < target' then f gf' target' ((c' * gf') mod 2 ^ 64) else Some c') = Some r'"
    show "target' = target \<longrightarrow> gf' = gf \<longrightarrow> c' \<notin> S"
      using IH [of gf' target' "(c' * gf') mod 2 ^ 64" r'] eq assms(1) [of c'] by (auto split: if_splits)
  qed
  with assms(2) show False by simp
qed

lemma get_new_capacity_doubling_never:
  assumes "2 ^ 63 < target" "target < 2 ^ 64"
  shows "get_new_capacity 2 target = None"
proof -
  let ?S = "insert 0 ((\<lambda>k. 2 ^ k) ` {..63})"
  have "\<And>c. c \<in> ?S \<Longrightarrow> c < target \<and> (c * 2) mod 2 ^ 64 \<in> ?S"
  proof -
    fix c :: nat assume "c \<in> ?S"
    then consider "c = 0" | k where "c = 2 ^ k" "k < 63" | "c = 2 ^ 63"
      by (auto simp: le_less)
    then show "c < target \<and> (c * 2) mod 2 ^ 64 \<in> ?S"
    proof cases
      case 1
      then show ?thesis using assms by simp
    next
      case 2
      have "(2::nat) ^ k < 2 ^ 63" using 2(2) by (intro power_strict_increasing) simp_all
      moreover have "c * 2 = 2 ^ Suc k" "(2::nat) ^ Suc k < 2 ^ 64"
        using 2 calculation by simp_all
      ultimately show ?thesis using assms 2 by (auto intro!: image_eqI [of _ _ "Suc k"])
    next
      case 3
      then show ?thesis using assms by simp
    qed
  qed
  moreover have "1 \<in> ?S" by (auto intro!: image_eqI [of _ _ 0])
  ultimately show ?thesis unfolding get_new_capacity_def by (rule grow_from_never)
qed

section \<open>Well-formedness\<close>

definition vec_ok :: "('a, 'w) vector \<Rightarrow> bool" where
  "vec_ok v \<longleftrightarrow> vsize v \<le> capacity v \<and> length (array v) = capacity v \<and> sizeof_ptr * capacity v < 2 ^ 64"

definition contents :: "('a, 'w) vector \<Rightarrow> 'a option list" where
  "contents v = take (vsize v) (array v)"

text \<open>Statements inside a loop keep everything but the slots: the shape of the vector.\<close>

definition same_shape :: "('a, 'w) vector \<Rightarrow> ('a, 'w) vector \<Rightarrow> bool" where
  "same_shape v v' \<longleftrightarrow> length (array v') = length (array v) \<and> v' = v\<lparr>array := array v'\<rparr>"

lemma same_shape_refl [simp, intro]: "same_shape v v"
  by (simp add: same_shape_def)

lemma same_shapeD:
  assumes "same_shape v v'"
  shows "length (array v') = length (array v)" "vsize v' = vsize v" "capacity v' = capacity v"
    "copy_constructor v' = copy_constructor v" "destructor v' = destructor v"
    "default_constructor v' = default_constructor v"
  using assms unfolding same_shape_def by (metis vector.select_convs vector.update_convs vector.surjective)+

lemma same_shape_trans: "same_shape v v' \<Longrightarrow> same_shape v' v'' \<Longrightarrow> same_shape v v''"
  unfolding same_shape_def by (cases v, cases v', cases v'') simp

lemma slot_shape:
  "destroy_slot i s = Inr s' \<Longrightarrow> same_shape (fst s) (fst s')"
  "null_slot i s = Inr s' \<Longrightarrow> same_shape (fst s) (fst s')"
  "default_slot i s = Inr s' \<Longrightarrow> same_shape (fst s) (fst s')"
  "copy_slot i x s = Inr s' \<Longrightarrow> same_shape (fst s) (fst s')"
  by (auto simp: destroy_slot_def null_slot_def default_slot_def copy_slot_def same_shape_def
        outcome_simps split: prod.splits)

lemma rfold_shape:
  assumes "rfold f is s = Inr s'"
    and "\<And>i s s'. f i s = Inr s' \<Longrightarrow> same_shape (fst s) (fst s')"
  shows "same_shape (fst s) (fst s')"
  using assms(1) by (rule rfold_preserves) (auto intro: same_shape_trans assms(2))

lemma vec_ok_shape: "same_shape v v' \<Longrightarrow> vec_ok v \<Longrightarrow> vec_ok v'"
  using same_shapeD(1-3) [of v v'] by (simp add: vec_ok_def)

section \<open>What each operation does\<close>

text \<open>
  A copy constructor is faithful to \<open>val\<close> when the copy has the same value as the original;
  \<open>val\<close> is what the user of the vector sees in an element (for shallow vectors it is the identity).
\<close>

definition faithful_copy :: "('a option \<Rightarrow> 'b) \<Rightarrow> ('a, 'w) vector \<Rightarrow> bool" where
  "faithful_copy val v \<longleftrightarrow> (\<forall>x w. val (fst (copy_constructor v x w)) = val x)"

text \<open>The vector can hold \<open>n\<close> elements: its capacity suffices, or it can be enlarged.\<close>

definition can_hold :: "'w vec_env \<Rightarrow> nat \<Rightarrow> ('a, 'w) vector \<times> 'w \<Rightarrow> bool" where
  "can_hold env n s \<longleftrightarrow> n \<le> capacity (fst s) \<or>
     (case get_new_capacity (growth_factor env) n of
        None \<Rightarrow> False
      | Some nc \<Rightarrow> n \<le> nc \<and> sizeof_ptr * nc < 2 ^ 64 \<and> fst (vmalloc env (sizeof_ptr * nc) (snd s)))"

lemma slot_total:
  assumes "i < length (array v)"
  shows "destroy_slot i (v, w) = Inr (v, destructor v (array v ! i) w)"
    "null_slot i (v, w) = Inr (v\<lparr>array := (array v)[i := None]\<rparr>, w)"
    "default_slot i (v, w) =
       Inr (v\<lparr>array := (array v)[i := fst (default_constructor v w)]\<rparr>, snd (default_constructor v w))"
    "copy_slot i x (v, w) =
       Inr (v\<lparr>array := (array v)[i := fst (copy_constructor v x w)]\<rparr>, snd (copy_constructor v x w))"
  using assms
  by (simp_all add: destroy_slot_def null_slot_def default_slot_def copy_slot_def split: prod.split)

lemma copy_loop:
  assumes "n \<le> length xs" "n \<le> length ys"
  shows "rfold (\<lambda>i na. rbind (rd xs i) (wr na i)) [0..<n] ys = Inr (take n xs @ drop n ys)"
  using assms
proof (induction n)
  case (Suc n)
  have "(take n xs @ drop n ys)[n := xs ! n] = take (Suc n) xs @ drop (Suc n) ys"
    using Suc.prems by (simp add: list_update_append take_Suc_conv_app_nth Cons_nth_drop_Suc [symmetric])
  then show ?case using Suc by (simp add: rfold_append)
qed simp

lemma same_shape_upd:
  "same_shape v u \<Longrightarrow> same_shape v (u\<lparr>array := (array u)[i := x]\<rparr>)"
  by (cases v, cases u) (simp add: same_shape_def)

lemma default_loop:
  assumes "a \<le> b" "b \<le> length (array v)"
  shows "\<exists>v' w'. rfold default_slot [a..<b] (v, w) = Inr (v', w') \<and> same_shape v v' \<and>
           take a (array v') = take a (array v)"
proof -
  have "\<exists>s'. rfold default_slot [a..<b] (v, w) = Inr s' \<and> same_shape v (fst s') \<and>
          take a (array (fst s')) = take a (array v)"
  proof (rule rfold_range_rule [OF assms(1), where P = "\<lambda>i s. same_shape v (fst s) \<and>
          take a (array (fst s)) = take a (array v)"])
    fix i and s :: "('a, 'b) vector \<times> 'b"
    assume i: "a \<le> i" "i < b" and P: "same_shape v (fst s) \<and> take a (array (fst s)) = take a (array v)"
    obtain u x where s: "s = (u, x)" by (cases s)
    have "i < length (array u)" using i P assms(2) same_shapeD(1) [of v u] s by simp
    then show "\<exists>s'. default_slot i s = Inr s' \<and> same_shape v (fst s') \<and>
          take a (array (fst s')) = take a (array v)"
      using P i s by (auto simp: slot_total same_shape_upd)
  qed simp
  then show ?thesis by auto
qed

lemma vector_reserve_ok:
  assumes "vec_ok v" "can_hold env n (v, w)"
  shows "\<exists>a c w'. vector_reserve env n (v, w) = Inr (v\<lparr>array := a, capacity := c\<rparr>, w') \<and>
           vec_ok (v\<lparr>array := a, capacity := c\<rparr>) \<and> n \<le> c \<and> capacity v \<le> c \<and>
           take (vsize v) a = contents v"
proof (cases "n \<le> capacity v")
  case True
  then show ?thesis using assms
    by (auto simp: vector_reserve_def contents_def intro!: exI [of _ "array v"] exI [of _ "capacity v"])
next
  case False
  with assms(2) obtain nc where nc: "get_new_capacity (growth_factor env) n = Some nc" "n \<le> nc"
      "sizeof_ptr * nc < 2 ^ 64" "fst (vmalloc env (sizeof_ptr * nc) w)"
    by (auto simp: can_hold_def split: option.splits)
  define w1 where "w1 = snd (vmalloc env (sizeof_ptr * nc) w)"
  have alloc: "malloc_slots env nc w = (Some (replicate nc (None :: 'a option)), w1)"
    using nc(3,4) by (cases "vmalloc env (sizeof_ptr * nc) w")
      (simp add: malloc_slots_def w1_def sizeof_ptr_def Let_def)
  have len: "vsize v \<le> length (array v)" "length (array v) = capacity v" "vsize v \<le> nc"
    using assms(1) False nc(2) by (simp_all add: vec_ok_def)
  define na where "na = take (vsize v) (array v) @ drop (vsize v) (replicate nc (None :: 'a option))"
  have na: "length na = nc" using len by (simp add: na_def)
  obtain v' w' where d: "rfold default_slot [vsize v..<nc] (v\<lparr>array := na\<rparr>, w1) = Inr (v', w')"
      "same_shape (v\<lparr>array := na\<rparr>) v'" "take (vsize v) (array v') = take (vsize v) na"
    using default_loop [of "vsize v" nc "v\<lparr>array := na\<rparr>" w1] len(3) na by auto
  have v': "v' = v\<lparr>array := array v'\<rparr>" "length (array v') = nc"
    using d(2) na unfolding same_shape_def by auto
  have run: "vector_reserve env n (v, w) =
      Inr (v\<lparr>array := array v', capacity := nc\<rparr>, vfree env (sizeof_ptr * length (array v)) w')"
    using False nc(1) alloc d(1) [unfolded na_def] copy_loop [of "vsize v" "array v" "replicate nc None"] len v'(1)
    by (simp add: vector_reserve_def)
  have "vec_ok (v\<lparr>array := array v', capacity := nc\<rparr>)"
    using assms(1) v'(2) len nc(3) by (simp add: vec_ok_def)
  moreover have "take (vsize v) (array v') = contents v"
    using d(3) len by (simp add: na_def contents_def)
  ultimately show ?thesis using run nc(2) False
    by (intro exI [of _ "array v'"] exI [of _ nc] exI [of _ "vfree env (sizeof_ptr * length (array v)) w'"]) simp
qed

text \<open>The common start of \<open>vector_push_back\<close> and \<open>vector_insert\<close>.\<close>

lemma make_room:
  assumes "vec_ok v" "can_hold env (vsize v + 1) (v, w)"
  shows "\<exists>a c w'. (if vsize v = capacity v then vector_reserve env (vsize v + 1) (v, w) else Inr (v, w))
             = Inr (v\<lparr>array := a, capacity := c\<rparr>, w') \<and>
           vec_ok (v\<lparr>array := a, capacity := c\<rparr>) \<and> vsize v < length a \<and>
           take (vsize v) a = contents v"
proof (cases "vsize v = capacity v")
  case True
  then show ?thesis using vector_reserve_ok [OF assms] by (auto simp: vec_ok_def)
next
  case False
  then show ?thesis using assms(1)
    by (auto simp: vec_ok_def contents_def intro!: exI [of _ "array v"] exI [of _ "capacity v"])
qed

lemma vector_push_back_ok:
  assumes "vec_ok v" "can_hold env (vsize v + 1) (v, w)"
  shows "\<exists>a c y w' w''. vector_push_back env x (v, w) =
             Inr (v\<lparr>array := a, vsize := vsize v + 1, capacity := c\<rparr>, w'') \<and>
           vec_ok (v\<lparr>array := a, vsize := vsize v + 1, capacity := c\<rparr>) \<and>
           take (vsize v + 1) a = contents v @ [y] \<and> copy_constructor v x w' = (y, w'')"
proof -
  obtain a c w' where r: "(if vsize v = capacity v then vector_reserve env (vsize v + 1) (v, w) else Inr (v, w))
             = Inr (v\<lparr>array := a, capacity := c\<rparr>, w')" "vec_ok (v\<lparr>array := a, capacity := c\<rparr>)"
      "vsize v < length a" "take (vsize v) a = contents v"
    using make_room [OF assms] by blast
  obtain y w'' where y: "copy_constructor v x w' = (y, w'')" by fastforce
  have "vector_push_back env x (v, w) =
      Inr (v\<lparr>array := a[vsize v := y], vsize := vsize v + 1, capacity := c\<rparr>, w'')"
    unfolding vector_push_back_def fst_conv r(1) using r(3) y by (simp add: slot_total set_vsize_def)
  moreover have "vec_ok (v\<lparr>array := a[vsize v := y], vsize := vsize v + 1, capacity := c\<rparr>)"
    using r(2,3) by (simp add: vec_ok_def)
  moreover have "take (vsize v + 1) (a[vsize v := y]) = contents v @ [y]"
    using r(3,4) by simp
  ultimately show ?thesis using y by blast
qed

text \<open>
  The two shifting loops, slot by slot. Below, \<open>val\<close> of an index outside the region that was
  shifted is unchanged, inside it is the value of the neighbour the loop copied from.
\<close>

lemma insert_loop:
  assumes ok: "faithful_copy val v" "vsize v < length (array v)" "p \<le> vsize v"
  shows "\<exists>v' w'. rfold (\<lambda>i s. rbind (destroy_slot i s)
             (\<lambda>s. rbind (rd (array (fst s)) (i - 1)) (\<lambda>y. copy_slot i y s)))
           (down_to (vsize v) p) (v, w) = Inr (v', w') \<and> same_shape v v' \<and>
           (\<forall>j \<le> p. array v' ! j = array v ! j) \<and>
           (\<forall>j. p < j \<and> j \<le> vsize v \<longrightarrow> val (array v' ! j) = val (array v ! (j - 1)))"
proof -
  let ?f = "\<lambda>i s. rbind (destroy_slot i s)
             (\<lambda>s. rbind (rd (array (fst s)) (i - 1)) (\<lambda>y. copy_slot i y s))"
  let ?P = "\<lambda>i s. same_shape v (fst s) \<and> (\<forall>j \<le> i. array (fst s) ! j = array v ! j) \<and>
           (\<forall>j. i < j \<and> j \<le> vsize v \<longrightarrow> val (array (fst s) ! j) = val (array v ! (j - 1)))"
  have "\<exists>s'. rfold ?f (down_to (vsize v) p) (v, w) = Inr s' \<and> ?P p s'"
  proof (rule rfold_down_rule [OF ok(3), where P = ?P])
    fix i and s :: "('a, 'c) vector \<times> 'c"
    assume i: "p \<le> i" "i < vsize v" and P: "?P (Suc i) s"
    obtain u x where s: "s = (u, x)" by (cases s)
    have len: "Suc i < length (array u)" "length (array u) = length (array v)"
      using P s i ok(2) same_shapeD(1) [of v u] by simp_all
    have val: "\<And>z x. val (fst (copy_constructor u z x)) = val z"
      using ok(1) same_shapeD(4) [of v u] P s by (simp add: faithful_copy_def)
    show "\<exists>s'. ?f (Suc i) s = Inr s' \<and> ?P i s'"
      using P s len val by (simp add: slot_total same_shape_upd nth_list_update)
  qed auto
  then show ?thesis by auto
qed

lemma erase_loop:
  assumes ok: "faithful_copy val v" "vsize v \<le> length (array v)" "p < vsize v"
  shows "\<exists>v' w'. rfold (\<lambda>i s. rbind (destroy_slot i s)
             (\<lambda>s. rbind (rd (array (fst s)) (i + 1)) (\<lambda>y. copy_slot i y s)))
           [p..<vsize v - 1] (v, w) = Inr (v', w') \<and> same_shape v v' \<and>
           (\<forall>j. j < p \<or> vsize v - 1 \<le> j \<longrightarrow> array v' ! j = array v ! j) \<and>
           (\<forall>j. p \<le> j \<and> j < vsize v - 1 \<longrightarrow> val (array v' ! j) = val (array v ! (j + 1)))"
proof -
  let ?f = "\<lambda>i s. rbind (destroy_slot i s)
             (\<lambda>s. rbind (rd (array (fst s)) (i + 1)) (\<lambda>y. copy_slot i y s))"
  let ?P = "\<lambda>i s. same_shape v (fst s) \<and> (\<forall>j. j < p \<or> i \<le> j \<longrightarrow> array (fst s) ! j = array v ! j) \<and>
           (\<forall>j. p \<le> j \<and> j < i \<longrightarrow> val (array (fst s) ! j) = val (array v ! (j + 1)))"
  have "p \<le> vsize v - 1" using ok(3) by simp
  then have "\<exists>s'. rfold ?f [p..<vsize v - 1] (v, w) = Inr s' \<and> ?P (vsize v - 1) s'"
  proof (rule rfold_range_rule [where P = ?P])
    fix i and s :: "('a, 'c) vector \<times> 'c"
    assume i: "p \<le> i" "i < vsize v - 1" and P: "?P i s"
    obtain u x where s: "s = (u, x)" by (cases s)
    have len: "Suc i < length (array u)" "length (array u) = length (array v)"
      using P s i ok(2) same_shapeD(1) [of v u] by simp_all
    have val: "\<And>z x. val (fst (copy_constructor u z x)) = val z"
      using ok(1) same_shapeD(4) [of v u] P s by (simp add: faithful_copy_def)
    show "\<exists>s'. ?f i s = Inr s' \<and> ?P (Suc i) s'"
      using P s len val i by (auto simp: slot_total same_shape_upd nth_list_update less_Suc_eq)
  qed auto
  then show ?thesis by auto
qed

lemma map_take_nth_eqI:
  assumes "length xs = length ys" "n \<le> length xs"
    and "\<And>j. j < n \<Longrightarrow> f (xs ! j) = f (ys ! j)"
  shows "map f (take n xs) = map f (take n ys)"
  using assms by (intro nth_equalityI) auto

lemma vector_insert_ok:
  assumes "vec_ok v" "faithful_copy val v" "p \<le> vsize v" "can_hold env (vsize v + 1) (v, w)"
  shows "\<exists>v' w'. vector_insert env p x (v, w) = Inr (v', w') \<and> vec_ok v' \<and> faithful_copy val v' \<and>
           vsize v' = vsize v + 1 \<and>
           map val (contents v') = map val (take p (contents v)) @ val x # map val (drop p (contents v))"
proof -
  obtain a c w1 where r: "(if vsize v = capacity v then vector_reserve env (vsize v + 1) (v, w) else Inr (v, w))
             = Inr (v\<lparr>array := a, capacity := c\<rparr>, w1)" "vec_ok (v\<lparr>array := a, capacity := c\<rparr>)"
      "vsize v < length a" "take (vsize v) a = contents v"
    using make_room [OF assms(1,4)] by blast
  let ?u = "v\<lparr>array := a, capacity := c\<rparr>"
  have "faithful_copy val ?u" using assms(2) by (simp add: faithful_copy_def)
  then obtain v2 w2 where l: "rfold (\<lambda>i s. rbind (destroy_slot i s)
             (\<lambda>s. rbind (rd (array (fst s)) (i - 1)) (\<lambda>y. copy_slot i y s)))
           (down_to (vsize v) p) (?u, w1) = Inr (v2, w2)" "same_shape ?u v2"
           "\<And>j. j \<le> p \<Longrightarrow> array v2 ! j = a ! j"
           "\<And>j. p < j \<Longrightarrow> j \<le> vsize v \<Longrightarrow> val (array v2 ! j) = val (a ! (j - 1))"
    using insert_loop [of val ?u p w1] r(3) assms(3) by auto
  note sh = same_shapeD [OF l(2), simplified]
  define y where "y = fst (copy_constructor v2 x w2)"
  define w3 where "w3 = snd (copy_constructor v2 x w2)"
  let ?v' = "v2\<lparr>array := (array v2)[p := y], vsize := Suc (vsize v)\<rparr>"
  have p: "p < length (array v2)" using assms(3) r(3) sh(1) by simp
  have "vector_insert env p x (v, w) = Inr (?v', w3)"
    unfolding vector_insert_def fst_conv r(1)
    using l(1) p sh(2) by (simp add: slot_total set_vsize_def y_def w3_def)
  moreover have "vec_ok ?v'" using r(2,3) sh by (simp add: vec_ok_def)
  moreover have "faithful_copy val ?v'" using assms(2) sh(4) by (simp add: faithful_copy_def)
  moreover have "map val (contents ?v') = map val (take p (contents v)) @ val x # map val (drop p (contents v))"
  proof (rule nth_equalityI)
    have len: "length (contents v) = vsize v" using r(3,4) by (metis length_take min.absorb4)
    then show "length (map val (contents ?v')) =
        length (map val (take p (contents v)) @ val x # map val (drop p (contents v)))"
      using assms(3) r(3) sh(1) by (simp add: contents_def)
    fix j assume "j < length (map val (contents ?v'))"
    then have j: "j \<le> vsize v" by (simp add: contents_def)
    have vy: "val y = val x" using assms(2) sh(4) by (simp add: y_def faithful_copy_def)
    have c: "contents ?v' = (take (Suc (vsize v)) (array v2))[p := y]"
      by (simp add: contents_def take_update_swap)
    consider "j < p" | "j = p" | "p < j" by linarith
    then show "map val (contents ?v') ! j =
        (map val (take p (contents v)) @ val x # map val (drop p (contents v))) ! j"
      using j len assms(3) vy p l(3,4) r(3) sh(1)
      by cases (simp_all add: c nth_append r(4) [symmetric])
  qed
  ultimately show ?thesis by auto
qed

lemma vector_erase_ok:
  assumes "vec_ok v" "faithful_copy val v" "p < vsize v"
  shows "\<exists>v' w'. vector_erase p (v, w) = Inr (v', w') \<and> vec_ok v' \<and> faithful_copy val v' \<and>
           map val (contents v') = map val (take p (contents v)) @ map val (drop (Suc p) (contents v))"
proof -
  have le: "vsize v \<le> length (array v)" using assms(1) by (simp add: vec_ok_def)
  obtain v2 w2 where l: "rfold (\<lambda>i s. rbind (destroy_slot i s)
             (\<lambda>s. rbind (rd (array (fst s)) (i + 1)) (\<lambda>y. copy_slot i y s)))
           [p..<vsize v - 1] (v, w) = Inr (v2, w2)" "same_shape v v2"
           "\<And>j. j < p \<Longrightarrow> array v2 ! j = array v ! j"
           "\<And>j. p \<le> j \<Longrightarrow> j < vsize v - 1 \<Longrightarrow> val (array v2 ! j) = val (array v ! (j + 1))"
    using erase_loop [OF assms(2) le assms(3), of w] by auto
  note sh = same_shapeD [OF l(2)]
  let ?v' = "v2\<lparr>vsize := vsize v - 1\<rparr>"
  have "vector_erase p (v, w) = Inr (?v', destructor v2 (array v2 ! (vsize v - 1)) w2)"
    using l(1) assms(3) le sh by (simp add: vector_erase_def vector_size_def slot_total set_vsize_def)
  moreover have "vec_ok ?v'" using assms(1) sh by (auto simp: vec_ok_def)
  moreover have "faithful_copy val ?v'" using assms(2) sh(4) by (simp add: faithful_copy_def)
  moreover have "map val (contents ?v') = map val (take p (contents v)) @ map val (drop (Suc p) (contents v))"
  proof (rule nth_equalityI)
    show "length (map val (contents ?v')) = length (map val (take p (contents v)) @ map val (drop (Suc p) (contents v)))"
      using assms(3) le sh(1) by (simp add: contents_def)
    fix j assume "j < length (map val (contents ?v'))"
    then have j: "j < vsize v - 1" by (simp add: contents_def)
    then show "map val (contents ?v') ! j = (map val (take p (contents v)) @ map val (drop (Suc p) (contents v))) ! j"
      using assms(3) le sh(1) l(3,4) by (cases "j < p") (simp_all add: contents_def nth_append)
  qed
  ultimately show ?thesis by auto
qed

section \<open>Every operation keeps the vector well-formed\<close>

datatype 'a vec_op =
    Op_resize nat
  | Op_reserve nat
  | Op_set nat "'a option"
  | Op_push "'a option"
  | Op_pop
  | Op_insert nat "'a option"
  | Op_erase nat
  | Op_clear

fun vec_step :: "'w vec_env \<Rightarrow> 'a vec_op \<Rightarrow> ('a, 'w) vector \<times> 'w \<Rightarrow> (('a, 'w) vector \<times> 'w) outcome" where
  "vec_step env (Op_resize n) s = vector_resize env n s"
| "vec_step env (Op_reserve n) s = vector_reserve env n s"
| "vec_step env (Op_set i x) s = vector_set i x s"
| "vec_step env (Op_push x) s = vector_push_back env x s"
| "vec_step env Op_pop s = vector_pop_back s"
| "vec_step env (Op_insert i x) s = vector_insert env i x s"
| "vec_step env (Op_erase i) s = vector_erase i s"
| "vec_step env Op_clear s = vector_clear s"

lemma get_new_capacity_ge:
  assumes "get_new_capacity gf n = Some nc"
  shows "n \<le> nc"
proof -
  from assms have r: "grow_from gf n 1 = Some nc" by (simp add: get_new_capacity_def)
  show ?thesis
  proof (rule grow_from.raw_induct [where P = "\<lambda>gf n c r. n \<le> r", OF _ r])
    fix f :: "nat \<Rightarrow> nat \<Rightarrow> nat \<Rightarrow> nat option" and gf t c r
    assume "\<And>gf t c r. f gf t c = Some r \<Longrightarrow> t \<le> r"
      and "(if c < t then f gf t ((c * gf) mod 2 ^ 64) else Some c) = Some r"
    then show "t \<le> r" by (auto split: if_splits)
  qed
qed

lemma default_loop_bound:
  assumes "rfold default_slot [a..<b] s = Inr s'" "a < b"
  shows "b \<le> length (array (fst s))"
proof -
  have "[a..<b] = [a..<b - 1] @ [b - 1]" using assms(2) by (cases b) auto
  then obtain t where t: "rfold default_slot [a..<b - 1] s = Inr t" "default_slot (b - 1) t = Inr s'"
    using assms(1) by (auto simp: rfold_append outcome_simps)
  have "same_shape (fst s) (fst t)" using t(1) by (rule rfold_shape) (rule slot_shape)
  moreover have "b - 1 < length (array (fst t))"
    using t(2) by (auto simp: default_slot_def outcome_simps split: prod.splits)
  ultimately show ?thesis using assms(2) same_shapeD(1) by fastforce
qed

lemma vector_reserve_keeps:
  fixes s :: "('a, 'w) vector \<times> 'w"
  assumes "vector_reserve env n s = Inr s'" "vec_ok (fst s)"
  shows "vec_ok (fst s') \<and> vsize (fst s') = vsize (fst s)"
proof (cases "n \<le> capacity (fst s)")
  case True
  then show ?thesis using assms by (auto simp: vector_reserve_def split: prod.splits)
next
  case False
  obtain v w where s: "s = (v, w)" by (cases s)
  from False assms(1) obtain nc where nc: "get_new_capacity (growth_factor env) n = Some nc"
    by (auto simp: vector_reserve_def s split: option.splits)
  then have n: "n \<le> nc" by (rule get_new_capacity_ge)
  obtain bl :: "'a option list option" and w1 where bl: "malloc_slots env nc w = (bl, w1)" by fastforce
  show ?thesis
  proof (cases bl)
    case None
    then show ?thesis using assms False nc bl by (auto simp: vector_reserve_def s)
  next
    case (Some xs)
    from assms(1) False nc bl Some obtain na v' w2 where
        r: "rfold (\<lambda>i na. rbind (rd (array v) i) (wr na i)) [0..<vsize v] xs = Inr na"
          "rfold default_slot [vsize v..<nc] (v\<lparr>array := na\<rparr>, w1) = Inr (v', w2)"
          "fst s' = v'\<lparr>capacity := nc\<rparr>"
      by (auto simp: vector_reserve_def s outcome_simps split: prod.splits)
    have "length na = length xs"
      using r(1) by (rule rfold_preserves) (auto simp: outcome_simps)
    moreover have xs: "length xs = ((sizeof_ptr * nc) mod 2 ^ 64) div sizeof_ptr"
      using bl Some by (auto simp: malloc_slots_def Let_def split: prod.splits if_splits)
    moreover have lt: "vsize v < nc" using False n assms(2) s by (auto simp: vec_ok_def)
    moreover have sh: "same_shape (v\<lparr>array := na\<rparr>) v'"
      using r(2) slot_shape(3) by (auto dest!: rfold_shape)
    ultimately have "nc \<le> ((sizeof_ptr * nc) mod 2 ^ 64) div sizeof_ptr"
      using default_loop_bound [OF r(2)] by simp
    then have le: "sizeof_ptr * nc \<le> (sizeof_ptr * nc) mod 2 ^ 64"
      by (simp add: sizeof_ptr_def)
    have "(sizeof_ptr * nc) mod 2 ^ 64 < 2 ^ 64" by simp
    with le have small: "sizeof_ptr * nc < 2 ^ 64" by linarith
    then have "length (array v') = nc"
      using sh same_shapeD(1) \<open>length na = length xs\<close> xs by (fastforce simp: sizeof_ptr_def)
    then show ?thesis using same_shapeD(2) [OF sh] r(3) lt s small by (simp add: vec_ok_def)
  qed
qed

lemma make_room_keeps:
  assumes "(if vsize (fst s) = capacity (fst s)
            then vector_reserve env (vsize (fst s) + 1) s else Inr s) = Inr t" "vec_ok (fst s)"
  shows "vec_ok (fst t) \<and> vsize (fst t) = vsize (fst s)"
  using assms vector_reserve_keeps [of env "vsize (fst s) + 1" s t] by (simp split: if_splits)

lemma vec_ok_vsize: "vec_ok v \<Longrightarrow> n \<le> capacity v \<Longrightarrow> vec_ok (v\<lparr>vsize := n\<rparr>)"
  by (simp add: vec_ok_def)

lemma set_vsize_eq [outcome_simps]:
  "set_vsize n s = Inr s' \<longleftrightarrow> s' = ((fst s)\<lparr>vsize := n\<rparr>, snd s)"
  by (cases s) (auto simp: set_vsize_def)

lemma copy_slot_bound: "copy_slot i x s = Inr t \<Longrightarrow> i < length (array (fst s))"
  by (auto simp: copy_slot_def outcome_simps split: prod.splits)

lemma destroy_slot_bound: "destroy_slot i s = Inr t \<Longrightarrow> i < length (array (fst s))"
  by (auto simp: destroy_slot_def outcome_simps split: prod.splits)

lemma copy_end_ok:
  assumes "rbind (copy_slot p x s) (set_vsize (vsize (fst s) + 1)) = Inr t"
    and "vec_ok (fst s)" "vsize (fst s) < capacity (fst s)"
  shows "vec_ok (fst t)"
proof -
  obtain u where u: "copy_slot p x s = Inr u" "t = ((fst u)\<lparr>vsize := vsize (fst s) + 1\<rparr>, snd u)"
    using assms(1) by (auto simp: outcome_simps)
  have sh: "same_shape (fst s) (fst u)" using u(1) by (rule slot_shape)
  have "vec_ok (fst u)" by (rule vec_ok_shape [OF sh assms(2)])
  then show ?thesis using u(2) assms(3) same_shapeD(3) [OF sh] by (simp add: vec_ok_vsize)
qed

lemma vector_resize_keeps:
  assumes "vector_resize env n s = Inr t" "vec_ok (fst s)"
  shows "vec_ok (fst t)"
proof -
  consider "n < vsize (fst s)" | "n = vsize (fst s)" | "n > vsize (fst s)" by linarith
  then show ?thesis
  proof cases
    case 1
    then obtain u where u: "rfold (\<lambda>i s. rbind (destroy_slot i s) (default_slot i)) [n..<vsize (fst s)] s = Inr u"
        "t = ((fst u)\<lparr>vsize := n\<rparr>, snd u)"
      using assms(1) by (auto simp: vector_resize_def Let_def outcome_simps)
    have "same_shape (fst s) (fst u)"
      using u(1) by (rule rfold_shape) (auto simp: outcome_simps intro: slot_shape same_shape_trans)
    then show ?thesis using u(2) 1 assms(2) vec_ok_shape [of "fst s" "fst u"]
      by (auto simp: vec_ok_def dest: same_shapeD)
  next
    case 2
    then show ?thesis using assms by (simp add: vector_resize_def)
  next
    case 3
    then obtain r u where r: "(if n > capacity (fst s) then vector_reserve env n s else Inr s) = Inr r"
        "rfold default_slot [vsize (fst r)..<n] r = Inr u" "t = ((fst u)\<lparr>vsize := n\<rparr>, snd u)"
      using assms(1) by (auto simp: vector_resize_def Let_def outcome_simps)
    have ok: "vec_ok (fst r)" "vsize (fst r) = vsize (fst s)"
      using r(1) assms(2) vector_reserve_keeps [of env n s r] by (auto split: if_splits)
    have "same_shape (fst r) (fst u)" using r(2) by (rule rfold_shape) (rule slot_shape)
    moreover have "n \<le> length (array (fst r))"
      using default_loop_bound [OF r(2)] 3 ok(2) by simp
    ultimately show ?thesis using r(3) ok(1) vec_ok_shape [of "fst r" "fst u"] same_shapeD(1,3) [of "fst r" "fst u"]
      by (auto simp: vec_ok_def)
  qed
qed

lemma vector_set_keeps:
  assumes "vector_set i x s = Inr t" "vec_ok (fst s)"
  shows "vec_ok (fst t)"
proof -
  have "same_shape (fst s) (fst t)"
    using assms(1) by (auto simp: vector_set_def outcome_simps intro: slot_shape same_shape_trans)
  then show ?thesis using assms(2) by (rule vec_ok_shape)
qed

lemma vector_push_back_keeps:
  assumes "vector_push_back env x s = Inr t" "vec_ok (fst s)"
  shows "vec_ok (fst t)"
proof -
  obtain u where u: "(if vsize (fst s) = capacity (fst s)
            then vector_reserve env (vsize (fst s) + 1) s else Inr s) = Inr u"
      "rbind (copy_slot (vsize (fst u)) x u) (set_vsize (vsize (fst u) + 1)) = Inr t"
    using assms(1) by (auto simp: vector_push_back_def elim!: rbind_InrE)
  have ok: "vec_ok (fst u)" using make_room_keeps [OF u(1) assms(2)] by blast
  moreover have "vsize (fst u) < capacity (fst u)"
    using u(2) ok copy_slot_bound by (fastforce simp: vec_ok_def elim!: rbind_InrE)
  ultimately show ?thesis by (rule copy_end_ok [OF u(2)])
qed

lemma vector_pop_back_keeps:
  assumes "vector_pop_back s = Inr t" "vec_ok (fst s)"
  shows "vec_ok (fst t)"
proof -
  obtain u where u: "rbind (destroy_slot (pred64 (vsize (fst s))) s) (null_slot (pred64 (vsize (fst s)))) = Inr u"
      "t = ((fst u)\<lparr>vsize := pred64 (vsize (fst s))\<rparr>, snd u)"
    using assms(1) by (auto simp: vector_pop_back_def Let_def outcome_simps)
  have "same_shape (fst s) (fst u)"
    using u(1) by (auto simp: outcome_simps intro: slot_shape same_shape_trans)
  moreover have "pred64 (vsize (fst s)) < length (array (fst s))"
    using u(1) by (auto simp: outcome_simps dest: destroy_slot_bound)
  ultimately show ?thesis using u(2) assms(2) same_shapeD(1,3) [of "fst s" "fst u"] by (simp add: vec_ok_def)
qed

lemma vector_insert_keeps:
  assumes "vector_insert env p x s = Inr t" "vec_ok (fst s)"
  shows "vec_ok (fst t)"
proof -
  obtain u r where u: "(if vsize (fst s) = capacity (fst s)
            then vector_reserve env (vsize (fst s) + 1) s else Inr s) = Inr u"
      "rfold (\<lambda>i s. rbind (destroy_slot i s)
             (\<lambda>s. rbind (rd (array (fst s)) (i - 1)) (\<lambda>y. copy_slot i y s)))
           (down_to (vsize (fst u)) p) u = Inr r"
      "rbind (copy_slot p x r) (set_vsize (vsize (fst r) + 1)) = Inr t"
    using assms(1) by (auto simp: vector_insert_def elim!: rbind_InrE)
  have ok: "vec_ok (fst u)" using make_room_keeps [OF u(1) assms(2)] by blast
  have sh: "same_shape (fst u) (fst r)"
    using u(2) by (rule rfold_shape) (auto simp: outcome_simps dest!: slot_shape intro: same_shape_trans)
  have "vsize (fst u) < length (array (fst u))"
  proof (cases "p < vsize (fst u)")
    case True
    then have "down_to (vsize (fst u)) p = vsize (fst u) # down_to (vsize (fst u) - 1) p"
      by (cases "vsize (fst u)") simp_all
    then show ?thesis using u(2) by (auto simp: outcome_simps dest: destroy_slot_bound)
  next
    case False
    then show ?thesis using u(3) copy_slot_bound [of p x r] same_shapeD(1) [OF sh]
      by (auto elim!: rbind_InrE)
  qed
  then have "vsize (fst r) < capacity (fst r)"
    using ok same_shapeD [OF sh] by (simp add: vec_ok_def)
  then show ?thesis using vec_ok_shape [OF sh ok] by (intro copy_end_ok [OF u(3)])
qed

lemma vector_erase_keeps:
  assumes "vector_erase p s = Inr t" "vec_ok (fst s)"
  shows "vec_ok (fst t)"
proof -
  obtain u r where u: "rfold (\<lambda>i s. rbind (destroy_slot i s)
             (\<lambda>s. rbind (rd (array (fst s)) (i + 1)) (\<lambda>y. copy_slot i y s)))
           [p..<vsize (fst s) - 1] s = Inr u"
      "destroy_slot (vsize (fst u) - 1) u = Inr r" "t = ((fst r)\<lparr>vsize := vsize (fst u) - 1\<rparr>, snd r)"
    using assms(1) by (auto simp: vector_erase_def set_vsize_eq elim!: rbind_InrE)
  have su: "same_shape (fst s) (fst u)"
    using u(1) by (rule rfold_shape) (auto simp: outcome_simps dest!: slot_shape intro: same_shape_trans)
  then have "same_shape (fst s) (fst r)" using slot_shape(1) [OF u(2)] by (rule same_shape_trans)
  then show ?thesis using u(3) vec_ok_shape [of "fst s" "fst r"] assms(2) same_shapeD(2) [OF su]
      same_shapeD(3) [of "fst s" "fst r"] by (auto simp: vec_ok_def)
qed

lemma vector_clear_keeps:
  assumes "vector_clear s = Inr t" "vec_ok (fst s)"
  shows "vec_ok (fst t)"
proof -
  obtain u where u: "rfold (\<lambda>i s. rbind (destroy_slot i s) (null_slot i)) [0..<vsize (fst s)] s = Inr u"
      "t = ((fst u)\<lparr>vsize := 0\<rparr>, snd u)"
    using assms(1) by (auto simp: vector_clear_def outcome_simps)
  have "same_shape (fst s) (fst u)"
    using u(1) by (rule rfold_shape) (auto simp: outcome_simps intro: slot_shape same_shape_trans)
  then show ?thesis using u(2) vec_ok_shape [of "fst s" "fst u"] assms(2) by (simp add: vec_ok_vsize)
qed

lemma vec_step_keeps: "vec_step env op s = Inr t \<Longrightarrow> vec_ok (fst s) \<Longrightarrow> vec_ok (fst t)"
  by (cases op) (auto intro: vector_resize_keeps vector_set_keeps vector_push_back_keeps vector_pop_back_keeps
      vector_insert_keeps vector_erase_keeps vector_clear_keeps dest: vector_reserve_keeps)

fun vec_run :: "'w vec_env \<Rightarrow> 'a vec_op list \<Rightarrow> ('a, 'w) vector \<times> 'w \<Rightarrow> (('a, 'w) vector \<times> 'w) outcome" where
  "vec_run env [] s = Inr s"
| "vec_run env (op # ops) s = rbind (vec_step env op s) (vec_run env ops)"

lemma vec_run_keeps: "vec_run env ops s = Inr t \<Longrightarrow> vec_ok (fst s) \<Longrightarrow> vec_ok (fst t)"
  by (induction ops arbitrary: s) (auto simp: outcome_simps dest: vec_step_keeps)

lemma vector_create_ok:
  assumes "sizeof_ptr * initial_capacity env < 2 ^ 64"
    and "vector_create env cp dt df w = Inr (Some v, w')"
  shows "vec_ok v" "contents v = []" "copy_constructor v = cp"
proof -
  let ?n = "initial_capacity env"
  obtain xs w2 where xs: "malloc_slots env ?n (snd (vmalloc env sizeof_vector w)) = (Some xs, w2)"
      "rfold default_slot [0..<?n] (\<lparr>copy_constructor = cp, destructor = dt, default_constructor = df,
          array = xs, vsize = 0, capacity = ?n\<rparr>, w2) = Inr (v, w')"
    using assms(2) by (auto simp: vector_create_def outcome_simps split: prod.splits if_splits option.splits)
  have "length xs = ?n" using xs(1) assms(1)
    by (auto simp: malloc_slots_def Let_def sizeof_ptr_def split: prod.splits if_splits)
  moreover have sh: "same_shape \<lparr>copy_constructor = cp, destructor = dt, default_constructor = df,
          array = xs, vsize = 0, capacity = ?n\<rparr> v"
    using xs(2) rfold_shape [OF xs(2) slot_shape(3)] by simp
  ultimately show "vec_ok v" "contents v = []" "copy_constructor v = cp"
    using assms(1) same_shapeD [OF sh] by (simp_all add: vec_ok_def contents_def)
qed

section \<open>The vector as a growable sequence\<close>

definition malloc_never_fails :: "'w vec_env \<Rightarrow> bool" where
  "malloc_never_fails env \<longleftrightarrow> (\<forall>n w. fst (vmalloc env n w))"

definition vec_room :: "'w vec_env \<Rightarrow> ('a, 'w) vector \<times> 'w \<Rightarrow> nat" where
  "vec_room env s = (2 ^ 64 - 1) div (sizeof_ptr * growth_factor env) - vsize (fst s)"

lemma can_hold_total:
  assumes "malloc_never_fails env" "2 \<le> growth_factor env" "0 < n"
    and "n \<le> (2 ^ 64 - 1) div (sizeof_ptr * growth_factor env)"
  shows "can_hold env n s"
proof -
  let ?g = "growth_factor env"
  have small: "sizeof_ptr * (n * ?g) \<le> 2 ^ 64 - 1"
    using assms(2,4) by (simp add: sizeof_ptr_def less_eq_div_iff_mult_less_eq ac_simps)
  then have "n * ?g \<le> 2 ^ 64" by (simp add: sizeof_ptr_def)
  then obtain m where m: "get_new_capacity ?g n = Some (?g ^ m)" "n \<le> ?g ^ m" "\<forall>j < m. ?g ^ j < n"
    using get_new_capacity_power [OF assms(2,3)] by blast
  have "?g ^ m \<le> n * ?g"
  proof (cases m)
    case (Suc j)
    then have "?g ^ j \<le> n" using m(3) by (simp add: less_imp_le)
    then show ?thesis using Suc by (simp add: mult.commute)
  qed (use assms in simp)
  then have "sizeof_ptr * ?g ^ m < 2 ^ 64" using small by (simp add: sizeof_ptr_def)
  then show ?thesis using m(1,2) assms(1) by (simp add: can_hold_def malloc_never_fails_def)
qed

definition vec_seq_ok :: "'w vec_env \<Rightarrow> ('a option \<Rightarrow> 'b) \<Rightarrow> ('a, 'w) vector \<times> 'w \<Rightarrow> bool" where
  "vec_seq_ok env val s \<longleftrightarrow> vec_ok (fst s) \<and> faithful_copy val (fst s) \<and>
     malloc_never_fails env \<and> 2 \<le> growth_factor env"

interpretation vec_seq: seq_container "vector_push_back env" "\<lambda>s. map val (contents (fst s))" val
  "vec_room env" "vec_seq_ok env val" for env :: "'w vec_env" and val :: "'a option \<Rightarrow> 'b"
proof
  fix s :: "('a, 'w) vector \<times> 'w" and x
  assume ok: "vec_seq_ok env val s" and room: "0 < vec_room env s"
  obtain v w where s: "s = (v, w)" by (cases s)
  have "can_hold env (vsize v + 1) (v, w)"
    using ok room s by (intro can_hold_total) (auto simp: vec_seq_ok_def vec_room_def)
  then obtain a c y w1 w2 where r: "vector_push_back env x (v, w) =
             Inr (v\<lparr>array := a, vsize := vsize v + 1, capacity := c\<rparr>, w2)"
      "vec_ok (v\<lparr>array := a, vsize := vsize v + 1, capacity := c\<rparr>)"
      "take (vsize v + 1) a = contents v @ [y]" "copy_constructor v x w1 = (y, w2)"
    using vector_push_back_ok [of v env w x] ok s by (auto simp: vec_seq_ok_def)
  have "val y = val x" using ok r(4) s by (metis faithful_copy_def fst_conv vec_seq_ok_def)
  then show "\<exists>s'. vector_push_back env x s = Inr s' \<and> vec_seq_ok env val s' \<and>
      map val (contents (fst s')) = map val (contents (fst s)) @ [val x] \<and>
      vec_room env s' = vec_room env s - 1"
    using r(1-3) ok s by (simp add: vec_seq_ok_def vec_room_def faithful_copy_def contents_def)
qed

section \<open>Destruction, observed\<close>

text \<open>
  A vector whose destructor records the pointers it is given, and whose other callbacks do not
  touch that record.
\<close>

definition logs_destruction :: "('a, 'a option list) vector \<Rightarrow> bool" where
  "logs_destruction v \<longleftrightarrow> destructor v = (\<lambda>x w. x # w) \<and> (\<forall>x w. snd (copy_constructor v x w) = w)"

definition log_extends :: "('a, 'a option list) vector \<times> 'a option list \<Rightarrow>
    ('a, 'a option list) vector \<times> 'a option list \<Rightarrow> bool" where
  "log_extends s t \<longleftrightarrow> same_shape (fst s) (fst t) \<and> (\<exists>pre. snd t = pre @ snd s)"

lemma log_extends_refl: "log_extends s s"
  by (simp add: log_extends_def)

lemma log_extends_trans: "log_extends s t \<Longrightarrow> log_extends t u \<Longrightarrow> log_extends s u"
  unfolding log_extends_def using same_shape_trans by fastforce

lemma log_extends_slots:
  assumes "logs_destruction (fst s)"
  shows "destroy_slot i s = Inr t \<Longrightarrow> log_extends s t"
    "copy_slot i x s = Inr t \<Longrightarrow> log_extends s t"
  using assms
  by (auto simp: log_extends_def logs_destruction_def destroy_slot_def copy_slot_def outcome_simps
        same_shape_def split: prod.splits dest: arg_cong [where f = snd])

lemma logs_destruction_shape: "same_shape v v' \<Longrightarrow> logs_destruction v \<Longrightarrow> logs_destruction v'"
  using same_shapeD(4,5) [of v v'] by (simp add: logs_destruction_def)

lemma log_extends_shift:
  assumes "rfold (\<lambda>i s. rbind (destroy_slot i s)
             (\<lambda>s. rbind (rd (array (fst s)) (g i)) (\<lambda>y. copy_slot i y s))) is s = Inr t"
    and "logs_destruction (fst s)"
  shows "log_extends s t"
  using assms(1)
proof (rule rfold_preserves [where P = "\<lambda>u. log_extends s u"])
  fix i u u' assume u: "log_extends s u" and r: "rbind (destroy_slot i u)
             (\<lambda>s. rbind (rd (array (fst s)) (g i)) (\<lambda>y. copy_slot i y s)) = Inr u'"
  have ld: "logs_destruction (fst u)"
    using u assms(2) logs_destruction_shape unfolding log_extends_def by blast
  obtain t1 y where t1: "destroy_slot i u = Inr t1" "copy_slot i y t1 = Inr u'"
    using r by (auto elim!: rbind_InrE)
  have "log_extends u t1" using log_extends_slots(1) [OF ld t1(1)] .
  moreover have "log_extends t1 u'"
    using logs_destruction_shape [OF slot_shape(1) [OF t1(1)] ld] by (rule log_extends_slots(2)) (rule t1(2))
  ultimately show "log_extends s u'" using u by (blast intro: log_extends_trans)
qed (simp add: log_extends_refl)

lemma log_extends_count: "log_extends s t \<Longrightarrow> count_list (snd s) x \<le> count_list (snd t) x"
  by (auto simp: log_extends_def)

text \<open>\<open>vector_erase\<close> destroys the last element and leaves its pointer in the slot past the end.\<close>

lemma vector_erase_logged:
  assumes "vec_ok v" "logs_destruction v" "p < vsize v"
  shows "\<exists>v' w'. vector_erase p (v, w) = Inr (v', w') \<and> vec_ok v' \<and> logs_destruction v' \<and>
           vsize v' = vsize v - 1 \<and> capacity v' = capacity v \<and>
           array v' ! (vsize v - 1) = array v ! (vsize v - 1) \<and>
           count_list w (array v ! (vsize v - 1)) < count_list w' (array v ! (vsize v - 1))"
proof -
  have le: "vsize v \<le> length (array v)" using assms(1) by (simp add: vec_ok_def)
  have "faithful_copy (\<lambda>_. ()) v" by (simp add: faithful_copy_def)
  then obtain v2 w2 where l: "rfold (\<lambda>i s. rbind (destroy_slot i s)
             (\<lambda>s. rbind (rd (array (fst s)) (i + 1)) (\<lambda>y. copy_slot i y s)))
           [p..<vsize v - 1] (v, w) = Inr (v2, w2)" "same_shape v v2"
           "array v2 ! (vsize v - 1) = array v ! (vsize v - 1)"
    using erase_loop [of "\<lambda>_. ()" v p w] le assms(3) by auto
  have "log_extends (v, w) (v2, w2)" using log_extends_shift [OF l(1)] assms(2) by simp
  then have c: "count_list w x \<le> count_list w2 x" for x using log_extends_count by fastforce
  have ld: "logs_destruction v2" by (rule logs_destruction_shape [OF l(2) assms(2)])
  note sh = same_shapeD [OF l(2)]
  have run: "vector_erase p (v, w) = Inr (v2\<lparr>vsize := vsize v - 1\<rparr>, array v ! (vsize v - 1) # w2)"
    using l assms(3) le sh ld
    by (simp add: vector_erase_def vector_size_def slot_total set_vsize_def logs_destruction_def)
  show ?thesis
    using run ld assms(1) sh l(3) c [of "array v ! (vsize v - 1)"]
    by (auto simp: vec_ok_def logs_destruction_def)
qed

lemma vector_insert_logged:
  assumes "vec_ok v" "logs_destruction v" "q < vsize v" "vsize v < capacity v"
  shows "\<exists>v' w'. vector_insert env q x (v, w) = Inr (v', w') \<and>
           count_list w (array v ! vsize v) < count_list w' (array v ! vsize v)"
proof -
  let ?f = "\<lambda>i s. rbind (destroy_slot i s)
             (\<lambda>s. rbind (rd (array (fst s)) (i - 1)) (\<lambda>y. copy_slot i y s))"
  have len: "vsize v < length (array v)" using assms(1,4) by (simp add: vec_ok_def)
  have "faithful_copy (\<lambda>_. ()) v" by (simp add: faithful_copy_def)
  then obtain v2 w2 where l: "rfold ?f (down_to (vsize v) q) (v, w) = Inr (v2, w2)" "same_shape v v2"
    using insert_loop [of "\<lambda>_. ()" v q w] len assms(3) by auto
  obtain n where n: "vsize v = Suc n" "q \<le> n" using assms(3) by (cases "vsize v") auto
  define y w1 where "y = fst (copy_constructor v (array v ! n) (array v ! vsize v # w))"
    and "w1 = array v ! vsize v # w"
  have first: "?f (vsize v) (v, w) = Inr (v\<lparr>array := (array v)[vsize v := y]\<rparr>, w1)"
    using assms(2) len n by (simp add: slot_total logs_destruction_def y_def w1_def)
  then have rest: "rfold ?f (down_to n q) (v\<lparr>array := (array v)[vsize v := y]\<rparr>, w1) = Inr (v2, w2)"
    using l(1) n by simp
  have "logs_destruction (v\<lparr>array := (array v)[vsize v := y]\<rparr>)"
    using assms(2) by (simp add: logs_destruction_def)
  then have "log_extends (v\<lparr>array := (array v)[vsize v := y]\<rparr>, w1) (v2, w2)"
    using log_extends_shift [OF rest] by simp
  then have c: "count_list w1 z \<le> count_list w2 z" for z using log_extends_count by fastforce
  note sh = same_shapeD [OF l(2)]
  have "vector_insert env q x (v, w) =
      Inr (v2\<lparr>array := (array v2)[q := fst (copy_constructor v2 x w2)], vsize := vsize v + 1\<rparr>, w2)"
    using l(1) sh len assms(2,3,4)
    by (simp add: vector_insert_def slot_total set_vsize_def logs_destruction_def)
  then show ?thesis using c [of "array v ! vsize v"] by (auto simp: w1_def)
qed

section \<open>Properties\<close>

text \<open>The capacity the vector grows to is the least power of the growth factor that reaches the
  target, whenever the target times the factor fits in a \<open>size_t\<close>: the loop then terminates.
\<close>

theorem get_new_capacity_least:
  assumes "2 \<le> gf" "0 < target" "target * gf \<le> 2 ^ 64"
  shows "\<exists>k. get_new_capacity gf target = Some (gf ^ k) \<and> target \<le> gf ^ k \<and>
           (\<forall>j. target \<le> gf ^ j \<longrightarrow> k \<le> j)"
proof -
  obtain m where m: "get_new_capacity gf target = Some (gf ^ m)" "target \<le> gf ^ m" "\<forall>j < m. gf ^ j < target"
    using get_new_capacity_power [OF assms] by blast
  then show ?thesis by (metis leD linorder_le_less_linear)
qed

theorem get_new_capacity_least_witness:
  "\<exists>k. get_new_capacity 2 5 = Some (2 ^ k) \<and> 5 \<le> (2::nat) ^ k \<and> (\<forall>j. 5 \<le> (2::nat) ^ j \<longrightarrow> k \<le> j)"
  by (rule get_new_capacity_least) simp_all

text \<open>
  With a growth factor of two, a target above half the range of \<open>size_t\<close> makes the growth loop
  wrap to zero and never return.
\<close>

theorem get_new_capacity_diverges:
  assumes "2 ^ 63 < target" "target < 2 ^ 64"
  shows "get_new_capacity 2 target = None"
  using assms by (rule get_new_capacity_doubling_never)

theorem get_new_capacity_diverges_witness: "get_new_capacity 2 (2 ^ 63 + 1) = None"
  by (rule get_new_capacity_diverges) simp_all

text \<open>
  C22: From creation on, and whatever sequence of resize, reserve, set, push, pop, insert, erase and
  clear runs without a fault, the size stays within the capacity and the capacity is the length of
  the allocated array, so that every index below the size is inside the array.
\<close>

theorem vector_run_well_formed:
  assumes "sizeof_ptr * initial_capacity env < 2 ^ 64"
    and "vector_create env cp dt df w = Inr (Some v, u)"
    and "vec_run env ops (v, u) = Inr (v', w')"
  shows "vsize v' \<le> capacity v' \<and> length (array v') = capacity v'"
  using vec_run_keeps [OF assms(3)] vector_create_ok(1) [OF assms(1,2)] by (simp add: vec_ok_def)

definition demo_env :: "'w vec_env" where
  "demo_env = \<lparr>growth_factor = 2, initial_capacity = 2, vmalloc = (\<lambda>n w. (True, w)), vfree = (\<lambda>n w. w)\<rparr>"

definition demo_vector :: "nat option list \<Rightarrow> (nat, unit) vector" where
  "demo_vector xs = \<lparr>copy_constructor = (\<lambda>x w. (x, w)), destructor = (\<lambda>x w. w),
     default_constructor = (\<lambda>w. (None, w)), array = xs, vsize = 1, capacity = length xs\<rparr>"

theorem vector_run_well_formed_witness:
  "vsize (demo_vector [Some 7, None]) \<le> capacity (demo_vector [Some 7, None]) \<and>
   length (array (demo_vector [Some 7, None])) = capacity (demo_vector [Some 7, None])"
proof (rule vector_run_well_formed [where env = demo_env and w = "()" and u = "()" and w' = "()"
      and cp = "\<lambda>x w. (x, w)" and dt = "\<lambda>x w. w" and df = "\<lambda>w. (None, w)"
      and v = "(demo_vector [None, None])\<lparr>vsize := 0\<rparr>" and ops = "[Op_push (Some 7)]"])
  show "sizeof_ptr * initial_capacity demo_env < 2 ^ 64" by (simp add: demo_env_def sizeof_ptr_def)
  show "vector_create demo_env (\<lambda>x w. (x, w)) (\<lambda>x w. w) (\<lambda>w. (None, w)) () =
      Inr (Some ((demo_vector [None, None])\<lparr>vsize := 0\<rparr>), ())"
  proof -
    have "[0..<2] = [0, 1::nat]" "replicate 2 (None :: nat option) = [None, None]"
      by (simp_all add: upt_rec numeral_2_eq_2)
    then show ?thesis
      by (simp add: vector_create_def demo_env_def malloc_slots_def sizeof_ptr_def demo_vector_def default_slot_def)
  qed
  show "vec_run demo_env [Op_push (Some 7)] ((demo_vector [None, None])\<lparr>vsize := 0\<rparr>, ()) =
      Inr (demo_vector [Some 7, None], ())"
    by (simp add: vector_push_back_def demo_vector_def copy_slot_def set_vsize_def)
qed

text \<open>
  C29: \<open>vector_insert\<close> shifts the elements from the position on one place up and puts a copy there,
  and \<open>vector_erase\<close> at the same position undoes it: both return without a fault, and the values
  the user sees are the old ones with the new one in between, and then the old ones again.
\<close>

theorem vector_insert_erase_roundtrip:
  assumes "vec_ok v" "faithful_copy val v" "p \<le> vsize v" "can_hold env (vsize v + 1) (v, w)"
  shows "\<exists>v1 w1 v2 w2. vector_insert env p x (v, w) = Inr (v1, w1) \<and>
           map val (contents v1) = map val (take p (contents v)) @ val x # map val (drop p (contents v)) \<and>
           vector_erase p (v1, w1) = Inr (v2, w2) \<and> map val (contents v2) = map val (contents v)"
proof -
  obtain v1 w1 where i: "vector_insert env p x (v, w) = Inr (v1, w1)" "vec_ok v1" "faithful_copy val v1"
      "vsize v1 = vsize v + 1"
      "map val (contents v1) = map val (take p (contents v)) @ val x # map val (drop p (contents v))"
    using vector_insert_ok [OF assms] by blast
  obtain v2 w2 where e: "vector_erase p (v1, w1) = Inr (v2, w2)"
      "map val (contents v2) = map val (take p (contents v1)) @ map val (drop (Suc p) (contents v1))"
    using vector_erase_ok [OF i(2,3), of p w1] assms(3) i(4) by auto
  have "length (contents v) = vsize v" using assms(1) by (simp add: vec_ok_def contents_def)
  then have "map val (contents v2) = map val (take p (contents v)) @ map val (drop p (contents v))"
    using e(2) i(5) assms(3) by (simp add: take_map [symmetric] drop_map [symmetric])
  then show ?thesis using i e by (auto simp flip: map_append)
qed

theorem vector_insert_erase_roundtrip_witness:
  "\<exists>v1 w1 v2 w2. vector_insert demo_env 0 (Some 9) (demo_vector [Some 7, None], ()) = Inr (v1, w1) \<and>
     map id (contents v1) = [Some 9, Some 7] \<and>
     vector_erase 0 (v1, w1) = Inr (v2, w2) \<and> map id (contents v2) = [Some 7]"
proof -
  have ok: "vec_ok (demo_vector [Some 7, None])" "faithful_copy id (demo_vector [Some 7, None])"
    "0 \<le> vsize (demo_vector [Some 7, None])"
    "can_hold demo_env (vsize (demo_vector [Some 7, None]) + 1) (demo_vector [Some 7, None], ())"
    by (simp_all add: vec_ok_def demo_vector_def faithful_copy_def can_hold_def sizeof_ptr_def)
  have "contents (demo_vector [Some 7, None]) = [Some 7]" by (simp add: contents_def demo_vector_def)
  then show ?thesis using vector_insert_erase_roundtrip [OF ok, of "Some 9"] by simp
qed

text \<open>
  A full vector whose reallocation fails does not report it: \<open>vector_reserve\<close> returns silently
  and \<open>vector_push_back\<close> writes one slot past the end of the array.
\<close>

theorem vector_push_back_after_failed_reserve:
  assumes "vec_ok v" "vsize v = capacity v"
    and "get_new_capacity (growth_factor env) (vsize v + 1) = Some nc"
    and "\<not> fst (vmalloc env ((sizeof_ptr * nc) mod 2 ^ 64) w)"
  shows "vector_push_back env x (v, w) = Inl Out_of_bounds"
proof -
  have "vector_reserve env (vsize v + 1) (v, w) = Inr (v, snd (vmalloc env ((sizeof_ptr * nc) mod 2 ^ 64) w))"
    using assms(2-4) by (cases "vmalloc env ((sizeof_ptr * nc) mod 2 ^ 64) w")
      (simp add: vector_reserve_def malloc_slots_def Let_def)
  then show ?thesis using assms(1,2)
    by (auto simp: vector_push_back_def copy_slot_def vec_ok_def wr_def split: prod.split)
qed

theorem vector_push_back_after_failed_reserve_witness:
  "vector_push_back (demo_env\<lparr>vmalloc := \<lambda>n w. (False, w)\<rparr>) (Some 8) (demo_vector [Some 7], ()) =
     Inl Out_of_bounds"
proof (rule vector_push_back_after_failed_reserve [where nc = 2])
  show "get_new_capacity (growth_factor (demo_env\<lparr>vmalloc := \<lambda>n w. (False, w)\<rparr>))
      (vsize (demo_vector [Some 7]) + 1) = Some 2"
    by (simp add: demo_env_def demo_vector_def get_new_capacity_def grow_from.simps)
qed (simp_all add: demo_vector_def vec_ok_def sizeof_ptr_def)

text \<open>
  \<open>vector_erase\<close> destroys the last element but leaves its pointer in the slot past the end; a
  \<open>vector_insert\<close> before the end then runs the destructor on that same pointer a second time.
\<close>

theorem vector_erase_insert_destroys_twice:
  assumes "vec_ok v" "logs_destruction v" "p < vsize v" "q < vsize v - 1"
  shows "\<exists>s1 v2 w2. vector_erase p (v, w) = Inr s1 \<and> vector_insert env q x s1 = Inr (v2, w2) \<and>
           count_list w (array v ! (vsize v - 1)) + 2 \<le> count_list w2 (array v ! (vsize v - 1))"
proof -
  obtain v1 w1 where e: "vector_erase p (v, w) = Inr (v1, w1)" "vec_ok v1" "logs_destruction v1"
      "vsize v1 = vsize v - 1" "capacity v1 = capacity v"
      "array v1 ! (vsize v - 1) = array v ! (vsize v - 1)"
      "count_list w (array v ! (vsize v - 1)) < count_list w1 (array v ! (vsize v - 1))"
    using vector_erase_logged [OF assms(1-3)] by blast
  have "vsize v1 < capacity v1" using assms(1,3) e(4,5) by (auto simp: vec_ok_def)
  then obtain v2 w2 where i: "vector_insert env q x (v1, w1) = Inr (v2, w2)"
      "count_list w1 (array v1 ! vsize v1) < count_list w2 (array v1 ! vsize v1)"
    using vector_insert_logged [OF e(2,3), of q env x w1] assms(4) e(4) by auto
  have "count_list w (array v ! (vsize v - 1)) + 2 \<le> count_list w2 (array v ! (vsize v - 1))"
    using e(4,6,7) i(2) by simp
  then show ?thesis using e(1) i(1) by blast
qed

definition logging_vector :: "nat option list \<Rightarrow> (nat, nat option list) vector" where
  "logging_vector xs = \<lparr>copy_constructor = (\<lambda>x w. (map_option Suc x, w)), destructor = (\<lambda>x w. x # w),
     default_constructor = (\<lambda>w. (None, w)), array = xs, vsize = length xs, capacity = length xs\<rparr>"

theorem vector_erase_insert_destroys_twice_witness:
  "\<exists>s1 v2 w2. vector_erase 0 (logging_vector [Some 10, Some 20, Some 30], []) = Inr s1 \<and>
     vector_insert demo_env 0 (Some 40) s1 = Inr (v2, w2) \<and> 2 \<le> count_list w2 (Some 30)"
proof -
  have ok: "vec_ok (logging_vector [Some 10, Some 20, Some 30])"
    "logs_destruction (logging_vector [Some 10, Some 20, Some 30])"
    "0 < vsize (logging_vector [Some 10, Some 20, Some 30])"
    "0 < vsize (logging_vector [Some 10, Some 20, Some 30]) - 1"
    by (simp_all add: logging_vector_def vec_ok_def logs_destruction_def sizeof_ptr_def)
  show ?thesis using vector_erase_insert_destroys_twice [OF ok, of "[]" demo_env "Some 40"]
    by (simp add: logging_vector_def numeral_2_eq_2)
qed

end
