(* ===== verification/CString.thy ===== *)
theory CString
  imports Prelude
begin

text \<open>
  C strings and the parts of \<open>string.h\<close> and \<open>ctype.h\<close> the sources use. A block of bytes is a
  list of characters; the C string at an offset is what stands there up to the first zero byte, and
  reading it is a fault when the block holds none. The character classes are those of the C locale.
\<close>

definition NUL :: char where "NUL = CHR 0x00"

definition cstr :: "char list \<Rightarrow> nat \<Rightarrow> string outcome" where
  "cstr buf i =
     (let s = takeWhile (\<lambda>c. c \<noteq> NUL) (drop i buf)
      in if i + length s < length buf then Inr s else Inl Out_of_bounds)"

lemma takeWhile_NUL [simp]: "NUL \<notin> set s \<Longrightarrow> takeWhile (\<lambda>c. c \<noteq> NUL) (s @ NUL # t) = s"
  by (induction s) auto

lemma cstr_at: "NUL \<notin> set s \<Longrightarrow> length pre = i \<Longrightarrow> cstr (pre @ s @ NUL # t) i = Inr s"
  by (auto simp: cstr_def)

lemma cstr_at_0 [simp]: "NUL \<notin> set s \<Longrightarrow> cstr (s @ NUL # t) 0 = Inr s"
  using cstr_at [of s "[]" 0 t] by simp

text \<open>Copying the bytes \<open>s\<close> into a block from offset \<open>i\<close> on (\<open>memcpy\<close>, and \<open>strcpy\<close> with its zero).\<close>

definition put_bytes :: "'b list \<Rightarrow> nat \<Rightarrow> 'b list \<Rightarrow> 'b list outcome" where
  "put_bytes buf i s =
     (if i + length s \<le> length buf then Inr (take i buf @ s @ drop (i + length s) buf)
      else Inl Out_of_bounds)"

lemma length_put_bytes: "put_bytes buf i s = Inr b \<Longrightarrow> length b = length buf"
  by (auto simp: put_bytes_def split: if_splits)

text \<open>The bytes \<open>strncpy\<close> writes: \<open>n\<close> of them, padded with zeroes past the end of the source.\<close>

definition strncpy_bytes :: "string \<Rightarrow> nat \<Rightarrow> char list" where
  "strncpy_bytes s n = take n s @ replicate (n - length s) NUL"

lemma length_strncpy_bytes [simp]: "length (strncpy_bytes s n) = n"
  by (simp add: strncpy_bytes_def)

text \<open>\<open>strstr\<close>: the offset of the first occurrence.\<close>

fun strstr :: "string \<Rightarrow> string \<Rightarrow> nat option" where
  "strstr [] t = (if t = [] then Some 0 else None)"
| "strstr (c # cs) t =
     (if take (length t) (c # cs) = t then Some 0 else map_option Suc (strstr cs t))"

lemma strstr_Some:
  assumes "strstr s t = Some k"
  shows "\<exists>pre post. s = pre @ t @ post \<and> length pre = k"
  using assms
proof (induction s arbitrary: k)
  case Nil
  then show ?case by (auto split: if_splits)
next
  case (Cons c cs)
  show ?case
  proof (cases "take (length t) (c # cs) = t")
    case True
    then have "c # cs = [] @ t @ drop (length t) (c # cs)"
      by (metis append_Nil append_take_drop_id)
    then show ?thesis using Cons.prems True by (intro exI) auto
  next
    case False
    then obtain j where j: "strstr cs t = Some j" "k = Suc j" using Cons.prems by auto
    then obtain pre post where "cs = pre @ t @ post" "length pre = j" using Cons.IH by blast
    then have "c # cs = (c # pre) @ t @ post \<and> length (c # pre) = k" using j by simp
    then show ?thesis by blast
  qed
qed

lemma strstr_first:
  "strstr s t = Some k \<Longrightarrow> s = pre @ t @ post \<Longrightarrow> k \<le> length pre"
proof (induction s arbitrary: k pre)
  case (Cons c cs)
  show ?case
  proof (cases "take (length t) (c # cs) = t")
    case False
    then obtain j where j: "strstr cs t = Some j" "k = Suc j" using Cons.prems(1) by auto
    have "pre \<noteq> []"
    proof
      assume "pre = []"
      then have "take (length t) (c # cs) = t" unfolding Cons.prems(2) by simp
      with False show False ..
    qed
    then obtain pre' where "pre = c # pre'" "cs = pre' @ t @ post"
      using Cons.prems(2) by (cases pre) auto
    then show ?thesis using Cons.IH j by auto
  qed (use Cons.prems(1) in simp)
qed (auto split: if_splits)

lemma strstr_None: "strstr s t = None \<Longrightarrow> s \<noteq> pre @ t @ post"
proof (induction s arbitrary: pre)
  case (Cons c cs)
  then show ?case by (cases pre) (auto split: if_splits)
qed (auto split: if_splits)

section \<open>Character classes\<close>

definition code :: "char \<Rightarrow> nat" where "code c = of_char c"

definition isupper :: "char \<Rightarrow> bool" where "isupper c \<longleftrightarrow> 65 \<le> code c \<and> code c \<le> 90"
definition islower :: "char \<Rightarrow> bool" where "islower c \<longleftrightarrow> 97 \<le> code c \<and> code c \<le> 122"
definition isalpha :: "char \<Rightarrow> bool" where "isalpha c \<longleftrightarrow> isupper c \<or> islower c"
definition isspace :: "char \<Rightarrow> bool" where "isspace c \<longleftrightarrow> code c = 32 \<or> 9 \<le> code c \<and> code c \<le> 13"
definition ispunct :: "char \<Rightarrow> bool" where
  "ispunct c \<longleftrightarrow> 33 \<le> code c \<and> code c \<le> 47 \<or> 58 \<le> code c \<and> code c \<le> 64 \<or>
     91 \<le> code c \<and> code c \<le> 96 \<or> 123 \<le> code c \<and> code c \<le> 126"
definition toupper :: "char \<Rightarrow> char" where "toupper c = (if islower c then char_of (code c - 32) else c)"
definition tolower :: "char \<Rightarrow> char" where "tolower c = (if isupper c then char_of (code c + 32) else c)"

lemmas ctype_defs = isupper_def islower_def isalpha_def isspace_def ispunct_def

lemma space_not_punct: "isspace c \<Longrightarrow> \<not> ispunct c"
  by (auto simp: ctype_defs)

lemma space_not_alpha: "isspace c \<Longrightarrow> \<not> isalpha c"
  by (auto simp: ctype_defs)

lemma punct_not_alpha: "ispunct c \<Longrightarrow> \<not> isalpha c"
  by (auto simp: ctype_defs)

lemma code_char_of: "n < 256 \<Longrightarrow> code (char_of n) = n"
  by (simp add: code_def)

lemma case_conv_alpha: "isalpha c \<Longrightarrow> isalpha (toupper c) \<and> isalpha (tolower c)"
  by (auto simp: toupper_def tolower_def isalpha_def isupper_def islower_def code_char_of)

end
