(* ===== verification/Camel_Caser.thy ===== *)
theory Camel_Caser
  imports CString
begin

text \<open>
  \<open>extreme_edge_cases/camelCaser.c\<close>: two passes over the input, one that counts the sentences and
  one that fills the result array. A pointer into the input is the suffix it points at (the empty
  suffix is the terminating zero). The result array keeps the difference between a slot that was
  never written, the final null pointer, and a string. \<open>destroy\<close> frees that array.
\<close>

datatype slot = Uninit | Null | Str string

text \<open>\<open>while (*end != 0 && !ispunct( *end)) end++\<close>.\<close>

definition to_punct :: "string \<Rightarrow> string" where
  "to_punct p = dropWhile (\<lambda>c. \<not> ispunct c) p"

lemma length_to_punct: "length (to_punct p) \<le> length p"
  by (simp add: to_punct_def length_dropWhile_le)

text \<open>The first pass, with the counter \<open>cnt\<close> an \<open>int\<close>.\<close>

function count_sentences :: "int \<Rightarrow> string \<Rightarrow> int outcome" where
  "count_sentences cnt start =
     (if start = [] then Inr cnt
      else (case to_punct start of
          [] \<Rightarrow> Inr cnt
        | _ # rest \<Rightarrow> rbind (int_add cnt 1) (\<lambda>cnt. count_sentences cnt rest)))"
  by pat_completeness auto
termination
proof (relation "measure (length \<circ> snd)", simp, goal_cases)
  case (1 cnt start c rest)
  then show ?case using length_to_punct [of start] by simp
qed

declare count_sentences.simps [simp del]

text \<open>The body of the loop over one sentence: \<open>out\<close> is \<open>result[i][0..k)\<close>.\<close>

fun camel_step :: "string \<times> bool \<Rightarrow> char \<Rightarrow> string \<times> bool" where
  "camel_step (out, cap) c =
     (if isalpha c then
        (if out = [] then (out @ [tolower c], False)
         else if cap then (out @ [toupper c], False)
         else (out @ [tolower c], cap))
      else if isspace c then (out, True)
      else (out @ [c], cap))"

definition camel_sentence :: "string \<Rightarrow> string" where
  "camel_sentence sentence = fst (foldl camel_step ([], False) sentence)"

text \<open>
  The second pass, from slot \<open>i\<close> on. \<open>sentence\<close> is a block of \<open>input_len\<close> bytes; a negative
  \<open>input_len\<close> is a request no \<open>malloc\<close> serves, so \<open>sentence\<close> is null then. Writing the
  zero behind a copy of \<open>len\<close> bytes needs \<open>0 \<le> len < input_len\<close>; \<open>result[i]\<close> has one byte
  more than the sentence.
\<close>

fun fill_result :: "int \<Rightarrow> nat \<Rightarrow> nat \<Rightarrow> string \<Rightarrow> slot list \<Rightarrow> slot list outcome" where
  "fill_result input_len 0 i start result = Inr result"
| "fill_result input_len (Suc left) i start result =
     (let rest = to_punct start; len = c_int (length start - length rest) in
      if rest = [] \<and> start = [] then Inr result
      else if input_len < 0 then Inl Null_deref
      else if len < 0 \<or> \<not> len < input_len then Inl Out_of_bounds
      else (let sentence = take (nat len) start; out = camel_sentence sentence in
        if \<not> length out \<le> length sentence then Inl Out_of_bounds
        else if rest = [] then Inl Out_of_bounds
        else rbind (wr result i (Str out))
               (fill_result input_len left (Suc i) (dropWhile isspace (tl rest)))))"

definition camel_caser :: "string option \<Rightarrow> slot list option outcome" where
  "camel_caser input_str =
     (case input_str of
        None \<Rightarrow> Inr None
      | Some s \<Rightarrow>
          (let input_len = c_int (length s) in
           rbind (count_sentences 0 s) (\<lambda>cnt.
           rbind (int_add cnt 1) (\<lambda>slots.
           rbind (fill_result input_len (nat cnt) 0 s (replicate (nat slots) Uninit)) (\<lambda>result.
           rbind (wr result (nat cnt) Null) (\<lambda>result. Inr (Some result)))))))"

text \<open>
  \<open>destroy\<close> frees the strings up to the first null pointer and then the array: the model returns
  the strings freed, and faults on a slot that was never written or an array without a null.
\<close>

fun destroy_from :: "slot list \<Rightarrow> string list outcome" where
  "destroy_from [] = Inl Out_of_bounds"
| "destroy_from (Null # rest) = Inr []"
| "destroy_from (Uninit # rest) = Inl Dangling"
| "destroy_from (Str s # rest) = rbind (destroy_from rest) (\<lambda>ss. Inr (s # ss))"

definition destroy :: "slot list option \<Rightarrow> string list outcome" where
  "destroy result = (case result of None \<Rightarrow> Inr [] | Some r \<Rightarrow> destroy_from r)"

section \<open>Reference\<close>

text \<open>
  What the function is for: the sentences are the stretches that a punctuation mark ends (text
  after the last mark is dropped), without leading white space except for the first.
\<close>

fun sentences :: "string \<Rightarrow> string \<Rightarrow> string list" where
  "sentences cur [] = []"
| "sentences cur (c # cs) = (if ispunct c then cur # sentences [] cs else sentences (cur @ [c]) cs)"

definition input_sentences :: "string \<Rightarrow> string list" where
  "input_sentences s =
     (case sentences [] s of [] \<Rightarrow> [] | t # ts \<Rightarrow> t # map (dropWhile isspace) ts)"

lemma sentences_no_punct: "\<forall>c \<in> set s. \<not> ispunct c \<Longrightarrow> sentences cur s = []"
  by (induction s arbitrary: cur) auto

lemma sentences_split:
  "\<forall>c \<in> set t. \<not> ispunct c \<Longrightarrow> ispunct c \<Longrightarrow> sentences cur (t @ c # rest) = (cur @ t) # sentences [] rest"
  by (induction t arbitrary: cur) auto

lemma to_punct_cases:
  obtains (none) "to_punct s = []" "\<forall>c \<in> set s. \<not> ispunct c"
  | (some) t c rest where "to_punct s = c # rest" "s = t @ c # rest" "ispunct c" "\<forall>c \<in> set t. \<not> ispunct c"
proof (cases "to_punct s")
  case Nil
  then show ?thesis using none by (simp add: to_punct_def dropWhile_eq_Nil_conv)
next
  case (Cons c rest)
  have split: "s = takeWhile (\<lambda>c. \<not> ispunct c) s @ c # rest"
    using Cons by (metis takeWhile_dropWhile_id to_punct_def)
  have "ispunct c" using Cons hd_dropWhile [of "\<lambda>c. \<not> ispunct c" s]
    by (simp add: to_punct_def)
  then show ?thesis using some [OF Cons split] by (meson set_takeWhileD)
qed

lemma sentences_strip:
  "sentences [] (dropWhile isspace s) =
     (case sentences [] s of [] \<Rightarrow> [] | t # ts \<Rightarrow> dropWhile isspace t # ts)"
proof (cases s rule: to_punct_cases)
  case none
  then have "\<forall>c \<in> set (dropWhile isspace s). \<not> ispunct c" by (meson set_dropWhileD)
  then show ?thesis using none by (simp add: sentences_no_punct)
next
  case (some t c rest)
  have "dropWhile isspace s = dropWhile isspace t @ c # rest"
    using some(2,3) space_not_punct by (auto simp: dropWhile_append)
  moreover have "\<forall>c \<in> set (dropWhile isspace t). \<not> ispunct c" using some(4) by (meson set_dropWhileD)
  ultimately show ?thesis using some by (simp add: sentences_split)
qed

lemma length_foldl_camel: "length (fst (foldl camel_step st s)) \<le> length (fst st) + length s"
proof (induction s arbitrary: st)
  case (Cons c s)
  obtain out cap where st: "st = (out, cap)" by (cases st)
  have "length (fst (camel_step st c)) \<le> Suc (length out)" by (simp add: st)
  then show ?case using Cons.IH [of "camel_step st c"] st by simp
qed simp

lemma length_camel_sentence: "length (camel_sentence s) \<le> length s"
  using length_foldl_camel [of "([], False)" s] by (simp add: camel_sentence_def)

lemma count_sentences_eq:
  "0 \<le> cnt \<Longrightarrow> cnt + int (length (sentences [] s)) \<le> 2147483647 \<Longrightarrow>
     count_sentences cnt s = Inr (cnt + int (length (sentences [] s)))"
proof (induction cnt s rule: count_sentences.induct)
  case (1 cnt s)
  show ?case
  proof (cases s rule: to_punct_cases)
    case none
    then show ?thesis by (subst count_sentences.simps) (simp add: sentences_no_punct)
  next
    case (some t c rest)
    then have "s \<noteq> []" "length (sentences [] s) = Suc (length (sentences [] rest))"
      by (auto simp: sentences_split)
    then show ?thesis using 1 some(1)
      by (subst count_sentences.simps) (simp add: add.assoc)
  qed
qed

lemma length_sentences: "length (sentences cur s) \<le> length s"
  by (induction s arbitrary: cur) (auto simp: le_SucI)

text \<open>The second pass fills exactly the slots of the sentences that are left.\<close>

lemma fill_result_ok:
  assumes "int (length start) \<le> n" "n < 2147483648" "left = length (sentences [] start)" "i + left \<le> length result"
  shows "fill_result n left i start result =
     Inr (take i result @ map (Str \<circ> camel_sentence)
           (case sentences [] start of [] \<Rightarrow> [] | t # ts \<Rightarrow> t # map (dropWhile isspace) ts)
          @ drop (i + left) result)"
  using assms
proof (induction left arbitrary: i start result)
  case 0
  then show ?case by (cases "sentences [] start") simp_all
next
  case (Suc left)
  from Suc.prems(3) obtain t c rest where s: "to_punct start = c # rest" "start = t @ c # rest"
      "ispunct c" "\<forall>c \<in> set t. \<not> ispunct c"
    by (cases start rule: to_punct_cases) (auto simp: sentences_no_punct)
  have sent: "sentences [] start = t # sentences [] rest" using s by (simp add: sentences_split)
  let ?rest = "dropWhile isspace rest"
  let ?res = "result[i := Str (camel_sentence t)]"
  have len: "length ?rest \<le> length rest" by (simp add: length_dropWhile_le)
  have IH: "fill_result n left (Suc i) ?rest ?res =
     Inr (take (Suc i) ?res @ map (Str \<circ> camel_sentence)
           (case sentences [] ?rest of [] \<Rightarrow> [] | t # ts \<Rightarrow> t # map (dropWhile isspace) ts)
          @ drop (Suc i + left) ?res)"
    using Suc.prems s sent len by (intro Suc.IH) (simp_all add: sentences_strip split: list.split)
  have "fill_result n (Suc left) i start result = fill_result n left (Suc i) ?rest ?res"
    using Suc.prems(1,2,4) s(1,2) length_camel_sentence [of t] by (simp add: Let_def c_int_small)
  also have "\<dots> = Inr (take i result @ map (Str \<circ> camel_sentence) (t # map (dropWhile isspace) (sentences [] rest))
          @ drop (i + Suc left) result)"
    using Suc.prems(4) unfolding IH sentences_strip by (simp split: list.split)
  finally show ?case by (simp add: sent)
qed

section \<open>Words\<close>

text \<open>
  For a sentence of letters and white space: the first word in lower case, each later word
  with a capital letter, and nothing between them.
\<close>

fun words :: "string \<Rightarrow> string \<Rightarrow> string list" where
  "words cur [] = (if cur = [] then [] else [cur])"
| "words cur (c # cs) =
     (if isspace c then (if cur = [] then words [] cs else cur # words [] cs)
      else words (cur @ [c]) cs)"

fun capitalise :: "string \<Rightarrow> string" where
  "capitalise [] = []"
| "capitalise (c # cs) = toupper c # map tolower cs"

definition camel_words :: "string list \<Rightarrow> string" where
  "camel_words ws = (case ws of [] \<Rightarrow> [] | w # ws \<Rightarrow> map tolower w @ concat (map capitalise ws))"

text \<open>While words are being read: \<open>out\<close> holds the earlier words, \<open>cur\<close> is the one in progress.\<close>

lemma foldl_camel_words:
  assumes "\<forall>c \<in> set s. isalpha c \<or> isspace c" "\<forall>c \<in> set cur. isalpha c" "\<forall>w \<in> set ws. w \<noteq> []"
    and "out = camel_words (ws @ (if cur = [] then [] else [cur]))"
    and "cur = [] \<longrightarrow> ws = [] \<or> cap" "cur \<noteq> [] \<longrightarrow> \<not> cap"
  shows "fst (foldl camel_step (out, cap) s) = camel_words (ws @ words cur s)"
  using assms
proof (induction s arbitrary: cur ws out cap)
  case Nil
  then show ?case by simp
next
  case (Cons c s)
  show ?case
  proof (cases "isspace c")
    case True
    then have "\<not> isalpha c" by (rule space_not_alpha)
    show ?thesis
    proof (cases "cur = []")
      case True
      then show ?thesis using Cons.prems \<open>isspace c\<close> \<open>\<not> isalpha c\<close> by (simp add: Cons.IH [of "[]" ws])
    next
      case False
      then have "fst (foldl camel_step (out, True) s) = camel_words ((ws @ [cur]) @ words [] s)"
        using Cons.prems by (intro Cons.IH) auto
      then show ?thesis using False \<open>isspace c\<close> \<open>\<not> isalpha c\<close> by simp
    qed
  next
    case False
    then have al: "isalpha c" using Cons.prems(1) by simp
    have out: "out = [] \<longleftrightarrow> ws = [] \<and> cur = []"
      using Cons.prems(3,4) by (cases ws) (auto simp: camel_words_def)
    have "fst (foldl camel_step (camel_step (out, cap) c) s) = camel_words (ws @ words (cur @ [c]) s)"
    proof (cases "camel_step (out, cap) c")
      case (Pair out' cap')
      have "out' = camel_words (ws @ [cur @ [c]]) \<and> \<not> cap'"
        using Pair al out Cons.prems(4-6)
        by (cases ws; cases cur) (auto simp: camel_words_def split: if_splits)
      then show ?thesis using Pair Cons.prems al by (intro trans [OF _ Cons.IH]) auto
    qed
    then show ?thesis using False by simp
  qed
qed

section \<open>Letters\<close>

text \<open>
  What the function promises of one sentence, said of each character by what stands before it: white
  space is dropped and other characters that are no letters are kept; a letter comes out in upper
  case when something has been written before it and there is white space between it and the
  last letter before it, and in lower case otherwise.
\<close>

definition camel_char :: "string \<Rightarrow> char \<Rightarrow> string" where
  "camel_char before c =
     (if isspace c then []
      else if \<not> isalpha c then [c]
      else if (\<exists>x \<in> set before. \<not> isspace x) \<and>
              (\<exists>x \<in> set (takeWhile (\<lambda>x. \<not> isalpha x) (rev before)). isspace x)
           then [toupper c] else [tolower c])"

definition camel_text :: "string \<Rightarrow> string" where
  "camel_text s = concat (map (\<lambda>j. camel_char (take j s) (s ! j)) [0..<length s])"

lemma camel_text_snoc: "camel_text (s @ [c]) = camel_text s @ camel_char s c"
proof -
  have eq: "map (\<lambda>j. camel_char (take j (s @ [c])) ((s @ [c]) ! j)) [0..<length s] =
      map (\<lambda>j. camel_char (take j s) (s ! j)) [0..<length s]"
    by (rule map_cong) (simp_all add: nth_append)
  have "take (length s) (s @ [c]) = s" by simp
  then show ?thesis by (simp add: camel_text_def eq del: take_append)
qed

lemma camel_text_Nil: "camel_text s = [] \<longleftrightarrow> (\<forall>x \<in> set s. isspace x)"
  by (induction s rule: rev_induct) (auto simp: camel_text_snoc camel_char_def camel_text_def [of "[]"])

text \<open>The flag \<open>Cap\<close> of the loop tells of that white space.\<close>

lemma camel_loop:
  "foldl camel_step ([], False) s =
     (camel_text s, \<exists>x \<in> set (takeWhile (\<lambda>x. \<not> isalpha x) (rev s)). isspace x)"
proof (induction s rule: rev_induct)
  case Nil
  show ?case by (simp add: camel_text_def)
next
  case (snoc c s)
  then show ?case using space_not_alpha [of c] camel_text_Nil [of s]
    by (auto simp: camel_text_snoc camel_char_def)
qed

lemma camel_sentence_eq: "camel_sentence s = camel_text s"
  by (simp add: camel_sentence_def camel_loop)

section \<open>Properties\<close>

lemma length_input_sentences: "length (input_sentences s) = length (sentences [] s)"
  by (simp add: input_sentences_def split: list.split)

lemma camel_caser_value:
  assumes "length s < 2147483647"
  shows "camel_caser (Some s) = Inr (Some (map (Str \<circ> camel_text) (input_sentences s) @ [Null]))"
proof -
  let ?n = "length (sentences [] s)"
  have len: "length (input_sentences s) = ?n" by (rule length_input_sentences)
  have small: "?n < 2147483647" using assms length_sentences [of "[]" s] by simp
  have "fill_result (int (length s)) ?n 0 s (replicate (Suc ?n) Uninit) =
      Inr (map (Str \<circ> camel_sentence) (input_sentences s) @ [Uninit])"
    using assms by (subst fill_result_ok, simp_all add: input_sentences_def del: replicate_Suc) simp
  moreover have "nat (int ?n + 1) = Suc ?n" by simp
  ultimately show ?thesis using len assms small
    by (simp add: camel_caser_def Let_def c_int_small count_sentences_eq list_update_append
        comp_def camel_sentence_eq del: replicate_Suc)
qed

text \<open>
  C21: \<open>camel_caser\<close> returns null for null. For an input string that is shorter than an \<open>int\<close> can
  count (2147483647 bytes) the two passes together terminate without touching a byte outside their
  blocks, and the result is the array of the camel-cased sentences of the input, in order,
  with a null pointer behind the last one and no slot left unwritten. A sentence is camel-cased when
  its white space is gone, its characters that are no letters are kept, a letter that follows white
  space (with no other letter between) is in upper case unless nothing was written before it,
  and every other letter is in lower case.
\<close>

theorem camel_caser_result:
  assumes "length s < 2147483647"
  shows "camel_caser None = Inr None \<and>
     camel_caser (Some s) = Inr (Some (map (Str \<circ> camel_text) (input_sentences s) @ [Null]))"
  using camel_caser_value [OF assms] by (simp add: camel_caser_def)

theorem camel_caser_result_witness:
  "camel_caser (Some ''  hEllo 2 wORLD.  7up Now! rest'') =
     Inr (Some [Str ''hello2World'', Str ''7upNow'', Null])"
proof -
  have s: "input_sentences ''  hEllo 2 wORLD.  7up Now! rest'' = [''  hEllo 2 wORLD'', ''7up Now'']"
    by code_simp
  have t: "camel_text ''  hEllo 2 wORLD'' = ''hello2World''" "camel_text ''7up Now'' = ''7upNow''"
    by code_simp+
  show ?thesis using camel_caser_result [of "''  hEllo 2 wORLD.  7up Now! rest''"] by (simp add: s t)
qed

text \<open>
  The array \<open>camel_caser\<close> returns is one \<open>destroy\<close> can free: it frees exactly one string for
  each punctuation mark of the input, and stops at the null pointer.
\<close>

theorem camel_caser_destroy:
  assumes "length s < 2147483647"
  shows "\<exists>r ss. camel_caser (Some s) = Inr r \<and> destroy r = Inr ss \<and> length ss = length (filter ispunct s)"
proof -
  have d: "destroy_from (map Str xs @ [Null]) = Inr xs" for xs by (induction xs) simp_all
  have "length (sentences cur s) = length (filter ispunct s)" for cur
    by (induction s arbitrary: cur) simp_all
  then have "length (map camel_text (input_sentences s)) = length (filter ispunct s)"
    by (simp add: length_input_sentences)
  then show ?thesis
    using camel_caser_value [OF assms] d [of "map camel_text (input_sentences s)"]
    by (simp add: destroy_def)
qed

text \<open>
  A string whose length is past \<open>int\<close> but below twice that range makes \<open>input_len\<close> negative: the
  scratch block is null, and the first sentence is copied through it.
\<close>

theorem camel_caser_too_long:
  assumes "2147483648 \<le> length s" "length s < 4294967296"
    and "0 < length (sentences [] s)" "length (sentences [] s) < 2147483647"
  shows "camel_caser (Some s) = Inl Null_deref"
proof -
  obtain n where n: "length (sentences [] s) = Suc n" using assms(3) by (cases "length (sentences [] s)") auto
  have "s \<noteq> []" "nat (1 + int n) = Suc n" using assms(1) by auto
  then show ?thesis using assms(4) n c_int_large [OF assms(1,2)]
    by (simp add: camel_caser_def Let_def count_sentences_eq del: replicate_Suc)
qed

text \<open>
  In a sentence of letters and white space, the first word comes out in lower case, every later
  word with its first letter in upper case and the rest in lower case, and all white space is gone.
\<close>

theorem camel_sentence_words:
  assumes "\<forall>c \<in> set s. isalpha c \<or> isspace c"
  shows "camel_sentence s = camel_words (words [] s)"
  using foldl_camel_words [of s "[]" "[]" "[]" False] assms
  by (simp add: camel_sentence_def camel_words_def)

theorem camel_sentence_words_witness:
  "camel_sentence ''  hEllo wORLD of c'' = ''helloWorldOfC''"
proof -
  have "\<forall>c \<in> set ''  hEllo wORLD of c''. isalpha c \<or> isspace c" by code_simp
  then have "camel_sentence ''  hEllo wORLD of c'' = camel_words (words [] ''  hEllo wORLD of c'')"
    by (rule camel_sentence_words)
  also have "\<dots> = ''helloWorldOfC''" by code_simp
  finally show ?thesis .
qed

end
