(* ===== verification/SString.thy ===== *)
theory SString
  imports CString Vector_Impl
begin

text \<open>
  \<open>vector/sstring.c\<close>: strings with a length. \<open>str\<close> is the whole allocated block, terminating zero
  included, because \<open>sstring_split\<close> writes zeroes into it; \<open>ssize\<close> is the size field. A null
  \<open>sstring\<close> pointer is \<open>None\<close>. The allocations whose failure the code checks take an argument
  \<open>ok\<close> that says whether they succeed (those of \<open>cstr_to_sstring\<close>, which it does not check, are
  taken to succeed), \<open>junk\<close> is the value of the bytes an allocation leaves undefined, and the
  string callbacks of the vector that \<open>sstring_split\<close> creates are parameters.
\<close>

record sstring =
  str :: "char list"
  ssize :: nat

definition cstr_to_sstring :: "string option \<Rightarrow> sstring option" where
  "cstr_to_sstring input =
     (case input of None \<Rightarrow> None | Some s \<Rightarrow> Some \<lparr>str = s @ [NUL], ssize = length s\<rparr>)"

definition sstring_to_cstr :: "sstring option \<Rightarrow> string option outcome" where
  "sstring_to_cstr input =
     (case input of None \<Rightarrow> Inr None | Some t \<Rightarrow> rbind (cstr (str t) 0) (\<lambda>s. Inr (Some s)))"

text \<open>\<open>realloc\<close>: the old bytes up to the new length, then undefined ones.\<close>

definition resized :: "char \<Rightarrow> char list \<Rightarrow> nat \<Rightarrow> char list" where
  "resized junk buf n = take n buf @ replicate (n - length buf) junk"

text \<open>\<open>return new_size\<close> from a function of type \<open>int\<close>.\<close>

definition to_int32 :: "nat \<Rightarrow> int" where
  "to_int32 n = signed_take_bit 31 (int n)"

definition sstring_append ::
  "char \<Rightarrow> bool \<Rightarrow> sstring option \<Rightarrow> sstring option \<Rightarrow> (int \<times> sstring option) outcome" where
  "sstring_append junk ok this addition =
     (case (this, addition) of
        (Some t, Some a) \<Rightarrow>
          (let new_size = (ssize t + ssize a) mod 2 ^ 64 in
           if \<not> ok then Inr (-1, this)
           else (let buf = resized junk (str t) ((new_size + 1) mod 2 ^ 64) in
             rbind (cstr buf 0) (\<lambda>old. rbind (cstr (str a) 0) (\<lambda>s.
               rbind (put_bytes buf (length old) (s @ [NUL])) (\<lambda>buf'.
                 Inr (to_int32 new_size, Some \<lparr>str = buf', ssize = new_size\<rparr>))))))
      | _ \<Rightarrow> Inr (-1, this))"

text \<open>
  The loop of \<open>sstring_split\<close>: \<open>start\<close> and \<open>e\<close> are offsets into the block, \<open>f\<close> says that the
  last character read was the delimiter, \<open>sv\<close> is the vector with its world.
\<close>

function split_loop ::
  "'w vec_env \<Rightarrow> char \<Rightarrow> nat \<Rightarrow> nat \<Rightarrow> bool \<Rightarrow> char list \<Rightarrow> (string, 'w) vector \<times> 'w \<Rightarrow>
   (nat \<times> nat \<times> bool \<times> char list \<times> (string, 'w) vector \<times> 'w) outcome" where
  "split_loop env d start e f buf sv =
     rbind (rd buf e) (\<lambda>c.
       if c = NUL then Inr (start, e, f, buf, sv)
       else if c = d then
         rbind (cstr (buf[e := NUL]) start) (\<lambda>tok.
           rbind (vector_push_back env (Some tok) sv) (\<lambda>sv'.
             split_loop env d (Suc e) (Suc e) True (buf[e := NUL]) sv'))
       else split_loop env d start (Suc e) False buf sv)"
  by pat_completeness auto
termination
  by (relation "measure (\<lambda>(env, d, start, e, f, buf, sv). length buf - e)") (auto simp: outcome_simps)

declare split_loop.simps [simp del]

definition sstring_split ::
  "'w vec_env \<Rightarrow> (string option \<Rightarrow> 'w \<Rightarrow> string option \<times> 'w) \<Rightarrow> (string option \<Rightarrow> 'w \<Rightarrow> 'w) \<Rightarrow>
   ('w \<Rightarrow> string option \<times> 'w) \<Rightarrow> char \<Rightarrow> sstring option \<Rightarrow> 'w \<Rightarrow>
   (((string, 'w) vector option) \<times> sstring option \<times> 'w) outcome" where
  "sstring_split env cp dt df delimiter this w =
     (case this of
        None \<Rightarrow> Inr (None, this, w)
      | Some t \<Rightarrow>
          rbind (vector_create env cp dt df w) (\<lambda>(v, w).
            case v of
              None \<Rightarrow> Inr (None, this, w)
            | Some v \<Rightarrow>
                rbind (split_loop env delimiter 0 0 False (str t) (v, w)) (\<lambda>(start, e, f, buf, sv).
                  rbind (if f \<or> start \<noteq> e
                         then rbind (cstr buf start) (\<lambda>tok. vector_push_back env (Some tok) sv)
                         else Inr sv)
                    (\<lambda>(v, w). Inr (Some v, Some (t\<lparr>str := buf\<rparr>), w)))))"

definition sstring_substitute ::
  "char \<Rightarrow> bool \<Rightarrow> sstring option \<Rightarrow> nat \<Rightarrow> string option \<Rightarrow> string option \<Rightarrow>
   (int \<times> sstring option) outcome" where
  "sstring_substitute junk ok this offset target substitution =
     (case (this, target, substitution) of
        (Some t, Some tg, Some sub) \<Rightarrow>
          rbind (cstr (str t) offset) (\<lambda>hay.
            case strstr hay tg of
              None \<Rightarrow> Inr (-1, this)
            | Some k \<Rightarrow>
                (let pos = offset + k;
                     new_size = nat ((int (ssize t) - int (length tg) + int (length sub)) mod 2 ^ 64) in
                 if \<not> ok then Inr (-1, this)
                 else rbind (cstr (str t) 0) (\<lambda>all.
                   rbind (put_bytes (replicate ((new_size + 1) mod 2 ^ 64) junk) 0 (strncpy_bytes all pos)) (\<lambda>b1.
                   rbind (put_bytes b1 pos (sub @ [NUL])) (\<lambda>b2.
                   rbind (cstr (str t) (pos + length tg)) (\<lambda>rest.
                   rbind (put_bytes b2 (pos + length sub) (rest @ [NUL])) (\<lambda>b3.
                     Inr (0, Some \<lparr>str = b3, ssize = new_size\<rparr>))))))))
      | _ \<Rightarrow> Inr (-1, this))"

definition sstring_slice :: "char \<Rightarrow> bool \<Rightarrow> sstring option \<Rightarrow> int \<Rightarrow> int \<Rightarrow> string option outcome" where
  "sstring_slice junk ok this start end =
     (case this of
        None \<Rightarrow> Inr None
      | Some t \<Rightarrow>
          if start < 0 \<or> end < 0 \<or> start > end \<or> end > to_int32 (ssize t) then Inr None
          else if \<not> ok then Inr None
          else (let n = nat (end - start) in
            rbind (if nat start < length (str t) then Inr () else Inl Out_of_bounds) (\<lambda>_.
            rbind (put_bytes (replicate (n + 1) junk) 0
                    (strncpy_bytes (takeWhile (\<lambda>c. c \<noteq> NUL) (drop (nat start) (str t))) n)) (\<lambda>b.
            rbind (wr b n NUL) (\<lambda>b. rbind (cstr b 0) (\<lambda>s. Inr (Some s)))))))"

text \<open>\<open>sstring_destroy\<close>: the blocks it frees.\<close>

definition sstring_destroy :: "sstring option \<Rightarrow> char list list" where
  "sstring_destroy this = (case this of None \<Rightarrow> [] | Some t \<Rightarrow> [str t])"

section \<open>Well-formed strings\<close>

definition holds_text :: "string \<Rightarrow> sstring \<Rightarrow> bool" where
  "holds_text s t \<longleftrightarrow> NUL \<notin> set s \<and> str t = s @ [NUL] \<and> ssize t = length s"

lemma cstr_suffix:
  "NUL \<notin> set s \<Longrightarrow> i \<le> length s \<Longrightarrow> cstr (s @ [NUL]) i = Inr (drop i s)"
  using cstr_at [of "drop i s" "take i s" i "[]"] in_set_dropD [of NUL i s]
  by (auto simp flip: append_assoc)

lemma holds_text_to_cstr: "holds_text s t \<Longrightarrow> sstring_to_cstr (Some t) = Inr (Some s)"
  by (simp add: holds_text_def sstring_to_cstr_def cstr_suffix)

section \<open>Splitting\<close>

text \<open>The reference: the pieces between the delimiters, of which there is always at least one.\<close>

fun split_on :: "char \<Rightarrow> string \<Rightarrow> string list" where
  "split_on d [] = [[]]"
| "split_on d (c # cs) =
     (if c = d then [] # split_on d cs
      else (case split_on d cs of [] \<Rightarrow> [[c]] | t # ts \<Rightarrow> (c # t) # ts))"

fun join :: "char \<Rightarrow> string list \<Rightarrow> string" where
  "join d [] = []"
| "join d [t] = t"
| "join d (t # ts) = t @ d # join d ts"

lemma split_on_not_Nil [simp]: "split_on d s \<noteq> []"
  by (cases s) (auto split: list.split)

lemma join_Cons: "ts \<noteq> [] \<Longrightarrow> join d (t # ts) = t @ d # join d ts"
  by (cases ts) simp_all

lemma join_split_on: "join d (split_on d s) = s"
proof (induction s)
  case (Cons c s)
  obtain t ts where ts: "split_on d s = t # ts" by (cases "split_on d s") auto
  then show ?case using Cons by (cases ts) (auto simp: join_Cons)
qed simp

lemma split_on_no_delim: "t \<in> set (split_on d s) \<Longrightarrow> d \<notin> set t"
proof (induction s arbitrary: t)
  case (Cons c s)
  then show ?case by (cases "split_on d s") (auto split: if_splits)
qed simp

lemma split_on_chars: "t \<in> set (split_on d s) \<Longrightarrow> set t \<subseteq> set s"
proof (induction s arbitrary: t)
  case (Cons c s)
  show ?case
  proof (cases "split_on d s")
    case Nil
    then show ?thesis by simp
  next
    case (Cons u us)
    then have u: "set u \<subseteq> set s" and us: "\<And>t. t \<in> set us \<Longrightarrow> set t \<subseteq> set s"
      using Cons.IH by auto
    then show ?thesis using Cons Cons.prems by (auto split: if_splits)
  qed
qed simp

text \<open>\<open>glue tok ts\<close>: the characters already read of the current piece, put in front of it.\<close>

fun glue :: "string \<Rightarrow> string list \<Rightarrow> string list" where
  "glue tok [] = [tok]"
| "glue tok (t # ts) = (tok @ t) # ts"

definition blank :: "char \<Rightarrow> char \<Rightarrow> char" where
  "blank d c = (if c = d then NUL else c)"

lemma glue_split_simps:
  "c \<noteq> d \<Longrightarrow> glue tok (split_on d (c # cs)) = glue (tok @ [c]) (split_on d cs)"
  "glue tok (split_on d (d # cs)) = tok # split_on d cs"
  "glue [] (split_on d cs) = split_on d cs"
  "glue tok ts \<noteq> []"
  by (cases "split_on d cs"; simp)+ (cases ts; simp)

declare split_on.simps(2) [simp del]

lemma last_piece_suffix:
  "\<exists>P. tok @ map (blank d) s = P @ last (glue tok (split_on d s))"
proof (induction s arbitrary: tok)
  case (Cons c s)
  show ?case
  proof (cases "c = d")
    case True
    obtain P where "map (blank d) s = P @ last (split_on d s)"
      using Cons.IH [of "[]"] by (auto simp: glue_split_simps)
    then show ?thesis using True by (auto simp: glue_split_simps intro: exI [of _ "tok @ blank d c # P"])
  next
    case False
    then show ?thesis using Cons.IH [of "tok @ [c]"] by (simp add: glue_split_simps blank_def)
  qed
qed auto

lemma split_loop_ok:
  assumes "vec_seq_ok env (\<lambda>x. x) sv" "length rest \<le> vec_room env sv"
    and "NUL \<notin> set rest" "NUL \<notin> set tok"
    and "buf = pre @ tok @ rest @ [NUL]"
  shows "\<exists>sv'. split_loop env d (length pre) (length pre + length tok) f buf sv =
      Inr (length pre + length tok + length rest - length (last (glue tok (split_on d rest))),
           length pre + length tok + length rest,
           (if rest = [] then f else last rest = d),
           pre @ tok @ map (blank d) rest @ [NUL], sv') \<and>
      vec_seq_ok env (\<lambda>x. x) sv' \<and> vec_room env sv \<le> vec_room env sv' + length rest \<and>
      contents (fst sv') = contents (fst sv) @ map Some (butlast (glue tok (split_on d rest)))"
  using assms
proof (induction rest arbitrary: pre tok f buf sv)
  case Nil
  then show ?case by (subst split_loop.simps) (simp add: rd_def nth_append)
next
  case (Cons c cs)
  let ?e = "length pre + length tok"
  have c: "c \<noteq> NUL" "rd buf ?e = Inr c" using Cons.prems(3,5) by (auto simp: rd_def nth_append)
  show ?case
  proof (cases "c = d")
    case False
    then have "split_loop env d (length pre) ?e f buf sv = split_loop env d (length pre) (Suc ?e) False buf sv"
      using c by (subst split_loop.simps) simp
    then show ?thesis
      using Cons.IH [of sv "tok @ [c]" buf pre False] Cons.prems False
      by (auto simp: glue_split_simps blank_def)
  next
    case True
    have buf': "buf[?e := NUL] = pre @ tok @ NUL # cs @ [NUL]"
      using Cons.prems(5) by (simp add: list_update_append)
    obtain sv1 where push: "vector_push_back env (Some tok) sv = Inr sv1" "vec_seq_ok env (\<lambda>x. x) sv1"
        "contents (fst sv1) = contents (fst sv) @ [Some tok]" "vec_room env sv1 = vec_room env sv - 1"
      using vec_seq.push_ok [of env "\<lambda>x. x" sv "Some tok"] Cons.prems(1,2) by auto
    have "split_loop env d (length pre) ?e f buf sv =
        split_loop env d (Suc ?e) (Suc ?e) True (pre @ tok @ NUL # cs @ [NUL]) sv1"
      using c True push(1) Cons.prems(4) by (subst split_loop.simps) (simp add: buf' cstr_at)
    moreover have "length (last (split_on d cs)) \<le> length cs"
      using last_piece_suffix [of "[]" d cs] by (auto simp: glue_split_simps dest: arg_cong [where f = length])
    moreover have le: "length cs \<le> vec_room env sv1" using push(4) Cons.prems(2) by simp
    ultimately show ?thesis
      using Cons.IH [OF push(2) le, of "[]" "pre @ tok @ NUL # cs @ [NUL]" "pre @ tok @ [NUL]" True]
        Cons.prems(3) push(3,4) True
      by (auto simp: glue_split_simps blank_def Suc_diff_le)
  qed
qed

lemma last_piece_nonempty:
  assumes "s \<noteq> []" "last s \<noteq> d"
  shows "last (split_on d s) \<noteq> []"
proof
  assume "last (split_on d s) = []"
  then have "split_on d s = butlast (split_on d s) @ [[]]"
    by (metis append_butlast_last_id split_on_not_Nil)
  then have "join d (butlast (split_on d s) @ [[]]) = s" using join_split_on [of d s] by simp
  moreover have "join d (xs @ [[]]) = [] \<or> last (join d (xs @ [[]])) = d" for xs
  proof (induction xs)
    case (Cons x xs)
    then show ?case by (auto simp: join_Cons)
  qed simp
  ultimately show False using assms by metis
qed

text \<open>The whole of \<open>sstring_split\<close> on a well-formed string.\<close>

lemma sstring_split_ok:
  assumes "holds_text s t" "malloc_never_fails env" "2 \<le> growth_factor env"
    and "sizeof_ptr * initial_capacity env < 2 ^ 64"
    and "length s < (2 ^ 64 - 1) div (sizeof_ptr * growth_factor env)"
    and "\<forall>x w. fst (cp x w) = x"
    and "vector_create env cp dt df w = Inr (Some v0, w0)"
  shows "\<exists>v t' w'. sstring_split env cp dt df d (Some t) w = Inr (Some v, Some t', w') \<and>
      contents v = map Some (if s = [] then [] else split_on d s) \<and>
      str t' = map (blank d) s @ [NUL] \<and> ssize t' = length s"
proof -
  have v0: "vec_ok v0" "contents v0 = []" "copy_constructor v0 = cp"
    using vector_create_ok [OF assms(4,7)] .
  then have sv0: "vec_seq_ok env (\<lambda>x. x) (v0, w0)" "vsize v0 = 0"
    using assms(2,3,6) by (auto simp: vec_seq_ok_def faithful_copy_def contents_def vec_ok_def)
  then have room: "length s < vec_room env (v0, w0)" using assms(5) by (simp add: vec_room_def)
  let ?ts = "split_on d s" and ?B = "map (blank d) s @ [NUL]"
  let ?st = "length s - length (last (split_on d s))" and ?f = "if s = [] then False else last s = d"
  obtain sv where l: "split_loop env d 0 0 False (str t) (v0, w0) = Inr (?st, length s, ?f, ?B, sv)"
      "vec_seq_ok env (\<lambda>x. x) sv" "0 < vec_room env sv" "contents (fst sv) = map Some (butlast ?ts)"
    using split_loop_ok [OF sv0(1), of s "[]" "str t" "[]" d False] assms(1) room v0(2)
    by (auto simp: holds_text_def glue_split_simps)
  obtain P where P: "map (blank d) s = P @ last ?ts"
    using last_piece_suffix [of "[]" d s] by (auto simp: glue_split_simps)
  then have lenP: "length P = ?st" by (auto dest: arg_cong [where f = length])
  have tok: "cstr ?B ?st = Inr (last ?ts)"
  proof -
    have "NUL \<notin> set (last ?ts)"
      using split_on_chars [of "last ?ts" d s] assms(1) by (auto simp: holds_text_def)
    then show ?thesis using lenP P cstr_at [of "last ?ts" P ?st "[]"] by simp
  qed
  have again: "?f \<or> ?st \<noteq> length s \<longleftrightarrow> s \<noteq> []"
  proof (cases s rule: rev_cases)
    case (snoc u c)
    show ?thesis
    proof (cases "c = d")
      case False
      have "last ?ts \<noteq> []" using snoc False last_piece_nonempty [of s d] by simp
      then show ?thesis using snoc lenP P by (metis append_is_Nil_conv diff_less length_greater_0_conv less_irrefl not_Cons_self2)
    qed (simp add: snoc)
  qed simp
  show ?thesis
  proof (cases "s = []")
    case True
    then show ?thesis using l assms(7) v0 again
      by (cases sv) (use assms(1) in \<open>simp add: sstring_split_def holds_text_def\<close>)
  next
    case False
    obtain sv1 where p: "vector_push_back env (Some (last ?ts)) sv = Inr sv1"
        "contents (fst sv1) = contents (fst sv) @ [Some (last ?ts)]"
      using vec_seq.push_ok [OF l(2,3), of "Some (last ?ts)"] by auto
    have "contents (fst sv1) = map Some ?ts"
      using p(2) l(4) by (metis append_butlast_last_id list.map(1,2) map_append split_on_not_Nil)
    moreover have "sstring_split env cp dt df d (Some t) w = Inr (Some (fst sv1), Some (t\<lparr>str := ?B\<rparr>), snd sv1)"
      using l(1) assms(7) tok p(1) again False
      by (cases sv1) (simp add: sstring_split_def del: map_append)
    ultimately show ?thesis using False assms(1) by (simp add: holds_text_def)
  qed
qed

section \<open>Appending, slicing, substituting\<close>

lemma sstring_append_ok:
  assumes "holds_text s t" "holds_text r a" "length s + length r + 1 < 2 ^ 64"
  shows "sstring_append junk True (Some t) (Some a) =
           Inr (to_int32 (length s + length r),
                Some \<lparr>str = s @ r @ [NUL], ssize = length s + length r\<rparr>)"
proof -
  have "resized junk (str t) (length s + length r + 1) = s @ NUL # replicate (length r) junk"
    using assms(1) by (simp add: resized_def holds_text_def)
  moreover have "put_bytes (s @ NUL # replicate (length r) junk) (length s) (r @ [NUL]) = Inr (s @ r @ [NUL])"
    by (simp add: put_bytes_def)
  ultimately show ?thesis using assms
    by (simp add: sstring_append_def holds_text_def Let_def)
qed

lemma to_int32_small: "n < 2 ^ 31 \<Longrightarrow> to_int32 n = int n"
  by (simp add: to_int32_def signed_take_bit_int_eq_self)

lemma sstring_slice_ok:
  assumes "holds_text s t" "i \<le> j" "j \<le> length s" "length s < 2 ^ 31"
  shows "sstring_slice junk True (Some t) (int i) (int j) = Inr (Some (take (j - i) (drop i s)))"
proof -
  let ?p = "take (j - i) (drop i s)"
  have len: "length ?p = j - i" using assms(3) by simp
  have p: "NUL \<notin> set ?p" using assms(1) by (auto simp: holds_text_def dest!: in_set_takeD in_set_dropD)
  have "takeWhile (\<lambda>c. c \<noteq> NUL) (drop i (str t)) = drop i s"
  proof -
    have "NUL \<notin> set (drop i s)" using assms(1) in_set_dropD [of NUL i s] by (auto simp: holds_text_def)
    then show ?thesis using takeWhile_NUL [of "drop i s" "[]"] assms by (simp add: holds_text_def)
  qed
  then have bytes: "strncpy_bytes (takeWhile (\<lambda>c. c \<noteq> NUL) (drop i (str t))) (j - i) = ?p"
    using len assms(3) by (simp add: strncpy_bytes_def)
  have "replicate (j - i + 1) junk = replicate (j - i) junk @ [junk]"
    by (simp add: replicate_append_same)
  then have "put_bytes (replicate (j - i + 1) junk) 0 ?p = Inr (?p @ [junk])"
    using len by (simp add: put_bytes_def del: replicate_Suc)
  moreover have "wr (?p @ [junk]) (j - i) NUL = Inr (?p @ [NUL])"
    using len by (simp add: wr_def list_update_append)
  ultimately show ?thesis using assms bytes p
    by (simp add: sstring_slice_def to_int32_small holds_text_def nat_diff_distrib' flip: of_nat_diff)
qed

lemma sstring_substitute_ok:
  assumes "holds_text s t" "NUL \<notin> set sub" "length s + length sub + 1 < 2 ^ 64"
    and "s = pre @ tg @ post" "offset \<le> length pre"
    and "strstr (drop offset s) tg = Some (length pre - offset)"
  shows "sstring_substitute junk True (Some t) offset (Some tg) (Some sub) =
           Inr (0, Some \<lparr>str = pre @ sub @ post @ [NUL], ssize = length (pre @ sub @ post)\<rparr>)"
proof -
  have t: "str t = pre @ tg @ post @ [NUL]" "NUL \<notin> set (pre @ tg @ post)" "ssize t = length pre + length tg + length post"
    using assms(1,4) by (auto simp: holds_text_def)
  have le: "offset \<le> length s" using assms(4,5) by simp
  have hay: "cstr (str t) offset = Inr (drop offset s)" and all: "cstr (str t) 0 = Inr s"
    using assms(1) le by (simp_all add: holds_text_def cstr_suffix)
  let ?n = "length (pre @ sub @ post)"
  have n: "nat ((int (ssize t) - int (length tg) + int (length sub)) mod 2 ^ 64) = ?n" "(?n + 1) mod 2 ^ 64 = ?n + 1"
    using assms(3,4) by (simp_all add: t(3) nat_mod_distrib)
  have b1: "put_bytes (replicate (?n + 1) junk) 0 (strncpy_bytes s (length pre)) =
      Inr (pre @ replicate (length sub + length post + 1) junk)"
    by (simp add: put_bytes_def strncpy_bytes_def assms(4) del: replicate_Suc)
  have b2: "put_bytes (pre @ replicate (length sub + length post + 1) junk) (length pre) (sub @ [NUL]) =
      Inr (pre @ sub @ NUL # replicate (length post) junk)"
    by (simp add: put_bytes_def)
  have rest: "cstr (str t) (length pre + length tg) = Inr post"
    using cstr_at [of post "pre @ tg" "length pre + length tg" "[]"] t(1,2) by simp
  have b3: "put_bytes (pre @ sub @ NUL # replicate (length post) junk) (length pre + length sub) (post @ [NUL]) =
      Inr (pre @ sub @ post @ [NUL])"
    by (simp add: put_bytes_def)
  show ?thesis
    using assms(5,6) hay all n b1 b2 b3 rest by (simp add: sstring_substitute_def Let_def)
qed

section \<open>Properties\<close>

text \<open>\<open>sstring_append\<close> of two well-formed strings whose lengths add up to less than 2 to the 31
  returns the new length and leaves a well-formed string that holds both texts; \<open>sstring_slice\<close> at
  the joint gives the two texts back.
\<close>

theorem sstring_append_slice_roundtrip:
  assumes "holds_text s t" "holds_text r a" "length s + length r < 2 ^ 31"
  shows "\<exists>t'. sstring_append junk True (Some t) (Some a) = Inr (int (length s + length r), Some t') \<and>
           holds_text (s @ r) t' \<and>
           sstring_slice junk True (Some t') 0 (int (length s)) = Inr (Some s) \<and>
           sstring_slice junk True (Some t') (int (length s)) (int (length s + length r)) = Inr (Some r)"
proof -
  let ?t = "\<lparr>str = s @ r @ [NUL], ssize = length s + length r\<rparr>"
  have t: "holds_text (s @ r) ?t" using assms(1,2) by (auto simp: holds_text_def)
  have "sstring_append junk True (Some t) (Some a) = Inr (int (length s + length r), Some ?t)"
    using sstring_append_ok [OF assms(1,2)] to_int32_small [OF assms(3)] assms(3) by simp
  moreover have "sstring_slice junk True (Some ?t) 0 (int (length s)) = Inr (Some s)"
    using sstring_slice_ok [OF t, of 0 "length s" junk] assms(3) by simp
  moreover have "sstring_slice junk True (Some ?t) (int (length s)) (int (length s + length r)) = Inr (Some r)"
    using sstring_slice_ok [OF t, of "length s" "length s + length r" junk] assms(3) by simp
  ultimately show ?thesis using t by blast
qed

theorem sstring_append_slice_roundtrip_witness:
  "\<exists>t'. sstring_append CHR ''x'' True (cstr_to_sstring (Some ''ab'')) (cstr_to_sstring (Some ''c'')) = Inr (3, Some t') \<and>
     holds_text ''abc'' t' \<and> sstring_slice CHR ''x'' True (Some t') 0 2 = Inr (Some ''ab'') \<and>
     sstring_slice CHR ''x'' True (Some t') 2 3 = Inr (Some ''c'')"
proof -
  have h: "holds_text ''ab'' \<lparr>str = ''ab'' @ [NUL], ssize = length ''ab''\<rparr>"
    "holds_text ''c'' \<lparr>str = ''c'' @ [NUL], ssize = length ''c''\<rparr>"
    by (simp_all add: holds_text_def NUL_def)
  show ?thesis using sstring_append_slice_roundtrip [OF h, of "CHR ''x''"]
    by (simp add: cstr_to_sstring_def)
qed

text \<open>
  C31: \<open>sstring_substitute\<close> on a well-formed string replaces exactly the first occurrence of the
  target that begins at or after the offset and leaves a well-formed string; when there is none it
  returns -1 and leaves the string alone.
\<close>

theorem sstring_substitute_first:
  assumes "holds_text s t" "NUL \<notin> set sub" "length s + length sub + 1 < 2 ^ 64" "offset \<le> length s"
  shows "(\<exists>pre post t'. s = pre @ tg @ post \<and> offset \<le> length pre \<and>
            (\<forall>pre' post'. s = pre' @ tg @ post' \<and> offset \<le> length pre' \<longrightarrow> length pre \<le> length pre') \<and>
            sstring_substitute junk True (Some t) offset (Some tg) (Some sub) = Inr (0, Some t') \<and>
            holds_text (pre @ sub @ post) t') \<or>
         (\<forall>pre post. s = pre @ tg @ post \<longrightarrow> length pre < offset) \<and>
            sstring_substitute junk True (Some t) offset (Some tg) (Some sub) = Inr (-1, Some t)"
proof (cases "strstr (drop offset s) tg")
  case None
  have "length pre < offset" if "s = pre @ tg @ post" for pre post
  proof (rule ccontr)
    assume "\<not> length pre < offset"
    then have "drop offset s = drop offset pre @ tg @ post" using that by simp
    then show False using strstr_None [OF None] by blast
  qed
  moreover have "sstring_substitute junk True (Some t) offset (Some tg) (Some sub) = Inr (-1, Some t)"
    using assms(1,4) None by (simp add: sstring_substitute_def holds_text_def cstr_suffix)
  ultimately show ?thesis by blast
next
  case (Some k)
  obtain p post where p: "drop offset s = p @ tg @ post" "length p = k" using strstr_Some [OF Some] by blast
  define pre where "pre = take offset s @ p"
  have s: "s = pre @ tg @ post" using p(1) by (metis append_assoc append_take_drop_id pre_def)
  have len: "length pre = offset + k" using assms(4) p(2) by (simp add: pre_def)
  have "length pre \<le> length pre'" if "s = pre' @ tg @ post'" "offset \<le> length pre'" for pre' post'
    using strstr_first [OF Some, of "drop offset pre'" post'] that len by simp
  moreover have "sstring_substitute junk True (Some t) offset (Some tg) (Some sub) =
      Inr (0, Some \<lparr>str = pre @ sub @ post @ [NUL], ssize = length (pre @ sub @ post)\<rparr>)"
    using sstring_substitute_ok [OF assms(1-3) s] len Some by simp
  moreover have "holds_text (pre @ sub @ post) \<lparr>str = pre @ sub @ post @ [NUL], ssize = length (pre @ sub @ post)\<rparr>"
    using assms(1,2) s by (auto simp: holds_text_def)
  ultimately show ?thesis using s len by (intro disjI1 exI [of _ pre] exI [of _ post]) auto
qed

theorem sstring_substitute_first_witness:
  "sstring_substitute CHR ''x'' True (cstr_to_sstring (Some ''aba'')) 1 (Some ''a'') (Some ''cd'') \<noteq>
     Inr (-1, cstr_to_sstring (Some ''aba''))"
proof -
  have h: "holds_text ''aba'' \<lparr>str = ''aba'' @ [NUL], ssize = length ''aba''\<rparr>" by (simp add: holds_text_def NUL_def)
  have "\<not> (\<forall>pre post. ''aba'' = pre @ ''a'' @ post \<longrightarrow> length pre < 1)"
    by (intro notI, erule_tac x = "''ab''" in allE) simp
  then show ?thesis
    using sstring_substitute_first [OF h, of "''cd''" 1 "''a''" "CHR ''x''"]
    by (auto simp: cstr_to_sstring_def NUL_def)
qed

text \<open>
  C30: \<open>sstring_split\<close> of a well-formed string returns, without a fault, the vector of the pieces
  between the delimiters (none for the empty string), and joining the pieces of a non-empty string
  gives the text back.
\<close>

theorem sstring_split_pieces:
  assumes "holds_text s t" "malloc_never_fails env" "2 \<le> growth_factor env"
    and "sizeof_ptr * initial_capacity env < 2 ^ 64"
    and "length s < (2 ^ 64 - 1) div (sizeof_ptr * growth_factor env)"
    and "\<forall>x w. fst (cp x w) = x"
    and "vector_create env cp dt df w = Inr (Some v, u)"
  shows "\<exists>v' t' w'. sstring_split env cp dt df d (Some t) w = Inr (Some v', t', w') \<and>
      contents v' = map Some (if s = [] then [] else split_on d s) \<and>
      (s \<noteq> [] \<longrightarrow> join d (map the (contents v')) = s \<and> (\<forall>p \<in> set (contents v'). d \<notin> set (the p)))"
proof -
  obtain v' t' w' where r: "sstring_split env cp dt df d (Some t) w = Inr (Some v', Some t', w')"
      "contents v' = map Some (if s = [] then [] else split_on d s)"
    using sstring_split_ok [OF assms, of d] by blast
  have "join d (map the (contents v')) = s \<and> (\<forall>p \<in> set (contents v'). d \<notin> set (the p))" if "s \<noteq> []"
    using that r(2) split_on_no_delim by (auto simp: comp_def join_split_on)
  then show ?thesis using r by blast
qed

text \<open>
  Splitting destroys the string it splits: afterwards \<open>sstring_to_cstr\<close> of it gives only the
  text before the first delimiter, while its size field still has the length of the whole text.
\<close>

theorem sstring_split_truncates:
  assumes "holds_text s t" "malloc_never_fails env" "2 \<le> growth_factor env"
    and "sizeof_ptr * initial_capacity env < 2 ^ 64"
    and "length s < (2 ^ 64 - 1) div (sizeof_ptr * growth_factor env)"
    and "\<forall>x w. fst (cp x w) = x"
    and "vector_create env cp dt df w = Inr (Some v, u)"
  shows "\<exists>v' t' w'. sstring_split env cp dt df d (Some t) w = Inr (v', Some t', w') \<and>
      sstring_to_cstr (Some t') = Inr (Some (takeWhile (\<lambda>c. c \<noteq> d) s)) \<and> ssize t' = length s"
proof -
  obtain v' t' w' where r: "sstring_split env cp dt df d (Some t) w = Inr (Some v', Some t', w')"
      "str t' = map (blank d) s @ [NUL]" "ssize t' = length s"
    using sstring_split_ok [OF assms, of d] by blast
  have "NUL \<notin> set x \<Longrightarrow> takeWhile (\<lambda>c. c \<noteq> NUL) (map (blank d) x @ [NUL]) = takeWhile (\<lambda>c. c \<noteq> d) x" for x
    by (induction x) (auto simp: blank_def)
  then have "takeWhile (\<lambda>c. c \<noteq> NUL) (map (blank d) s @ [NUL]) = takeWhile (\<lambda>c. c \<noteq> d) s"
    using assms(1) by (simp add: holds_text_def)
  then have "cstr (str t') 0 = Inr (takeWhile (\<lambda>c. c \<noteq> d) s)"
    using r(2) length_takeWhile_le [of "\<lambda>c. c \<noteq> d" s] by (simp add: cstr_def Let_def less_Suc_eq_le)
  then show ?thesis using r by (auto simp: sstring_to_cstr_def)
qed

lemma demo_string_vector:
  "vector_create demo_env (\<lambda>x w. (x, w)) (\<lambda>x w. w) (\<lambda>w. (None, w)) () =
     Inr (Some \<lparr>copy_constructor = (\<lambda>x w. (x, w)), destructor = (\<lambda>x w. w),
       default_constructor = (\<lambda>w. (None, w)), array = [None, None :: string option], vsize = 0, capacity = 2\<rparr>, ())"
proof -
  have "[0..<2] = [0, 1::nat]" "replicate 2 (None :: string option) = [None, None]" by (simp_all add: upt_rec numeral_2_eq_2)
  then show ?thesis
    by (simp add: vector_create_def demo_env_def malloc_slots_def sizeof_ptr_def default_slot_def)
qed

lemma demo_split_hyps:
  "holds_text ''a,b'' \<lparr>str = ''a,b'' @ [NUL], ssize = length ''a,b''\<rparr>"
  "malloc_never_fails demo_env" "2 \<le> growth_factor demo_env"
  "sizeof_ptr * initial_capacity demo_env < 2 ^ 64"
  "length ''a,b'' < (2 ^ 64 - 1) div (sizeof_ptr * growth_factor demo_env)"
  "\<forall>x w. fst ((x::string option), (w::unit)) = x"
  by (simp_all add: holds_text_def NUL_def malloc_never_fails_def demo_env_def sizeof_ptr_def)

theorem sstring_split_pieces_witness:
  "\<exists>v' t' w'. sstring_split demo_env (\<lambda>x w. (x, w)) (\<lambda>x w. w) (\<lambda>w. (None, w)) CHR '',''
      (cstr_to_sstring (Some ''a,b'')) () = Inr (Some v', t', w') \<and> contents v' = [Some ''a'', Some ''b'']"
  using sstring_split_pieces [OF demo_split_hyps demo_string_vector, of "CHR '',''"]
  by (auto simp: cstr_to_sstring_def split_on.simps)

theorem sstring_split_truncates_witness:
  "\<exists>v' t' w'. sstring_split demo_env (\<lambda>x w. (x, w)) (\<lambda>x w. w) (\<lambda>w. (None, w)) CHR '',''
      (cstr_to_sstring (Some ''a,b'')) () = Inr (v', Some t', w') \<and>
      sstring_to_cstr (Some t') = Inr (Some ''a'') \<and> ssize t' = 3"
  using sstring_split_truncates [OF demo_split_hyps demo_string_vector, of "CHR '',''"]
  by (simp add: cstr_to_sstring_def numeral_3_eq_3)

end
