(* ===== verification/CQueue.thy ===== *)
theory CQueue
  imports Prelude Interfaces
begin

text \<open>
  The bounded queue of \<open>critical_concurrency/queue.c\<close>: first the linked list under the lock, then
  the threads that use it.

  Nodes live in a heap, a map from addresses to nodes; freeing a node removes its address, and an
  access through an address that is not in the map is the fault \<open>Dangling\<close>. The addresses that
  \<open>malloc\<close> returns are arguments, a null pointer included. \<open>enqueue\<close> and \<open>dequeue\<close> are the critical sections of
  \<open>queue_push\<close> and \<open>queue_pull\<close> after their wait loops.
\<close>

section \<open>The linked list\<close>

record 'd queue_node =
  ndata :: 'd
  nnext :: "nat option"

record 'd queue =
  qhead :: "nat option"
  qtail :: "nat option"
  qsize :: int
  max_size :: int
  nodes :: "nat \<rightharpoonup> 'd queue_node"

definition deref :: "(nat \<rightharpoonup> 'n) \<Rightarrow> nat option \<Rightarrow> 'n outcome" where
  "deref h p = (case p of None \<Rightarrow> Inl Null_deref
     | Some a \<Rightarrow> (case h a of None \<Rightarrow> Inl Dangling | Some n \<Rightarrow> Inr n))"

definition queue_create :: "int \<Rightarrow> 'd queue" where
  "queue_create m = \<lparr>qhead = None, qtail = None, qsize = 0, max_size = m, nodes = Map.empty\<rparr>"

definition enqueue :: "nat option \<Rightarrow> 'd \<Rightarrow> 'd queue \<Rightarrow> 'd queue outcome" where
  "enqueue new_node d q =
     (let q = q\<lparr>qsize := qsize q + 1\<rparr> in
      case new_node of
        None \<Rightarrow> Inl Null_deref
      | Some a \<Rightarrow>
          (let q = q\<lparr>nodes := (nodes q)(a \<mapsto> \<lparr>ndata = d, nnext = None\<rparr>)\<rparr> in
           if qhead q = None then Inr (q\<lparr>qhead := Some a, qtail := Some a\<rparr>)
           else rbind (deref (nodes q) (qtail q)) (\<lambda>n.
             Inr (q\<lparr>nodes := (nodes q)(the (qtail q) \<mapsto> n\<lparr>nnext := Some a\<rparr>), qtail := Some a\<rparr>))))"

text \<open>The code does not look at the result of \<open>malloc\<close>: without memory a push faults.\<close>

lemma enqueue_without_memory: "enqueue None d q = Inl Null_deref"
  by (simp add: enqueue_def)

definition dequeue :: "'d queue \<Rightarrow> ('d \<times> 'd queue) outcome" where
  "dequeue q =
     (let q = q\<lparr>qsize := qsize q - 1\<rparr>; temp = qhead q in
      rbind (deref (nodes q) temp) (\<lambda>n.
        (let q = q\<lparr>qhead := nnext n\<rparr>;
             q = (if qhead q = None then q\<lparr>qtail := None\<rparr> else q)
         in Inr (ndata n, q\<lparr>nodes := (nodes q)(the temp := None)\<rparr>))))"

text \<open>The loop of \<open>queue_destroy\<close>; the first argument bounds the number of iterations.\<close>

fun free_nodes :: "nat \<Rightarrow> nat option \<Rightarrow> (nat \<rightharpoonup> 'd queue_node) \<Rightarrow> (nat \<rightharpoonup> 'd queue_node) outcome" where
  "free_nodes fuel None h = Inr h"
| "free_nodes 0 (Some a) h = Inl Diverges"
| "free_nodes (Suc fuel) (Some a) h =
     rbind (deref h (Some a)) (\<lambda>n. free_nodes fuel (nnext n) (h(a := None)))"

definition queue_destroy :: "nat \<Rightarrow> 'd queue \<Rightarrow> (nat \<rightharpoonup> 'd queue_node) outcome" where
  "queue_destroy fuel q = free_nodes fuel (qhead q) (nodes q)"

section \<open>Abstraction\<close>

fun chain :: "(nat \<rightharpoonup> 'd queue_node) \<Rightarrow> nat option \<Rightarrow> nat list \<Rightarrow> bool" where
  "chain h p [] \<longleftrightarrow> p = None"
| "chain h p (a # as) \<longleftrightarrow> p = Some a \<and> (\<exists>n. h a = Some n \<and> chain h (nnext n) as)"

fun walk :: "nat \<Rightarrow> (nat \<rightharpoonup> 'd queue_node) \<Rightarrow> nat option \<Rightarrow> 'd list" where
  "walk 0 h p = []"
| "walk (Suc k) h p = (case p of None \<Rightarrow> [] | Some a \<Rightarrow>
     (case h a of None \<Rightarrow> [] | Some n \<Rightarrow> ndata n # walk k h (nnext n)))"

definition queue_view :: "'d queue \<Rightarrow> 'd list" where
  "queue_view q = walk (nat (qsize q)) (nodes q) (qhead q)"

text \<open>
  The list is acyclic, the tail is its last node, the size is its length, and the heap holds its
  nodes and no others.
\<close>

definition queue_ok :: "'d queue \<Rightarrow> bool" where
  "queue_ok q \<longleftrightarrow> (\<exists>as. chain (nodes q) (qhead q) as \<and> distinct as \<and>
     qtail q = (if as = [] then None else Some (last as)) \<and>
     qsize q = int (length as) \<and> dom (nodes q) = set as)"

definition fresh_node :: "nat \<Rightarrow> 'd queue \<Rightarrow> bool" where
  "fresh_node a q \<longleftrightarrow> a \<notin> dom (nodes q)"

lemma chain_walk: "chain h p as \<Longrightarrow> walk (length as) h p = map (\<lambda>a. ndata (the (h a))) as"
  by (induction as arbitrary: p) auto

lemma chain_upd_other: "chain h p as \<Longrightarrow> a \<notin> set as \<Longrightarrow> chain (h(a := x)) p as"
  by (induction as arbitrary: p) auto

lemma chain_snoc:
  assumes "chain h p as" "distinct as" "a \<notin> set as" "as \<noteq> []" "h (last as) = Some n"
  shows "chain (h(a \<mapsto> \<lparr>ndata = d, nnext = None\<rparr>, last as \<mapsto> n\<lparr>nnext := Some a\<rparr>)) p (as @ [a])"
  using assms
proof (induction as arbitrary: p)
  case (Cons b bs)
  show ?case
  proof (cases "bs = []")
    case True
    then show ?thesis using Cons.prems by auto
  next
    case False
    then have "last bs \<in> set bs" by simp
    then have "last bs \<noteq> b" "b \<noteq> a" using Cons.prems by auto
    then show ?thesis using Cons.IH Cons.prems False by auto
  qed
qed simp

lemma queue_ok_view:
  assumes "chain (nodes q) (qhead q) as" "qsize q = int (length as)"
  shows "queue_view q = map (\<lambda>a. ndata (the (nodes q a))) as"
  using chain_walk [OF assms(1)] assms(2) by (simp add: queue_view_def)

lemma queue_ok_size: "queue_ok q \<Longrightarrow> qsize q = int (length (queue_view q))"
  by (auto simp: queue_ok_def queue_ok_view)

lemma chain_dom: "chain h p as \<Longrightarrow> set as \<subseteq> dom h"
  by (induction as arbitrary: p) auto

lemma enqueue_ok:
  assumes "queue_ok q" "fresh_node a q"
  shows "\<exists>q'. enqueue (Some a) d q = Inr q' \<and> queue_ok q' \<and> queue_view q' = queue_view q @ [d] \<and>
           max_size q' = max_size q"
proof -
  from assms(1) obtain as where as: "chain (nodes q) (qhead q) as" "distinct as"
      "qtail q = (if as = [] then None else Some (last as))" "qsize q = int (length as)" "dom (nodes q) = set as"
    by (auto simp: queue_ok_def)
  have a: "a \<notin> set as" using assms(2) as(5) by (simp add: fresh_node_def)
  show ?thesis
  proof (cases "as = []")
    case True
    let ?q = "q\<lparr>qhead := Some a, qtail := Some a, qsize := 1, nodes := (nodes q)(a \<mapsto> \<lparr>ndata = d, nnext = None\<rparr>)\<rparr>"
    have "enqueue (Some a) d q = Inr ?q" using True as by (simp add: enqueue_def)
    moreover have "queue_ok ?q" using True as(5) by (auto simp: queue_ok_def intro!: exI [of _ "[a]"])
    moreover have "queue_view ?q = [d]" "queue_view q = []"
      using queue_ok_view [OF as(1,4)] True by (simp_all add: queue_view_def)
    ultimately show ?thesis by simp
  next
    case False
    then have l: "last as \<in> set as" by simp
    then obtain n where n: "nodes q (last as) = Some n" using as(5) by blast
    let ?h = "(nodes q)(a \<mapsto> \<lparr>ndata = d, nnext = None\<rparr>, last as \<mapsto> n\<lparr>nnext := Some a\<rparr>)"
    let ?q = "q\<lparr>qtail := Some a, qsize := qsize q + 1, nodes := ?h\<rparr>"
    have "qhead q \<noteq> None" using as(1) False by (cases as) auto
    then have run: "enqueue (Some a) d q = Inr ?q" using False as(3) n a l
      by (auto simp: enqueue_def Let_def deref_def)
    have ch: "chain ?h (qhead q) (as @ [a])" using chain_snoc [OF as(1,2) a False n] .
    have "dom ?h = set (as @ [a])" using as(5) l by auto
    then have "queue_ok ?q" unfolding queue_ok_def
      using ch as(2,4) a by (intro exI [of _ "as @ [a]"]) simp
    moreover have "queue_view ?q = map (\<lambda>b. ndata (the (?h b))) (as @ [a])"
      using ch as(4) by (subst queue_ok_view [where as = "as @ [a]"]) simp_all
    moreover have "\<dots> = queue_view q @ [d]"
      using queue_ok_view [OF as(1,4)] a l n by auto
    ultimately show ?thesis using run by simp
  qed
qed

lemma dequeue_ok:
  assumes "queue_ok q" "queue_view q = d # ds"
  shows "\<exists>q'. dequeue q = Inr (d, q') \<and> queue_ok q' \<and> queue_view q' = ds \<and> max_size q' = max_size q"
proof -
  from assms(1) obtain as where as: "chain (nodes q) (qhead q) as" "distinct as"
      "qtail q = (if as = [] then None else Some (last as))" "qsize q = int (length as)" "dom (nodes q) = set as"
    by (auto simp: queue_ok_def)
  have view: "queue_view q = map (\<lambda>a. ndata (the (nodes q a))) as" by (rule queue_ok_view [OF as(1,4)])
  then obtain a bs where ab: "as = a # bs" using assms(2) by (cases as) auto
  then obtain n where n: "nodes q a = Some n" "chain (nodes q) (nnext n) bs" "qhead q = Some a" using as(1) by auto
  let ?q = "q\<lparr>qhead := nnext n, qtail := (if nnext n = None then None else qtail q), qsize := qsize q - 1,
              nodes := (nodes q)(a := None)\<rparr>"
  have run: "dequeue q = Inr (ndata n, ?q)" using n by (simp add: dequeue_def deref_def Let_def)
  have notin: "a \<notin> set bs" using as(2) ab by simp
  have ch: "chain ((nodes q)(a := None)) (nnext n) bs" by (rule chain_upd_other [OF n(2) notin])
  have nn: "nnext n = None \<longleftrightarrow> bs = []" using n(2) by (cases bs) auto
  have "dom ((nodes q)(a := None)) = set bs" using as(5) ab notin by auto
  then have "queue_ok ?q" unfolding queue_ok_def
    using ch as(2-4) ab nn by (intro exI [of _ bs]) simp
  moreover have "queue_view ?q = map (\<lambda>b. ndata (the (((nodes q)(a := None)) b))) bs"
    using ch as(4) ab by (subst queue_ok_view [where as = bs]) simp_all
  moreover have "\<dots> = ds" using assms(2) view ab notin by (auto intro!: map_cong)
  moreover have "ndata n = d" using assms(2) view ab n(1) by simp
  ultimately show ?thesis using run by auto
qed

interpretation cq: fifo_queue "\<lambda>a. enqueue (Some a)" dequeue queue_view queue_ok fresh_node
proof
  fix q :: "'a queue" and a d
  assume "queue_ok q" "fresh_node a q"
  then show "\<exists>q'. enqueue (Some a) d q = Inr q' \<and> queue_ok q' \<and> queue_view q' = queue_view q @ [d]"
    using enqueue_ok [of q a d] by blast
next
  fix q :: "'a queue" and d ds
  assume "queue_ok q" "queue_view q = d # ds"
  then show "\<exists>q'. dequeue q = Inr (d, q') \<and> queue_ok q' \<and> queue_view q' = ds"
    using dequeue_ok [of q d ds] by blast
qed

lemma free_nodes_ok:
  "chain h p as \<Longrightarrow> distinct as \<Longrightarrow> length as \<le> fuel \<Longrightarrow> free_nodes fuel p h = Inr (h |` (- set as))"
proof (induction as arbitrary: p h fuel)
  case (Cons a as)
  then obtain n k where n: "p = Some a" "h a = Some n" "chain h (nnext n) as" "fuel = Suc k"
    by (cases fuel) auto
  then have "free_nodes k (nnext n) (h(a := None)) = Inr ((h(a := None)) |` (- set as))"
    using Cons.prems by (intro Cons.IH chain_upd_other) auto
  moreover have "(h(a := None)) |` (- set as) = h |` (- set (a # as))"
    by (auto simp: restrict_map_def)
  ultimately show ?case using n by (simp add: deref_def)
qed (simp add: restrict_map_def)

end
