(* ===== verification/Monitor.thy ===== *)
theory Monitor
  imports Interfaces
begin

text \<open>
  Threads that synchronise with one mutex and one condition variable, as the queue, the semaphore
  and the barrier of \<open>critical_concurrency/\<close> do.

  A call runs under the mutex from its lock to its unlock, except while it sleeps in
  \<open>pthread_cond_wait\<close>, which gives the mutex up; so the steps of such a system are the stretches
  between those points. A thread is about to test its wait condition (\<open>Ready\<close>, on entry and after
  each wake-up), asleep on the condition variable (\<open>Waiting\<close>), or not in a call (\<open>Returned\<close>).
  \<open>pthread_cond_signal\<close> wakes one of the sleeping threads, whichever, if there is one;
  \<open>pthread_cond_broadcast\<close> wakes them all. POSIX also lets a sleeper wake up for no reason.
\<close>

datatype 'c pc = Ready 'c | Waiting 'c | Returned

definition is_waiting :: "'c pc \<Rightarrow> bool" where
  "is_waiting p = (case p of Waiting _ \<Rightarrow> True | _ \<Rightarrow> False)"

definition woken :: "'c pc \<Rightarrow> 'c pc" where
  "woken p = (case p of Waiting c \<Rightarrow> Ready c | _ \<Rightarrow> p)"

definition cond_signal :: "'c pc list \<Rightarrow> 'c pc list \<Rightarrow> bool" where
  "cond_signal ps ps' \<longleftrightarrow>
     (if \<exists>p \<in> set ps. is_waiting p
      then \<exists>j < length ps. is_waiting (ps ! j) \<and> ps' = ps[j := woken (ps ! j)]
      else ps' = ps)"

definition cond_broadcast :: "'c pc list \<Rightarrow> 'c pc list" where
  "cond_broadcast ps = map woken ps"

lemma is_waiting_simps [simp]:
  "is_waiting (Waiting c)" "\<not> is_waiting (Ready c)" "\<not> is_waiting Returned"
  by (simp_all add: is_waiting_def)

lemma woken_simps [simp]:
  "woken (Waiting c) = Ready c" "woken (Ready c) = Ready c" "woken Returned = Returned"
  by (simp_all add: woken_def)

lemma is_waiting_iff: "is_waiting p \<longleftrightarrow> (\<exists>c. p = Waiting c)"
  by (cases p) simp_all

lemma woken_not_waiting [simp]: "woken p \<noteq> Waiting c" "\<not> is_waiting (woken p)"
  by (cases p; simp)+

lemma woken_eq [simp]:
  "woken p = Returned \<longleftrightarrow> p = Returned"
  "woken p = Ready c \<longleftrightarrow> p = Ready c \<or> p = Waiting c"
  by (cases p; auto)+

lemma cond_signal_exists: "\<exists>ps'. cond_signal ps ps'"
proof (cases "\<exists>p \<in> set ps. is_waiting p")
  case True
  then obtain j where "j < length ps" "is_waiting (ps ! j)" by (auto simp: in_set_conv_nth)
  then show ?thesis using True unfolding cond_signal_def by auto
qed (simp add: cond_signal_def)

lemma cond_signalI:
  "j < length ps \<Longrightarrow> is_waiting (ps ! j) \<Longrightarrow> ps' = ps[j := woken (ps ! j)] \<Longrightarrow> cond_signal ps ps'"
  by (auto simp: cond_signal_def)

lemma count_list_upd:
  "i < length xs \<Longrightarrow> int (count_list (xs[i := y]) x) =
     int (count_list xs x) - (if xs ! i = x then 1 else 0) + (if y = x then 1 else 0)"
proof (induction xs arbitrary: i)
  case (Cons z xs)
  show ?case
  proof (cases i)
    case 0
    then show ?thesis by simp
  next
    case (Suc k)
    then show ?thesis using Cons.IH [of k] Cons.prems by (auto split: if_splits)
  qed
qed simp

lemma set_upd_Waiting:
  "Waiting c \<in> set (ps[i := p]) \<Longrightarrow> p \<noteq> Waiting c \<Longrightarrow> Waiting c \<in> set ps"
  using set_update_subset_insert [of ps i p] by auto

section \<open>Condition variables on which calls of one kind sleep\<close>

definition only_waits :: "'c \<Rightarrow> 'c pc list \<Rightarrow> bool" where
  "only_waits c ps \<longleftrightarrow> (\<forall>b. Waiting b \<in> set ps \<longrightarrow> b = c)"

definition awake :: "'c \<Rightarrow> 'c pc list \<Rightarrow> int" where
  "awake c ps = int (count_list ps (Ready c))"

lemma awake_upd:
  "i < length ps \<Longrightarrow> awake c (ps[i := p]) =
     awake c ps - (if ps ! i = Ready c then 1 else 0) + (if p = Ready c then 1 else 0)"
  by (simp add: awake_def count_list_upd)

lemma awake_nonneg [simp]: "0 \<le> awake c ps"
  by (simp add: awake_def)

lemma awake_pos: "0 < awake c ps \<longleftrightarrow> Ready c \<in> set ps"
  by (metis awake_def count_list_0_iff of_nat_0_less_iff zero_less_iff_neq_zero)

lemma awake_pos_nth: "i < length ps \<Longrightarrow> ps ! i = Ready c \<Longrightarrow> 0 < awake c ps"
  by (metis awake_pos nth_mem)

lemma only_waits_upd: "only_waits c ps \<Longrightarrow> (\<And>b. p = Waiting b \<Longrightarrow> b = c) \<Longrightarrow> only_waits c (ps[i := p])"
  using set_update_subset_insert [of ps i p] by (fastforce simp: only_waits_def)

lemma only_waits_nth: "only_waits c ps \<Longrightarrow> i < length ps \<Longrightarrow> is_waiting (ps ! i) \<Longrightarrow> ps ! i = Waiting c"
  by (metis is_waiting_iff nth_mem only_waits_def)

text \<open>A signal wakes one more caller, or nobody was asleep.\<close>

lemma cond_signal_awake:
  assumes "cond_signal ps ps'" "only_waits c ps"
  shows "only_waits c ps'"
    and "Waiting c \<in> set ps' \<Longrightarrow> Waiting c \<in> set ps \<and> awake c ps' = awake c ps + 1"
proof -
  consider (quiet) "ps' = ps" "Waiting c \<notin> set ps"
    | (wake) j where "j < length ps" "ps ! j = Waiting c" "ps' = ps[j := Ready c]"
  proof (cases "\<exists>p \<in> set ps. is_waiting p")
    case True
    then obtain j where j: "j < length ps" "is_waiting (ps ! j)" "ps' = ps[j := woken (ps ! j)]"
      using assms(1) by (auto simp: cond_signal_def)
    then show ?thesis using that(2) [of j] only_waits_nth [OF assms(2) j(1,2)] by simp
  next
    case False
    then show ?thesis using assms(1) that(1) by (auto simp: cond_signal_def is_waiting_iff)
  qed
  note cases = this
  show "only_waits c ps'" using assms(2) by (cases rule: cases) (auto intro: only_waits_upd)
  show "Waiting c \<in> set ps \<and> awake c ps' = awake c ps + 1" if "Waiting c \<in> set ps'"
    using that by (cases rule: cases) (auto simp: awake_upd dest: set_upd_Waiting)
qed

end
