(* ===== verification/CQueue_Threads.thy ===== *)
theory CQueue_Threads
  imports CQueue Monitor
begin

text \<open>
  Threads in \<open>queue_push\<close> and \<open>queue_pull\<close> of \<open>critical_concurrency/queue.c\<close>.

  The steps of the system are the stretches between the points at which a thread gives up the
  mutex \<open>m\<close> (theory \<open>Monitor\<close>). The lists \<open>pushed\<close> and \<open>pulled\<close> record the
  data of the completed calls, in order.
\<close>

datatype 'd qcall = Push 'd | Pull

type_synonym 'd qpc = "'d qcall pc"

record 'd qsys =
  cqueue :: "'d queue"
  pcs :: "'d qpc list"
  pushed :: "'d list"
  pulled :: "'d list"

definition queue_full :: "'d queue \<Rightarrow> bool" where
  "queue_full q \<longleftrightarrow> max_size q > 0 \<and> qsize q \<ge> max_size q"

text \<open>One thread runs from its test of the wait condition to its sleep or its return.\<close>

inductive qstep :: "'d qsys \<Rightarrow> 'd qsys \<Rightarrow> bool" where
  push_wait: "i < length (pcs s) \<Longrightarrow> pcs s ! i = Ready (Push d) \<Longrightarrow> queue_full (cqueue s) \<Longrightarrow>
    qstep s (s\<lparr>pcs := (pcs s)[i := Waiting (Push d)]\<rparr>)"
| push: "i < length (pcs s) \<Longrightarrow> pcs s ! i = Ready (Push d) \<Longrightarrow> \<not> queue_full (cqueue s) \<Longrightarrow>
    fresh_node a (cqueue s) \<Longrightarrow> enqueue (Some a) d (cqueue s) = Inr q' \<Longrightarrow>
    cond_signal ((pcs s)[i := Returned]) ps \<Longrightarrow>
    qstep s (s\<lparr>cqueue := q', pcs := ps, pushed := pushed s @ [d]\<rparr>)"
| pull_wait: "i < length (pcs s) \<Longrightarrow> pcs s ! i = Ready Pull \<Longrightarrow> qsize (cqueue s) = 0 \<Longrightarrow>
    qstep s (s\<lparr>pcs := (pcs s)[i := Waiting Pull]\<rparr>)"
| pull: "i < length (pcs s) \<Longrightarrow> pcs s ! i = Ready Pull \<Longrightarrow> qsize (cqueue s) \<noteq> 0 \<Longrightarrow>
    dequeue (cqueue s) = Inr (d, q') \<Longrightarrow> cond_signal ((pcs s)[i := Returned]) ps \<Longrightarrow>
    qstep s (s\<lparr>cqueue := q', pcs := ps, pulled := pulled s @ [d]\<rparr>)"

text \<open>What the rest of the program and the thread library may do: start a call, wake a sleeper.\<close>

inductive qenv :: "'d qsys \<Rightarrow> 'd qsys \<Rightarrow> bool" where
  call: "i < length (pcs s) \<Longrightarrow> pcs s ! i = Returned \<Longrightarrow> qenv s (s\<lparr>pcs := (pcs s)[i := Ready c]\<rparr>)"
| spurious: "i < length (pcs s) \<Longrightarrow> is_waiting (pcs s ! i) \<Longrightarrow>
    qenv s (s\<lparr>pcs := (pcs s)[i := woken (pcs s ! i)]\<rparr>)"

definition qinit :: "int \<Rightarrow> 'd qsys \<Rightarrow> bool" where
  "qinit m s \<longleftrightarrow> cqueue s = queue_create m \<and> pushed s = [] \<and> pulled s = [] \<and>
     (\<forall>p \<in> set (pcs s). \<not> is_waiting p)"

definition qnext :: "'d qsys \<Rightarrow> 'd qsys \<Rightarrow> bool" where
  "qnext s t \<longleftrightarrow> qstep s t \<or> qenv s t"

section \<open>The contents\<close>

definition qinv :: "int \<Rightarrow> 'd qsys \<Rightarrow> bool" where
  "qinv m s \<longleftrightarrow> queue_ok (cqueue s) \<and> max_size (cqueue s) = m \<and>
     (m > 0 \<longrightarrow> qsize (cqueue s) \<le> m) \<and> pulled s @ queue_view (cqueue s) = pushed s"

lemma queue_create_ok: "queue_ok (queue_create m)" "queue_view (queue_create m) = []"
  by (auto simp: queue_ok_def queue_create_def queue_view_def intro!: exI [of _ "[]"])

lemma qinv_init: "qinit m s \<Longrightarrow> qinv m s"
  using queue_create_ok [of m] by (simp add: qinit_def qinv_def) (simp add: queue_create_def)

lemma queue_ok_nonempty:
  assumes "queue_ok q" "qsize q \<noteq> 0"
  obtains d ds where "queue_view q = d # ds"
  using assms queue_ok_size [OF assms(1)] by (cases "queue_view q") auto

lemma qinv_step: "qstep s t \<Longrightarrow> qinv m s \<Longrightarrow> qinv m t"
proof (induction rule: qstep.induct)
  case (push i s d a q' ps)
  then obtain q2 where q2: "enqueue (Some a) d (cqueue s) = Inr q2" "queue_ok q2"
      "queue_view q2 = queue_view (cqueue s) @ [d]" "max_size q2 = max_size (cqueue s)"
    using enqueue_ok [of "cqueue s" a d] by (auto simp: qinv_def)
  then have "q' = q2" using push.hyps by simp
  moreover have "qsize q2 = qsize (cqueue s) + 1"
    using queue_ok_size [OF q2(2)] queue_ok_size [of "cqueue s"] q2(3) push.prems by (simp add: qinv_def)
  ultimately show ?case using push.prems push.hyps(3) q2
    by (auto simp: qinv_def queue_full_def)
next
  case (pull i s d q' ps)
  then obtain e ds where v: "queue_view (cqueue s) = e # ds"
    by (auto simp: qinv_def elim: queue_ok_nonempty)
  then obtain q2 where q2: "dequeue (cqueue s) = Inr (e, q2)" "queue_ok q2" "queue_view q2 = ds"
      "max_size q2 = max_size (cqueue s)"
    using dequeue_ok [of "cqueue s" e ds] pull.prems by (auto simp: qinv_def)
  then have eq: "q' = q2" "d = e" using pull.hyps by simp_all
  moreover have "qsize q2 = qsize (cqueue s) - 1"
    using queue_ok_size [OF q2(2)] queue_ok_size [of "cqueue s"] q2(3) v pull.prems by (simp add: qinv_def)
  ultimately show ?case using pull.prems v q2 by (auto simp: qinv_def)
qed (simp_all add: qinv_def)

lemma qinv_env: "qenv s t \<Longrightarrow> qinv m s \<Longrightarrow> qinv m t"
  by (induction rule: qenv.induct) (simp_all add: qinv_def)

interpretation qsys: state_machine "qinit m" qnext "qinv m" for m
  using qinv_init qinv_step qinv_env by unfold_locales (auto simp: qnext_def)

lemma fresh_node_exists: "queue_ok q \<Longrightarrow> \<exists>a. fresh_node a q"
  by (auto simp: queue_ok_def fresh_node_def) (metis List.finite_set ex_new_if_finite infinite_UNIV_nat)

text \<open>A thread about to test its condition can always run on: no critical section faults.\<close>

lemma ready_runs:
  assumes "qinv m s" "i < length (pcs s)" "pcs s ! i = Ready c"
  shows "\<exists>t. qstep s t"
proof (cases c)
  case (Push d)
  show ?thesis
  proof (cases "queue_full (cqueue s)")
    case True
    then show ?thesis using qstep.push_wait [of i s d] assms Push by auto
  next
    case False
    obtain a where a: "fresh_node a (cqueue s)" using fresh_node_exists assms(1) by (auto simp: qinv_def)
    then obtain q' where e: "enqueue (Some a) d (cqueue s) = Inr q'"
      using enqueue_ok [of "cqueue s" a d] assms(1) by (auto simp: qinv_def)
    obtain ps where "cond_signal ((pcs s)[i := Returned]) ps" using cond_signal_exists by blast
    then show ?thesis using qstep.push [OF assms(2) _ False a e] assms(3) Push by blast
  qed
next
  case Pull
  show ?thesis
  proof (cases "qsize (cqueue s) = 0")
    case True
    then show ?thesis using qstep.pull_wait [of i s] assms Pull by auto
  next
    case False
    have ok: "queue_ok (cqueue s)" using assms(1) by (simp add: qinv_def)
    then obtain d ds where v: "queue_view (cqueue s) = d # ds" using False by (elim queue_ok_nonempty)
    then obtain q' where e: "dequeue (cqueue s) = Inr (d, q')" using dequeue_ok [OF ok v] by blast
    obtain ps where "cond_signal ((pcs s)[i := Returned]) ps" using cond_signal_exists by blast
    then show ?thesis using qstep.pull [OF assms(2) _ False e] assms(3) Pull by blast
  qed
qed

section \<open>Wake-ups of an unbounded queue\<close>

definition wake_inv :: "'d qsys \<Rightarrow> bool" where
  "wake_inv s \<longleftrightarrow> only_waits Pull (pcs s) \<and>
     (Waiting Pull \<in> set (pcs s) \<longrightarrow> qsize (cqueue s) \<le> awake Pull (pcs s))"

lemma wake_inv_step:
  assumes "qstep s t" "qinv m s" "m \<le> 0" "wake_inv s"
  shows "wake_inv t"
  using assms
proof (induction rule: qstep.induct)
  case (push_wait i s d)
  then show ?case by (simp add: qinv_def queue_full_def)
next
  case (push i s d a q' ps)
  let ?ps = "(pcs s)[i := Returned]"
  have only: "only_waits Pull ?ps" using push.prems by (auto simp: wake_inv_def intro: only_waits_upd)
  obtain q2 where q2: "enqueue (Some a) d (cqueue s) = Inr q2" "queue_ok q2" "queue_view q2 = queue_view (cqueue s) @ [d]"
    using enqueue_ok [of "cqueue s" a d] push.hyps(4) push.prems(1) by (auto simp: qinv_def)
  have "qsize q' = qsize (cqueue s) + 1"
    using queue_ok_size [OF q2(2)] queue_ok_size [of "cqueue s"] q2 push.prems(1) push.hyps(5) by (simp add: qinv_def)
  moreover have "awake Pull ?ps = awake Pull (pcs s)" using push.hyps(1,2) by (simp add: awake_upd)
  ultimately show ?case using cond_signal_awake [OF push.hyps(6) only] push.prems(3)
    by (auto simp: wake_inv_def dest: set_upd_Waiting)
next
  case (pull_wait i s)
  then show ?case by (auto simp: wake_inv_def intro: only_waits_upd)
next
  case (pull i s d q' ps)
  let ?ps = "(pcs s)[i := Returned]"
  have only: "only_waits Pull ?ps" using pull.prems by (auto simp: wake_inv_def intro: only_waits_upd)
  have ok: "queue_ok (cqueue s)" using pull.prems(1) by (simp add: qinv_def)
  obtain e ds where v: "queue_view (cqueue s) = e # ds" using ok pull.hyps(3) by (elim queue_ok_nonempty)
  obtain q2 where q2: "dequeue (cqueue s) = Inr (e, q2)" "queue_ok q2" "queue_view q2 = ds"
    using dequeue_ok [OF ok v] by blast
  have "qsize q' = qsize (cqueue s) - 1"
    using queue_ok_size [OF q2(2)] queue_ok_size [OF ok] v q2 pull.hyps(4) by simp
  moreover have "awake Pull ?ps = awake Pull (pcs s) - 1" using pull.hyps(1,2) by (simp add: awake_upd)
  ultimately show ?case using cond_signal_awake [OF pull.hyps(5) only] pull.prems(3)
    by (auto simp: wake_inv_def dest: set_upd_Waiting)
qed

lemma wake_inv_env: "qenv s t \<Longrightarrow> wake_inv s \<Longrightarrow> wake_inv t"
proof (induction rule: qenv.induct)
  case (call i s c)
  then show ?case by (auto simp: wake_inv_def awake_upd intro: only_waits_upd dest!: set_upd_Waiting)
next
  case (spurious i s)
  then have "pcs s ! i = Waiting Pull" by (auto simp: wake_inv_def only_waits_nth)
  with spurious show ?case by (auto simp: wake_inv_def awake_upd intro: only_waits_upd dest!: set_upd_Waiting)
qed

definition unbounded_inv :: "int \<Rightarrow> 'd qsys \<Rightarrow> bool" where
  "unbounded_inv m s \<longleftrightarrow> qinv m s \<and> (m \<le> 0 \<longrightarrow> wake_inv s)"

interpretation unbounded: state_machine "qinit m" qnext "unbounded_inv m" for m
proof
  fix s :: "'a qsys"
  assume "qinit m s"
  then show "unbounded_inv m s"
    using qinv_init by (fastforce simp: unbounded_inv_def wake_inv_def only_waits_def qinit_def)
next
  fix s t :: "'a qsys"
  assume "unbounded_inv m s" "qnext s t"
  then show "unbounded_inv m t"
    using qinv_step qinv_env wake_inv_step wake_inv_env by (auto simp: unbounded_inv_def qnext_def)
qed

section \<open>Properties\<close>

text \<open>
  C4: In every state that any number of threads can reach, in whatever order they run and whoever
  is woken, the data pulled so far followed by the data in the queue is the data pushed so far, in
  order; a bounded queue never holds more than its maximum; and no thread's critical section
  faults: a thread about to test its condition has a step. The \<open>malloc\<close> of a push is taken to succeed (without
  memory \<open>queue_push\<close> writes through null).
\<close>

theorem queue_threads_fifo:
  assumes "qinit m s" "qnext\<^sup>*\<^sup>* s t"
  shows "pulled t @ queue_view (cqueue t) = pushed t \<and>
         (m > 0 \<longrightarrow> int (length (queue_view (cqueue t))) \<le> m) \<and>
         (\<forall>i c. i < length (pcs t) \<and> pcs t ! i = Ready c \<longrightarrow> (\<exists>u. qstep t u))"
proof -
  have inv: "qinv m t" using assms by (rule qsys.reachable_inv)
  then have "queue_ok (cqueue t)" by (simp add: qinv_def)
  then have "qsize (cqueue t) = int (length (queue_view (cqueue t)))" by (rule queue_ok_size)
  then show ?thesis using inv ready_runs [OF inv] unfolding qinv_def by auto
qed

definition demo_qsys :: "'d qpc list \<Rightarrow> 'd qsys" where
  "demo_qsys ps = \<lparr>cqueue = queue_create 1, pcs = ps, pushed = [], pulled = []\<rparr>"

theorem queue_threads_fifo_witness:
  "pulled (demo_qsys [Waiting Pull :: nat qpc]) @ queue_view (cqueue (demo_qsys [Waiting Pull :: nat qpc])) = []"
proof -
  have i: "qinit 1 (demo_qsys [Ready Pull :: nat qpc])"
    by (simp add: qinit_def demo_qsys_def is_waiting_def)
  have "qstep (demo_qsys [Ready Pull :: nat qpc]) ((demo_qsys [Ready Pull])\<lparr>pcs := (pcs (demo_qsys [Ready Pull]))[0 := Waiting Pull]\<rparr>)"
    by (rule qstep.pull_wait) (simp_all add: demo_qsys_def queue_create_def)
  then have "qnext\<^sup>*\<^sup>* (demo_qsys [Ready Pull :: nat qpc]) (demo_qsys [Waiting Pull])"
    by (intro r_into_rtranclp) (simp add: qnext_def demo_qsys_def)
  from queue_threads_fifo [OF i this] show ?thesis by (simp add: demo_qsys_def)
qed

text \<open>
  C32: An unbounded queue (\<open>max_size\<close> not positive, as the job queues of the other programs are
  created) loses no wake-up: in every reachable state in which the queue holds data and a puller
  sleeps, some puller is awake and about to take an element.
\<close>

theorem unbounded_queue_no_lost_wakeup:
  assumes "qinit m s" "qnext\<^sup>*\<^sup>* s t" "m \<le> 0"
    and "queue_view (cqueue t) \<noteq> []" "Waiting Pull \<in> set (pcs t)"
  shows "Ready Pull \<in> set (pcs t) \<and> (\<exists>u. qstep t u)"
proof -
  have inv: "unbounded_inv m t" using assms(1,2) by (rule unbounded.reachable_inv)
  then have q: "qinv m t" "wake_inv t" using assms(3) by (simp_all add: unbounded_inv_def)
  then have "qsize (cqueue t) = int (length (queue_view (cqueue t)))"
    by (intro queue_ok_size) (simp add: qinv_def)
  moreover have "0 < length (queue_view (cqueue t))" using assms(4) by simp
  ultimately have "0 < awake Pull (pcs t)" using q(2) assms(5) unfolding wake_inv_def by linarith
  then have "Ready Pull \<in> set (pcs t)" by (simp add: awake_pos)
  moreover then obtain i where "i < length (pcs t)" "pcs t ! i = Ready Pull" by (auto simp: in_set_conv_nth)
  ultimately show ?thesis using ready_runs [OF q(1)] by blast
qed

section \<open>One condition variable for both sides\<close>

abbreviation qstate :: "'d queue \<Rightarrow> 'd qpc list \<Rightarrow> 'd list \<Rightarrow> 'd list \<Rightarrow> 'd qsys" where
  "qstate q ps pu pl \<equiv> \<lparr>cqueue = q, pcs = ps, pushed = pu, pulled = pl\<rparr>"

definition one_element :: "int \<Rightarrow> nat queue" where
  "one_element m = \<lparr>qhead = Some 7, qtail = Some 7, qsize = 1, max_size = m,
     nodes = [7 \<mapsto> \<lparr>ndata = 1, nnext = None\<rparr>]\<rparr>"

lemmas thread_state_defs = queue_full_def is_waiting_def woken_def fresh_node_def enqueue_def
  dequeue_def deref_def queue_create_def one_element_def queue_view_def Let_def

text \<open>Two pullers sleep on the empty queue, then the first push wakes the first of them.\<close>

lemma two_pullers_then_push:
  "qstep\<^sup>*\<^sup>* (qstate (queue_create m) [Ready Pull, Ready Pull, Ready (Push 1), Ready (Push 2)] [] [])
     (qstate (one_element m) [Ready Pull, Waiting Pull, Returned, Ready (Push 2)] [1] [])"
proof -
  let ?q = "queue_create m :: nat queue"
  have s0: "qstep (qstate ?q [Ready Pull, Ready Pull, Ready (Push 1), Ready (Push 2)] [] [])
      (qstate ?q [Waiting Pull, Ready Pull, Ready (Push 1), Ready (Push 2)] [] [])"
    using qstep.pull_wait [of 0 "qstate ?q [Ready Pull, Ready Pull, Ready (Push 1), Ready (Push 2)] [] []"]
    by (simp add: thread_state_defs)
  have s1: "qstep (qstate ?q [Waiting Pull, Ready Pull, Ready (Push 1), Ready (Push 2)] [] [])
      (qstate ?q [Waiting Pull, Waiting Pull, Ready (Push 1), Ready (Push 2)] [] [])"
    using qstep.pull_wait [of 1 "qstate ?q [Waiting Pull, Ready Pull, Ready (Push 1), Ready (Push 2)] [] []"]
    by (simp add: thread_state_defs)
  have signal: "cond_signal [Waiting Pull, Waiting Pull, Returned, Ready (Push 2)]
      [Ready Pull, Waiting Pull, Returned, Ready (Push (2::nat))]"
    by (rule cond_signalI [of 0]) (simp_all add: thread_state_defs)
  have s2: "qstep (qstate ?q [Waiting Pull, Waiting Pull, Ready (Push 1), Ready (Push 2)] [] [])
      (qstate (one_element m) [Ready Pull, Waiting Pull, Returned, Ready (Push 2)] [1] [])"
    using qstep.push [of 2 "qstate ?q [Waiting Pull, Waiting Pull, Ready (Push 1), Ready (Push 2)] [] []" 1 7
        "one_element m"] signal by (simp add: thread_state_defs)
  from s0 s1 s2 show ?thesis by (meson converse_rtranclp_into_rtranclp rtranclp.rtrancl_refl)
qed

text \<open>On a queue of size one, the second pusher goes to sleep, and the next signal wakes a puller.\<close>

lemma signal_wakes_puller:
  "qstep\<^sup>*\<^sup>* (qstate (one_element 1) [Ready Pull, Waiting Pull, Returned, Ready (Push 2)] [1] [])
     (qstate (queue_create 1) [Returned, Waiting Pull, Returned, Waiting (Push 2)] [1] [1])"
proof -
  have s3: "qstep (qstate (one_element 1) [Ready Pull, Waiting Pull, Returned, Ready (Push 2)] [1] [])
      (qstate (one_element 1) [Ready Pull, Waiting Pull, Returned, Waiting (Push 2)] [1] [])"
    using qstep.push_wait [of 3 "qstate (one_element 1) [Ready Pull, Waiting Pull, Returned, Ready (Push 2)] [1] []" 2]
    by (simp add: thread_state_defs)
  have signal: "cond_signal [Returned, Waiting Pull, Returned, Waiting (Push 2)]
      [Returned, Ready Pull, Returned, Waiting (Push (2::nat))]"
    by (rule cond_signalI [of 1]) (simp_all add: thread_state_defs)
  have s4: "qstep (qstate (one_element 1) [Ready Pull, Waiting Pull, Returned, Waiting (Push 2)] [1] [])
      (qstate (queue_create 1) [Returned, Ready Pull, Returned, Waiting (Push 2)] [1] [1])"
    using qstep.pull [of 0 "qstate (one_element 1) [Ready Pull, Waiting Pull, Returned, Waiting (Push 2)] [1] []" 1
        "queue_create 1"] signal by (simp add: thread_state_defs)
  have s5: "qstep (qstate (queue_create 1) [Returned, Ready Pull, Returned, Waiting (Push 2)] [1] [1 :: nat])
      (qstate (queue_create 1) [Returned, Waiting Pull, Returned, Waiting (Push 2)] [1] [1])"
    using qstep.pull_wait [of 1 "qstate (queue_create 1) [Returned, Ready Pull, Returned, Waiting (Push 2)] [1] [1 :: nat]"]
    by (simp add: thread_state_defs)
  from s3 s4 s5 show ?thesis by (meson converse_rtranclp_into_rtranclp rtranclp.rtrancl_refl)
qed

lemma demo_qinit:
  "qinit m (qstate (queue_create m) [Ready Pull, Ready Pull, Ready (Push 1), Ready (Push (2 :: nat))] [] [])"
  by (simp add: qinit_def is_waiting_def)

inductive_cases qstepE: "qstep s u"

lemma no_ready_no_step: "(\<And>c. Ready c \<notin> set (pcs s)) \<Longrightarrow> \<not> qstep s u"
  by (fastforce elim: qstepE dest: nth_mem)


text \<open>
  C33: A bounded queue can lose a wake-up. With one condition variable for both sides and one
  signal per operation, two pullers and two pushers on a queue of size one reach a state in which
  the queue is empty, a pusher and a puller sleep, nobody else is in a call, and no thread has a
  step: the pusher that could go on is never woken by the code.
\<close>

theorem bounded_queue_lost_wakeup:
  "\<exists>s t :: nat qsys. qinit 1 s \<and> qstep\<^sup>*\<^sup>* s t \<and> queue_view (cqueue t) = [] \<and> \<not> queue_full (cqueue t) \<and>
     Waiting (Push 2) \<in> set (pcs t) \<and> Waiting Pull \<in> set (pcs t) \<and> (\<forall>u. \<not> qstep t u)"
proof -
  let ?t = "qstate (queue_create 1) [Returned, Waiting Pull, Returned, Waiting (Push 2)] [1] [1 :: nat]"
  have "\<not> qstep ?t u" for u by (rule no_ready_no_step) simp
  moreover have "queue_view (cqueue ?t) = []" "\<not> queue_full (cqueue ?t)" by (simp_all add: thread_state_defs)
  ultimately show ?thesis
    using demo_qinit [of 1] rtranclp_trans [OF two_pullers_then_push [of 1] signal_wakes_puller]
    by (intro exI [of _ "qstate (queue_create 1)
          [Ready Pull, Ready Pull, Ready (Push 1), Ready (Push 2)] [] []"] exI [of _ ?t]) simp
qed

theorem unbounded_queue_no_lost_wakeup_witness:
  "Ready Pull \<in> set [Ready Pull, Waiting Pull, Returned, Ready (Push (2::nat))] \<and>
   (\<exists>u. qstep (qstate (one_element 0) [Ready Pull, Waiting Pull, Returned, Ready (Push 2)] [1] []) u)"
proof -
  have "qnext\<^sup>*\<^sup>* (qstate (queue_create 0) [Ready Pull, Ready Pull, Ready (Push 1), Ready (Push 2)] [] [])
      (qstate (one_element 0) [Ready Pull, Waiting Pull, Returned, Ready (Push 2)] [1] [])"
    using two_pullers_then_push [of 0] by (rule mono_rtranclp [rule_format, rotated]) (simp add: qnext_def)
  from unbounded_queue_no_lost_wakeup [OF demo_qinit this] show ?thesis
    by (simp add: thread_state_defs)
qed

end
