(* ===== verification/Semamore.thy ===== *)
theory Semamore
  imports Monitor
begin

text \<open>
  \<open>critical_concurrency/semamore.c\<close>: a counting semaphore with a maximum.

  The mutex and the condition variable are the monitor of theory \<open>Monitor\<close>; what is left of the
  structure is the value and the maximum, C \<open>int\<close>s. Under the invariant proved here the value stays
  between zero and the maximum, so neither \<open>++\<close> nor \<open>--\<close> can overflow. \<open>acquired\<close> counts the
  waits that returned, \<open>posted\<close> the posts that raised the value.
\<close>

record semm =
  val :: int
  max_val :: int

definition semm_init :: "int \<Rightarrow> int \<Rightarrow> semm" where
  "semm_init v m = \<lparr>val = v, max_val = m\<rparr>"

datatype semm_call = Sem_wait | Sem_post

record semm_sys =
  sem :: semm
  spcs :: "semm_call pc list"
  acquired :: nat
  posted :: nat

inductive semm_step :: "semm_sys \<Rightarrow> semm_sys \<Rightarrow> bool" where
  wait_sleep: "i < length (spcs s) \<Longrightarrow> spcs s ! i = Ready Sem_wait \<Longrightarrow> val (sem s) = 0 \<Longrightarrow>
    semm_step s (s\<lparr>spcs := (spcs s)[i := Waiting Sem_wait]\<rparr>)"
| wait: "i < length (spcs s) \<Longrightarrow> spcs s ! i = Ready Sem_wait \<Longrightarrow> val (sem s) \<noteq> 0 \<Longrightarrow>
    semm_step s (s\<lparr>sem := (sem s)\<lparr>val := val (sem s) - 1\<rparr>, spcs := (spcs s)[i := Returned],
      acquired := Suc (acquired s)\<rparr>)"
| post: "i < length (spcs s) \<Longrightarrow> spcs s ! i = Ready Sem_post \<Longrightarrow> val (sem s) < max_val (sem s) \<Longrightarrow>
    cond_signal (spcs s) ps \<Longrightarrow>
    semm_step s (s\<lparr>sem := (sem s)\<lparr>val := val (sem s) + 1\<rparr>, spcs := ps[i := Returned],
      posted := Suc (posted s)\<rparr>)"
| post_full: "i < length (spcs s) \<Longrightarrow> spcs s ! i = Ready Sem_post \<Longrightarrow>
    \<not> val (sem s) < max_val (sem s) \<Longrightarrow> semm_step s (s\<lparr>spcs := (spcs s)[i := Returned]\<rparr>)"

inductive semm_env :: "semm_sys \<Rightarrow> semm_sys \<Rightarrow> bool" where
  call: "i < length (spcs s) \<Longrightarrow> spcs s ! i = Returned \<Longrightarrow>
    semm_env s (s\<lparr>spcs := (spcs s)[i := Ready c]\<rparr>)"
| spurious: "i < length (spcs s) \<Longrightarrow> is_waiting (spcs s ! i) \<Longrightarrow>
    semm_env s (s\<lparr>spcs := (spcs s)[i := woken (spcs s ! i)]\<rparr>)"

definition semm_next :: "semm_sys \<Rightarrow> semm_sys \<Rightarrow> bool" where
  "semm_next s t \<longleftrightarrow> semm_step s t \<or> semm_env s t"

definition semm_start :: "int \<Rightarrow> int \<Rightarrow> semm_sys \<Rightarrow> bool" where
  "semm_start v m s \<longleftrightarrow> sem s = semm_init v m \<and> acquired s = 0 \<and> posted s = 0 \<and>
     (\<forall>p \<in> set (spcs s). \<not> is_waiting p)"

inductive_cases semm_stepE: "semm_step s t"

section \<open>The invariant\<close>

definition semm_inv :: "int \<Rightarrow> int \<Rightarrow> semm_sys \<Rightarrow> bool" where
  "semm_inv v m s \<longleftrightarrow> max_val (sem s) = m \<and>
     (0 \<le> v \<and> v \<le> m \<longrightarrow> 0 \<le> val (sem s) \<and> val (sem s) \<le> m) \<and>
     val (sem s) = v + int (posted s) - int (acquired s) \<and>
     only_waits Sem_wait (spcs s) \<and>
     (Waiting Sem_wait \<in> set (spcs s) \<longrightarrow> val (sem s) \<le> awake Sem_wait (spcs s))"

lemma semm_inv_start: "semm_start v m s \<Longrightarrow> semm_inv v m s"
  by (fastforce simp: semm_start_def semm_inv_def semm_init_def only_waits_def)

lemma cond_signal_nth:
  "cond_signal ps ps' \<Longrightarrow> i < length ps \<Longrightarrow> \<not> is_waiting (ps ! i) \<Longrightarrow> ps' ! i = ps ! i \<and> length ps' = length ps"
  by (auto simp: cond_signal_def nth_list_update split: if_splits)

lemma semm_inv_step: "semm_step s t \<Longrightarrow> semm_inv v m s \<Longrightarrow> semm_inv v m t"
proof (induction rule: semm_step.induct)
  case (post i s ps)
  have only: "only_waits Sem_wait (spcs s)" using post.prems by (simp add: semm_inv_def)
  have i: "ps ! i = Ready Sem_post" "i < length ps"
    using cond_signal_nth [OF post.hyps(4,1)] post.hyps(1,2) by simp_all
  then show ?case using cond_signal_awake [OF post.hyps(4) only] post
    by (auto simp: semm_inv_def awake_upd intro: only_waits_upd dest!: set_upd_Waiting)
qed (auto simp: semm_inv_def awake_upd intro: only_waits_upd dest!: set_upd_Waiting dest: awake_pos_nth)

lemma semm_inv_env: "semm_env s t \<Longrightarrow> semm_inv v m s \<Longrightarrow> semm_inv v m t"
proof (induction rule: semm_env.induct)
  case (spurious i s)
  then have "spcs s ! i = Waiting Sem_wait" by (auto simp: semm_inv_def only_waits_nth)
  with spurious show ?case by (auto simp: semm_inv_def awake_upd intro: only_waits_upd dest!: set_upd_Waiting)
qed (auto simp: semm_inv_def awake_upd intro: only_waits_upd dest!: set_upd_Waiting)

interpretation semaphore: state_machine "semm_start v m" semm_next "semm_inv v m" for v m
  using semm_inv_start semm_inv_step semm_inv_env by unfold_locales (auto simp: semm_next_def)

section \<open>Properties\<close>

text \<open>
  C13: In every state that any number of threads can reach on a semaphore initialised within its
  bounds, the value is between zero and the maximum and equals the initial value plus the posts
  that raised it minus the waits that returned, so the waits that returned are never more than
  the initial value plus the posts; and if the value is positive while a thread sleeps in
  \<open>semm_wait\<close>, another is awake and about to take it: no wake-up is lost. Nobody ever sleeps in
  \<open>semm_post\<close>: at the maximum it returns without raising the value, where its comment says that it
  should block.
\<close>

theorem semaphore_bounds_and_wakeups:
  assumes "semm_start v m s" "semm_next\<^sup>*\<^sup>* s t" "0 \<le> v" "v \<le> m"
  shows "0 \<le> val (sem t) \<and> val (sem t) \<le> m \<and>
         val (sem t) = v + int (posted t) - int (acquired t) \<and>
         (0 < val (sem t) \<and> Waiting Sem_wait \<in> set (spcs t) \<longrightarrow> Ready Sem_wait \<in> set (spcs t)) \<and>
         Waiting Sem_post \<notin> set (spcs t)"
proof -
  have inv: "semm_inv v m t" using assms(1,2) by (rule semaphore.reachable_inv)
  moreover have "Waiting Sem_post \<notin> set (spcs t)" using inv by (auto simp: semm_inv_def only_waits_def)
  moreover have "Ready Sem_wait \<in> set (spcs t)" if "0 < val (sem t)" "Waiting Sem_wait \<in> set (spcs t)"
    using that inv awake_pos [of Sem_wait "spcs t"] by (simp add: semm_inv_def)
  ultimately show ?thesis using assms(3,4) by (simp add: semm_inv_def)
qed

theorem semaphore_bounds_and_wakeups_witness:
  "val (sem \<lparr>sem = \<lparr>val = 0, max_val = 1\<rparr>, spcs = [Returned, Ready Sem_wait], acquired = 1, posted = 0\<rparr>)
     = 1 + 0 - 1"
proof -
  let ?s = "\<lparr>sem = semm_init 1 1, spcs = [Ready Sem_wait, Ready Sem_wait], acquired = 0, posted = 0\<rparr>"
  let ?t = "\<lparr>sem = \<lparr>val = 0, max_val = 1\<rparr>, spcs = [Returned, Ready Sem_wait], acquired = 1, posted = 0\<rparr>"
  have "semm_start 1 1 ?s" by (simp add: semm_start_def)
  moreover have "semm_step ?s ?t"
    using semm_step.wait [of 0 ?s] by (simp add: semm_init_def)
  then have "semm_next\<^sup>*\<^sup>* ?s ?t" by (intro r_into_rtranclp) (simp add: semm_next_def)
  ultimately show ?thesis using semaphore_bounds_and_wakeups [of 1 1 ?s ?t] by simp
qed

end
