(* ===== verification/Barrier.thy ===== *)
theory Barrier
  imports Monitor
begin

text \<open>
  \<open>critical_concurrency/barrier.c\<close>: a reusable barrier.

  The counters are \<open>unsigned int\<close>, so \<open>times_used\<close> wraps round; each thread remembers the value it
  saw on entry (\<open>Recheck\<close>) and sleeps until it changes. Every thread enters under \<open>Enter\<close>. The
  lists \<open>arrived\<close> and \<open>left\<close> count, for each thread, its entries into and its returns from
  \<open>barrier_wait\<close>.
\<close>

unbundle bit_operations_syntax

record barrier =
  n_threads :: "32 word"
  bcount :: "32 word"
  times_used :: "32 word"

text \<open>\<open>barrier_init\<close>: the null pointer is the absent barrier; the initialised one with the result code.\<close>

definition barrier_init :: "barrier option \<Rightarrow> 32 word \<Rightarrow> int \<times> barrier option" where
  "barrier_init b num_threads =
     (if num_threads = 0 \<or> b = None then (-1, b)
      else (0, Some \<lparr>n_threads = num_threads, bcount = 0, times_used = 0\<rparr>))"

text \<open>\<open>barrier_destroy\<close>; the arguments are what the two destructors of the thread library return.\<close>

definition barrier_destroy :: "int \<Rightarrow> int \<Rightarrow> barrier \<Rightarrow> int" where
  "barrier_destroy mutex_rc cond_rc b =
     (if times_used b \<noteq> 0 then -1 else if mutex_rc \<noteq> 0 then -1 else if cond_rc \<noteq> 0 then -1 else 0)"

datatype barrier_call = Enter | Recheck "32 word"

record barrier_sys =
  bar :: barrier
  bpcs :: "barrier_call pc list"
  arrived :: "nat list"
  left :: "nat list"

definition bump :: "nat list \<Rightarrow> nat \<Rightarrow> nat list" where
  "bump xs i = xs[i := Suc (xs ! i)]"

inductive barrier_step :: "barrier_sys \<Rightarrow> barrier_sys \<Rightarrow> bool" where
  last: "i < length (bpcs s) \<Longrightarrow> bpcs s ! i = Ready Enter \<Longrightarrow>
    bcount (bar s) + 1 = n_threads (bar s) \<Longrightarrow>
    barrier_step s (s\<lparr>bar := (bar s)\<lparr>bcount := 0, times_used := times_used (bar s) + 1\<rparr>,
      bpcs := (cond_broadcast (bpcs s))[i := Returned],
      arrived := bump (arrived s) i, left := bump (left s) i\<rparr>)"
| sleep: "i < length (bpcs s) \<Longrightarrow> bpcs s ! i = Ready Enter \<Longrightarrow>
    bcount (bar s) + 1 \<noteq> n_threads (bar s) \<Longrightarrow>
    barrier_step s (s\<lparr>bar := (bar s)\<lparr>bcount := bcount (bar s) + 1\<rparr>,
      bpcs := (bpcs s)[i := Waiting (Recheck (times_used (bar s)))],
      arrived := bump (arrived s) i\<rparr>)"
| again: "i < length (bpcs s) \<Longrightarrow> bpcs s ! i = Ready (Recheck u) \<Longrightarrow> u = times_used (bar s) \<Longrightarrow>
    barrier_step s (s\<lparr>bpcs := (bpcs s)[i := Waiting (Recheck u)]\<rparr>)"
| leave: "i < length (bpcs s) \<Longrightarrow> bpcs s ! i = Ready (Recheck u) \<Longrightarrow> u \<noteq> times_used (bar s) \<Longrightarrow>
    barrier_step s (s\<lparr>bpcs := (bpcs s)[i := Returned], left := bump (left s) i\<rparr>)"

inductive barrier_env :: "barrier_sys \<Rightarrow> barrier_sys \<Rightarrow> bool" where
  call: "i < length (bpcs s) \<Longrightarrow> bpcs s ! i = Returned \<Longrightarrow>
    barrier_env s (s\<lparr>bpcs := (bpcs s)[i := Ready Enter]\<rparr>)"
| spurious: "i < length (bpcs s) \<Longrightarrow> is_waiting (bpcs s ! i) \<Longrightarrow>
    barrier_env s (s\<lparr>bpcs := (bpcs s)[i := woken (bpcs s ! i)]\<rparr>)"

definition barrier_next :: "barrier_sys \<Rightarrow> barrier_sys \<Rightarrow> bool" where
  "barrier_next s t \<longleftrightarrow> barrier_step s t \<or> barrier_env s t"

text \<open>As many threads use the barrier as it was initialised for.\<close>

definition barrier_start :: "barrier_sys \<Rightarrow> bool" where
  "barrier_start s \<longleftrightarrow> (\<exists>n b. length (bpcs s) = unat n \<and> barrier_init (Some b) n = (0, Some (bar s))) \<and>
     bpcs s = replicate (length (bpcs s)) Returned \<and>
     arrived s = replicate (length (bpcs s)) 0 \<and> left s = replicate (length (bpcs s)) 0"

section \<open>The invariant\<close>

text \<open>
  The state of one thread in round \<open>r\<close>: outside, it has passed all \<open>r\<close> rounds; inside and counted,
  it waits for the current round to end; inside and not counted, it is on its way out of the last
  round and cannot be asleep.
\<close>

definition counted :: "32 word \<Rightarrow> barrier_call pc \<Rightarrow> bool" where
  "counted u p \<longleftrightarrow> p = Ready (Recheck u) \<or> p = Waiting (Recheck u)"

definition thread_ok :: "nat \<Rightarrow> barrier_call pc \<Rightarrow> nat \<Rightarrow> nat \<Rightarrow> bool" where
  "thread_ok r p a l \<longleftrightarrow>
     (p = Returned \<or> p = Ready Enter) \<and> a = r \<and> l = r \<or>
     counted (of_nat r) p \<and> a = Suc r \<and> l = r \<or>
     (\<exists>k. r = Suc k \<and> p = Ready (Recheck (of_nat k)) \<and> a = r \<and> l = k)"

definition n_counted :: "32 word \<Rightarrow> barrier_call pc list \<Rightarrow> nat" where
  "n_counted u ps = length (filter (counted u) ps)"

definition barrier_inv :: "nat \<Rightarrow> barrier_sys \<Rightarrow> bool" where
  "barrier_inv r s \<longleftrightarrow>
     length (arrived s) = length (bpcs s) \<and> length (left s) = length (bpcs s) \<and>
     unat (n_threads (bar s)) = length (bpcs s) \<and> times_used (bar s) = of_nat r \<and>
     unat (bcount (bar s)) = n_counted (of_nat r) (bpcs s) \<and>
     n_counted (of_nat r) (bpcs s) < length (bpcs s) \<and>
     (\<forall>i < length (bpcs s). thread_ok r (bpcs s ! i) (arrived s ! i) (left s ! i))"

lemma of_nat_Suc_neq [simp]: "(1 + of_nat k :: 32 word) \<noteq> of_nat k" "(of_nat k :: 32 word) \<noteq> 1 + of_nat k"
  by auto

lemma counted_simps [simp]:
  "counted u (Ready c) \<longleftrightarrow> c = Recheck u" "counted u (Waiting c) \<longleftrightarrow> c = Recheck u" "\<not> counted u Returned"
  by (auto simp: counted_def)

lemma n_counted_upd:
  "i < length ps \<Longrightarrow> int (n_counted u (ps[i := p])) =
     int (n_counted u ps) - (if counted u (ps ! i) then 1 else 0) + (if counted u p then 1 else 0)"
proof (induction ps arbitrary: i)
  case (Cons z ps)
  show ?case
  proof (cases i)
    case 0
    then show ?thesis by (simp add: n_counted_def)
  next
    case (Suc k)
    then show ?thesis using Cons.IH [of k] Cons.prems by (auto simp: n_counted_def split: if_splits)
  qed
qed simp

text \<open>When all threads but one are counted, every other is.\<close>

lemma all_counted:
  assumes "Suc (n_counted u ps) = length ps" "i < length ps" "\<not> counted u (ps ! i)"
    and "j < length ps" "j \<noteq> i"
  shows "counted u (ps ! j)"
proof (rule ccontr)
  let ?C = "{k. k < length ps \<and> counted u (ps ! k)}"
  assume "\<not> counted u (ps ! j)"
  then have "?C \<subseteq> {..<length ps} - {i, j}" using assms(3) by auto
  then have "card ?C \<le> card ({..<length ps} - {i, j})" by (intro card_mono) auto
  also have "\<dots> = length ps - 2" using assms by (subst card_Diff_subset) auto
  finally show False using assms(1,2,4,5) by (simp add: n_counted_def length_filter_conv_card)
qed

lemma barrier_inv_start: "barrier_start s \<Longrightarrow> \<exists>r. barrier_inv r s"
proof -
  assume a: "barrier_start s"
  define n where "n = length (bpcs s)"
  have p: "bpcs s = replicate n Returned" "arrived s = replicate n 0" "left s = replicate n 0"
    using a by (simp_all add: barrier_start_def n_def)
  obtain m b where m: "n = unat m" "barrier_init (Some b) m = (0, Some (bar s))"
    using a by (auto simp: barrier_start_def n_def)
  then have "m \<noteq> 0" "bar s = \<lparr>n_threads = m, bcount = 0, times_used = 0\<rparr>"
    by (auto simp: barrier_init_def split: if_splits)
  then have "barrier_inv 0 s" using m(1)
    by (simp add: unat_gt_0 barrier_inv_def thread_ok_def n_counted_def p)
  then show ?thesis ..
qed

lemma bump_simps [simp]: "length (bump xs i) = length xs"
  "k < length xs \<Longrightarrow> bump xs i ! k = (if k = i then Suc (xs ! i) else xs ! k)"
  by (auto simp: bump_def)

lemma no_wrap: "unat (c :: 32 word) < unat (d :: 32 word) \<Longrightarrow> unat (c + 1) = Suc (unat c)"
  using unsigned_less [of d, where ?'a = nat] by (simp add: unat_word_ariths)

lemma barrier_inv_last:
  assumes "i < length (bpcs s)" "bpcs s ! i = Ready Enter" "bcount (bar s) + 1 = n_threads (bar s)"
    and "barrier_inv r s"
  shows "barrier_inv (Suc r) (s\<lparr>bar := (bar s)\<lparr>bcount := 0, times_used := times_used (bar s) + 1\<rparr>,
      bpcs := (cond_broadcast (bpcs s))[i := Returned],
      arrived := bump (arrived s) i, left := bump (left s) i\<rparr>)" (is "barrier_inv _ ?t")
proof -
  let ?n = "length (bpcs s)"
  have inv: "length (arrived s) = ?n" "length (left s) = ?n" "unat (n_threads (bar s)) = ?n"
    "times_used (bar s) = of_nat r" "unat (bcount (bar s)) = n_counted (of_nat r) (bpcs s)"
    "n_counted (of_nat r) (bpcs s) < ?n"
    "\<And>k. k < ?n \<Longrightarrow> thread_ok r (bpcs s ! k) (arrived s ! k) (left s ! k)"
    using assms(4) by (simp_all add: barrier_inv_def)
  have "unat (bcount (bar s) + 1) = Suc (unat (bcount (bar s)))" using inv by (intro no_wrap [of _ "n_threads (bar s)"]) simp
  then have full: "Suc (n_counted (of_nat r) (bpcs s)) = ?n" using inv assms(3) by simp
  have others: "counted (of_nat r) (bpcs s ! k)" if "k < ?n" "k \<noteq> i" for k
    using all_counted [OF full assms(1) _ that] assms(2) by simp
  have shape: "bpcs ?t ! k = (if k = i then Returned else Ready (Recheck (of_nat r)))" if "k < ?n" for k
    using others [OF that] that by (auto simp: cond_broadcast_def nth_list_update counted_def)
  have "thread_ok (Suc r) (bpcs ?t ! k) (arrived ?t ! k) (left ?t ! k)" if "k < ?n" for k
    using inv(1,2) inv(7) [OF that] others [OF that] assms(2) shape [OF that] that
    by (auto simp: thread_ok_def counted_def)
  moreover have "n_counted (of_nat (Suc r)) (bpcs ?t) = 0"
  proof -
    have "\<not> counted (of_nat (Suc r)) p" if p: "p \<in> set (bpcs ?t)" for p
    proof -
      obtain k where "k < ?n" "p = bpcs ?t ! k"
        using p by (auto simp: in_set_conv_nth cond_broadcast_def)
      then show ?thesis using shape [of k] by (simp del: barrier_sys.simps)
    qed
    then show ?thesis by (simp add: n_counted_def filter_empty_conv del: barrier_sys.simps)
  qed
  ultimately show ?thesis using inv assms(1) by (auto simp: barrier_inv_def cond_broadcast_def)
qed

lemma barrier_inv_sleep:
  assumes "i < length (bpcs s)" "bpcs s ! i = Ready Enter" "bcount (bar s) + 1 \<noteq> n_threads (bar s)"
    and "barrier_inv r s"
  shows "barrier_inv r (s\<lparr>bar := (bar s)\<lparr>bcount := bcount (bar s) + 1\<rparr>,
      bpcs := (bpcs s)[i := Waiting (Recheck (times_used (bar s)))], arrived := bump (arrived s) i\<rparr>)"
proof -
  have "unat (bcount (bar s) + 1) = Suc (unat (bcount (bar s)))"
    using assms(4) by (intro no_wrap [of _ "n_threads (bar s)"]) (simp add: barrier_inv_def)
  moreover from this have "Suc (unat (bcount (bar s))) \<noteq> length (bpcs s)"
    using assms(3,4) unfolding barrier_inv_def by (metis word_unat_eq_iff)
  ultimately show ?thesis
    using assms(1,2,4) n_counted_upd [OF assms(1), of "of_nat r" "Waiting (Recheck (of_nat r))"]
    by (auto simp: barrier_inv_def nth_list_update thread_ok_def)
qed

lemma barrier_inv_local:
  assumes "i < length (bpcs s)" "barrier_inv r s" "counted (of_nat r) p \<longleftrightarrow> counted (of_nat r) (bpcs s ! i)"
    and "thread_ok r p (arrived s ! i) l"
  shows "barrier_inv r (s\<lparr>bpcs := (bpcs s)[i := p], left := (left s)[i := l]\<rparr>)"
  using assms n_counted_upd [OF assms(1), of "of_nat r" p]
  by (auto simp: barrier_inv_def nth_list_update split: if_splits)

lemma barrier_inv_step: "barrier_step s t \<Longrightarrow> barrier_inv r s \<Longrightarrow> \<exists>r'. barrier_inv r' t"
proof (induction rule: barrier_step.induct)
  case (last i s)
  then show ?case by (blast intro: barrier_inv_last)
next
  case (sleep i s)
  then show ?case by (blast intro: barrier_inv_sleep)
next
  case (again i s u)
  then have "barrier_inv r (s\<lparr>bpcs := (bpcs s)[i := Waiting (Recheck u)], left := (left s)[i := left s ! i]\<rparr>)"
    by (intro barrier_inv_local) (auto simp: barrier_inv_def thread_ok_def counted_def)
  then show ?case by auto
next
  case (leave i s u)
  then have "barrier_inv r (s\<lparr>bpcs := (bpcs s)[i := Returned], left := (left s)[i := Suc (left s ! i)]\<rparr>)"
    by (intro barrier_inv_local) (auto simp: barrier_inv_def thread_ok_def counted_def)
  then show ?case by (auto simp: bump_def)
qed

lemma barrier_inv_env: "barrier_env s t \<Longrightarrow> barrier_inv r s \<Longrightarrow> barrier_inv r t"
proof (induction rule: barrier_env.induct)
  case (call i s)
  then have "barrier_inv r (s\<lparr>bpcs := (bpcs s)[i := Ready Enter], left := (left s)[i := left s ! i]\<rparr>)"
    by (intro barrier_inv_local) (auto simp: barrier_inv_def thread_ok_def counted_def)
  then show ?case by simp
next
  case (spurious i s)
  then have "barrier_inv r (s\<lparr>bpcs := (bpcs s)[i := woken (bpcs s ! i)], left := (left s)[i := left s ! i]\<rparr>)"
    by (intro barrier_inv_local) (auto simp: barrier_inv_def thread_ok_def counted_def is_waiting_iff)
  then show ?case by simp
qed

interpretation rounds: state_machine barrier_start barrier_next "\<lambda>s. \<exists>r. barrier_inv r s"
  by unfold_locales (auto simp: barrier_next_def intro: barrier_inv_start barrier_inv_env barrier_inv_step)

section \<open>Properties\<close>

text \<open>
  C6: The barrier is safe for ever, and across the wrap-around of its counter, when as many threads
  use it as it was initialised for: no thread has returned from its \<open>k\<close>-th wait before every
  thread has entered its \<open>k\<close>-th; no thread is more than one round ahead; and it does not
  deadlock: when every thread is in a call, one of them is awake and has a step.
\<close>

theorem barrier_rounds:
  assumes "barrier_start s" "barrier_next\<^sup>*\<^sup>* s t"
  shows "(\<forall>i < length (bpcs t). \<forall>j < length (bpcs t).
            left t ! i \<le> arrived t ! j \<and> arrived t ! i \<le> Suc (arrived t ! j)) \<and>
         (Returned \<notin> set (bpcs t) \<longrightarrow> (\<exists>u. barrier_step t u))"
proof -
  obtain r where inv: "barrier_inv r t" using assms by (blast dest: rounds.reachable_inv)
  let ?n = "length (bpcs t)"
  have ok: "thread_ok r (bpcs t ! i) (arrived t ! i) (left t ! i)" if "i < ?n" for i
    using inv that by (simp add: barrier_inv_def)
  have "left t ! i \<le> r \<and> r \<le> arrived t ! i \<and> arrived t ! i \<le> Suc r" if "i < ?n" for i
    using ok [OF that] by (auto simp: thread_ok_def)
  then have bounds: "left t ! i \<le> arrived t ! j \<and> arrived t ! i \<le> Suc (arrived t ! j)" if "i < ?n" "j < ?n" for i j
    using that by (meson Suc_le_mono le_trans)
  have "\<exists>u. barrier_step t u" if inside: "Returned \<notin> set (bpcs t)"
  proof -
    have "filter (counted (of_nat r)) (bpcs t) \<noteq> bpcs t"
      using inv by (auto simp: barrier_inv_def n_counted_def)
    then obtain i where i: "i < ?n" "\<not> counted (of_nat r) (bpcs t ! i)"
      by (metis filter_True in_set_conv_nth)
    then have "bpcs t ! i \<noteq> Returned" using inside nth_mem by metis
    then consider "bpcs t ! i = Ready Enter" | k where "r = Suc k" "bpcs t ! i = Ready (Recheck (of_nat k))"
      using ok [OF i(1)] i(2) by (auto simp: thread_ok_def)
    then show ?thesis
    proof cases
      case 1
      then show ?thesis using barrier_step.last [OF i(1)] barrier_step.sleep [OF i(1)] by blast
    next
      case 2
      then have "(of_nat k :: 32 word) \<noteq> times_used (bar t)" using inv by (simp add: barrier_inv_def)
      then show ?thesis using barrier_step.leave [OF i(1)] 2 by blast
    qed
  qed
  then show ?thesis using bounds by blast
qed

theorem barrier_rounds_witness:
  "left \<lparr>bar = \<lparr>n_threads = 1, bcount = 0, times_used = 1\<rparr>, bpcs = [Returned], arrived = [1], left = [1]\<rparr> ! 0
   \<le> arrived \<lparr>bar = \<lparr>n_threads = 1, bcount = 0, times_used = 1\<rparr>, bpcs = [Returned], arrived = [1], left = [1]\<rparr> ! 0"
proof -
  let ?b = "\<lparr>n_threads = 1, bcount = 0, times_used = 0\<rparr>"
  let ?s = "\<lparr>bar = ?b, bpcs = [Returned], arrived = [0], left = [0]\<rparr>"
  let ?e = "\<lparr>bar = ?b, bpcs = [Ready Enter], arrived = [0], left = [0]\<rparr>"
  let ?t = "\<lparr>bar = ?b\<lparr>times_used := 1\<rparr>, bpcs = [Returned], arrived = [1], left = [1]\<rparr>"
  have "barrier_start ?s" by (auto simp: barrier_start_def barrier_init_def intro!: exI [of _ 1])
  moreover have "barrier_next ?s ?e"
    using barrier_env.call [of 0 ?s] by (simp add: barrier_next_def)
  moreover have "barrier_next ?e ?t"
    using barrier_step.last [of 0 ?e] by (simp add: barrier_next_def bump_def cond_broadcast_def)
  then have "barrier_next\<^sup>*\<^sup>* ?e ?t" by blast
  ultimately show ?thesis using barrier_rounds [of ?s ?t] by (simp add: converse_rtranclp_into_rtranclp)
qed

text \<open>
  Once all the threads are out again after \<open>k\<close> waits each, \<open>barrier_destroy\<close> succeeds only if
  \<open>k\<close> is a multiple of \<open>2^32\<close>: it refuses a barrier that has been used, whose mutex and condition
  variable are then never destroyed.
\<close>

theorem barrier_destroy_after_use:
  assumes "barrier_start s" "barrier_next\<^sup>*\<^sup>* s t" "set (bpcs t) = {Returned}" "arrived t ! 0 = k"
  shows "barrier_destroy 0 0 (bar t) = (if 2 ^ 32 dvd k then 0 else -1)"
proof -
  obtain r where inv: "barrier_inv r t" using assms(1,2) by (blast dest: rounds.reachable_inv)
  have n: "0 < length (bpcs t)" using assms(3) by (cases "bpcs t") auto
  then have "bpcs t ! 0 = Returned" using assms(3) nth_mem by blast
  then have "k = r" using inv n assms(4) by (auto simp: barrier_inv_def thread_ok_def)
  moreover have "(of_nat r :: 32 word) = 0 \<longleftrightarrow> 2 ^ 32 dvd r" by (simp add: word_of_nat_eq_0_iff)
  ultimately show ?thesis using inv by (simp add: barrier_inv_def barrier_destroy_def)
qed

theorem barrier_destroy_after_use_witness:
  "barrier_destroy 0 0 \<lparr>n_threads = 1, bcount = 0, times_used = 0\<rparr> = 0"
proof -
  let ?s = "\<lparr>bar = \<lparr>n_threads = 1, bcount = 0, times_used = 0\<rparr>, bpcs = [Returned], arrived = [0], left = [0]\<rparr>"
  have "barrier_start ?s" by (auto simp: barrier_start_def barrier_init_def intro!: exI [of _ 1])
  then show ?thesis using barrier_destroy_after_use [of ?s ?s 0] by simp
qed

end
