(* ===== verification/Malloc.thy ===== *)
theory Malloc
  imports Interfaces
begin

text \<open>
  \<open>malloc/alloc.c\<close>: an allocator on top of \<open>sbrk\<close>, with one header before each block.

  Addresses and \<open>size_t\<close> values are natural numbers below \<open>2^64\<close>, with the wrap-around of C written
  out (\<open>add64\<close>, \<open>sub64\<close>); the null pointer is 0. Memory has two views: the headers the allocator
  wrote (\<open>meta\<close>) and the bytes of the user (\<open>bytes\<close>, \<open>None\<close> where the content is
  indeterminate). A write through one view makes what it overlaps in the other indeterminate, so a
  header that was overwritten is read as a fault and a byte that a header covers is lost.

  \<open>sbrk\<close> belongs to the operating system: \<open>grant\<close> says whether it agrees to move the break that is
  now at the first argument by the second one. Only the allocator moves the break. The loops over
  the block list have fuel, which runs out (\<open>Diverges\<close>) when the list is cyclic.
\<close>

record metadata =
  msize :: nat
  mnext :: nat
  mprev :: nat
  mfree :: bool

record heap =
  meta :: "nat \<rightharpoonup> metadata"
  bytes :: "nat \<rightharpoonup> nat"
  head :: nat
  tail :: nat
  brk :: nat
  total_memory_use :: nat

record alloc_env =
  grant :: "nat \<Rightarrow> int \<Rightarrow> bool"
  fuel :: nat

definition add64 :: "nat \<Rightarrow> nat \<Rightarrow> nat" where
  "add64 a b = (a + b) mod 2 ^ 64"

definition sub64 :: "nat \<Rightarrow> nat \<Rightarrow> nat" where
  "sub64 a b = (a + (2 ^ 64 - b)) mod 2 ^ 64"

definition metadata_size :: nat where
  "metadata_size = 32"

definition INITIAL_HEAP_SIZE :: nat where
  "INITIAL_HEAP_SIZE = 256 * 1024 * 1024"

definition MAX_HEAP_SIZE :: nat where
  "MAX_HEAP_SIZE = 2500 * 1024 * 1024"

definition align_to :: nat where
  "align_to = 8"

text \<open>\<open>size + (align_to - 1) & ~ (align_to - 1)\<close>: the sum first, then the low bits are cleared.\<close>

definition align_size :: "nat \<Rightarrow> nat" where
  "align_size sz = add64 sz (align_to - 1) div align_to * align_to"

section \<open>Memory\<close>

definition get_header :: "nat \<Rightarrow> heap \<Rightarrow> metadata outcome" where
  "get_header a h = (if a = 0 then Inl Null_deref
     else case meta h a of None \<Rightarrow> Inl Dangling | Some m \<Rightarrow> Inr m)"

definition clear_headers :: "nat \<Rightarrow> nat \<Rightarrow> (nat \<rightharpoonup> metadata) \<Rightarrow> (nat \<rightharpoonup> metadata)" where
  "clear_headers a n m = (\<lambda>x. if x < a + n \<and> a < x + metadata_size then None else m x)"

definition wipe_bytes :: "nat \<Rightarrow> (nat \<rightharpoonup> nat) \<Rightarrow> (nat \<rightharpoonup> nat)" where
  "wipe_bytes a b = (\<lambda>x. if a \<le> x \<and> x < a + metadata_size then None else b x)"

definition put_header :: "nat \<Rightarrow> metadata \<Rightarrow> heap \<Rightarrow> heap outcome" where
  "put_header a m h =
     (if a = 0 then Inl Null_deref
      else if brk h < a + metadata_size then Inl Out_of_bounds
      else Inr (h\<lparr>meta := (clear_headers a metadata_size (meta h))(a := Some m),
                  bytes := wipe_bytes a (bytes h)\<rparr>))"

definition upd_header :: "nat \<Rightarrow> (metadata \<Rightarrow> metadata) \<Rightarrow> heap \<Rightarrow> heap outcome" where
  "upd_header a f h = rbind (get_header a h) (\<lambda>m. put_header a (f m) h)"

text \<open>The user, \<open>memset\<close> and \<open>memcpy\<close> write bytes.\<close>

definition put_bytes_at :: "nat \<Rightarrow> nat option list \<Rightarrow> heap \<Rightarrow> heap outcome" where
  "put_bytes_at a vs h =
     (if a = 0 then Inl Null_deref
      else if brk h < a + length vs then Inl Out_of_bounds
      else Inr (h\<lparr>meta := clear_headers a (length vs) (meta h),
                  bytes := (\<lambda>x. if a \<le> x \<and> x < a + length vs then vs ! (x - a) else bytes h x)\<rparr>))"

definition get_bytes_at :: "nat \<Rightarrow> nat \<Rightarrow> heap \<Rightarrow> nat option list outcome" where
  "get_bytes_at a n h = (if a = 0 then Inl Null_deref else if brk h < a + n then Inl Out_of_bounds
     else Inr (map (bytes h) [a..<a + n]))"

text \<open>\<open>sbrk\<close>: the argument is signed, the result the old break or nothing.\<close>

definition signed64 :: "nat \<Rightarrow> int" where
  "signed64 n = (if n < 2 ^ 63 then int n else int n - 2 ^ 64)"

definition sbrk :: "alloc_env \<Rightarrow> nat \<Rightarrow> heap \<Rightarrow> (nat option \<times> heap)" where
  "sbrk env n h = (if grant env (brk h) (signed64 n)
     then (Some (brk h), h\<lparr>brk := nat (int (brk h) + signed64 n)\<rparr>) else (None, h))"

section \<open>The allocator\<close>

definition init_head :: "alloc_env \<Rightarrow> heap \<Rightarrow> heap outcome" where
  "init_head env h =
     (let h = h\<lparr>head := brk h\<rparr> in
      case sbrk env INITIAL_HEAP_SIZE h of
        (None, h) \<Rightarrow> Inl (Exit_status 1)
      | (Some _, h) \<Rightarrow>
          rbind (put_header (head h)
                  \<lparr>msize = INITIAL_HEAP_SIZE - metadata_size, mnext = 0, mprev = 0, mfree = True\<rparr>
                  (h\<lparr>total_memory_use := add64 (total_memory_use h) INITIAL_HEAP_SIZE\<rparr>))
            (\<lambda>h. Inr (h\<lparr>tail := head h\<rparr>)))"

fun best_fit_loop :: "nat \<Rightarrow> nat \<Rightarrow> nat \<Rightarrow> nat \<Rightarrow> nat \<Rightarrow> heap \<Rightarrow> nat outcome" where
  "best_fit_loop 0 cur best min_size sz h = Inl Diverges"
| "best_fit_loop (Suc n) cur best min_size sz h =
     (if cur = 0 then Inr best
      else rbind (get_header cur h) (\<lambda>m.
        if mfree m \<and> msize m \<ge> sz \<and> msize m < min_size
        then best_fit_loop n (mnext m) cur (msize m) sz h
        else best_fit_loop n (mnext m) best min_size sz h))"

definition best_fit :: "alloc_env \<Rightarrow> nat \<Rightarrow> nat \<Rightarrow> heap \<Rightarrow> nat outcome" where
  "best_fit env cur sz h = best_fit_loop (fuel env) (head h) 0 MAX_HEAP_SIZE sz h"

fun first_fit_loop :: "nat \<Rightarrow> nat \<Rightarrow> nat \<Rightarrow> heap \<Rightarrow> nat outcome" where
  "first_fit_loop 0 cur sz h = Inl Diverges"
| "first_fit_loop (Suc n) cur sz h =
     (if cur = 0 then Inr 0
      else rbind (get_header cur h) (\<lambda>m.
        if mfree m \<and> msize m \<ge> sz then Inr cur else first_fit_loop n (mnext m) sz h))"

definition first_fit :: "alloc_env \<Rightarrow> nat \<Rightarrow> nat \<Rightarrow> heap \<Rightarrow> nat outcome" where
  "first_fit env cur sz h = first_fit_loop (fuel env) (head h) sz h"

fun find_last :: "nat \<Rightarrow> nat \<Rightarrow> heap \<Rightarrow> nat outcome" where
  "find_last 0 cur h = Inl Diverges"
| "find_last (Suc n) cur h =
     rbind (get_header cur h) (\<lambda>m. if mnext m \<noteq> 0 then find_last n (mnext m) h else Inr cur)"

text \<open>The body of the loop of \<open>coalesce\<close> at a block that is followed by a free one.\<close>

definition absorb_next :: "nat \<Rightarrow> heap \<Rightarrow> heap outcome" where
  "absorb_next cur h =
     rbind (get_header cur h) (\<lambda>m.
     rbind (get_header (mnext m) h) (\<lambda>mn.
     rbind (upd_header cur (\<lambda>m. m\<lparr>msize := add64 (msize m) (add64 (msize mn) metadata_size),
                                    mnext := mnext mn\<rparr>) h) (\<lambda>h.
     if mnext mn \<noteq> 0 then upd_header (mnext mn) (\<lambda>m. m\<lparr>mprev := cur\<rparr>) h
     else Inr (h\<lparr>tail := cur\<rparr>))))"

fun coalesce_loop :: "nat \<Rightarrow> nat \<Rightarrow> heap \<Rightarrow> heap outcome" where
  "coalesce_loop 0 cur h = Inl Diverges"
| "coalesce_loop (Suc n) cur h =
     (if cur = 0 then Inr h
      else rbind (get_header cur h) (\<lambda>m.
           rbind (if mfree m \<and> mnext m \<noteq> 0
                  then rbind (get_header (mnext m) h) (\<lambda>mn. if mfree mn then absorb_next cur h else Inr h)
                  else Inr h) (\<lambda>h.
           rbind (get_header cur h) (\<lambda>m. coalesce_loop n (mnext m) h))))"

definition coalesce :: "alloc_env \<Rightarrow> heap \<Rightarrow> heap outcome" where
  "coalesce env h = coalesce_loop (fuel env) (head h) h"

text \<open>The branch of \<open>malloc\<close> that found a block, and the one that asks for more memory.\<close>

definition use_block :: "nat \<Rightarrow> nat \<Rightarrow> heap \<Rightarrow> (nat \<times> heap) outcome" where
  "use_block best sz h =
     rbind (get_header best h) (\<lambda>m.
     if msize m = sz
     then rbind (upd_header best (\<lambda>m. m\<lparr>mfree := False\<rparr>) h) (\<lambda>h. Inr (best + metadata_size, h))
     else rbind
       (if msize m \<ge> add64 (add64 sz metadata_size) align_to
        then let new = add64 (best + metadata_size) sz in
          rbind (put_header new \<lparr>msize = sub64 (sub64 (msize m) sz) metadata_size,
                                 mnext = mnext m, mprev = best, mfree = True\<rparr> h) (\<lambda>h.
          rbind (upd_header best (\<lambda>m. m\<lparr>mnext := new\<rparr>) h) (\<lambda>h.
          Inr (if best = tail h then h\<lparr>tail := new\<rparr> else h)))
        else Inr h)
       (\<lambda>h. rbind (upd_header best (\<lambda>m. m\<lparr>msize := sz, mfree := False\<rparr>) h)
              (\<lambda>h. Inr (best + metadata_size, h))))"

definition extend_heap :: "alloc_env \<Rightarrow> nat \<Rightarrow> heap \<Rightarrow> (nat \<times> heap) outcome" where
  "extend_heap env sz h =
     (case sbrk env (add64 sz metadata_size) h of
        (None, h) \<Rightarrow> Inr (0, h)
      | (Some cur, h) \<Rightarrow>
          rbind (put_header cur \<lparr>msize = sz, mnext = 0, mprev = tail h, mfree = False\<rparr> h) (\<lambda>h.
          rbind (upd_header (tail h) (\<lambda>m. m\<lparr>mnext := cur\<rparr>) h) (\<lambda>h.
          Inr (cur + metadata_size, h\<lparr>tail := cur\<rparr>))))"

definition malloc :: "alloc_env \<Rightarrow> nat \<Rightarrow> heap \<Rightarrow> (nat \<times> heap) outcome" where
  "malloc env sz h =
     rbind (if head h = 0 then init_head env h else Inr h) (\<lambda>h.
     if head h = 0 then Inr (0, h)
     else let sz = align_size sz in
       rbind (get_header (tail h) h) (\<lambda>m.
       rbind (if mfree m \<and> msize m \<ge> sz then Inr (tail h) else first_fit env 0 sz h) (\<lambda>best.
       if best \<noteq> 0 then use_block best sz h else extend_heap env sz h)))"

definition calloc :: "alloc_env \<Rightarrow> nat \<Rightarrow> nat \<Rightarrow> heap \<Rightarrow> (nat \<times> heap) outcome" where
  "calloc env num sz h =
     (if num \<noteq> 0 \<and> sz > (2 ^ 64 - 1) div num then Inr (0, h)
      else let total_size = num * sz mod 2 ^ 64 in
        rbind (malloc env total_size h) (\<lambda>(ptr, h).
        if ptr \<noteq> 0 then rbind (put_bytes_at ptr (replicate total_size (Some 0)) h) (\<lambda>h. Inr (ptr, h))
        else Inr (ptr, h)))"

text \<open>The two merges of \<open>free\<close>, with the block before and with the block after, are the same code.\<close>

definition merge_blocks :: "nat \<Rightarrow> nat \<Rightarrow> heap \<Rightarrow> heap outcome" where
  "merge_blocks a b h =
     rbind (get_header b h) (\<lambda>mb.
     rbind (upd_header a (\<lambda>m. m\<lparr>msize := add64 (msize m) (add64 (msize mb) metadata_size),
                                  mnext := mnext mb\<rparr>) h) (\<lambda>h.
     rbind (if mnext mb \<noteq> 0 then upd_header (mnext mb) (\<lambda>m. m\<lparr>mprev := a\<rparr>) h else Inr h) (\<lambda>h.
     Inr (if b = tail h then h\<lparr>tail := a\<rparr> else h))))"

definition free_block :: "nat \<Rightarrow> heap \<Rightarrow> heap outcome" where
  "free_block ptr h =
     (if ptr = 0 then Inr h
      else let cur = ptr - metadata_size in
        rbind (upd_header cur (\<lambda>m. m\<lparr>mfree := True\<rparr>) h) (\<lambda>h.
        rbind (get_header cur h) (\<lambda>mc.
        let prev = mprev mc; next = mnext mc in
        rbind (if prev = 0 then Inr False else rbind (get_header prev h) (\<lambda>mp. Inr (mfree mp))) (\<lambda>prev_free.
        rbind (if prev_free then rbind (merge_blocks prev cur h) (\<lambda>h. Inr (prev, h)) else Inr (cur, h)) (\<lambda>(cur, h).
        rbind (if next = 0 then Inr False else rbind (get_header next h) (\<lambda>mn. Inr (mfree mn))) (\<lambda>next_free.
        if next_free then merge_blocks cur next h else Inr h))))))"

definition realloc :: "alloc_env \<Rightarrow> nat \<Rightarrow> nat \<Rightarrow> heap \<Rightarrow> (nat \<times> heap) outcome" where
  "realloc env ptr sz h =
     (if ptr = 0 then malloc env sz h
      else if sz = 0 then rbind (free_block ptr h) (\<lambda>h. Inr (0, h))
      else rbind (get_header (ptr - metadata_size) h) (\<lambda>m.
        if msize m \<ge> sz then Inr (ptr, h)
        else rbind (malloc env sz h) (\<lambda>(new_ptr, h).
          if new_ptr \<noteq> 0
          then rbind (get_header (ptr - metadata_size) h) (\<lambda>m.
               rbind (get_bytes_at ptr (msize m) h) (\<lambda>vs.
               rbind (put_bytes_at new_ptr vs h) (\<lambda>h.
               rbind (free_block ptr h) (\<lambda>h. Inr (new_ptr, h)))))
          else Inr (0, h))))"

end
