(* ===== verification/Malloc_Blocks.thy ===== *)
theory Malloc_Blocks
  imports Malloc
begin

text \<open>
  The invariant of the allocator's block list, and the proof that \<open>malloc\<close> keeps it: the list is
  handled as a list of addresses with a function to their headers (\<open>represents\<close>, \<open>list_ok\<close>), so that
  each step of the code is an update of that function.
\<close>

section \<open>Block lists\<close>

text \<open>
  \<open>represents h f as\<close>: the headers of the blocks \<open>as\<close> are intact and hold \<open>f\<close>. A block list is
  sorted by address, the blocks do not overlap, their \<open>mnext\<close> pointers follow the list, and each
  \<open>mprev\<close> pointer is the predecessor in the list, or points to a block of the list that is in use:
  that is what a split leaves behind, because it does not correct the \<open>mprev\<close> of the next block.
\<close>

definition represents :: "heap \<Rightarrow> (nat \<Rightarrow> metadata) \<Rightarrow> nat list \<Rightarrow> bool" where
  "represents h f as \<longleftrightarrow> (\<forall>a \<in> set as. meta h a = Some (f a))"

fun links :: "(nat \<Rightarrow> metadata) \<Rightarrow> nat list \<Rightarrow> nat \<Rightarrow> bool" where
  "links f [] e \<longleftrightarrow> True"
| "links f (a # as) e \<longleftrightarrow> mnext (f a) = hd (as @ [e]) \<and> links f as e"

fun prevs :: "(nat \<Rightarrow> metadata) \<Rightarrow> nat set \<Rightarrow> nat \<Rightarrow> nat list \<Rightarrow> bool" where
  "prevs f S p [] \<longleftrightarrow> True"
| "prevs f S p (a # as) \<longleftrightarrow>
     (mprev (f a) = p \<or> mprev (f a) \<in> S \<and> \<not> mfree (f (mprev (f a)))) \<and> prevs f S a as"

definition block_end :: "(nat \<Rightarrow> metadata) \<Rightarrow> nat \<Rightarrow> nat" where
  "block_end f a = a + metadata_size + msize (f a)"

definition layout :: "(nat \<Rightarrow> metadata) \<Rightarrow> nat list \<Rightarrow> nat \<Rightarrow> bool" where
  "layout f as lim \<longleftrightarrow> sorted_wrt (\<lambda>a b. block_end f a \<le> b) as \<and>
     (\<forall>a \<in> set as. 0 < a \<and> 8 dvd a \<and> 8 dvd msize (f a) \<and> block_end f a \<le> lim)"

definition list_ok :: "(nat \<Rightarrow> metadata) \<Rightarrow> nat list \<Rightarrow> nat \<Rightarrow> bool" where
  "list_ok f as lim \<longleftrightarrow> layout f as lim \<and> links f as 0 \<and> prevs f (set as) 0 as"

definition heap_ok :: "heap \<Rightarrow> nat list \<Rightarrow> bool" where
  "heap_ok h as \<longleftrightarrow> as \<noteq> [] \<and> head h = hd as \<and> tail h = last as \<and>
     brk h < 2 ^ 63 \<and> 8 dvd brk h \<and> (\<exists>f. represents h f as \<and> list_ok f as (brk h))"

text \<open>The blocks in use: the address the user has and the size.\<close>

definition live :: "heap \<Rightarrow> nat list \<Rightarrow> (nat \<times> nat) set" where
  "live h as = {(a + metadata_size, msize m) | a m. a \<in> set as \<and> meta h a = Some m \<and> \<not> mfree m}"

definition live_of :: "(nat \<Rightarrow> metadata) \<Rightarrow> nat list \<Rightarrow> (nat \<times> nat) set" where
  "live_of f as = {(a + metadata_size, msize (f a)) | a. a \<in> set as \<and> \<not> mfree (f a)}"

definition keeps_bytes :: "heap \<Rightarrow> heap \<Rightarrow> (nat \<times> nat) set \<Rightarrow> bool" where
  "keeps_bytes h h' L \<longleftrightarrow> (\<forall>(p, n) \<in> L. \<forall>x. p \<le> x \<and> x < p + n \<longrightarrow> bytes h' x = bytes h x)"

definition header_bytes :: "nat set \<Rightarrow> nat set" where
  "header_bytes A = {x. \<exists>a \<in> A. a \<le> x \<and> x < a + metadata_size}"

lemma live_represents: "represents h f as \<Longrightarrow> live h as = live_of f as"
  by (auto simp: live_def live_of_def represents_def)

subsection \<open>Lists\<close>

lemma links_append [simp]:
  "links f (as @ bs) e \<longleftrightarrow> links f as (hd (bs @ [e])) \<and> links f bs e"
proof (induction as)
  case (Cons a as)
  then show ?case by (cases as) auto
qed simp

lemma prevs_append [simp]:
  "prevs f S p (as @ bs) \<longleftrightarrow> prevs f S p as \<and> prevs f S (last (p # as)) bs"
  by (induction as arbitrary: p) auto

lemma links_cong:
  "(\<And>a. a \<in> set as \<Longrightarrow> mnext (f a) = mnext (g a)) \<Longrightarrow> links f as e = links g as e"
  by (induction as) auto

lemma links_upd [simp]:
  "a \<notin> set as \<Longrightarrow> links (f(a := m)) as e = links f as e"
  "mnext m = mnext (f a) \<Longrightarrow> links (f(a := m)) as e = links f as e"
  by (rule links_cong; auto)+

text \<open>What an update has to keep for the \<open>mprev\<close> pointers of other blocks.\<close>

lemma prevs_mono:
  assumes "prevs f S p as" "\<And>a. a \<in> set as \<Longrightarrow> mprev (g a) = mprev (f a)"
    and "\<And>a. a \<in> S \<Longrightarrow> \<not> mfree (f a) \<Longrightarrow> a \<in> mprev ` f ` set as \<Longrightarrow> a \<in> T \<and> \<not> mfree (g a)"
  shows "prevs g T p as"
  using assms by (induction as arbitrary: p) auto

lemma layout_sep:
  assumes "layout f as lim" "a \<in> set as" "b \<in> set as" "a \<noteq> b"
  shows "block_end f a \<le> b \<or> block_end f b \<le> a"
proof -
  obtain xs ys where as: "as = xs @ a # ys" using assms(2) by (meson split_list)
  then show ?thesis using assms by (auto simp: layout_def sorted_wrt_append)
qed

lemma layout_distinct: "layout f as lim \<Longrightarrow> distinct as"
proof (induction as)
  case (Cons a as)
  then show ?case by (auto simp: layout_def block_end_def metadata_size_def)
qed simp

lemma live_disjoint_headers:
  assumes "layout f as lim" "(p, n) \<in> live_of f as" "p \<le> x" "x < p + n"
  shows "x \<notin> header_bytes (set as)"
proof -
  obtain a where a: "a \<in> set as" "p = a + metadata_size" "n = msize (f a)"
    using assms(2) by (auto simp: live_of_def)
  have "\<not> (b \<le> x \<and> x < b + metadata_size)" if "b \<in> set as" for b
    using layout_sep [OF assms(1) a(1) that] assms(3,4) a by (cases "b = a") (auto simp: block_end_def)
  then show ?thesis by (auto simp: header_bytes_def)
qed

definition touches_only :: "nat set \<Rightarrow> heap \<Rightarrow> heap \<Rightarrow> bool" where
  "touches_only A h h' \<longleftrightarrow> (\<forall>x. x \<notin> header_bytes A \<longrightarrow> bytes h' x = bytes h x)"

lemma touches_only_refl [simp]: "touches_only A h h"
  by (simp add: touches_only_def)

lemma touches_only_trans: "touches_only A h h' \<Longrightarrow> touches_only A h' h'' \<Longrightarrow> touches_only A h h''"
  by (simp add: touches_only_def)

lemma touches_only_keeps:
  "touches_only (set as) h h' \<Longrightarrow> layout f as lim \<Longrightarrow> L \<subseteq> live_of f as \<Longrightarrow> keeps_bytes h h' L"
  using live_disjoint_headers by (fastforce simp: touches_only_def keeps_bytes_def)

subsection \<open>Headers\<close>

definition same_frame :: "heap \<Rightarrow> heap \<Rightarrow> bool" where
  "same_frame h h' \<longleftrightarrow> head h' = head h \<and> tail h' = tail h \<and> brk h' = brk h"

lemma same_frame_refl [simp]: "same_frame h h"
  by (simp add: same_frame_def)

lemma same_frame_trans: "same_frame h h' \<Longrightarrow> same_frame h' h'' \<Longrightarrow> same_frame h h''"
  by (simp add: same_frame_def)

lemma put_header_ok:
  assumes "represents h f as" "0 < a" "a + metadata_size \<le> brk h"
    and "\<And>b. b \<in> set as \<Longrightarrow> b \<noteq> a \<Longrightarrow> b + metadata_size \<le> a \<or> a + metadata_size \<le> b"
  shows "\<exists>h'. put_header a m h = Inr h' \<and> represents h' (f(a := m)) (a # as) \<and> same_frame h h' \<and>
           touches_only {a} h h'"
  using assms by (fastforce simp: put_header_def represents_def same_frame_def touches_only_def
      header_bytes_def clear_headers_def metadata_size_def wipe_bytes_def)

lemma get_header_ok:
  "represents h f as \<Longrightarrow> a \<in> set as \<Longrightarrow> 0 < a \<Longrightarrow> get_header a h = Inr (f a)"
  by (simp add: get_header_def represents_def)

lemma upd_header_ok:
  assumes "represents h f as" "layout g as (brk h)" "a \<in> set as"
  shows "\<exists>h'. upd_header a u h = Inr h' \<and> represents h' (f(a := u (f a))) as \<and> same_frame h h' \<and>
           touches_only (set as) h h'"
proof -
  have a: "0 < a" "a + metadata_size \<le> brk h" using assms(2,3) by (auto simp: layout_def block_end_def)
  have "b + metadata_size \<le> a \<or> a + metadata_size \<le> b" if "b \<in> set as" "b \<noteq> a" for b
    using layout_sep [OF assms(2) that(1) assms(3) that(2)] by (auto simp: block_end_def)
  from put_header_ok [OF assms(1) a this] obtain h' where "put_header a (u (f a)) h = Inr h'"
      "represents h' (f(a := u (f a))) (a # as)" "same_frame h h'" "touches_only {a} h h'"
    by blast
  then show ?thesis using get_header_ok [OF assms(1,3) a(1)] assms(3)
    by (auto simp: upd_header_def represents_def touches_only_def header_bytes_def)
qed

subsection \<open>Searching\<close>

definition fits :: "(nat \<Rightarrow> metadata) \<Rightarrow> nat \<Rightarrow> nat \<Rightarrow> bool" where
  "fits f sz a \<longleftrightarrow> mfree (f a) \<and> sz \<le> msize (f a)"

lemma first_fit_loop_ok:
  assumes "represents h f as" "links f as 0" "0 \<notin> set as" "length as < n"
  shows "first_fit_loop n (hd (as @ [0])) sz h =
           Inr (case find (fits f sz) as of None \<Rightarrow> 0 | Some a \<Rightarrow> a)"
  using assms
proof (induction as arbitrary: n)
  case Nil
  then show ?case by (cases n) simp_all
next
  case (Cons a as)
  from Cons.prems(4) obtain k where n: "n = Suc k" by (cases n) auto
  have "get_header a h = Inr (f a)" using Cons.prems(1,3) by (intro get_header_ok) auto
  moreover have "first_fit_loop k (hd (as @ [0])) sz h =
      Inr (case find (fits f sz) as of None \<Rightarrow> 0 | Some a \<Rightarrow> a)"
    using Cons.prems n by (intro Cons.IH) (auto simp: represents_def)
  ultimately show ?case using Cons.prems(2,3) n by (auto simp: fits_def [of f sz a])
qed

lemma find_last_ok:
  assumes "represents h f as" "links f as 0" "0 \<notin> set as" "as \<noteq> []" "length as \<le> n"
  shows "find_last n (hd as) h = Inr (last as)"
  using assms
proof (induction as arbitrary: n)
  case (Cons a as)
  from Cons.prems(5) obtain k where n: "n = Suc k" by (cases n) auto
  have a: "get_header a h = Inr (f a)" using Cons.prems(1,3) by (intro get_header_ok) auto
  show ?case
  proof (cases as)
    case Nil
    then show ?thesis using a n Cons.prems(2) by simp
  next
    case (Cons b bs)
    then have "find_last k (hd as) h = Inr (last as)"
      using Cons.prems Cons.IH [of k] n by (auto simp: represents_def)
    then show ?thesis using a n Cons Cons.prems(2,3) by simp
  qed
qed simp

text \<open>\<open>best_fit\<close> keeps the smallest fitting block seen so far.\<close>

definition best_of :: "(nat \<Rightarrow> metadata) \<Rightarrow> nat \<Rightarrow> nat list \<Rightarrow> nat \<times> nat \<Rightarrow> nat \<times> nat" where
  "best_of f sz as z = fold (\<lambda>a (b, m). if fits f sz a \<and> msize (f a) < m then (a, msize (f a)) else (b, m)) as z"

lemma best_fit_loop_ok:
  assumes "represents h f as" "links f as 0" "0 \<notin> set as" "length as < n"
  shows "best_fit_loop n (hd (as @ [0])) b m sz h = Inr (fst (best_of f sz as (b, m)))"
  using assms
proof (induction as arbitrary: n b m)
  case Nil
  then show ?case by (cases n) (simp_all add: best_of_def)
next
  case (Cons a as)
  from Cons.prems(4) obtain k where n: "n = Suc k" by (cases n) auto
  have "get_header a h = Inr (f a)" using Cons.prems(1,3) by (intro get_header_ok) auto
  moreover have "best_fit_loop k (hd (as @ [0])) b' m' sz h = Inr (fst (best_of f sz as (b', m')))" for b' m'
    using Cons.prems n by (intro Cons.IH) (auto simp: represents_def)
  ultimately show ?case using Cons.prems(2,3) n by (auto simp: fits_def [of f sz a] best_of_def)
qed

lemma best_of_least:
  "best_of f sz as (b, m) = (c, k) \<Longrightarrow>
     (c, k) = (b, m) \<and> (\<forall>a \<in> set as. fits f sz a \<longrightarrow> m \<le> msize (f a)) \<or>
     c \<in> set as \<and> fits f sz c \<and> k = msize (f c) \<and> k < m \<and> (\<forall>a \<in> set as. fits f sz a \<longrightarrow> k \<le> msize (f a))"
proof (induction as arbitrary: b m)
  case (Cons a as)
  then show ?case
    by (cases "fits f sz a \<and> msize (f a) < m") (fastforce simp: best_of_def)+
qed (simp add: best_of_def)

subsection \<open>Taking a block\<close>

lemma sorted_ends_mono:
  assumes "sorted_wrt (\<lambda>a c. block_end f a \<le> c) as" "\<And>a. a \<in> set as \<Longrightarrow> block_end g a \<le> block_end f a"
  shows "sorted_wrt (\<lambda>a c. block_end g a \<le> c) as"
  using assms(1) by (rule sorted_wrt_mono_rel [rotated]) (use assms(2) order_trans in blast)

lemma prevs_shift:
  assumes "prevs f S p as" "\<And>a. a \<in> set as \<Longrightarrow> mprev (g a) = mprev (f a)"
    and "\<And>a. a \<in> S \<Longrightarrow> \<not> mfree (f a) \<Longrightarrow> a \<in> mprev ` f ` set as \<Longrightarrow> a \<in> T \<and> \<not> mfree (g a)"
    and "p \<in> T \<and> \<not> mfree (g p)"
  shows "prevs g T q as"
proof (cases as)
  case (Cons a bs)
  then have "prevs g T a bs" using assms(1-3) by (intro prevs_mono [of f S a bs g T]) auto
  then show ?thesis using Cons assms by auto
qed simp

lemma prevs_upd:
  assumes "prevs f S p as" "mprev m = mprev (f b)" "\<not> mfree (f b) \<Longrightarrow> \<not> mfree m"
  shows "prevs (f(b := m)) S p as"
  using assms(1) by (rule prevs_mono) (use assms(2,3) in auto)

lemma take_ok:
  assumes "list_ok f as lim" "b \<in> set as" "sz \<le> msize (f b)" "8 dvd sz"
  shows "list_ok (f(b := (f b)\<lparr>msize := sz, mfree := False\<rparr>)) as lim"
proof -
  let ?g = "f(b := (f b)\<lparr>msize := sz, mfree := False\<rparr>)"
  have le: "block_end ?g a \<le> block_end f a" for a using assms(3) by (simp add: block_end_def)
  have "sorted_wrt (\<lambda>a b. block_end ?g a \<le> b) as"
    using assms(1) unfolding list_ok_def layout_def
    by (elim conjE sorted_ends_mono) (rule le)
  moreover have "block_end ?g a \<le> lim" if "a \<in> set as" for a
    using assms(1) le [of a] that by (auto simp: list_ok_def layout_def)
  ultimately show ?thesis
    using assms by (auto simp: list_ok_def layout_def intro: prevs_upd)
qed

lemma take_live:
  assumes "mfree (f b)" "b \<in> set as"
  shows "live_of (f(b := (f b)\<lparr>msize := sz, mfree := False\<rparr>)) as =
         insert (b + metadata_size, sz) (live_of f as)"
  using assms by (auto simp: live_of_def split: if_splits)

definition split_headers :: "(nat \<Rightarrow> metadata) \<Rightarrow> nat \<Rightarrow> nat \<Rightarrow> nat \<Rightarrow> metadata" where
  "split_headers f b n =
     f(n := \<lparr>msize = block_end f b - n - metadata_size, mnext = mnext (f b), mprev = b, mfree = True\<rparr>,
       b := (f b)\<lparr>msize := n - b - metadata_size, mfree := False, mnext := n\<rparr>)"

lemma split_ok:
  assumes ok: "list_ok f (xs @ b # ys) lim" and n: "b + metadata_size \<le> n" "n + metadata_size \<le> block_end f b"
    and dvd: "8 dvd n" and "mfree (f b)"
  shows "list_ok (split_headers f b n) (xs @ b # n # ys) lim"
proof -
  let ?g = "split_headers f b n" let ?old = "xs @ b # ys"
  have lay: "layout f ?old lim" using ok by (simp add: list_ok_def)
  have below: "block_end f x \<le> b" if "x \<in> set xs" for x
    using lay that by (auto simp: layout_def sorted_wrt_append)
  have above: "block_end f b \<le> y" if "y \<in> set ys" for y
    using lay that by (auto simp: layout_def sorted_wrt_append)
  have bn: "b < n" using n(1) by (simp add: metadata_size_def)
  have new: "x < b" if "x \<in> set xs" for x
    using below [OF that] by (simp add: block_end_def metadata_size_def)
  have new': "n < y" if "y \<in> set ys" for y
    using above [OF that] n(2) by (simp add: metadata_size_def)
  have others: "?g x = f x" if "x \<in> set xs \<or> x \<in> set ys" for x
    using that new new' bn by (fastforce simp: split_headers_def)
  have ends: "block_end ?g b = n" "block_end ?g n = block_end f b"
    "\<And>x. x \<in> set xs \<or> x \<in> set ys \<Longrightarrow> block_end ?g x = block_end f x"
    using n bn others by (auto simp: split_headers_def block_end_def metadata_size_def)
  have fresh: "n \<notin> set ?old" using new new' bn by force
  have "8 dvd block_end f b" using lay by (auto simp: layout_def block_end_def metadata_size_def intro: dvd_add)
  moreover have "8 dvd b" using lay by (auto simp: layout_def)
  ultimately have "8 dvd msize (?g b)" "8 dvd msize (?g n)"
    using dvd n bn by (auto simp: split_headers_def metadata_size_def intro!: dvd_diff_nat)
  moreover have "0 < n" using bn by simp
  moreover have "sorted_wrt (\<lambda>a c. block_end ?g a \<le> c) (xs @ b # n # ys)"
  proof -
    have "sorted_wrt (\<lambda>a c. block_end ?g a \<le> c) xs" "sorted_wrt (\<lambda>a c. block_end ?g a \<le> c) ys"
      using lay ends(3) by (auto simp: layout_def sorted_wrt_append elim: sorted_ends_mono)
    then show ?thesis
      using ends below above new new' n bn lay by (fastforce simp: sorted_wrt_append layout_def)
  qed
  ultimately have "layout ?g (xs @ b # n # ys) lim"
    using lay ends others dvd n by (auto simp: layout_def)
  moreover have "links ?g (xs @ b # n # ys) 0"
  proof -
    have "links ?g xs b = links f xs b" "links ?g ys 0 = links f ys 0"
      using others by (auto intro!: links_cong)
    moreover have "mnext (?g b) = n" "mnext (?g n) = mnext (f b)"
      using bn by (simp_all add: split_headers_def)
    ultimately show ?thesis using ok by (simp add: list_ok_def)
  qed
  moreover have "prevs ?g (set (xs @ b # n # ys)) 0 (xs @ b # n # ys)"
  proof -
    have pr: "prevs f (set ?old) 0 xs" "prevs f (set ?old) (last (0 # xs)) [b]" "prevs f (set ?old) b ys"
      using ok by (simp_all add: list_ok_def)
    have busy: "\<not> mfree (?g b)" "mprev (?g b) = mprev (f b)" "mprev (?g n) = b"
      using bn by (simp_all add: split_headers_def)
    have keep: "a \<in> set (xs @ b # n # ys) \<and> \<not> mfree (?g a)" if "a \<in> set ?old" "\<not> mfree (f a)" for a
      using that others \<open>mfree (f b)\<close> by auto
    have "prevs ?g (set (xs @ b # n # ys)) 0 xs"
      using pr(1) by (rule prevs_mono) (use others keep in auto)
    moreover have "prevs ?g (set (xs @ b # n # ys)) (last (0 # xs)) [b]"
      using pr(2) by (rule prevs_mono) (use busy keep in auto)
    moreover have "prevs ?g (set (xs @ b # n # ys)) n ys"
      using pr(3) by (rule prevs_shift) (use others keep busy in auto)
    ultimately show ?thesis using busy by simp
  qed
  ultimately show ?thesis by (simp add: list_ok_def)
qed

lemma list_ok_block:
  assumes "list_ok f as lim" "b \<in> set as"
  shows "0 < b" "8 dvd b" "8 dvd msize (f b)" "block_end f b \<le> lim" "distinct as"
    "b + metadata_size + msize (f b) \<le> lim"
  using assms layout_distinct by (auto simp: list_ok_def layout_def block_end_def)

lemma split_live:
  assumes ok: "list_ok f (xs @ b # ys) lim" and n: "b + metadata_size \<le> n" "n + metadata_size \<le> block_end f b"
    and "mfree (f b)"
  shows "live_of (split_headers f b n) (xs @ b # n # ys) =
         insert (b + metadata_size, n - b - metadata_size) (live_of f (xs @ b # ys))"
proof -
  have lay: "layout f (xs @ b # ys) lim" using ok by (simp add: list_ok_def)
  have bn: "b < n" using n(1) by (simp add: metadata_size_def)
  have fresh: "split_headers f b n x = f x" if "x \<in> set xs \<or> x \<in> set ys" for x
    using lay n that bn
    by (fastforce simp: split_headers_def layout_def sorted_wrt_append block_end_def metadata_size_def)
  have "\<not> mfree (split_headers f b n b)" "mfree (split_headers f b n n)"
    "msize (split_headers f b n b) = n - b - metadata_size"
    using bn by (auto simp: split_headers_def)
  then show ?thesis using fresh \<open>mfree (f b)\<close> by (auto simp: live_of_def)
qed

lemma add64_small [simp]: "a + b < 2 ^ 64 \<Longrightarrow> add64 a b = a + b"
  by (simp add: add64_def)

lemma sub64_small [simp]: "b \<le> a \<Longrightarrow> a < 2 ^ 64 \<Longrightarrow> sub64 a b = a - b"
proof -
  assume "b \<le> a" "a < 2 ^ 64"
  then have "a + (2 ^ 64 - b) = (a - b) + 2 ^ 64" by simp
  then have "sub64 a b = ((a - b) + 2 ^ 64) mod 2 ^ 64" unfolding sub64_def by presburger
  also have "\<dots> = (a - b) mod 2 ^ 64" by (rule mod_add_self2)
  finally show ?thesis using \<open>a < 2 ^ 64\<close> by simp
qed

lemma represents_subset: "represents h f as \<Longrightarrow> set bs \<subseteq> set as \<Longrightarrow> represents h f bs"
  by (auto simp: represents_def)

lemma represents_frame [simp]:
  "represents (h\<lparr>tail := t\<rparr>) f as \<longleftrightarrow> represents h f as"
  "represents (h\<lparr>head := t\<rparr>) f as \<longleftrightarrow> represents h f as"
  "represents (h\<lparr>brk := n\<rparr>) f as \<longleftrightarrow> represents h f as"
  by (simp_all add: represents_def)

text \<open>No block but the next one has its \<open>mprev\<close> pointer at \<open>c\<close>.\<close>

definition unref :: "heap \<Rightarrow> nat list \<Rightarrow> nat \<Rightarrow> bool" where
  "unref h as c \<longleftrightarrow> (\<forall>x \<in> set as. case (meta h x, meta h c) of
     (Some m, Some mc) \<Rightarrow> mprev m = c \<longrightarrow> mnext mc = x | _ \<Rightarrow> True)"

definition unreferenced :: "(nat \<Rightarrow> metadata) \<Rightarrow> nat list \<Rightarrow> nat \<Rightarrow> bool" where
  "unreferenced f as c \<longleftrightarrow> (\<forall>x \<in> set as. mprev (f x) = c \<longrightarrow> mnext (f c) = x)"

lemma unref_represents:
  "represents h f as \<Longrightarrow> c \<in> set as \<Longrightarrow> unref h as c \<longleftrightarrow> unreferenced f as c"
  by (auto simp: unref_def unreferenced_def represents_def)

text \<open>What a successful request for \<open>sz\<close> bytes does to the heap, when it returns \<open>p\<close>.\<close>

definition allocates :: "nat \<Rightarrow> nat \<Rightarrow> heap \<Rightarrow> nat list \<Rightarrow> heap \<Rightarrow> nat list \<Rightarrow> bool" where
  "allocates p sz h as h' as' \<longleftrightarrow> heap_ok h' as' \<and> live h' as' = insert (p, sz) (live h as) \<and>
     (\<forall>(q, n) \<in> live h as. q + n \<le> p \<or> p + sz \<le> q) \<and> 0 < p \<and> 8 dvd p \<and> p + sz \<le> brk h' \<and>
     p \<notin> fst ` live h as \<and> keeps_bytes h h' (live h as) \<and>
     (\<forall>(q, n) \<in> live h as. unref h as (q - metadata_size) \<longrightarrow> unref h' as' (q - metadata_size))"

lemma live_disjoint:
  assumes "layout f as lim" "(p, n) \<in> live_of f as" "(q, k) \<in> live_of f as" "p \<noteq> q"
  shows "p + n \<le> q \<or> q + k \<le> p"
proof -
  obtain a b where "a \<in> set as" "p = a + metadata_size" "n = msize (f a)"
      "b \<in> set as" "q = b + metadata_size" "k = msize (f b)"
    using assms(2,3) by (auto simp: live_of_def)
  then show ?thesis using layout_sep [OF assms(1), of a b] assms(4) by (auto simp: block_end_def)
qed

lemma allocatesI:
  assumes "represents h f as" "represents h' g as'" "list_ok g as' (brk h')" "b \<in> set as'"
    and "as' \<noteq> []" "head h' = hd as'" "tail h' = last as'" "brk h' < 2 ^ 63" "8 dvd brk h'"
    and "b \<notin> set as \<or> mfree (f b)" "live_of g as' = insert (b + metadata_size, sz) (live_of f as)"
    and "touches_only (set as') h h'"
    and keep: "\<And>c. c \<in> set as \<Longrightarrow> \<not> mfree (f c) \<Longrightarrow> c \<in> set as' \<and> (unreferenced f as c \<longrightarrow> unreferenced g as' c)"
  shows "allocates (b + metadata_size) sz h as h' as'"
proof -
  have lay: "layout g as' (brk h')" using assms(3) by (simp add: list_ok_def)
  have new: "b + metadata_size \<notin> fst ` live_of f as" using assms(10) by (auto simp: live_of_def)
  have "keeps_bytes h h' (live_of f as)" using assms(11) by (intro touches_only_keeps [OF assms(12) lay]) auto
  moreover have "q + n \<le> b + metadata_size \<or> b + metadata_size + sz \<le> q" if "(q, n) \<in> live_of f as" for q n
    using live_disjoint [OF lay, of q n "b + metadata_size" sz] that assms(11) new by force
  moreover have "8 dvd b + metadata_size" "b + metadata_size + sz \<le> brk h'"
  proof -
    have "(b + metadata_size, sz) \<in> live_of g as'" using assms(11) by simp
    then have "msize (g b) = sz" by (auto simp: live_of_def)
    then show "8 dvd b + metadata_size" "b + metadata_size + sz \<le> brk h'"
      using list_ok_block [OF assms(3,4)] by (simp_all add: metadata_size_def)
  qed
  moreover have "unref h' as' (q - metadata_size)"
    if q: "(q, n) \<in> live_of f as" "unref h as (q - metadata_size)" for q n
  proof -
    obtain c where "c \<in> set as" "q = c + metadata_size" "\<not> mfree (f c)" using q(1) by (auto simp: live_of_def)
    then show ?thesis using keep [of c] q(2) unref_represents [OF assms(1)] unref_represents [OF assms(2)] by simp
  qed
  ultimately show ?thesis
    using assms new by (auto simp: allocates_def heap_ok_def live_represents metadata_size_def)
qed

lemma use_block_exact:
  assumes rep: "represents h f as" and ok: "list_ok f as (brk h)" and b: "b \<in> set as" "msize (f b) = sz"
  shows "\<exists>h'. use_block b sz h = Inr (b + metadata_size, h') \<and> same_frame h h' \<and> touches_only (set as) h h' \<and>
           represents h' (f(b := (f b)\<lparr>msize := sz, mfree := False\<rparr>)) as"
proof -
  have lay: "layout f as (brk h)" using ok by (simp add: list_ok_def)
  obtain h' where "upd_header b (\<lambda>m. m\<lparr>mfree := False\<rparr>) h = Inr h'"
      "represents h' (f(b := (f b)\<lparr>mfree := False\<rparr>)) as" "same_frame h h'" "touches_only (set as) h h'"
    using upd_header_ok [OF rep lay b(1)] by blast
  moreover have "(f b)\<lparr>mfree := False\<rparr> = (f b)\<lparr>msize := sz, mfree := False\<rparr>" using b(2) by (cases "f b") simp
  ultimately show ?thesis
    using get_header_ok [OF rep b(1) list_ok_block(1) [OF ok b(1)]] b(2) by (simp add: use_block_def)
qed

lemma use_block_slack:
  assumes rep: "represents h f as" and ok: "list_ok f as (brk h)" and b: "b \<in> set as" "msize (f b) \<noteq> sz"
    and "\<not> add64 (add64 sz metadata_size) align_to \<le> msize (f b)"
  shows "\<exists>h'. use_block b sz h = Inr (b + metadata_size, h') \<and> same_frame h h' \<and> touches_only (set as) h h' \<and>
           represents h' (f(b := (f b)\<lparr>msize := sz, mfree := False\<rparr>)) as"
proof -
  have lay: "layout f as (brk h)" using ok by (simp add: list_ok_def)
  obtain h' where "upd_header b (\<lambda>m. m\<lparr>msize := sz, mfree := False\<rparr>) h = Inr h'"
      "represents h' (f(b := (f b)\<lparr>msize := sz, mfree := False\<rparr>)) as" "same_frame h h'" "touches_only (set as) h h'"
    using upd_header_ok [OF rep lay b(1)] by blast
  then show ?thesis
    using get_header_ok [OF rep b(1) list_ok_block(1) [OF ok b(1)]] assms(4,5) by (simp add: use_block_def)
qed

lemma upd_header_chain:
  assumes "represents h f as" "layout g as (brk h)" "a \<in> set as" "same_frame h0 h" "touches_only (set as) h0 h"
  obtains h' where "upd_header a u h = Inr h'" "represents h' (f(a := u (f a))) as" "same_frame h0 h'"
    "touches_only (set as) h0 h'"
  using upd_header_ok [OF assms(1-3), of u] assms(4,5) same_frame_trans touches_only_trans by blast

lemma use_block_split:
  assumes rep: "represents h f (xs @ b # ys)" and ok: "list_ok f (xs @ b # ys) (brk h)"
    and lim: "brk h < 2 ^ 63" and free: "mfree (f b)"
    and sz: "sz + metadata_size + align_to \<le> msize (f b)" and dvd: "8 dvd sz"
  shows "\<exists>h' n. use_block b sz h = Inr (b + metadata_size, h') \<and> n = b + metadata_size + sz \<and>
     head h' = head h \<and> brk h' = brk h \<and> tail h' = (if tail h = b then n else tail h) \<and>
     touches_only (set (xs @ b # n # ys)) h h' \<and> represents h' (split_headers f b n) (xs @ b # n # ys)"
proof -
  let ?n = "b + metadata_size + sz" let ?new = "xs @ b # ?n # ys"
  let ?m = "\<lparr>msize = msize (f b) - sz - metadata_size, mnext = mnext (f b), mprev = b, mfree = True\<rparr>"
  have b: "b \<in> set (xs @ b # ys)" by simp
  note blk = list_ok_block [OF ok b]
  have small: "add64 (add64 sz metadata_size) align_to = sz + metadata_size + align_to"
      "add64 (b + metadata_size) sz = ?n"
      "sub64 (sub64 (msize (f b)) sz) metadata_size = msize (f b) - sz - metadata_size"
    using lim sz blk(6) by (simp_all add: metadata_size_def align_to_def)
  have n: "b + metadata_size \<le> ?n" "?n + metadata_size \<le> block_end f b" "8 dvd ?n"
    using sz dvd blk by (simp_all add: block_end_def metadata_size_def)
  have ok': "list_ok (split_headers f b ?n) ?new (brk h)" by (rule split_ok [OF ok n free])
  have lay': "layout (split_headers f b ?n) ?new (brk h)" using ok' by (simp add: list_ok_def)
  have sep: "a + metadata_size \<le> ?n \<or> ?n + metadata_size \<le> a" if "a \<in> set (xs @ b # ys)" "a \<noteq> ?n" for a
    using layout_sep [OF lay', of a ?n] that by (auto simp: block_end_def)
  have "?n + metadata_size \<le> brk h" using n blk(4) by simp
  from put_header_ok [OF rep _ this sep, of ?m]
  obtain h1 where h1: "put_header ?n ?m h = Inr h1" "represents h1 (f(?n := ?m)) (?n # xs @ b # ys)"
      "same_frame h h1" "touches_only {?n} h h1" using blk(1) by auto
  have t1: "touches_only (set ?new) h h1" using h1(4) by (auto simp: touches_only_def header_bytes_def)
  have rep1: "represents h1 (f(?n := ?m)) ?new" using h1(2) by (rule represents_subset) auto
  have brk1: "brk h1 = brk h" using h1(3) by (simp add: same_frame_def)
  obtain h2 where h2: "upd_header b (\<lambda>m. m\<lparr>mnext := ?n\<rparr>) h1 = Inr h2"
      "represents h2 (f(?n := ?m, b := (f b)\<lparr>mnext := ?n\<rparr>)) ?new" "same_frame h h2" "touches_only (set ?new) h h2"
    using upd_header_chain [OF rep1 lay' [folded brk1] _ h1(3) t1, of b "\<lambda>m. m\<lparr>mnext := ?n\<rparr>"]
    by (auto simp: metadata_size_def)
  define h2' where "h2' = (if b = tail h2 then h2\<lparr>tail := ?n\<rparr> else h2)"
  have fr: "head h2' = head h" "brk h2' = brk h" "tail h2' = (if tail h = b then ?n else tail h)" "bytes h2' = bytes h2"
    using h2(3) by (auto simp: h2'_def same_frame_def)
  have rep2: "represents h2' (f(?n := ?m, b := (f b)\<lparr>mnext := ?n\<rparr>)) ?new" using h2(2) by (simp only: h2'_def represents_frame split: if_split) simp
  have lay2: "layout (split_headers f b ?n) ?new (brk h2')" using lay' fr by simp
  from upd_header_ok [OF rep2 lay2, of b "\<lambda>m. m\<lparr>msize := sz, mfree := False\<rparr>"]
  obtain h3 where h3: "upd_header b (\<lambda>m. m\<lparr>msize := sz, mfree := False\<rparr>) h2' = Inr h3"
      "represents h3 (f(?n := ?m, b := (f b)\<lparr>mnext := ?n, msize := sz, mfree := False\<rparr>)) ?new"
      "same_frame h2' h3" "touches_only (set ?new) h2' h3" by auto
  have "f(?n := ?m, b := (f b)\<lparr>mnext := ?n, msize := sz, mfree := False\<rparr>) = split_headers f b ?n"
    by (cases "f b") (simp add: split_headers_def block_end_def metadata_size_def)
  moreover have "use_block b sz h = Inr (b + metadata_size, h3)"
    using get_header_ok [OF rep b blk(1)] small sz h1(1) h2(1) h3(1)
    by (cases "b = tail h2") (simp_all add: use_block_def Let_def metadata_size_def align_to_def h2'_def)
  moreover have "head h3 = head h" "brk h3 = brk h" "tail h3 = (if tail h = b then ?n else tail h)"
    using fr h3(3) by (simp_all add: same_frame_def)
  moreover have "touches_only (set ?new) h h3"
    using h2(4) h3(4) fr(4) by (auto simp: touches_only_def)
  ultimately show ?thesis using h3(2) by auto
qed

lemma use_block_ok:
  assumes rep: "represents h f as" and ok: "list_ok f as (brk h)" and lim: "brk h < 2 ^ 63" "8 dvd brk h"
    and ends: "as \<noteq> []" "head h = hd as" "tail h = last as" and b: "b \<in> set as" "fits f sz b" and dvd: "8 dvd sz"
  shows "\<exists>h' as'. use_block b sz h = Inr (b + metadata_size, h') \<and> allocates (b + metadata_size) sz h as h' as'"
proof (cases "add64 (add64 sz metadata_size) align_to \<le> msize (f b) \<and> msize (f b) \<noteq> sz")
  case False
  let ?g = "f(b := (f b)\<lparr>msize := sz, mfree := False\<rparr>)"
  obtain h' where h': "use_block b sz h = Inr (b + metadata_size, h')" "same_frame h h'"
      "touches_only (set as) h h'" "represents h' ?g as"
    using False use_block_exact [OF rep ok b(1)] use_block_slack [OF rep ok b(1)] by metis
  have "list_ok ?g as (brk h')"
    using take_ok [OF ok b(1) _ dvd] b(2) h'(2) by (simp add: fits_def same_frame_def)
  moreover have "live_of ?g as = insert (b + metadata_size, sz) (live_of f as)"
    using b by (intro take_live) (simp_all add: fits_def)
  ultimately have "allocates (b + metadata_size) sz h as h' as"
    using h' b ends lim by (intro allocatesI [OF rep h'(4)]) (auto simp: same_frame_def fits_def unreferenced_def)
  then show ?thesis using h'(1) by blast
next
  case True
  obtain xs ys where as: "as = xs @ b # ys" using b(1) by (meson split_list)
  have fr: "mfree (f b)" "sz \<le> msize (f b)" using b(2) by (simp_all add: fits_def)
  note blk = list_ok_block [OF ok b(1)]
  have sz: "sz + metadata_size + align_to \<le> msize (f b)"
    using True fr(2) blk(6) lim(1) by (simp add: metadata_size_def align_to_def)
  let ?n = "b + metadata_size + sz"
  obtain h' where h': "use_block b sz h = Inr (b + metadata_size, h')" "head h' = head h" "brk h' = brk h"
      "tail h' = (if tail h = b then ?n else tail h)" "touches_only (set (xs @ b # ?n # ys)) h h'"
      "represents h' (split_headers f b ?n) (xs @ b # ?n # ys)"
    using use_block_split [OF rep [unfolded as] ok [unfolded as] lim(1) fr(1) sz dvd] by blast
  have n: "b + metadata_size \<le> ?n" "?n + metadata_size \<le> block_end f b" "8 dvd ?n"
    using sz dvd blk by (simp_all add: block_end_def metadata_size_def)
  have "list_ok (split_headers f b ?n) (xs @ b # ?n # ys) (brk h')"
    using split_ok [OF ok [unfolded as] n fr(1)] h'(3) by simp
  moreover have "live_of (split_headers f b ?n) (xs @ b # ?n # ys) = insert (b + metadata_size, sz) (live_of f as)"
    using split_live [OF ok [unfolded as] n(1,2) fr(1)] as by simp
  moreover have "tail h' = last (xs @ b # ?n # ys)"
    using h'(4) ends(3) blk(5) as by (cases ys rule: rev_cases) (auto split: if_splits)
  moreover have "head h' = hd (xs @ b # ?n # ys)" using h'(2) ends(2) as by (cases xs) auto
  moreover have "unreferenced (split_headers f b ?n) (xs @ b # ?n # ys) c"
    if "c \<in> set as" "\<not> mfree (f c)" "unreferenced f as c" for c
  proof -
    have "c \<noteq> b" "c \<noteq> ?n" using that fr(1) layout_sep [of f as "brk h" b c] ok b(1) n(2)
      by (auto simp: list_ok_def block_end_def metadata_size_def)
    then show ?thesis using that(3) as by (auto simp: unreferenced_def split_headers_def)
  qed
  ultimately have "allocates (b + metadata_size) sz h as h' (xs @ b # ?n # ys)"
    using h' fr lim as by (intro allocatesI [OF rep h'(6)]) auto
  then show ?thesis using h'(1) by blast
qed

subsection \<open>Asking for more memory\<close>

text \<open>
  What the allocator relies on: the system gives it addresses of its half of the address space.
\<close>

definition sane_env :: "alloc_env \<Rightarrow> bool" where
  "sane_env env \<longleftrightarrow> (\<forall>b n. grant env b n \<longrightarrow> int b + n < 2 ^ 63)"

definition extend_headers :: "(nat \<Rightarrow> metadata) \<Rightarrow> nat list \<Rightarrow> nat \<Rightarrow> nat \<Rightarrow> nat \<Rightarrow> metadata" where
  "extend_headers f as c sz =
     f(c := \<lparr>msize = sz, mnext = 0, mprev = last as, mfree = False\<rparr>, last as := (f (last as))\<lparr>mnext := c\<rparr>)"

lemma layout_below:
  "layout f as lim \<Longrightarrow> a \<in> set as \<Longrightarrow> a + metadata_size \<le> lim \<and> a < lim"
  by (auto simp: layout_def block_end_def metadata_size_def)

lemma extend_ok:
  assumes ok: "list_ok f as c" and "as \<noteq> []" "8 dvd c" "8 dvd sz" "c + metadata_size + sz \<le> lim"
  shows "list_ok (extend_headers f as c sz) (as @ [c]) lim"
    and "live_of (extend_headers f as c sz) (as @ [c]) = insert (c + metadata_size, sz) (live_of f as)"
proof -
  let ?g = "extend_headers f as c sz" let ?t = "last as"
  have lay: "layout f as c" using ok by (simp add: list_ok_def)
  have t: "?t \<in> set as" using assms(2) by simp
  have fresh: "c \<notin> set as" using layout_below [OF lay] by auto
  have g: "msize (?g a) = msize (f a)" "mprev (?g a) = mprev (f a)" "mfree (?g a) = mfree (f a)" if "a \<in> set as" for a
    using that fresh by (auto simp: extend_headers_def)
  have gc: "?g c = \<lparr>msize = sz, mnext = 0, mprev = last as, mfree = False\<rparr>"
    using t fresh by (auto simp: extend_headers_def)
  have ends: "block_end ?g a = block_end f a" if "a \<in> set as" for a using g(1) [OF that] by (simp add: block_end_def)
  have "sorted_wrt (\<lambda>a b. block_end ?g a \<le> b) as"
    using lay ends by (auto simp: layout_def elim: sorted_ends_mono)
  then have "layout ?g (as @ [c]) lim"
    using lay assms t ends g(1) gc layout_below [OF lay t]
    by (auto simp: layout_def sorted_wrt_append block_end_def)
  moreover have "links ?g (as @ [c]) 0"
  proof (cases as rule: rev_cases)
    case (snoc xs u)
    then have u: "?t = u" "u \<notin> set xs" "c \<notin> set xs" "u \<noteq> c" using layout_distinct [OF lay] fresh by auto
    then have "mnext (?g a) = mnext (f a)" if "a \<in> set xs" for a using that by (auto simp: extend_headers_def)
    then have "links ?g xs u = links f xs u" by (intro links_cong)
    moreover have "links f (xs @ [u]) 0" using ok snoc by (simp add: list_ok_def)
    moreover have "mnext (?g u) = c" using u by (simp add: extend_headers_def)
    ultimately show ?thesis using gc snoc by simp
  qed (use assms(2) in simp)
  moreover have "prevs ?g (set (as @ [c])) 0 as"
  proof -
    have "prevs f (set as) 0 as" using ok by (simp add: list_ok_def)
    then show ?thesis by (rule prevs_mono) (use g in auto)
  qed
  ultimately show "list_ok ?g (as @ [c]) lim" using gc assms(2) by (auto simp: list_ok_def)
  show "live_of ?g (as @ [c]) = insert (c + metadata_size, sz) (live_of f as)"
    using g gc by (auto simp: live_of_def)
qed

lemma extend_heap_ok:
  assumes rep: "represents h f as" and ok: "list_ok f as (brk h)" and lim: "brk h < 2 ^ 63" "8 dvd brk h"
    and ends: "as \<noteq> []" "head h = hd as" "tail h = last as" and dvd: "8 dvd sz"
    and env: "sane_env env" and sz: "sz + metadata_size < 2 ^ 63"
  shows "\<exists>p h'. extend_heap env sz h = Inr (p, h') \<and>
     (if grant env (brk h) (int (sz + metadata_size)) then \<exists>as'. allocates p sz h as h' as' else p = 0 \<and> h' = h)"
proof -
  let ?c = "brk h" let ?m = "\<lparr>msize = sz, mnext = 0, mprev = tail h, mfree = False\<rparr>"
  have add: "add64 sz metadata_size = sz + metadata_size" "signed64 (sz + metadata_size) = int (sz + metadata_size)"
    using sz by (simp_all add: signed64_def)
  show ?thesis
  proof (cases "grant env ?c (int (sz + metadata_size))")
    case False
    then show ?thesis using add by (simp add: extend_heap_def sbrk_def)
  next
    case True
    let ?h0 = "h\<lparr>brk := ?c + (sz + metadata_size)\<rparr>"
    have sbrk: "sbrk env (sz + metadata_size) h = (Some ?c, ?h0)"
      using True add by (simp add: sbrk_def flip: of_nat_add)
    have lay: "layout f as ?c" using ok by (simp add: list_ok_def)
    have t: "tail h \<in> set as" using ends by simp
    have c: "0 < ?c" using layout_below [OF lay t] by simp
    have brk0: "brk ?h0 = ?c + metadata_size + sz" by simp
    have ok': "list_ok (extend_headers f as ?c sz) (as @ [?c]) (brk ?h0)"
      and live': "live_of (extend_headers f as ?c sz) (as @ [?c]) = insert (?c + metadata_size, sz) (live_of f as)"
      using extend_ok [OF ok ends(1) lim(2) dvd, of "brk ?h0"] brk0 by (simp_all add: ac_simps)
    have lay': "layout (extend_headers f as ?c sz) (as @ [?c]) (brk ?h0)" using ok' by (simp add: list_ok_def)
    have rep0: "represents ?h0 f as" using rep by simp
    have "\<exists>h1. put_header ?c ?m ?h0 = Inr h1 \<and> represents h1 (f(?c := ?m)) (?c # as) \<and> same_frame ?h0 h1 \<and>
        touches_only {?c} ?h0 h1"
      by (rule put_header_ok [OF rep0 c]) (use layout_below [OF lay] in auto)
    then obtain h1 where h1: "put_header ?c ?m ?h0 = Inr h1" "represents h1 (f(?c := ?m)) (?c # as)"
        "same_frame ?h0 h1" "touches_only {?c} ?h0 h1" by blast
    have rep1: "represents h1 (f(?c := ?m)) (as @ [?c])" using h1(2) by (rule represents_subset) auto
    have brk1: "brk h1 = brk ?h0" using h1(3) by (simp add: same_frame_def)
    have t1: "touches_only (set (as @ [?c])) ?h0 h1" using h1(4) by (auto simp: touches_only_def header_bytes_def)
    have tc: "tail h \<noteq> ?c" using layout_below [OF lay t] by simp
    obtain h2 where h2: "upd_header (tail h) (\<lambda>m. m\<lparr>mnext := ?c\<rparr>) h1 = Inr h2"
        "represents h2 (extend_headers f as ?c sz) (as @ [?c])" "same_frame ?h0 h2"
        "touches_only (set (as @ [?c])) ?h0 h2"
      using upd_header_chain [OF rep1 lay' [folded brk1] _ h1(3) t1, of "tail h" "\<lambda>m. m\<lparr>mnext := ?c\<rparr>"] t tc ends
      by (auto simp: extend_headers_def)
    have fr: "tail h1 = tail h" using h1(3) by (simp add: same_frame_def)
    have "extend_heap env sz h = Inr (?c + metadata_size, h2\<lparr>tail := ?c\<rparr>)"
      using sbrk add(1) h1(1) h2(1) fr by (simp add: extend_heap_def)
    moreover have "allocates (?c + metadata_size) sz h as (h2\<lparr>tail := ?c\<rparr>) (as @ [?c])"
    proof (rule allocatesI [OF rep])
      show "represents (h2\<lparr>tail := ?c\<rparr>) (extend_headers f as ?c sz) (as @ [?c])" using h2(2) by simp
      show "list_ok (extend_headers f as ?c sz) (as @ [?c]) (brk (h2\<lparr>tail := ?c\<rparr>))"
        using ok' h2(3) by (simp add: same_frame_def)
      have "int ?c + int (sz + metadata_size) < 2 ^ 63" using env True unfolding sane_env_def by blast
      then show "brk (h2\<lparr>tail := ?c\<rparr>) < 2 ^ 63" using h2(3) by (simp add: same_frame_def)
      show "8 dvd brk (h2\<lparr>tail := ?c\<rparr>)" using h2(3) lim(2) dvd by (simp add: same_frame_def metadata_size_def)
      show "head (h2\<lparr>tail := ?c\<rparr>) = hd (as @ [?c])" using h2(3) ends by (simp add: same_frame_def)
      show "touches_only (set (as @ [?c])) h (h2\<lparr>tail := ?c\<rparr>)" using h2(4) by (simp add: touches_only_def)
      show "?c \<notin> set as \<or> mfree (f ?c)" using layout_below [OF lay] by blast
      show "c \<in> set (as @ [?c]) \<and>
          (unreferenced f as c \<longrightarrow> unreferenced (extend_headers f as ?c sz) (as @ [?c]) c)" if "c \<in> set as" for c
      proof -
        have last: "mnext (f (last as)) = 0"
          using ok ends(1) by (cases as rule: rev_cases) (auto simp: list_ok_def)
        have "?c \<notin> set as" "0 \<notin> set as" using layout_below [OF lay] lay by (auto simp: layout_def)
        then show ?thesis using that last ends(1) by (auto simp: unreferenced_def extend_headers_def)
      qed
    qed (use live' in simp_all)
    ultimately show ?thesis using True by auto
  qed
qed

subsection \<open>\<open>malloc\<close>\<close>

lemma align_size_ok:
  assumes "sz < 2 ^ 63"
  shows "sz \<le> align_size sz" "align_size sz < sz + 8" "8 dvd align_size sz"
  using assms by (simp_all add: align_size_def align_to_def)

lemma init_head_ok:
  assumes "0 < brk h" "8 dvd brk h" "sane_env env"
  shows "init_head env h = Inl (Exit_status 1) \<and> \<not> grant env (brk h) (int INITIAL_HEAP_SIZE) \<or>
    (\<exists>h'. init_head env h = Inr h' \<and> heap_ok h' [brk h] \<and> live h' [brk h] = {})"
proof (cases "grant env (brk h) (int INITIAL_HEAP_SIZE)")
  case False
  then show ?thesis by (simp add: init_head_def sbrk_def signed64_def INITIAL_HEAP_SIZE_def)
next
  case True
  then have "int (brk h) + int INITIAL_HEAP_SIZE < 2 ^ 63" using assms(3) unfolding sane_env_def by blast
  then have "brk h + INITIAL_HEAP_SIZE < 2 ^ 63" by (simp add: INITIAL_HEAP_SIZE_def)
  then show ?thesis using True assms(1,2)
    by (auto simp: init_head_def sbrk_def signed64_def INITIAL_HEAP_SIZE_def put_header_def metadata_size_def
        Let_def heap_ok_def represents_def list_ok_def layout_def block_end_def live_def nat_add_distrib
        intro!: exI [of _ "\<lambda>_. \<lparr>msize = 268435424, mnext = 0, mprev = 0, mfree = True\<rparr>"])
qed

lemma find_in: "find P xs = Some a \<Longrightarrow> a \<in> set xs \<and> P a"
  by (auto simp: find_Some_iff)

lemma malloc_ok:
  assumes "heap_ok h as" "sane_env env" "length as < fuel env" "sz < 2 ^ 62"
  shows "\<exists>p h'. malloc env sz h = Inr (p, h') \<and>
     ((\<exists>as'. allocates p (align_size sz) h as h' as') \<or>
      p = 0 \<and> h' = h \<and> \<not> grant env (brk h) (int (align_size sz + metadata_size)) \<and>
      (\<forall>a \<in> set as. \<forall>m. meta h a = Some m \<and> mfree m \<longrightarrow> msize m < align_size sz))"
proof -
  let ?sz = "align_size sz"
  obtain f where rep: "represents h f as" and ok: "list_ok f as (brk h)"
    and ends: "as \<noteq> []" "head h = hd as" "tail h = last as" and lim: "brk h < 2 ^ 63" "8 dvd brk h"
    using assms(1) by (auto simp: heap_ok_def)
  have sz: "8 dvd ?sz" "?sz + metadata_size < 2 ^ 63"
    using align_size_ok [of sz] assms(4) by (simp_all add: metadata_size_def)
  have pos: "0 < a" if "a \<in> set as" for a using list_ok_block [OF ok that] by simp
  have t: "tail h \<in> set as" "get_header (tail h) h = Inr (f (tail h))"
    using ends pos by (auto intro: get_header_ok [OF rep])
  have head0: "head h \<noteq> 0" using ends pos [of "hd as"] by simp
  define best where "best = (if fits f ?sz (tail h) then tail h
      else case find (fits f ?sz) as of None \<Rightarrow> 0 | Some a \<Rightarrow> a)"
  have ff: "first_fit env 0 ?sz h = Inr (case find (fits f ?sz) as of None \<Rightarrow> 0 | Some a \<Rightarrow> a)"
    using first_fit_loop_ok [OF rep, of "fuel env" ?sz] ok pos assms(3) ends
    by (force simp: first_fit_def list_ok_def)
  have run: "malloc env sz h = (if best \<noteq> 0 then use_block best ?sz h else extend_heap env ?sz h)"
    using head0 t(2) ff by (auto simp: malloc_def Let_def best_def fits_def [of f ?sz "tail h"])
  show ?thesis
  proof (cases "best = 0")
    case False
    then have "best \<in> set as" "fits f ?sz best"
      using t(1) find_in [of "fits f ?sz" as] unfolding best_def
      by (simp_all split: if_splits option.splits)
    then show ?thesis using use_block_ok [OF rep ok lim ends _ _ sz(1)] run False by fastforce
  next
    case True
    have "find (fits f ?sz) as = None"
    proof (cases "find (fits f ?sz) as")
      case (Some a)
      then have "a \<in> set as" by (auto simp: find_Some_iff)
      then show ?thesis using True Some pos [of a] pos [OF t(1)] by (simp add: best_def split: if_splits)
    qed
    then have "\<forall>a \<in> set as. \<not> fits f ?sz a" by (auto simp: find_None_iff)
    then have "\<forall>a \<in> set as. \<forall>m. meta h a = Some m \<and> mfree m \<longrightarrow> msize m < ?sz"
      using rep by (auto simp: represents_def fits_def)
    then show ?thesis
      using extend_heap_ok [OF rep ok lim ends sz(1) assms(2) sz(2)] run True by (auto split: if_splits)
  qed
qed

end
