(* ===== verification/Malloc_Free.thy ===== *)
theory Malloc_Free
  imports Malloc_Blocks
begin

text \<open>
  \<open>free\<close>, \<open>realloc\<close> and the writes of the user keep the invariant of the block list; so would
  \<open>coalesce\<close>, which nothing calls.
\<close>

section \<open>\<open>free\<close>\<close>

definition heap_rep :: "heap \<Rightarrow> (nat \<Rightarrow> metadata) \<Rightarrow> nat list \<Rightarrow> bool" where
  "heap_rep h f as \<longleftrightarrow> as \<noteq> [] \<and> head h = hd as \<and> tail h = last as \<and>
     brk h < 2 ^ 63 \<and> 8 dvd brk h \<and> represents h f as \<and> list_ok f as (brk h)"

lemma heap_ok_rep: "heap_ok h as \<longleftrightarrow> (\<exists>f. heap_rep h f as)"
  by (auto simp: heap_ok_def heap_rep_def)

definition absorbed :: "(nat \<Rightarrow> metadata) \<Rightarrow> nat \<Rightarrow> nat \<Rightarrow> nat \<Rightarrow> metadata" where
  "absorbed f a b = (let y = mnext (f b);
     f = f(a := (f a)\<lparr>msize := msize (f a) + (msize (f b) + metadata_size), mnext := y\<rparr>)
     in if y = 0 then f else f(y := (f y)\<lparr>mprev := a\<rparr>))"

lemma prevs_release:
  assumes "prevs f S p as" "\<And>x. x \<in> set as \<Longrightarrow> mprev (f x) \<noteq> c" "mprev m = mprev (f c)"
  shows "prevs (f(c := m)) S p as"
  using assms(1) by (rule prevs_mono) (use assms(2,3) in \<open>auto simp: image_iff\<close>)

lemma release_ok:
  assumes ok: "list_ok f as lim" and c: "c \<in> set as" "unreferenced f as c"
  shows "list_ok (f(c := (f c)\<lparr>mfree := True\<rparr>)) as lim"
    and "live_of (f(c := (f c)\<lparr>mfree := True\<rparr>)) as = {(p, n) \<in> live_of f as. p \<noteq> c + metadata_size}"
proof -
  let ?g = "f(c := (f c)\<lparr>mfree := True\<rparr>)"
  obtain xs ys where as: "as = xs @ c # ys" using c(1) by (meson split_list)
  have dist: "distinct (xs @ c # ys)" using list_ok_block(5) [OF ok c(1)] as by simp
  have pos: "0 < a" if "a \<in> set as" for a using list_ok_block(1) [OF ok that] by simp
  have nx: "mnext (f c) = hd (ys @ [0])" using ok as by (auto simp: list_ok_def)
  have noref: "mprev (f x) \<noteq> c" if "x \<in> set as" "x \<noteq> hd (ys @ [0])" for x
    using c(2) that nx by (auto simp: unreferenced_def)
  have "block_end ?g = block_end f" by (simp add: block_end_def fun_eq_iff)
  then have "layout ?g as lim" using ok by (simp add: list_ok_def layout_def)
  moreover have "links ?g as 0" using ok by (simp add: list_ok_def)
  moreover have "prevs ?g (set as) 0 (xs @ [c])"
  proof (rule prevs_release)
    show "prevs f (set as) 0 (xs @ [c])" using ok unfolding as by (simp add: list_ok_def)
    fix x assume "x \<in> set (xs @ [c])"
    then have "x \<noteq> hd (ys @ [0])" using dist pos [of x] as by (cases ys) auto
    then show "mprev (f x) \<noteq> c" using noref [of x] \<open>x \<in> set (xs @ [c])\<close> as by auto
  qed simp
  moreover have "prevs ?g (set as) c ys"
  proof (cases ys)
    case (Cons y ys')
    have "prevs f (set as) c (y # ys')" using ok as Cons by (simp add: list_ok_def)
    moreover have "prevs ?g (set as) y ys'"
    proof (rule prevs_release)
      fix x assume "x \<in> set ys'"
      then have "x \<noteq> y" using dist Cons by auto
      then show "mprev (f x) \<noteq> c" using noref [of x] \<open>x \<in> set ys'\<close> as Cons by auto
    qed (use calculation in simp_all)
    ultimately show ?thesis using Cons dist by auto
  qed simp
  ultimately show "list_ok ?g as lim" using as by (simp add: list_ok_def)
  show "live_of ?g as = {(p, n) \<in> live_of f as. p \<noteq> c + metadata_size}"
    by (auto simp: live_of_def)
qed

lemma absorb_ok:
  assumes ok: "list_ok f (xs @ a # b # ys) lim" and free: "mfree (f a)" "mfree (f b)"
  shows "list_ok (absorbed f a b) (xs @ a # ys) lim"
    and "live_of (absorbed f a b) (xs @ a # ys) = live_of f (xs @ a # b # ys)"
proof -
  let ?g = "absorbed f a b" let ?old = "xs @ a # b # ys"
  have lay: "layout f ?old lim" and pr: "prevs f (set ?old) 0 ?old" and lk: "links f ?old 0"
    using ok by (simp_all add: list_ok_def)
  have dist: "distinct ?old" using lay by (rule layout_distinct)
  have pos: "0 < x" if "x \<in> set ?old" for x using lay that by (auto simp: layout_def)
  have nb: "mnext (f b) = hd (ys @ [0])" using lk by simp
  have fields: "msize (?g x) = msize (f x)" "mnext (?g x) = mnext (f x)" "mfree (?g x) = mfree (f x)"
    if "x \<noteq> a" for x using that by (auto simp: absorbed_def Let_def)
  have ga: "msize (?g a) = msize (f a) + (msize (f b) + metadata_size)" "mnext (?g a) = mnext (f b)" "mfree (?g a)"
    using free(1) dist pos nb by (cases ys; auto simp: absorbed_def Let_def)+
  have prev: "mprev (?g x) = (if mnext (f b) = x \<and> x \<noteq> 0 then a else mprev (f x))" for x
    by (auto simp: absorbed_def Let_def)
  have ends: "block_end ?g x = block_end f x" if "x \<noteq> a" for x using fields(1) [OF that] by (simp add: block_end_def)
  have ab: "block_end f a \<le> b" using lay by (simp add: layout_def sorted_wrt_append)
  have enda: "block_end ?g a \<le> block_end f b" using ab ga by (simp add: block_end_def)
  have lay': "layout ?g (xs @ a # ys) lim"
  proof -
    have "sorted_wrt (\<lambda>x y. block_end ?g x \<le> y) xs" "sorted_wrt (\<lambda>x y. block_end ?g x \<le> y) ys"
      using lay dist ends by (auto simp: layout_def sorted_wrt_append elim!: sorted_ends_mono) (metis order_refl)+
    moreover have "block_end ?g a \<le> y" if "y \<in> set ys" for y
      using lay enda that by (fastforce simp: layout_def sorted_wrt_append)
    moreover have "8 dvd msize (?g a)" using lay ga by (auto simp: layout_def metadata_size_def)
    moreover have "block_end ?g a \<le> lim" using lay enda by (auto simp: layout_def)
    moreover have "x \<noteq> a" if "x \<in> set xs \<or> x \<in> set ys" for x using dist that by auto
    ultimately show ?thesis using lay ends fields(1)
      by (fastforce simp: layout_def sorted_wrt_append)
  qed
  have "links ?g xs a = links f xs a" "links ?g ys 0 = links f ys 0"
    using dist by (auto intro!: links_cong fields(2))
  then have lk': "links ?g (xs @ a # ys) 0" using lk ga(2) nb by simp
  have keep: "x \<in> set (xs @ a # ys) \<and> \<not> mfree (?g x)" if "x \<in> set ?old" "\<not> mfree (f x)" for x
    using that free fields(3) [of x] by (cases "x = a") auto
  have same: "mprev (?g x) = mprev (f x)" if "x \<in> set (xs @ [a])" for x
    using that dist prev [of x] nb pos [of x] by (cases ys) auto
  have "prevs ?g (set (xs @ a # ys)) 0 (xs @ [a])"
  proof (rule prevs_mono)
    show "prevs f (set ?old) 0 (xs @ [a])" using pr by simp
  qed (use same keep in auto)
  moreover have "prevs ?g (set (xs @ a # ys)) a ys"
  proof (cases ys)
    case (Cons y ys')
    have "prevs ?g (set (xs @ a # ys)) y ys'"
    proof (rule prevs_mono)
      show "prevs f (set ?old) y ys'" using pr Cons by simp
      fix x assume "x \<in> set ys'"
      then have "x \<noteq> y" using dist Cons by auto
      then show "mprev (?g x) = mprev (f x)" using prev [of x] nb Cons by simp
    qed (use keep in auto)
    moreover have "mprev (?g y) = a" using prev [of y] nb Cons pos [of y] by simp
    ultimately show ?thesis using Cons by simp
  qed simp
  ultimately show "list_ok ?g (xs @ a # ys) lim" using lay' lk' by (simp add: list_ok_def)
  show "live_of ?g (xs @ a # ys) = live_of f ?old"
    using fields dist free ga(3) by (auto simp: live_of_def) metis+
qed

lemma heap_rep_simps:
  assumes "heap_rep h f as"
  shows "represents h f as" "layout f as (brk h)" "list_ok f as (brk h)" "live h as = live_of f as"
    "\<And>a. a \<in> set as \<Longrightarrow> 0 < a" "\<And>a. a \<in> set as \<Longrightarrow> get_header a h = Inr (f a)"
    "\<And>a. a \<in> set as \<Longrightarrow> a + metadata_size + msize (f a) < 2 ^ 63" "distinct as"
proof -
  show ok: "represents h f as" "list_ok f as (brk h)" "layout f as (brk h)"
    using assms by (simp_all add: heap_rep_def list_ok_def)
  then show "live h as = live_of f as" "distinct as" by (simp_all add: live_represents layout_distinct)
  show pos: "0 < a" if "a \<in> set as" for a using list_ok_block(1) [OF ok(2) that] .
  then show "get_header a h = Inr (f a)" if "a \<in> set as" for a using that get_header_ok [OF ok(1)] by simp
  show "a + metadata_size + msize (f a) < 2 ^ 63" if "a \<in> set as" for a
    using list_ok_block(6) [OF ok(2) that] assms by (simp add: heap_rep_def)
qed

lemma merge_blocks_ok:
  assumes rep: "heap_rep h f (xs @ a # b # ys)" and free: "mfree (f a)" "mfree (f b)"
  shows "\<exists>h'. merge_blocks a b h = Inr h' \<and> heap_rep h' (absorbed f a b) (xs @ a # ys) \<and>
     live h' (xs @ a # ys) = live h (xs @ a # b # ys) \<and> touches_only (set (xs @ a # b # ys)) h h'"
proof -
  let ?old = "xs @ a # b # ys"
  note r = heap_rep_simps [OF rep]
  let ?u = "\<lambda>m. m\<lparr>msize := add64 (msize m) (add64 (msize (f b)) metadata_size), mnext := mnext (f b)\<rparr>"
  have "block_end f a \<le> b" using r(2) by (simp add: layout_def sorted_wrt_append)
  then have add: "add64 (msize (f a)) (add64 (msize (f b)) metadata_size) = msize (f a) + (msize (f b) + metadata_size)"
    using r(7) [of b] by (simp add: block_end_def metadata_size_def)
  obtain h1 where h1: "upd_header a ?u h = Inr h1" "represents h1 (f(a := ?u (f a))) ?old" "same_frame h h1"
      "touches_only (set ?old) h h1"
    using upd_header_ok [OF r(1,2), of a ?u] by auto
  have lay1: "layout f ?old (brk h1)" using r(2) h1(3) by (simp add: same_frame_def)
  let ?y = "mnext (f b)"
  have y: "?y = hd (ys @ [0])" using r(3) by (simp add: list_ok_def)
  have "\<exists>h2. (if ?y \<noteq> 0 then upd_header ?y (\<lambda>m. m\<lparr>mprev := a\<rparr>) h1 else Inr h1) = Inr h2 \<and>
      represents h2 (absorbed f a b) ?old \<and> same_frame h h2 \<and> touches_only (set ?old) h h2"
  proof (cases "?y = 0")
    case True
    then show ?thesis using h1 add by (auto simp: absorbed_def Let_def)
  next
    case False
    then have "?y \<in> set ?old" using y by (cases ys) auto
    then obtain h2 where "upd_header ?y (\<lambda>m. m\<lparr>mprev := a\<rparr>) h1 = Inr h2" "same_frame h h2"
        "touches_only (set ?old) h h2"
        "represents h2 ((f(a := ?u (f a)))(?y := ((f(a := ?u (f a))) ?y)\<lparr>mprev := a\<rparr>)) ?old"
      using upd_header_chain [OF h1(2) lay1 _ h1(3,4), of ?y "\<lambda>m. m\<lparr>mprev := a\<rparr>"] by metis
    moreover have "(f(a := ?u (f a)))(?y := ((f(a := ?u (f a))) ?y)\<lparr>mprev := a\<rparr>) = absorbed f a b"
      using False add by (simp add: absorbed_def Let_def)
    ultimately show ?thesis using False by auto
  qed
  then obtain h2 where h2: "(if ?y \<noteq> 0 then upd_header ?y (\<lambda>m. m\<lparr>mprev := a\<rparr>) h1 else Inr h1) = Inr h2"
      "represents h2 (absorbed f a b) ?old" "same_frame h h2" "touches_only (set ?old) h h2" by blast
  let ?h = "if b = tail h2 then h2\<lparr>tail := a\<rparr> else h2"
  have "merge_blocks a b h = Inr ?h" using r(6) [of b] h1(1) h2(1) by (simp add: merge_blocks_def)
  moreover have tl: "tail ?h = last (xs @ a # ys)"
  proof -
    have "tail h2 = last ?old" using rep h2(3) by (simp add: heap_rep_def same_frame_def)
    then show ?thesis using r(8) by (cases ys rule: rev_cases) auto
  qed
  moreover have "brk ?h = brk h" "head ?h = head h" "bytes ?h = bytes h2"
    using h2(3) by (auto simp: same_frame_def)
  moreover have "head h = hd (xs @ a # ys)" using rep by (cases xs) (auto simp: heap_rep_def)
  moreover have rep': "represents ?h (absorbed f a b) (xs @ a # ys)"
    using represents_subset [OF h2(2), of "xs @ a # ys"] by (auto simp: represents_def)
  moreover have "live ?h (xs @ a # ys) = live h ?old"
    unfolding live_represents [OF rep'] r(4) by (rule absorb_ok(2) [OF r(3) free])
  moreover have "touches_only (set ?old) h ?h" using h2(4) by (simp add: touches_only_def)
  ultimately show ?thesis using absorb_ok(1) [OF r(3) free] rep
    by (simp add: heap_rep_def)
qed

lemma mark_free_ok:
  assumes rep: "heap_rep h f as" and c: "c \<in> set as" "unreferenced f as c"
  shows "\<exists>h'. upd_header c (\<lambda>m. m\<lparr>mfree := True\<rparr>) h = Inr h' \<and> heap_rep h' (f(c := (f c)\<lparr>mfree := True\<rparr>)) as \<and>
     live h' as = {(p, n) \<in> live h as. p \<noteq> c + metadata_size} \<and> touches_only (set as) h h'"
proof -
  note r = heap_rep_simps [OF rep]
  obtain h' where "upd_header c (\<lambda>m. m\<lparr>mfree := True\<rparr>) h = Inr h'"
      "represents h' (f(c := (f c)\<lparr>mfree := True\<rparr>)) as" "same_frame h h'" "touches_only (set as) h h'"
    using upd_header_ok [OF r(1,2) c(1)] by blast
  then show ?thesis using release_ok [OF r(3) c] rep r(4)
    by (auto simp: heap_rep_def same_frame_def live_represents)
qed

lemma touches_only_mono: "A \<subseteq> B \<Longrightarrow> touches_only A h h' \<Longrightarrow> touches_only B h h'"
proof -
  assume "A \<subseteq> B"
  then have "header_bytes A \<subseteq> header_bytes B" by (auto simp: header_bytes_def)
  then show "touches_only A h h' \<Longrightarrow> touches_only B h h'" by (auto simp: touches_only_def)
qed

text \<open>The two merges, one after the other.\<close>

lemma merge_prev_ok:
  assumes rep: "heap_rep h f as" and c: "c \<in> set as" "mfree (f c)"
    and pf: "pf \<longleftrightarrow> mprev (f c) \<noteq> 0 \<and> mfree (f (mprev (f c)))"
  shows "\<exists>h' f' d as'. (if pf then rbind (merge_blocks (mprev (f c)) c h) (\<lambda>h. Inr (mprev (f c), h)) else Inr (c, h)) =
       Inr (d, h') \<and> heap_rep h' f' as' \<and> d \<in> set as' \<and> mfree (f' d) \<and> mnext (f' d) = mnext (f c) \<and>
       live h' as' = live h as \<and> touches_only (set as) h h' \<and> set as' \<subseteq> set as"
proof (cases pf)
  case False
  then show ?thesis using assms by auto
next
  case True
  note r = heap_rep_simps [OF rep]
  obtain xs ys where as: "as = xs @ c # ys" using c(1) by (meson split_list)
  have "mprev (f c) = last (0 # xs)"
    using r(3) True pf as by (auto simp: list_ok_def)
  then obtain xs' where xs: "xs = xs' @ [mprev (f c)]"
    using True pf by (cases xs rule: rev_cases) auto
  then have as': "as = xs' @ mprev (f c) # c # ys" using as by simp
  have "mprev (f c) \<noteq> c" using r(8) as' by auto
  then have "mnext (absorbed f (mprev (f c)) c (mprev (f c))) = mnext (f c)"
    "mfree (absorbed f (mprev (f c)) c (mprev (f c)))"
    using True pf by (auto simp: absorbed_def Let_def)
  then show ?thesis
    using merge_blocks_ok [OF rep [unfolded as'], of] True pf c(2) as' by fastforce
qed

lemma merge_next_ok:
  assumes rep: "heap_rep h f as" and d: "d \<in> set as" "mfree (f d)"
  shows "\<exists>h' as'. rbind (if mnext (f d) = 0 then Inr False
           else rbind (get_header (mnext (f d)) h) (\<lambda>mn. Inr (mfree mn))) (\<lambda>next_free.
        if next_free then merge_blocks d (mnext (f d)) h else Inr h) = Inr h' \<and>
      heap_ok h' as' \<and> live h' as' = live h as \<and> touches_only (set as) h h'"
proof -
  note r = heap_rep_simps [OF rep]
  obtain xs ys where as: "as = xs @ d # ys" using d(1) by (meson split_list)
  have nx: "mnext (f d) = hd (ys @ [0])" using r(3) as by (simp add: list_ok_def)
  show ?thesis
  proof (cases ys)
    case Nil
    then show ?thesis using rep nx by (auto simp: heap_ok_rep)
  next
    case (Cons y zs)
    then have y: "y \<in> set as" "mnext (f d) = y" using as nx by simp_all
    then have "get_header y h = Inr (f y)" "0 < y" using r(5,6) by simp_all
    then show ?thesis
      using merge_blocks_ok [OF rep [unfolded as Cons] d(2)] rep y as Cons
      by (cases "mfree (f y)") (auto simp: heap_ok_rep)
  qed
qed

lemma free_block_ok:
  assumes rep: "heap_rep h f as" and c: "c \<in> set as" "unreferenced f as c"
  shows "\<exists>h' as'. free_block (c + metadata_size) h = Inr h' \<and> heap_ok h' as' \<and>
     live h' as' = {(p, n) \<in> live h as. p \<noteq> c + metadata_size} \<and> touches_only (set as) h h'"
proof -
  let ?f = "f(c := (f c)\<lparr>mfree := True\<rparr>)"
  let ?p = "mprev (f c)" let ?n = "mnext (f c)"
  obtain h1 where h1: "upd_header c (\<lambda>m. m\<lparr>mfree := True\<rparr>) h = Inr h1" "heap_rep h1 ?f as"
      "live h1 as = {(p, n) \<in> live h as. p \<noteq> c + metadata_size}" "touches_only (set as) h h1"
    using mark_free_ok [OF rep c] by blast
  note r1 = heap_rep_simps [OF h1(2)]
  have "?p \<in> set as" if "?p \<noteq> 0"
  proof -
    obtain xs ys where as: "as = xs @ c # ys" using c(1) by (meson split_list)
    have "prevs f (set as) 0 as" using heap_rep_simps(3) [OF rep] by (simp add: list_ok_def)
    then show ?thesis using that unfolding as by (cases xs rule: rev_cases) auto
  qed
  then have pf: "(if ?p = 0 then Inr False else rbind (get_header ?p h1) (\<lambda>mp. Inr (mfree mp))) =
      Inr (?p \<noteq> 0 \<and> mfree (?f ?p))" using r1(6) by auto
  obtain h2 f2 d as2 where h2: "(if ?p \<noteq> 0 \<and> mfree (?f ?p)
        then rbind (merge_blocks ?p c h1) (\<lambda>h. Inr (?p, h)) else Inr (c, h1)) = Inr (d, h2)"
      "heap_rep h2 f2 as2" "d \<in> set as2" "mfree (f2 d)" "mnext (f2 d) = ?n" "live h2 as2 = live h1 as"
      "touches_only (set as) h1 h2" "set as2 \<subseteq> set as"
    using merge_prev_ok [OF h1(2) c(1) _ refl] by (auto split: if_splits)
  obtain h3 as3 where h3: "rbind (if ?n = 0 then Inr False
           else rbind (get_header ?n h2) (\<lambda>mn. Inr (mfree mn))) (\<lambda>next_free.
        if next_free then merge_blocks d ?n h2 else Inr h2) = Inr h3"
      "heap_ok h3 as3" "live h3 as3 = live h2 as2" "touches_only (set as2) h2 h3"
    using merge_next_ok [OF h2(2-4), unfolded h2(5)] by blast
  have "free_block (c + metadata_size) h =
      rbind (if ?p = 0 then Inr False else rbind (get_header ?p h1) (\<lambda>mp. Inr (mfree mp))) (\<lambda>prev_free.
      rbind (if prev_free then rbind (merge_blocks ?p c h1) (\<lambda>h. Inr (?p, h)) else Inr (c, h1)) (\<lambda>(d, h).
      rbind (if ?n = 0 then Inr False else rbind (get_header ?n h) (\<lambda>mn. Inr (mfree mn))) (\<lambda>next_free.
      if next_free then merge_blocks d ?n h else Inr h)))"
    using h1(1) r1(6) [OF c(1)] by (simp add: free_block_def metadata_size_def Let_def cong: if_cong)
  also have "\<dots> = Inr h3" by (simp only: pf rbind_simps h2(1) prod.case h3(1))
  finally have "free_block (c + metadata_size) h = Inr h3" .
  moreover have "touches_only (set as) h h3"
    using touches_only_trans [OF touches_only_trans [OF h1(4) h2(7)] touches_only_mono [OF h2(8) h3(4)]] .
  ultimately show ?thesis using h3 h2(6) h1(3) by auto
qed

section \<open>The operations on a heap that keeps the invariant\<close>

lemma live_unique: "(p, n) \<in> live h as \<Longrightarrow> (p, k) \<in> live h as \<Longrightarrow> k = n"
  by (auto simp: live_def)

lemma live_minus: "(p, n) \<in> live h as \<Longrightarrow> {(q, k) \<in> live h as. q \<noteq> p} = live h as - {(p, n)}"
  by (auto dest: live_unique)

lemma live_block:
  assumes "heap_rep h f as" "(p, n) \<in> live h as"
  obtains c where "c \<in> set as" "p = c + metadata_size" "n = msize (f c)" "\<not> mfree (f c)" "get_header c h = Inr (f c)"
    "0 < c" "c + metadata_size + n \<le> brk h" "8 dvd n"
proof -
  note r = heap_rep_simps [OF assms(1)]
  obtain c where c: "c \<in> set as" "p = c + metadata_size" "n = msize (f c)" "\<not> mfree (f c)"
    using assms(2) r(4) by (auto simp: live_of_def)
  note blk = list_ok_block [OF r(3) c(1)]
  show ?thesis by (rule that [OF c r(6) [OF c(1)] blk(1) blk(6) [folded c(3)] blk(3) [folded c(3)]])
qed

lemma free_ok:
  assumes "heap_ok h as" "(p, n) \<in> live h as" "unref h as (p - metadata_size)"
  shows "\<exists>h' as'. free_block p h = Inr h' \<and> heap_ok h' as' \<and> live h' as' = live h as - {(p, n)} \<and>
           keeps_bytes h h' (live h as)"
proof -
  obtain f where rep: "heap_rep h f as" using assms(1) by (auto simp: heap_ok_rep)
  note r = heap_rep_simps [OF rep]
  obtain c where c: "c \<in> set as" "p = c + metadata_size" using assms(2) by (auto elim: live_block [OF rep])
  have "unreferenced f as c" using assms(3) c unref_represents [OF r(1)] by simp
  from free_block_ok [OF rep c(1) this] obtain h' as' where h': "free_block p h = Inr h'" "heap_ok h' as'"
      "live h' as' = {(q, k) \<in> live h as. q \<noteq> p}" "touches_only (set as) h h'" using c(2) by blast
  moreover have "{(q, k) \<in> live h as. q \<noteq> p} = live h as - {(p, n)}" using assms(2) by (rule live_minus)
  moreover have "keeps_bytes h h' (live h as)"
    using touches_only_keeps [OF h'(4) r(2)] r(4) by simp
  ultimately show ?thesis by metis
qed

text \<open>A write inside a block that is in use disturbs no header and no other block.\<close>

lemma put_bytes_ok:
  assumes "heap_ok h as" "(p, n) \<in> live h as" "i + length vs \<le> n"
  shows "\<exists>h'. put_bytes_at (p + i) vs h = Inr h' \<and> heap_ok h' as \<and> live h' as = live h as \<and>
    (\<forall>k < length vs. bytes h' (p + i + k) = vs ! k) \<and> keeps_bytes h h' (live h as - {(p, n)}) \<and>
    (\<forall>c \<in> set as. meta h' c = meta h c) \<and> brk h' = brk h"
proof -
  obtain f where rep: "heap_rep h f as" using assms(1) by (auto simp: heap_ok_rep)
  note r = heap_rep_simps [OF rep]
  obtain c where c: "c \<in> set as" "p = c + metadata_size" "n = msize (f c)" "0 < c" "c + metadata_size + n \<le> brk h"
    using assms(2) by (auto elim: live_block [OF rep])
  define h' where "h' = h\<lparr>meta := clear_headers (p + i) (length vs) (meta h),
     bytes := (\<lambda>x. if p + i \<le> x \<and> x < p + i + length vs then vs ! (x - (p + i)) else bytes h x)\<rparr>"
  have put: "put_bytes_at (p + i) vs h = Inr h'" 
  proof -
    have "p + i \<noteq> 0" "p + i + length vs \<le> brk h" using c assms(3) by simp_all
    then show ?thesis by (simp add: put_bytes_at_def h'_def)
  qed
  have upd: "bytes h' x = (if p + i \<le> x \<and> x < p + i + length vs then vs ! (x - (p + i)) else bytes h x)"
      "head h' = head h" "tail h' = tail h" "brk h' = brk h" "meta h' = clear_headers (p + i) (length vs) (meta h)" for x
    by (simp_all add: h'_def)
  have hdrs: "meta h' b = meta h b" if "b \<in> set as" for b
    using layout_sep [OF r(2) c(1) that] c assms(3)
    by (cases "b = c") (auto simp: upd(5) clear_headers_def block_end_def)
  then have rep': "represents h' f as" using r(1) by (simp add: represents_def)
  then have "heap_ok h' as" using rep upd unfolding heap_ok_rep heap_rep_def by metis
  moreover have "live h' as = live h as" using live_represents [OF rep'] r(4) by simp
  moreover have "keeps_bytes h h' (live h as - {(p, n)})"
  proof -
    have "q + k \<le> p \<or> p + n \<le> q" if "(q, k) \<in> live h as - {(p, n)}" for q k
    proof -
      have "q \<noteq> p" "(q, k) \<in> live_of f as" using that live_minus [OF assms(2)] r(4) by auto
      then show ?thesis using live_disjoint [OF r(2), of q k p n] assms(2) r(4) by simp
    qed
    then show ?thesis using assms(3) unfolding keeps_bytes_def upd by fastforce
  qed
  moreover have "bytes h' (p + i + k) = vs ! k" if "k < length vs" for k using that by (simp add: upd)
  ultimately show ?thesis using put hdrs upd(4) by (intro exI [of _ h'] conjI allI ballI impI)
qed

lemma allocates_facts:
  assumes "allocates p sz h as h' as'"
  shows "heap_ok h' as'" "live h' as' = insert (p, sz) (live h as)" "(p, sz) \<in> live h' as'"
    "live h' as' - {(p, sz)} = live h as" "keeps_bytes h h' (live h as)" "0 < p"
proof -
  show l: "heap_ok h' as'" "live h' as' = insert (p, sz) (live h as)" "keeps_bytes h h' (live h as)" "0 < p"
    using assms by (simp_all add: allocates_def)
  then show "(p, sz) \<in> live h' as'" by simp
  have "(p, sz) \<notin> live h as" using assms imageI [of "(p, sz)" "live h as" fst] by (auto simp: allocates_def)
  then show "live h' as' - {(p, sz)} = live h as" using l(2) by simp
qed

lemma keeps_bytes_trans:
  "keeps_bytes h h' L \<Longrightarrow> keeps_bytes h' h'' M \<Longrightarrow> N \<subseteq> L \<Longrightarrow> N \<subseteq> M \<Longrightarrow> keeps_bytes h h'' N"
  by (fastforce simp: keeps_bytes_def)

lemma keeps_byte:
  "keeps_bytes h h' L \<Longrightarrow> (p, n) \<in> L \<Longrightarrow> p \<le> x \<Longrightarrow> x < p + n \<Longrightarrow> bytes h' x = bytes h x"
  unfolding keeps_bytes_def by blast

lemma realloc_moves:
  assumes ok: "heap_ok h as" and p: "(p, n) \<in> live h as" and un: "unref h as (p - metadata_size)"
    and q: "allocates q k h as h1 as1" "n \<le> k"
  shows "\<exists>h3 as3. rbind (get_header (p - metadata_size) h1) (\<lambda>m.
            rbind (get_bytes_at p (msize m) h1) (\<lambda>vs.
            rbind (put_bytes_at q vs h1) (\<lambda>h. rbind (free_block p h) (\<lambda>h. Inr (q, h))))) = Inr (q, h3) \<and>
     heap_ok h3 as3 \<and> live h3 as3 = insert (q, k) (live h as - {(p, n)}) \<and>
     (\<forall>i < n. bytes h3 (q + i) = bytes h (p + i)) \<and> keeps_bytes h h3 (live h as - {(p, n)})"
proof -
  note a = allocates_facts [OF q(1)]
  obtain f where rep: "heap_rep h1 f as1" using a(1) by (auto simp: heap_ok_rep)
  have p1: "(p, n) \<in> live h1 as1" using a(2) p by simp
  obtain c where c: "c \<in> set as1" "p = c + metadata_size" "n = msize (f c)" "get_header c h1 = Inr (f c)"
      "c + metadata_size + n \<le> brk h1" using p1 by (auto elim: live_block [OF rep])
  let ?vs = "map (bytes h1) [p..<p + n]"
  have get: "get_bytes_at p n h1 = Inr ?vs" using c by (simp add: get_bytes_at_def metadata_size_def)
  obtain h2 where h2: "put_bytes_at q ?vs h1 = Inr h2" "heap_ok h2 as1" "live h2 as1 = live h1 as1"
      "\<forall>i < n. bytes h2 (q + i) = ?vs ! i" "keeps_bytes h1 h2 (live h as)" "\<forall>c \<in> set as1. meta h2 c = meta h1 c"
    using put_bytes_ok [OF a(1,3), of 0 ?vs] q(2) a(4) by auto
  have "unref h1 as1 (p - metadata_size)" using q(1) p un by (auto simp: allocates_def)
  then have "unref h2 as1 (p - metadata_size)" using h2(6) c(1,2) by (simp add: unref_def)
  then obtain h3 as3 where h3: "free_block p h2 = Inr h3" "heap_ok h3 as3"
      "live h3 as3 = live h2 as1 - {(p, n)}" "keeps_bytes h2 h3 (live h1 as1)"
    using free_ok [OF h2(2), of p n] p1 h2(3) by auto
  have "p \<noteq> q" using q(1) imageI [OF p, of fst] by (auto simp: allocates_def)
  then have "live h3 as3 = insert (q, k) (live h as - {(p, n)})" using h3(3) h2(3) a(2) by auto
  moreover have "bytes h3 (q + i) = bytes h (p + i)" if "i < n" for i
  proof -
    have "bytes h3 (q + i) = bytes h2 (q + i)" using that q(2) by (intro keeps_byte [OF h3(4) a(3)]) simp_all
    also have "\<dots> = bytes h1 (p + i)" using h2(4) that by simp
    also have "\<dots> = bytes h (p + i)" using that by (intro keeps_byte [OF a(5) p]) simp_all
    finally show ?thesis .
  qed
  moreover have "keeps_bytes h h3 (live h as - {(p, n)})"
    using keeps_bytes_trans [OF keeps_bytes_trans [OF a(5) h2(5)] h3(4)] a(2) by blast
  moreover have "get_header (p - metadata_size) h1 = Inr (f c)" using c(2,4) by simp
  then have "rbind (get_header (p - metadata_size) h1) (\<lambda>m.
            rbind (get_bytes_at p (msize m) h1) (\<lambda>vs.
            rbind (put_bytes_at q vs h1) (\<lambda>h. rbind (free_block p h) (\<lambda>h. Inr (q, h))))) = Inr (q, h3)"
    using get h2(1) h3(1) c(3) by simp
  ultimately show ?thesis using h3(2) by blast
qed

section \<open>The functions the allocator does not call\<close>

lemma upd_header_tail: "upd_header a u h = Inr h' \<Longrightarrow> tail h' = tail h"
  by (auto simp: upd_header_def put_header_def rbind_eq_Inr split: if_splits)

lemma absorb_next_merge:
  assumes rep: "heap_rep h f (xs @ a # b # ys)"
  shows "absorb_next a h = merge_blocks a b h"
proof -
  note r = heap_rep_simps [OF rep]
  have nx: "mnext (f a) = b" "mnext (f b) = hd (ys @ [0])" using r(3) by (simp_all add: list_ok_def)
  have "tail h = last (b # ys)" using rep by (simp add: heap_rep_def)
  then have tl: "b = tail h \<longleftrightarrow> mnext (f b) = 0" using nx r(5) [of "hd ys"] r(8) by (cases ys) auto
  have g: "get_header a h = Inr (f a)" "get_header b h = Inr (f b)" using r(6) by simp_all
  let ?u = "\<lambda>m. m\<lparr>msize := add64 (msize m) (add64 (msize (f b)) metadata_size), mnext := mnext (f b)\<rparr>"
  show ?thesis
  proof (cases "upd_header a ?u h")
    case (Inr h1)
    then have t1: "tail h1 = tail h" by (rule upd_header_tail)
    then show ?thesis using g nx(1) Inr tl
      by (cases "upd_header (mnext (f b)) (\<lambda>m. m\<lparr>mprev := a\<rparr>) h1")
        (auto simp: absorb_next_def merge_blocks_def dest: upd_header_tail)
  qed (use g nx(1) in \<open>simp add: absorb_next_def merge_blocks_def\<close>)
qed

lemma coalesce_loop_ok:
  assumes "heap_rep h f (xs @ a # ys)" "length ys + 1 < n"
  shows "\<exists>h' as'. coalesce_loop n a h = Inr h' \<and> heap_ok h' as' \<and> live h' as' = live h (xs @ a # ys)"
  using assms
proof (induction ys arbitrary: xs a h f n rule: length_induct)
  case (1 ys)
  note rep = 1(2) note r = heap_rep_simps [OF rep]
  obtain m where n: "n = Suc m" using 1(3) by (cases n) auto
  have nx: "mnext (f a) = hd (ys @ [0])" using r(3) by (simp add: list_ok_def)
  show ?case
  proof (cases ys)
    case Nil
    have "coalesce_loop m 0 h = Inr h" using 1(3) n Nil by (cases m) simp_all
    then show ?thesis using n nx Nil r(5,6) [of a] rep by (auto simp: heap_ok_rep)
  next
    case (Cons b zs)
    note rep' = rep [unfolded Cons]
    have b: "mnext (f a) = b" "b \<noteq> 0" "a \<noteq> 0" using nx Cons r(5) by auto
    have get: "get_header a h = Inr (f a)" "get_header b h = Inr (f b)" using r(6) Cons by simp_all
    show ?thesis
    proof (cases "mfree (f a) \<and> mfree (f b)")
      case True
      obtain h1 where h1: "merge_blocks a b h = Inr h1" "heap_rep h1 (absorbed f a b) (xs @ a # zs)"
          "live h1 (xs @ a # zs) = live h (xs @ a # ys)"
        using merge_blocks_ok [OF rep'] True Cons by blast
      note r1 = heap_rep_simps [OF h1(2)]
      have ga: "get_header a h1 = Inr (absorbed f a b a)" "mnext (absorbed f a b a) = hd (zs @ [0])"
        using r1(3,6) by (simp_all add: list_ok_def)
      have step: "coalesce_loop n a h = coalesce_loop m (hd (zs @ [0])) h1"
        using n b get True absorb_next_merge [OF rep'] h1(1) ga by simp
      show ?thesis
      proof (cases zs)
        case Nil
        have "coalesce_loop m 0 h1 = Inr h1" using 1(3) n Cons by (cases m) simp_all
        then show ?thesis using step Nil h1 by (auto simp: heap_ok_rep)
      next
        case zs: (Cons z ws)
        have "heap_rep h1 (absorbed f a b) ((xs @ [a]) @ z # ws)" using h1(2) zs by simp
        from 1(1) [rule_format, OF _ this, of m] show ?thesis
          using step zs Cons 1(3) n h1(3) by simp
      qed
    next
      case False
      have step: "coalesce_loop n a h = coalesce_loop m b h" using n b get False by simp
      have "heap_rep h f ((xs @ [a]) @ b # zs)" using rep' by simp
      from 1(1) [rule_format, OF _ this, of m] show ?thesis
        using step Cons 1(3) n by simp
    qed
  qed
qed

text \<open>\<open>coalesce\<close> keeps the invariant and the blocks in use; the searches find what they say.\<close>

lemma coalesce_ok:
  assumes "heap_ok h as" "length as < fuel env"
  shows "\<exists>h' as'. coalesce env h = Inr h' \<and> heap_ok h' as' \<and> live h' as' = live h as"
proof -
  obtain f where rep: "heap_rep h f as" using assms(1) by (auto simp: heap_ok_rep)
  then obtain a ys where "as = a # ys" "head h = a" by (cases as) (auto simp: heap_rep_def)
  then show ?thesis using coalesce_loop_ok [of h f "[]" a ys "fuel env"] rep assms(2) by (simp add: coalesce_def)
qed

lemma best_fit_ok:
  assumes "heap_rep h f as" "length as < fuel env"
  shows "\<exists>b. best_fit env cur sz h = Inr b \<and>
    (if \<exists>a \<in> set as. fits f sz a \<and> msize (f a) < MAX_HEAP_SIZE
     then b \<in> set as \<and> fits f sz b \<and> (\<forall>a \<in> set as. fits f sz a \<longrightarrow> msize (f b) \<le> msize (f a)) else b = 0)"
proof -
  note r = heap_rep_simps [OF assms(1)]
  have "0 \<notin> set as" "links f as 0" using r(3,5) by (auto simp: list_ok_def)
  then have "best_fit env cur sz h = Inr (fst (best_of f sz as (0, MAX_HEAP_SIZE)))"
    using best_fit_loop_ok [OF r(1) _ _ assms(2), of 0 MAX_HEAP_SIZE sz] assms(1)
    by (simp add: best_fit_def heap_rep_def)
  moreover obtain b m where "best_of f sz as (0, MAX_HEAP_SIZE) = (b, m)" by (metis surj_pair)
  ultimately show ?thesis using best_of_least [of f sz as 0 MAX_HEAP_SIZE b m] by fastforce
qed

end
