(* ===== verification/Malloc_Clients.thy ===== *)
theory Malloc_Clients
  imports Malloc_Free
begin

text \<open>
  Programs that use the allocator as sequences of requests, and the properties of \<open>malloc\<close>,
  \<open>calloc\<close>, \<open>realloc\<close> and \<open>free\<close>.
\<close>

section \<open>Programs that use the allocator\<close>

text \<open>
  A client holds the set \<open>L\<close> of its allocations, each with its address and (rounded) size. It may
  free an allocation unless the block of another allocation still has its \<open>mprev\<close> pointer there;
  the last theorem of this section shows why that has to be excluded.
\<close>

fun block_list :: "nat \<Rightarrow> heap \<Rightarrow> nat \<Rightarrow> nat list" where
  "block_list 0 h a = []"
| "block_list (Suc n) h a = (if a = 0 then []
     else case meta h a of None \<Rightarrow> [] | Some m \<Rightarrow> a # block_list n h (mnext m))"

definition may_free :: "alloc_env \<Rightarrow> heap \<Rightarrow> nat \<Rightarrow> bool" where
  "may_free env h p \<longleftrightarrow> unref h (block_list (fuel env) h (head h)) (p - metadata_size)"

inductive client_step :: "alloc_env \<Rightarrow> heap \<times> (nat \<times> nat) set \<Rightarrow> heap \<times> (nat \<times> nat) set \<Rightarrow> bool" where
  malloc: "sz < 2 ^ 62 \<Longrightarrow> malloc env sz h = Inr (p, h') \<Longrightarrow> p \<noteq> 0 \<Longrightarrow>
    client_step env (h, L) (h', insert (p, align_size sz) L)"
| malloc_null: "sz < 2 ^ 62 \<Longrightarrow> malloc env sz h = Inr (0, h') \<Longrightarrow> client_step env (h, L) (h', L)"
| store: "(p, n) \<in> L \<Longrightarrow> i + length vs \<le> n \<Longrightarrow> put_bytes_at (p + i) vs h = Inr h' \<Longrightarrow>
    client_step env (h, L) (h', L)"
| free: "(p, n) \<in> L \<Longrightarrow> may_free env h p \<Longrightarrow> free_block p h = Inr h' \<Longrightarrow>
    client_step env (h, L) (h', L - {(p, n)})"
| free_null: "free_block 0 h = Inr h' \<Longrightarrow> client_step env (h, L) (h', L)"

definition unused_heap :: "heap \<times> (nat \<times> nat) set \<Rightarrow> bool" where
  "unused_heap s \<longleftrightarrow> head (fst s) = 0 \<and> 0 < brk (fst s) \<and> 8 dvd brk (fst s) \<and> snd s = {}"

definition good_env :: "alloc_env \<Rightarrow> bool" where
  "good_env env \<longleftrightarrow> sane_env env \<and> 2 ^ 58 < fuel env"

definition client_inv :: "alloc_env \<Rightarrow> heap \<times> (nat \<times> nat) set \<Rightarrow> bool" where
  "client_inv env s \<longleftrightarrow> (good_env env \<longrightarrow> unused_heap s \<or> (\<exists>as. heap_ok (fst s) as \<and> live (fst s) as = snd s))"

text \<open>The block list has fewer than \<open>2^58\<close> blocks, because each has a header of its own.\<close>

lemma layout_length:
  "layout f as lim \<Longrightarrow> as \<noteq> [] \<Longrightarrow> metadata_size * length as + hd as \<le> lim"
proof (induction as)
  case (Cons a as)
  show ?case
  proof (cases as)
    case Nil
    then show ?thesis using Cons.prems by (auto simp: layout_def block_end_def)
  next
    case (Cons b bs)
    then have "metadata_size * length as + b \<le> lim" "a + metadata_size \<le> b"
      using Cons.IH Cons.prems by (auto simp: layout_def block_end_def)
    then show ?thesis by simp
  qed
qed simp

lemma heap_ok_length: "heap_ok h as \<Longrightarrow> length as < 2 ^ 58"
  using layout_length [of _ as "brk h"]
  by (fastforce simp: heap_ok_def list_ok_def metadata_size_def)

lemma block_list_ok:
  "represents h f as \<Longrightarrow> links f as 0 \<Longrightarrow> 0 \<notin> set as \<Longrightarrow> length as \<le> n \<Longrightarrow> block_list n h (hd (as @ [0])) = as"
proof (induction as arbitrary: n)
  case Nil
  then show ?case by (cases n) simp_all
next
  case (Cons a as)
  then show ?case by (cases n) (auto simp: represents_def)
qed

lemma may_free_ok:
  assumes "heap_ok h as" "good_env env"
  shows "may_free env h p = unref h as (p - metadata_size)"
proof -
  obtain f where rep: "heap_rep h f as" using assms(1) by (auto simp: heap_ok_rep)
  have "block_list (fuel env) h (hd (as @ [0])) = as"
    using heap_rep_simps [OF rep] heap_ok_length [OF assms(1)] assms(2)
    by (intro block_list_ok [of h f]) (auto simp: good_env_def list_ok_def)
  then show ?thesis using rep by (simp add: may_free_def heap_rep_def)
qed

text \<open>The first call of \<open>malloc\<close> sets the heap up, then goes on as any other.\<close>

lemma malloc_first:
  assumes "unused_heap (h, L)" "good_env env" "sz < 2 ^ 62"
  shows "malloc env sz h = Inl (Exit_status 1) \<or>
    (\<exists>h1. heap_ok h1 [brk h] \<and> live h1 [brk h] = {} \<and> malloc env sz h = malloc env sz h1)"
proof -
  have h: "head h = 0" "0 < brk h" "8 dvd brk h" using assms(1) by (simp_all add: unused_heap_def)
  from init_head_ok [OF h(2,3)] assms(2)
  consider "init_head env h = Inl (Exit_status 1)"
    | h1 where "init_head env h = Inr h1" "heap_ok h1 [brk h]" "live h1 [brk h] = {}"
    by (auto simp: good_env_def)
  then show ?thesis
  proof cases
    case 1
    then show ?thesis using h(1) by (simp add: malloc_def)
  next
    case 2
    moreover from this have "head h1 \<noteq> 0" using h(2) by (simp add: heap_ok_def)
    ultimately have "malloc env sz h = malloc env sz h1" using h(1) by (simp add: malloc_def)
    then show ?thesis using 2 by blast
  qed
qed

lemma malloc_result:
  assumes "client_inv env (h, L)" "good_env env" "sz < 2 ^ 62"
  shows "malloc env sz h = Inl (Exit_status 1) \<and> unused_heap (h, L) \<or>
    (\<exists>p h'. malloc env sz h = Inr (p, h') \<and>
       (p = 0 \<longrightarrow> (\<exists>as. heap_ok h' as \<and> live h' as = L)) \<and>
       (p \<noteq> 0 \<longrightarrow> (\<exists>h1 as as'. live h1 as = L \<and> allocates p (align_size sz) h1 as h' as')))"
proof -
  have go: "\<exists>p h'. malloc env sz h1 = Inr (p, h') \<and>
       (p = 0 \<longrightarrow> (\<exists>as. heap_ok h' as \<and> live h' as = L)) \<and>
       (p \<noteq> 0 \<longrightarrow> (\<exists>h1 as as'. live h1 as = L \<and> allocates p (align_size sz) h1 as h' as'))"
    if "heap_ok h1 as" "live h1 as = L" for h1 as
    using malloc_ok [OF that(1) _ _ assms(3), of env] heap_ok_length [OF that(1)] assms(2) that
    by (fastforce simp: good_env_def allocates_def)
  show ?thesis
  proof (cases "unused_heap (h, L)")
    case True
    then have "L = {}" by (simp add: unused_heap_def)
    then show ?thesis using malloc_first [OF True assms(2,3)] go True by metis
  next
    case False
    then show ?thesis using assms(1,2) go by (auto simp: client_inv_def)
  qed
qed

lemma client_inv_step:
  assumes "client_step env s t" "client_inv env s"
  shows "client_inv env t"
  using assms
proof (induction rule: client_step.induct)
  case (malloc sz env h p h' L)
  show ?case unfolding client_inv_def
  proof
    assume env: "good_env env"
    have "\<exists>h1 as as'. live h1 as = L \<and> allocates p (align_size sz) h1 as h' as'"
      using malloc_result [OF malloc.prems env malloc.hyps(1)] malloc.hyps(2,3) by auto
    then show "unused_heap (h', insert (p, align_size sz) L) \<or>
        (\<exists>as. heap_ok (fst (h', insert (p, align_size sz) L)) as \<and>
          live (fst (h', insert (p, align_size sz) L)) as = snd (h', insert (p, align_size sz) L))"
      using allocates_facts(1,2) by (metis fst_conv snd_conv)
  qed
next
  case (malloc_null sz env h h' L)
  then show ?case using malloc_result [OF malloc_null.prems _ malloc_null.hyps(1)]
    by (auto simp: client_inv_def)
next
  case (store p n L i vs h h' env)
  have "\<not> unused_heap (h, L)" using store.hyps(1) by (auto simp: unused_heap_def)
  then have "\<exists>as. heap_ok h' as \<and> live h' as = L" if "good_env env"
    using store that put_bytes_ok [of h _ p n i vs] by (fastforce simp: client_inv_def)
  then show ?case by (simp add: client_inv_def)
next
  case (free p n L env h h')
  show ?case unfolding client_inv_def
  proof
    assume env: "good_env env"
    then obtain as where as: "heap_ok h as" "live h as = L"
      using free.prems free.hyps(1) by (auto simp: client_inv_def unused_heap_def)
    then show "unused_heap (h', L - {(p, n)}) \<or>
        (\<exists>as. heap_ok (fst (h', L - {(p, n)})) as \<and> live (fst (h', L - {(p, n)})) as = snd (h', L - {(p, n)}))"
      using free_ok [OF as(1), of p n] free.hyps may_free_ok [OF as(1) env] by auto
  qed
qed (auto simp: free_block_def)

interpretation clients: state_machine unused_heap "client_step env" "client_inv env" for env
  using client_inv_step by unfold_locales (auto simp: client_inv_def)

section \<open>Properties\<close>

text \<open>Concrete heaps: a fresh one, and one whose only block is in use or free.\<close>

definition demo_env :: alloc_env where
  "demo_env = \<lparr>grant = (\<lambda>b n. int b + n < 2 ^ 47), fuel = 2 ^ 59\<rparr>"

definition fresh_heap :: heap where
  "fresh_heap = \<lparr>meta = Map.empty, bytes = Map.empty, head = 0, tail = 0, brk = 4096, total_memory_use = 0\<rparr>"

definition one_block :: "nat \<Rightarrow> bool \<Rightarrow> heap" where
  "one_block n fr = \<lparr>meta = [4096 \<mapsto> \<lparr>msize = n, mnext = 0, mprev = 0, mfree = fr\<rparr>],
     bytes = (\<lambda>x. if 4128 \<le> x \<and> x < 4128 + n then Some (x mod 256) else None),
     head = 4096, tail = 4096, brk = 4128 + n, total_memory_use = INITIAL_HEAP_SIZE\<rparr>"

lemma good_demo_env [simp]: "good_env demo_env" "sane_env demo_env" "fuel demo_env = 2 ^ 59"
  "grant demo_env b n \<longleftrightarrow> int b + n < 2 ^ 47"
  by (simp_all add: good_env_def sane_env_def demo_env_def)

lemma one_block_ok:
  "8 dvd n \<Longrightarrow> n < 2 ^ 60 \<Longrightarrow> heap_ok (one_block n fr) [4096] \<and>
     live (one_block n fr) [4096] = (if fr then {} else {(4128, n)}) \<and> unref (one_block n fr) [4096] 4096"
  by (auto simp: heap_ok_def one_block_def represents_def list_ok_def layout_def block_end_def metadata_size_def
      live_def unref_def intro!: exI [of _ "\<lambda>_. \<lparr>msize = n, mnext = 0, mprev = 0, mfree = fr\<rparr>"])

text \<open>
  C2: Whatever sequence of \<open>malloc\<close> of sizes below \<open>2 ^ 62\<close>, \<open>free\<close> and writes into its own blocks a
  client makes from the start of the process (\<open>calloc\<close> and \<open>realloc\<close> are not among its calls), its blocks never overlap: each is aligned, below the break, and separated
  from every other by the room of a header. No call of \<open>malloc\<close> on such a heap faults or loops (the
  very first may end the process when the system gives no memory), and no \<open>free\<close> of one of its blocks
  does, provided that the \<open>mprev\<close> pointer of no block but the next one is left at the freed block.
\<close>

theorem malloc_clients_safe:
  assumes "unused_heap s" "(client_step env)\<^sup>*\<^sup>* s (h, L)" "good_env env"
  shows "(\<forall>(p, n) \<in> L. 0 < p \<and> 8 dvd p \<and> p + n \<le> brk h \<and>
            (\<forall>(q, k) \<in> L. (q, k) \<noteq> (p, n) \<longrightarrow> p + n + metadata_size \<le> q \<or> q + k + metadata_size \<le> p)) \<and>
         (\<forall>sz < 2 ^ 62. (\<exists>r. malloc env sz h = Inr r) \<or> malloc env sz h = Inl (Exit_status 1) \<and> head h = 0) \<and>
         (\<forall>(p, n) \<in> L. may_free env h p \<longrightarrow> (\<exists>h'. free_block p h = Inr h'))"
proof -
  have inv: "client_inv env (h, L)" using assms(1,2) by (rule clients.reachable_inv)
  have "(\<exists>r. malloc env sz h = Inr r) \<or> malloc env sz h = Inl (Exit_status 1) \<and> head h = 0" if "sz < 2 ^ 62" for sz
    using malloc_result [OF inv assms(3) that] by (auto simp: unused_heap_def)
  moreover have "(\<forall>(p, n) \<in> L. 0 < p \<and> 8 dvd p \<and> p + n \<le> brk h \<and>
      (\<forall>(q, k) \<in> L. (q, k) \<noteq> (p, n) \<longrightarrow> p + n + metadata_size \<le> q \<or> q + k + metadata_size \<le> p)) \<and>
      (\<forall>(p, n) \<in> L. may_free env h p \<longrightarrow> (\<exists>h'. free_block p h = Inr h'))"
  proof (cases "L = {}")
    case False
    then obtain as where as: "heap_ok h as" "live h as = L"
      using inv assms(3) by (auto simp: client_inv_def unused_heap_def)
    then obtain f where rep: "heap_rep h f as" by (auto simp: heap_ok_rep)
    note r = heap_rep_simps [OF rep]
    have "0 < p \<and> 8 dvd p \<and> p + n \<le> brk h \<and>
      (\<forall>(q, k) \<in> L. (q, k) \<noteq> (p, n) \<longrightarrow> p + n + metadata_size \<le> q \<or> q + k + metadata_size \<le> p)"
      if pn: "(p, n) \<in> L" for p n
    proof -
      obtain c where c: "c \<in> set as" "p = c + metadata_size" "n = msize (f c)" "0 < c" "c + metadata_size + n \<le> brk h"
        using live_block [OF rep, of p n] pn as(2) by metis
      have "8 dvd c" using list_ok_block(2) [OF r(3) c(1)] .
      moreover have "p + n + metadata_size \<le> q \<or> q + k + metadata_size \<le> p" if qk: "(q, k) \<in> L" "(q, k) \<noteq> (p, n)" for q k
      proof -
        obtain d where d: "d \<in> set as" "q = d + metadata_size" "k = msize (f d)"
          using live_block [OF rep, of q k] qk as(2) by metis
        then have "c \<noteq> d" using c qk(2) by auto
        then show ?thesis using layout_sep [OF r(2) c(1) d(1)] c d by (auto simp: block_end_def)
      qed
      ultimately show ?thesis using c by (auto simp: metadata_size_def)
    qed
    moreover have "\<exists>h'. free_block p h = Inr h'" if "(p, n) \<in> L" "may_free env h p" for p n
      using free_ok [OF as(1), of p n] may_free_ok [OF as(1) assms(3)] that as(2) by auto
    ultimately show ?thesis by blast
  qed simp
  ultimately show ?thesis by blast
qed

text \<open>
  C19: On a heap with the invariant, \<open>malloc\<close> of less than \<open>2^62\<close> bytes terminates without a fault. A
  non-null result is a new aligned block of at least the requested size, disjoint from all blocks
  in use, whose contents it does not touch; the null pointer is returned only when no free block fits
  and the system refuses more memory, and then nothing has changed.
\<close>

theorem malloc_returns_fresh_block:
  assumes "heap_ok h as" "good_env env" "sz < 2 ^ 62"
  shows "\<exists>p h' as'. malloc env sz h = Inr (p, h') \<and> heap_ok h' as' \<and>
     (if p = 0 then h' = h \<and> \<not> grant env (brk h) (int (align_size sz + metadata_size)) \<and>
          (\<forall>a \<in> set as. \<forall>m. meta h a = Some m \<and> mfree m \<longrightarrow> msize m < align_size sz)
      else \<exists>n \<ge> sz. live h' as' = insert (p, n) (live h as) \<and> 8 dvd p \<and> p + n \<le> brk h' \<and>
          (\<forall>(q, k) \<in> live h as. q + k \<le> p \<or> p + n \<le> q) \<and> keeps_bytes h h' (live h as))"
proof -
  have "length as < fuel env" "sane_env env"
    using heap_ok_length [OF assms(1)] assms(2) by (simp_all add: good_env_def)
  from malloc_ok [OF assms(1) this(2,1) assms(3)] show ?thesis
  proof (elim exE conjE disjE)
    fix p h' as' assume m: "malloc env sz h = Inr (p, h')" "allocates p (align_size sz) h as h' as'"
    moreover have "sz \<le> align_size sz" using assms(3) by (intro align_size_ok) simp
    ultimately show ?thesis unfolding allocates_def
      by (intro exI [of _ p] exI [of _ h'] exI [of _ as']) auto
  qed (use assms(1) in auto)
qed

text \<open>
  C20: On a condition that a split in \<open>malloc\<close> (\<open>alloc.c:149\<close>) can break, that no block but the next has an
  \<open>mprev\<close> pointer to it (\<open>unref\<close>), \<open>free\<close> of a block in use terminates
  without a fault, keeps the invariant, takes exactly that block out of use and leaves the contents of
  the others alone; the block is merged with its free neighbours.
\<close>

theorem free_releases_block:
  assumes "heap_ok h as" "(p, n) \<in> live h as" "unref h as (p - metadata_size)"
  shows "\<exists>h' as'. free_block p h = Inr h' \<and> heap_ok h' as' \<and> live h' as' = live h as - {(p, n)} \<and>
           keeps_bytes h h' (live h as - {(p, n)})"
  using free_ok [OF assms] keeps_bytes_trans [of h h _ _ _ "live h as - {(p, n)}"]
  by (metis (no_types, lifting) Diff_subset keeps_bytes_def subsetD)

text \<open>
  C12: For a size above 0 and below \<open>2 ^ 62\<close>, and a block in use to which no block but the next has an \<open>mprev\<close>
  pointer (\<open>unref\<close>: a split in \<open>malloc\<close> can leave a stale one, \<open>alloc.c:149\<close>, and the \<open>free\<close> inside
  \<open>realloc\<close> goes wrong then), \<open>realloc\<close> to a size that fits returns the same block and changes nothing. To a larger size it
  either returns null and leaves the heap as it was, or moves the block: all the bytes of the old
  block are in the new one, the old one is no longer in use, and no other block is touched.
\<close>

theorem realloc_keeps_contents:
  assumes "heap_ok h as" "(p, n) \<in> live h as" "unref h as (p - metadata_size)" "good_env env"
    and "0 < sz" "sz < 2 ^ 62"
  shows "\<exists>q h'. realloc env p sz h = Inr (q, h') \<and>
     (if sz \<le> n then q = p \<and> h' = h
      else q = 0 \<and> h' = h \<or>
        (\<exists>as' k. sz \<le> k \<and> heap_ok h' as' \<and> live h' as' = insert (q, k) (live h as - {(p, n)}) \<and>
           (\<forall>i < n. bytes h' (q + i) = bytes h (p + i)) \<and> keeps_bytes h h' (live h as - {(p, n)})))"
proof -
  obtain f where rep: "heap_rep h f as" using assms(1) by (auto simp: heap_ok_rep)
  obtain c where c: "p = c + metadata_size" "n = msize (f c)" "get_header c h = Inr (f c)"
    using live_block [OF rep assms(2)] by metis
  have p: "p \<noteq> 0" "get_header (p - metadata_size) h = Inr (f c)" using c by (simp_all add: metadata_size_def)
  have head: "realloc env p sz h = (if sz \<le> n then Inr (p, h) else rbind (malloc env sz h) (\<lambda>(q, h).
      if q \<noteq> 0 then rbind (get_header (p - metadata_size) h) (\<lambda>m. rbind (get_bytes_at p (msize m) h) (\<lambda>vs.
        rbind (put_bytes_at q vs h) (\<lambda>h. rbind (free_block p h) (\<lambda>h. Inr (q, h))))) else Inr (0, h)))"
    using p c(2) assms(5) by (simp add: realloc_def)
  show ?thesis
  proof (cases "sz \<le> n")
    case False
    have sz: "sz \<le> align_size sz" using assms(6) by (intro align_size_ok) simp
    have "length as < fuel env" "sane_env env"
      using heap_ok_length [OF assms(1)] assms(4) by (simp_all add: good_env_def)
    from malloc_ok [OF assms(1) this(2,1) assms(6)] show ?thesis
    proof (elim exE conjE disjE)
      fix q h1 as1 assume m: "malloc env sz h = Inr (q, h1)" and a: "allocates q (align_size sz) h as h1 as1"
      have "n \<le> align_size sz" using False sz by simp
      from realloc_moves [OF assms(1-3) a this] show ?thesis
        using head m False sz allocates_facts(6) [OF a] by auto
    next
      fix q h1 assume "malloc env sz h = Inr (q, h1)" "q = 0" "h1 = h"
      then show ?thesis using head False by simp
    qed
  qed (use head in simp)
qed

lemma calloc_check:
  fixes num sz :: nat
  shows "num \<noteq> 0 \<and> sz > (2 ^ 64 - 1) div num \<longleftrightarrow> 2 ^ 64 \<le> num * sz"
proof (cases "num = 0")
  case False
  then have "(2 ^ 64 - 1) div num < sz \<longleftrightarrow> 2 ^ 64 - 1 < sz * num" by (intro div_less_iff_less_mult) simp
  then show ?thesis using False by (auto simp: mult.commute)
qed simp

text \<open>\<open>calloc\<close> returns null without touching the heap exactly when the product does not fit in
  \<open>size_t\<close>; otherwise a non-null result is a new block of at least the product, all of whose
  requested bytes are zero, and no other block is touched.
\<close>

theorem calloc_zeroes:
  assumes "heap_ok h as" "good_env env" "num * sz < 2 ^ 62 \<or> 2 ^ 64 \<le> num * sz"
  shows "\<exists>p h'. calloc env num sz h = Inr (p, h') \<and> (2 ^ 64 \<le> num * sz \<longrightarrow> p = 0 \<and> h' = h) \<and>
     (p \<noteq> 0 \<longrightarrow> (\<exists>as' n. num * sz \<le> n \<and> heap_ok h' as' \<and> live h' as' = insert (p, n) (live h as) \<and>
        (\<forall>i < num * sz. bytes h' (p + i) = Some 0) \<and> keeps_bytes h h' (live h as)))"
proof (cases "2 ^ 64 \<le> num * sz")
  case True
  then show ?thesis using calloc_check [of num sz] by (auto simp: calloc_def)
next
  case False
  let ?n = "num * sz"
  have n: "?n < 2 ^ 62" "?n mod 2 ^ 64 = ?n" using assms(3) False by simp_all
  have sz: "?n \<le> align_size ?n" using n by (intro align_size_ok) simp
  have check: "\<not> (num \<noteq> 0 \<and> sz > (2 ^ 64 - 1) div num)" using False calloc_check [of num sz] by simp
  have call: "calloc env num sz h = rbind (malloc env ?n h) (\<lambda>(p, h). if p \<noteq> 0
      then rbind (put_bytes_at p (replicate ?n (Some 0)) h) (\<lambda>h. Inr (p, h)) else Inr (p, h))"
    unfolding calloc_def if_not_P [OF check] Let_def n(2) by (rule refl)
  have "length as < fuel env" "sane_env env"
    using heap_ok_length [OF assms(1)] assms(2) by (simp_all add: good_env_def)
  from malloc_ok [OF assms(1) this(2,1) n(1)] show ?thesis
  proof (elim exE conjE disjE)
    fix p h1 as1 assume m: "malloc env ?n h = Inr (p, h1)" and a: "allocates p (align_size ?n) h as h1 as1"
    note f = allocates_facts [OF a]
    obtain h2 where h2: "put_bytes_at p (replicate ?n (Some 0)) h1 = Inr h2" "heap_ok h2 as1"
        "live h2 as1 = live h1 as1" "\<forall>i < ?n. bytes h2 (p + i) = Some 0" "keeps_bytes h1 h2 (live h as)"
      using put_bytes_ok [OF f(1,3), of 0 "replicate ?n (Some 0)"] sz f(4) by auto
    have "keeps_bytes h h2 (live h as)" using keeps_bytes_trans [OF f(5) h2(5)] by blast
    moreover have "calloc env num sz h = Inr (p, h2)" using call m h2(1) f(6) by simp
    ultimately show ?thesis using h2 f(2) sz False by metis
  next
    fix p h1 assume "malloc env ?n h = Inr (p, h1)" "p = 0" "h1 = h"
    then show ?thesis using call False by simp
  qed
qed

text \<open>
  The rounding up of the size wraps round: a request for one of the seven largest sizes is a
  request for no bytes. On a heap whose last block is free it succeeds with an empty block, where the
  documentation of \<open>malloc\<close> promises a block of that size or the null pointer.
\<close>

theorem malloc_largest_sizes_wrap:
  assumes "heap_ok h as" "good_env env" "2 ^ 64 - 8 < sz" "sz < 2 ^ 64" "meta h (tail h) = Some m" "mfree m"
  shows "\<exists>p h' as'. malloc env sz h = Inr (p, h') \<and> p \<noteq> 0 \<and> heap_ok h' as' \<and>
           live h' as' = insert (p, 0) (live h as)"
proof -
  have "add64 sz 7 = sz + 7 - 2 ^ 64" using assms(3,4) by (simp add: add64_def mod_if)
  then have "align_size sz = 0" "align_size 0 = 0" using assms(3,4) by (simp_all add: align_size_def align_to_def add64_def)
  then have "malloc env sz h = malloc env 0 h" by (simp only: malloc_def)
  moreover have "length as < fuel env" "sane_env env"
    using heap_ok_length [OF assms(1)] assms(2) by (simp_all add: good_env_def)
  from malloc_ok [OF assms(1) this(2,1), of 0] obtain p h' where p: "malloc env 0 h = Inr (p, h')"
      "(\<exists>as'. allocates p 0 h as h' as') \<or> (\<forall>a \<in> set as. \<forall>m. meta h a = Some m \<and> mfree m \<longrightarrow> msize m < 0)"
    using \<open>align_size 0 = 0\<close> by auto
  moreover have "tail h \<in> set as" using assms(1) by (auto simp: heap_ok_def)
  ultimately show ?thesis using assms(5,6) allocates_facts by (metis less_nat_zero_code not_gr_zero)
qed

section \<open>A block that is allocated twice\<close>

datatype request = Req_malloc nat | Req_free nat

text \<open>A program: each request allocates, or frees what the \<open>i\<close>-th allocation returned.\<close>

fun run_requests :: "alloc_env \<Rightarrow> request list \<Rightarrow> nat list \<Rightarrow> heap \<Rightarrow> (nat list \<times> heap) outcome" where
  "run_requests env [] ps h = Inr (ps, h)"
| "run_requests env (Req_malloc n # rs) ps h =
     rbind (malloc env n h) (\<lambda>(p, h). run_requests env rs (ps @ [p]) h)"
| "run_requests env (Req_free i # rs) ps h =
     rbind (free_block (ps ! i) h) (\<lambda>h. run_requests env rs ps h)"

lemma first_fit_loop_step:
  "0 < n \<Longrightarrow> first_fit_loop n cur sz h =
     (if cur = 0 then Inr 0
      else rbind (get_header cur h) (\<lambda>m.
        if mfree m \<and> msize m \<ge> sz then Inr cur else first_fit_loop (n - 1) (mnext m) sz h))"
  by (cases n) (simp_all cong: if_cong)

lemmas alloc_defs = malloc_def free_block_def merge_blocks_def use_block_def extend_heap_def first_fit_def
  init_head_def sbrk_def signed64_def align_size_def align_to_def add64_def sub64_def metadata_size_def
  INITIAL_HEAP_SIZE_def get_header_def put_header_def upd_header_def Let_def

lemma clear_headers_upd:
  "clear_headers a n Map.empty = Map.empty"
  "clear_headers a n (m(x \<mapsto> v)) =
     (if x < a + n \<and> a < x + metadata_size then clear_headers a n m else (clear_headers a n m)(x \<mapsto> v))"
  by (auto simp: clear_headers_def fun_eq_iff)

definition small_env :: alloc_env where
  "small_env = \<lparr>grant = (\<lambda>b n. int b + n < 2 ^ 47), fuel = 10\<rparr>"

text \<open>The invariant needs its side condition: a split leaves the \<open>mprev\<close> pointer of the block after
  the new one stale, and \<open>free\<close> then merges over a block in use. After nine calls, the block of 864
  bytes at 4264, which was never freed, overlaps the one of 144 bytes at 4128 that the last call
  returned.
\<close>

theorem malloc_overlapping_blocks:
  "\<exists>h. run_requests small_env
         [Req_malloc 1000, Req_malloc 8, Req_malloc 268434352, Req_free 0, Req_malloc 104,
          Req_malloc 864, Req_free 3, Req_free 1, Req_malloc 144] [] fresh_heap
       = Inr ([4128, 5160, 5200, 4128, 4264, 4128], h) \<and> 4264 < 4128 + (144 :: nat)"
  unfolding fresh_heap_def small_env_def
  by (simp add: alloc_defs first_fit_loop_step clear_headers_upd)

section \<open>Instances\<close>

theorem malloc_clients_safe_witness:
  "(\<exists>r. malloc demo_env 100 fresh_heap = Inr r) \<or>
     malloc demo_env 100 fresh_heap = Inl (Exit_status 1) \<and> head fresh_heap = 0"
proof -
  have "unused_heap (fresh_heap, {})" by (simp add: unused_heap_def fresh_heap_def)
  then show ?thesis using malloc_clients_safe [of "(fresh_heap, {})" demo_env fresh_heap "{}"] by simp
qed

theorem malloc_returns_fresh_block_witness:
  "\<exists>p h'. malloc demo_env 100 (one_block 1024 False) = Inr (p, h')"
  using malloc_returns_fresh_block [of "one_block 1024 False" "[4096]" demo_env 100] one_block_ok [of 1024 False]
  by auto

theorem free_releases_block_witness:
  "\<exists>h' as'. free_block 4128 (one_block 1024 False) = Inr h' \<and> live h' as' = {}"
  using free_releases_block [of "one_block 1024 False" "[4096]" 4128 1024] one_block_ok [of 1024 False]
  by (auto simp: metadata_size_def)

theorem realloc_keeps_contents_witness:
  "\<exists>q h'. realloc demo_env 4128 2000 (one_block 1024 False) = Inr (q, h') \<and>
     (q \<noteq> 0 \<longrightarrow> bytes h' (q + 5) = Some 37)"
proof -
  have b: "bytes (one_block 1024 False) (4128 + 5) = Some 37" by (simp add: one_block_def)
  show ?thesis
    using realloc_keeps_contents [of "one_block 1024 False" "[4096]" 4128 1024 demo_env 2000]
      one_block_ok [of 1024 False] b
    by (fastforce simp: metadata_size_def)
qed

theorem calloc_zeroes_witness:
  "\<exists>h'. calloc demo_env (2 ^ 32) (2 ^ 32) (one_block 1024 True) = Inr (0, h')"
  using calloc_zeroes [of "one_block 1024 True" "[4096]" demo_env "2 ^ 32" "2 ^ 32"] one_block_ok [of 1024 True]
  by auto

theorem malloc_largest_sizes_wrap_witness:
  "\<exists>p h' as'. malloc demo_env (2 ^ 64 - 1) (one_block 1024 True) = Inr (p, h') \<and> p \<noteq> 0 \<and> live h' as' = {(p, 0)}"
  using malloc_largest_sizes_wrap [of "one_block 1024 True" "[4096]" demo_env "2 ^ 64 - 1"
      "\<lparr>msize = 1024, mnext = 0, mprev = 0, mfree = True\<rparr>"] one_block_ok [of 1024 True]
  by (auto simp: one_block_def)

end
