(* ===== verification/Scheduler.thy ===== *)
theory Scheduler
  imports Complex_Main Interfaces "HOL-Library.Multiset" "HOL-Library.Product_Lexorder"
begin

text \<open>
  \<open>savvy_scheduler/libscheduler.c\<close>: six scheduling schemes over one priority queue.

  A job is known by its address; \<open>infos\<close> holds the \<open>job_info\<close> structures its \<open>metadata\<close> pointer
  leads to. The \<open>double\<close>s of the source are rational numbers, computed exactly. The priority queue
  is a library that is not part of the program: it is the parameter \<open>lib\<close>, and \<open>pq_laws\<close> says
  what its documentation promises, in terms of the list \<open>view\<close> of its elements in order. The
  comparison function that the queue is given reads the structures, so it is passed with them.
\<close>

datatype scheme_t = FCFS | PRI | PPRI | PSRTF | RR | SJF | Unknown_scheme int

record scheduler_info =
  running_time :: rat
  priority :: int

record job_info =
  id :: int
  arrival_time :: rat
  first_arrival_time :: rat
  remaining_time :: rat
  start_time :: rat
  fist_start_time :: rat
  stats :: scheduler_info

record 'q pq_lib =
  priqueue_init :: 'q
  priqueue_offer :: "(nat \<Rightarrow> nat \<Rightarrow> int) \<Rightarrow> nat \<Rightarrow> 'q \<Rightarrow> 'q"
  priqueue_poll :: "'q \<Rightarrow> nat option \<times> 'q"
  priqueue_size :: "'q \<Rightarrow> nat"

record 'q sched =
  infos :: "nat \<rightharpoonup> job_info"
  pqueue :: 'q
  pqueue_scheme :: scheme_t
  total_waiting_time :: rat
  total_turnaround_time :: rat
  total_response_time :: rat
  number_of_jobs :: int

section \<open>Comparison\<close>

definition three_way :: "rat \<Rightarrow> rat \<Rightarrow> int \<Rightarrow> int" where
  "three_way x y tie = (if x < y then -1 else if x > y then 1 else tie)"

definition comparer_fcfs :: "job_info \<Rightarrow> job_info \<Rightarrow> int" where
  "comparer_fcfs a b = three_way (first_arrival_time a) (first_arrival_time b) 0"

definition break_tie :: "job_info \<Rightarrow> job_info \<Rightarrow> int" where
  "break_tie a b = comparer_fcfs a b"

definition comparer_pri :: "job_info \<Rightarrow> job_info \<Rightarrow> int" where
  "comparer_pri a b =
     (if priority (stats a) < priority (stats b) then -1
      else if priority (stats a) > priority (stats b) then 1 else break_tie a b)"

definition comparer_ppri :: "job_info \<Rightarrow> job_info \<Rightarrow> int" where
  "comparer_ppri a b = comparer_pri a b"

definition comparer_psrtf :: "job_info \<Rightarrow> job_info \<Rightarrow> int" where
  "comparer_psrtf a b = three_way (remaining_time a) (remaining_time b) (break_tie a b)"

definition comparer_rr :: "job_info \<Rightarrow> job_info \<Rightarrow> int" where
  "comparer_rr a b = three_way (arrival_time a) (arrival_time b) 0"

definition comparer_sjf :: "job_info \<Rightarrow> job_info \<Rightarrow> int" where
  "comparer_sjf a b = three_way (running_time (stats a)) (running_time (stats b)) (break_tie a b)"

fun comparision_func :: "scheme_t \<Rightarrow> (job_info \<Rightarrow> job_info \<Rightarrow> int) option" where
  "comparision_func FCFS = Some comparer_fcfs"
| "comparision_func PRI = Some comparer_pri"
| "comparision_func PPRI = Some comparer_ppri"
| "comparision_func PSRTF = Some comparer_psrtf"
| "comparision_func RR = Some comparer_rr"
| "comparision_func SJF = Some comparer_sjf"
| "comparision_func (Unknown_scheme n) = None"

text \<open>The comparison of two jobs that the queue makes, through their metadata pointers.\<close>

definition compare_jobs :: "(nat \<rightharpoonup> job_info) \<Rightarrow> scheme_t \<Rightarrow> nat \<Rightarrow> nat \<Rightarrow> int" where
  "compare_jobs mem s a b = (the (comparision_func s)) (the (mem a)) (the (mem b))"

section \<open>Operations\<close>

definition scheduler_start_up :: "'q pq_lib \<Rightarrow> scheme_t \<Rightarrow> (nat \<rightharpoonup> job_info) \<Rightarrow> 'q sched outcome" where
  "scheduler_start_up lib s mem =
     (case comparision_func s of
        None \<Rightarrow> Inl (Exit_status 1)
      | Some f \<Rightarrow> Inr \<lparr>infos = mem, pqueue = priqueue_init lib, pqueue_scheme = s,
          total_waiting_time = 0, total_turnaround_time = 0, total_response_time = 0, number_of_jobs = 0\<rparr>)"

definition offer :: "'q pq_lib \<Rightarrow> nat \<Rightarrow> 'q sched \<Rightarrow> 'q sched" where
  "offer lib j s = s\<lparr>pqueue := priqueue_offer lib (compare_jobs (infos s) (pqueue_scheme s)) j (pqueue s)\<rparr>"

definition scheduler_new_job ::
  "'q pq_lib \<Rightarrow> nat \<Rightarrow> int \<Rightarrow> rat \<Rightarrow> scheduler_info \<Rightarrow> 'q sched \<Rightarrow> 'q sched" where
  "scheduler_new_job lib newjob job_number time sched_data s =
     offer lib newjob (s\<lparr>infos := (infos s)(newjob \<mapsto>
         \<lparr>id = job_number, arrival_time = time, first_arrival_time = time,
          remaining_time = running_time sched_data, start_time = -1, fist_start_time = -1,
          stats = sched_data\<rparr>),
       number_of_jobs := number_of_jobs s + 1\<rparr>)"

definition info_of :: "nat \<Rightarrow> 'q sched \<Rightarrow> job_info outcome" where
  "info_of j s = (case infos s j of None \<Rightarrow> Inl Dangling | Some i \<Rightarrow> Inr i)"

text \<open>The end of \<open>scheduler_quantum_expired\<close>, twice in the source: take the next job and start it.\<close>

definition started :: "rat \<Rightarrow> job_info \<Rightarrow> job_info" where
  "started time i =
     i\<lparr>start_time := time, fist_start_time := (if fist_start_time i = -1 then time else fist_start_time i)\<rparr>"

definition next_job :: "'q pq_lib \<Rightarrow> rat \<Rightarrow> 'q sched \<Rightarrow> (nat option \<times> 'q sched) outcome" where
  "next_job lib time s =
     (case priqueue_poll lib (pqueue s) of
        (None, q) \<Rightarrow> Inl Null_deref
      | (Some j, q) \<Rightarrow> rbind (info_of j s) (\<lambda>i.
          Inr (Some j, s\<lparr>pqueue := q, infos := (infos s)(j \<mapsto> started time i)\<rparr>)))"

definition scheduler_quantum_expired ::
  "'q pq_lib \<Rightarrow> nat option \<Rightarrow> rat \<Rightarrow> 'q sched \<Rightarrow> (nat option \<times> 'q sched) outcome" where
  "scheduler_quantum_expired lib job_evicted time s =
     (if priqueue_size lib (pqueue s) = 0 then Inr (job_evicted, s)
      else case job_evicted of
        None \<Rightarrow> next_job lib time s
      | Some j \<Rightarrow>
          if pqueue_scheme s = FCFS \<or> pqueue_scheme s = PRI \<or> pqueue_scheme s = SJF
          then Inr (Some j, s)
          else rbind (info_of j s) (\<lambda>i.
            next_job lib time (offer lib j (s\<lparr>infos := (infos s)(j \<mapsto>
              i\<lparr>remaining_time := remaining_time i - (time - start_time i), arrival_time := time\<rparr>)\<rparr>))))"

definition scheduler_job_finished :: "nat \<Rightarrow> rat \<Rightarrow> 'q sched \<Rightarrow> 'q sched outcome" where
  "scheduler_job_finished job_done time s =
     rbind (info_of job_done s) (\<lambda>j. Inr (s\<lparr>
       total_waiting_time := total_waiting_time s + (time - first_arrival_time j - running_time (stats j)),
       total_turnaround_time := total_turnaround_time s + (time - first_arrival_time j),
       total_response_time := total_response_time s + (fist_start_time j - first_arrival_time j),
       infos := (infos s)(job_done := None)\<rparr>))"

text \<open>The averages; dividing by zero jobs gives a NaN in C, here \<open>None\<close>. The sums and quotients are exact, those
  of the code are rounded to doubles.\<close>

definition average :: "rat \<Rightarrow> int \<Rightarrow> rat option" where
  "average tot n = (if n = 0 then None else Some (tot / of_int n))"

definition scheduler_average_waiting_time :: "'q sched \<Rightarrow> rat option" where
  "scheduler_average_waiting_time s = average (total_waiting_time s) (number_of_jobs s)"

definition scheduler_average_turnaround_time :: "'q sched \<Rightarrow> rat option" where
  "scheduler_average_turnaround_time s = average (total_turnaround_time s) (number_of_jobs s)"

definition scheduler_average_response_time :: "'q sched \<Rightarrow> rat option" where
  "scheduler_average_response_time s = average (total_response_time s) (number_of_jobs s)"

section \<open>The orders\<close>

definition total_preorder :: "('a \<Rightarrow> 'a \<Rightarrow> int) \<Rightarrow> bool" where
  "total_preorder c \<longleftrightarrow> (\<forall>a b. c a b \<le> 0 \<or> c b a \<le> 0) \<and> (\<forall>a b d. c a b \<le> 0 \<longrightarrow> c b d \<le> 0 \<longrightarrow> c a d \<le> 0)"

definition ordered_by :: "('a \<Rightarrow> 'a \<Rightarrow> int) \<Rightarrow> 'a list \<Rightarrow> bool" where
  "ordered_by c xs \<longleftrightarrow> sorted_wrt (\<lambda>a b. c a b \<le> 0) xs"

lemmas comparer_defs = comparer_fcfs_def comparer_pri_def comparer_ppri_def comparer_psrtf_def
  comparer_rr_def comparer_sjf_def break_tie_def three_way_def

lemma comparers_total_preorder: "comparision_func s = Some c \<Longrightarrow> total_preorder c"
  by (cases s) (auto simp: total_preorder_def comparer_defs split: if_splits)

lemma compare_jobs_total_preorder:
  "comparision_func s \<noteq> None \<Longrightarrow> total_preorder (compare_jobs mem s)"
  using comparers_total_preorder [of s "the (comparision_func s)"]
  by (simp add: total_preorder_def compare_jobs_def)

text \<open>The comparisons do not read the fields that starting a job changes, nor other jobs.\<close>

lemma compare_started:
  "comparision_func s = Some c \<Longrightarrow> c (started t a) b = c a b \<and> c a (started t b) = c a b"
  by (cases s) (auto simp: comparer_defs started_def)

lemma compare_jobs_started:
  assumes "comparision_func s \<noteq> None" "mem j = Some i"
  shows "compare_jobs (mem(j \<mapsto> started t i)) s = compare_jobs mem s"
proof (intro ext)
  fix a b
  obtain c where c: "comparision_func s = Some c" using assms(1) by auto
  show "compare_jobs (mem(j \<mapsto> started t i)) s a b = compare_jobs mem s a b"
    using compare_started [OF c] assms(2) c by (auto simp: compare_jobs_def)
qed

lemma ordered_by_other:
  "j \<notin> set xs \<Longrightarrow> ordered_by (compare_jobs (mem(j := i)) s) xs = ordered_by (compare_jobs mem s) xs"
  unfolding ordered_by_def compare_jobs_def
  by (intro iffI; erule sorted_wrt_mono_rel [rotated]) (auto split: if_splits)

text \<open>What the documentation of the priority queue promises.\<close>

definition pq_laws :: "'q pq_lib \<Rightarrow> ('q \<Rightarrow> nat list) \<Rightarrow> bool" where
  "pq_laws lib view \<longleftrightarrow>
     view (priqueue_init lib) = [] \<and>
     (\<forall>q. priqueue_size lib q = length (view q)) \<and>
     (\<forall>c x q. total_preorder c \<and> ordered_by c (view q) \<longrightarrow>
        ordered_by c (view (priqueue_offer lib c x q)) \<and>
        mset (view (priqueue_offer lib c x q)) = add_mset x (mset (view q))) \<and>
     (\<forall>x xs q. view q = x # xs \<longrightarrow> (\<exists>q'. priqueue_poll lib q = (Some x, q') \<and> view q' = xs))"

lemma pq_lawsD:
  assumes "pq_laws lib view"
  shows "view (priqueue_init lib) = []" "priqueue_size lib q = length (view q)"
    "total_preorder c \<Longrightarrow> ordered_by c (view q) \<Longrightarrow> ordered_by c (view (priqueue_offer lib c x q))"
    "total_preorder c \<Longrightarrow> ordered_by c (view q) \<Longrightarrow> mset (view (priqueue_offer lib c x q)) = add_mset x (mset (view q))"
    "view q = x # xs \<Longrightarrow> \<exists>q'. priqueue_poll lib q = (Some x, q') \<and> view q' = xs"
  using assms by (auto simp: pq_laws_def)

section \<open>Runs\<close>

text \<open>
  The thread library calls the scheduler when a job arrives, when the time slice of the running job
  is over (or nothing runs), and when the running job ends. \<open>finished\<close> records the running times of
  the jobs that ended.
\<close>

record 'q sched_run =
  sch :: "'q sched"
  running :: "nat option"
  now :: rat
  finished :: "rat list"

inductive sched_step :: "'q pq_lib \<Rightarrow> 'q sched_run \<Rightarrow> 'q sched_run \<Rightarrow> bool" for lib where
  arrive: "now r \<le> t \<Longrightarrow> infos (sch r) j = None \<Longrightarrow>
    sched_step lib r (r\<lparr>sch := scheduler_new_job lib j n t d (sch r), now := t\<rparr>)"
| expire: "now r \<le> t \<Longrightarrow> scheduler_quantum_expired lib (running r) t (sch r) = Inr (j, s) \<Longrightarrow>
    sched_step lib r (r\<lparr>sch := s, running := j, now := t\<rparr>)"
| finish: "now r \<le> t \<Longrightarrow> running r = Some j \<Longrightarrow> infos (sch r) j = Some i \<Longrightarrow>
    scheduler_job_finished j t (sch r) = Inr s \<Longrightarrow>
    sched_step lib r (r\<lparr>sch := s, running := None, now := t,
      finished := running_time (stats i) # finished r\<rparr>)"

definition sched_init :: "'q pq_lib \<Rightarrow> 'q sched_run \<Rightarrow> bool" where
  "sched_init lib r \<longleftrightarrow> (\<exists>sm. scheduler_start_up lib sm Map.empty = Inr (sch r)) \<and> running r = None \<and>
     0 \<le> now r \<and> finished r = []"

definition queue_inv :: "('q \<Rightarrow> nat list) \<Rightarrow> nat option \<Rightarrow> 'q sched \<Rightarrow> bool" where
  "queue_inv view run s \<longleftrightarrow> comparision_func (pqueue_scheme s) \<noteq> None \<and>
     ordered_by (compare_jobs (infos s) (pqueue_scheme s)) (view (pqueue s)) \<and>
     distinct (view (pqueue s)) \<and> set (view (pqueue s)) \<inter> set_option run = {} \<and>
     dom (infos s) = set (view (pqueue s)) \<union> set_option run"

definition times_ok :: "nat option \<Rightarrow> rat \<Rightarrow> (nat \<rightharpoonup> job_info) \<Rightarrow> bool" where
  "times_ok run t mem \<longleftrightarrow> 0 \<le> t \<and> (\<forall>j i. mem j = Some i \<longrightarrow>
     0 \<le> first_arrival_time i \<and> first_arrival_time i \<le> t \<and>
     (fist_start_time i = -1 \<or> first_arrival_time i \<le> fist_start_time i \<and> fist_start_time i \<le> t) \<and>
     (run = Some j \<longrightarrow> fist_start_time i \<noteq> -1))"

definition totals_ok :: "rat list \<Rightarrow> 'q sched \<Rightarrow> bool" where
  "totals_ok done s \<longleftrightarrow> total_turnaround_time s = total_waiting_time s + sum_list done \<and>
     0 \<le> total_response_time s \<and> number_of_jobs s = int (card (dom (infos s)) + length done)"

definition sched_inv :: "'q pq_lib \<Rightarrow> ('q \<Rightarrow> nat list) \<Rightarrow> 'q sched_run \<Rightarrow> bool" where
  "sched_inv lib view r \<longleftrightarrow> (pq_laws lib view \<longrightarrow> queue_inv view (running r) (sch r) \<and>
     times_ok (running r) (now r) (infos (sch r)) \<and> totals_ok (finished r) (sch r))"

lemma sched_inv_init: "sched_init lib r \<Longrightarrow> sched_inv lib view r"
  by (auto simp: sched_init_def scheduler_start_up_def sched_inv_def queue_inv_def times_ok_def
      totals_ok_def ordered_by_def pq_lawsD(1) split: option.splits dest!: sym [of _ "sch r"])

lemma offer_ok:
  assumes laws: "pq_laws lib view" and ok: "comparision_func (pqueue_scheme s) \<noteq> None"
    "ordered_by (compare_jobs (infos s) (pqueue_scheme s)) (view (pqueue s))"
  shows "ordered_by (compare_jobs (infos s) (pqueue_scheme s)) (view (pqueue (offer lib j s)))"
    "mset (view (pqueue (offer lib j s))) = add_mset j (mset (view (pqueue s)))"
    "infos (offer lib j s) = infos s" "pqueue_scheme (offer lib j s) = pqueue_scheme s"
  using pq_lawsD(3,4) [OF laws compare_jobs_total_preorder [OF ok(1)] ok(2)] by (simp_all add: offer_def)

lemma mset_add_set:
  assumes "mset ys = add_mset x (mset xs)"
  shows "set ys = insert x (set xs)" "distinct ys \<longleftrightarrow> distinct xs \<and> x \<notin> set xs"
proof -
  show "set ys = insert x (set xs)" using assms by (metis set_mset_add_mset_insert set_mset_mset)
  have "distinct ys = distinct (x # xs)" using assms by (metis mset.simps(2) mset_eq_imp_distinct_iff)
  then show "distinct ys \<longleftrightarrow> distinct xs \<and> x \<notin> set xs" by auto
qed

lemma queue_inv_offer:
  assumes laws: "pq_laws lib view" and inv: "queue_inv view run s" and j: "j \<notin> set (view (pqueue s))"
    and run': "set_option run' = set_option run - {j}"
    and dom: "j \<in> set_option run \<or> infos s j = None"
    and s': "infos s' = (infos s)(j \<mapsto> i)" "pqueue s' = pqueue s" "pqueue_scheme s' = pqueue_scheme s"
  shows "queue_inv view run' (offer lib j s')"
proof -
  have ord: "ordered_by (compare_jobs (infos s') (pqueue_scheme s')) (view (pqueue s'))"
    using inv j s' ordered_by_other [OF j] by (simp add: queue_inv_def)
  have c: "comparision_func (pqueue_scheme s') \<noteq> None" using inv s' by (simp add: queue_inv_def)
  note o = offer_ok [OF laws c ord, of j]
  show ?thesis using mset_add_set [OF o(2)] o inv j run' dom s'
    by (auto simp: queue_inv_def)
qed

lemma next_job_ok:
  assumes laws: "pq_laws lib view" and inv: "queue_inv view None s" and q: "view (pqueue s) = j # js"
  shows "\<exists>i s'. infos s j = Some i \<and> next_job lib t s = Inr (Some j, s') \<and> queue_inv view (Some j) s' \<and>
     infos s' = (infos s)(j \<mapsto> started t i) \<and> view (pqueue s') = js \<and> pqueue_scheme s' = pqueue_scheme s \<and>
     total_waiting_time s' = total_waiting_time s \<and> total_turnaround_time s' = total_turnaround_time s \<and>
     total_response_time s' = total_response_time s \<and> number_of_jobs s' = number_of_jobs s"
proof -
  obtain q' where q': "priqueue_poll lib (pqueue s) = (Some j, q')" "view q' = js"
    using pq_lawsD(5) [OF laws q] by blast
  obtain i where i: "infos s j = Some i" using inv q by (auto simp: queue_inv_def)
  let ?s = "s\<lparr>pqueue := q', infos := (infos s)(j \<mapsto> started t i)\<rparr>"
  have "compare_jobs (infos ?s) (pqueue_scheme ?s) = compare_jobs (infos s) (pqueue_scheme s)"
    using inv i by (simp add: compare_jobs_started queue_inv_def)
  then have "queue_inv view (Some j) ?s" using inv q q' by (auto simp: queue_inv_def ordered_by_def)
  then show ?thesis using i q' by (simp add: next_job_def info_of_def)
qed

definition same_totals :: "'q sched \<Rightarrow> 'q sched \<Rightarrow> bool" where
  "same_totals s s' \<longleftrightarrow> pqueue_scheme s' = pqueue_scheme s \<and> dom (infos s') = dom (infos s) \<and>
     total_waiting_time s' = total_waiting_time s \<and> total_turnaround_time s' = total_turnaround_time s \<and>
     total_response_time s' = total_response_time s \<and> number_of_jobs s' = number_of_jobs s"

definition preemptive :: "scheme_t \<Rightarrow> bool" where
  "preemptive sm \<longleftrightarrow> sm \<notin> {FCFS, PRI, SJF}"

text \<open>What \<open>scheduler_quantum_expired\<close> decides.\<close>

definition decides :: "('q \<Rightarrow> nat list) \<Rightarrow> nat option \<Rightarrow> rat \<Rightarrow> 'q sched \<Rightarrow> nat option \<Rightarrow> 'q sched \<Rightarrow> bool" where
  "decides view run t s run' s' \<longleftrightarrow>
     (if view (pqueue s) = [] \<or> run \<noteq> None \<and> \<not> preemptive (pqueue_scheme s)
      then run' = run \<and> s' = s
      else \<exists>j. run' = Some j \<and> mset (view (pqueue s')) + {#j#} = mset (view (pqueue s)) + mset_set (set_option run) \<and>
        (\<forall>k \<in> set (view (pqueue s')). compare_jobs (infos s') (pqueue_scheme s) j k \<le> 0))"

lemma times_ok_upd:
  assumes "times_ok run t0 m" "t0 \<le> t" "m j = Some i" "times_ok (Some j) t [j \<mapsto> i']"
  shows "times_ok (Some j) t (m(j \<mapsto> i'))"
  using assms unfolding times_ok_def by (fastforce split: if_splits)

lemma next_job_decides:
  assumes laws: "pq_laws lib view" and inv: "queue_inv view None s" and ne: "view (pqueue s) \<noteq> []"
    and times: "times_ok None t s_infos" "s_infos = infos s"
  shows "\<exists>j s'. next_job lib t s = Inr (Some j, s') \<and> queue_inv view (Some j) s' \<and> times_ok (Some j) t (infos s') \<and>
     same_totals s s' \<and> mset (view (pqueue s')) + {#j#} = mset (view (pqueue s)) \<and>
     (\<forall>k \<in> set (view (pqueue s')). compare_jobs (infos s') (pqueue_scheme s) j k \<le> 0)"
proof -
  obtain j js where q: "view (pqueue s) = j # js" using ne by (cases "view (pqueue s)") auto
  obtain i s' where n: "infos s j = Some i" "next_job lib t s = Inr (Some j, s')" "queue_inv view (Some j) s'"
      "infos s' = (infos s)(j \<mapsto> started t i)" "view (pqueue s') = js" "same_totals s s'"
    using next_job_ok [OF laws inv q, of t] by (auto simp: same_totals_def)
  have "compare_jobs (infos s') (pqueue_scheme s) = compare_jobs (infos s) (pqueue_scheme s)"
    using inv n(1,4) by (simp add: compare_jobs_started queue_inv_def)
  then have "\<forall>k \<in> set js. compare_jobs (infos s') (pqueue_scheme s) j k \<le> 0"
    using inv q by (simp add: queue_inv_def ordered_by_def)
  moreover have "times_ok (Some j) t (infos s')"
    unfolding n(4)
    by (rule times_ok_upd [of None t]) (use times n(1) in \<open>auto simp: times_ok_def started_def\<close>)
  ultimately show ?thesis using n(2,3,5,6) q by auto
qed

lemma quantum_expired_ok:
  assumes laws: "pq_laws lib view" and inv: "queue_inv view run s" and times: "times_ok run t0 (infos s)" "t0 \<le> t"
  shows "\<exists>run' s'. scheduler_quantum_expired lib run t s = Inr (run', s') \<and> queue_inv view run' s' \<and>
     times_ok run' t (infos s') \<and> same_totals s s' \<and> decides view run t s run' s'"
proof -
  have later: "times_ok run t (infos s)" using times by (auto simp: times_ok_def intro: order_trans)
  have size: "priqueue_size lib (pqueue s) = length (view (pqueue s))" using pq_lawsD(2) [OF laws] .
  show ?thesis
  proof (cases "view (pqueue s) = [] \<or> run \<noteq> None \<and> \<not> preemptive (pqueue_scheme s)")
    case True
    then have "scheduler_quantum_expired lib run t s = Inr (run, s)"
      using size by (auto simp: scheduler_quantum_expired_def preemptive_def)
    then show ?thesis using True inv later by (auto simp: decides_def same_totals_def)
  next
    case go: False
    show ?thesis
    proof (cases run)
      case None
      then have "scheduler_quantum_expired lib run t s = next_job lib t s"
        using go size by (simp add: scheduler_quantum_expired_def)
      then show ?thesis
        using next_job_decides [OF laws _ _ _ refl, of s t] inv later go None
        by (fastforce simp: decides_def)
    next
      case (Some j)
      then obtain i where i: "infos s j = Some i" using inv by (auto simp: queue_inv_def)
      have j: "j \<notin> set (view (pqueue s))" using inv Some by (auto simp: queue_inv_def)
      let ?s1 = "s\<lparr>infos := (infos s)(j \<mapsto>
          i\<lparr>remaining_time := remaining_time i - (t - start_time i), arrival_time := t\<rparr>)\<rparr>"
      let ?s2 = "offer lib j ?s1"
      have run: "scheduler_quantum_expired lib run t s = next_job lib t ?s2"
        using go Some size i by (simp add: scheduler_quantum_expired_def preemptive_def info_of_def)
      have inv2: "queue_inv view None ?s2"
        by (rule queue_inv_offer [OF laws inv j]) (use Some in simp_all)
      have times2: "times_ok None t (infos ?s2)" using later i by (auto simp: times_ok_def offer_def)
      have m: "mset (view (pqueue ?s2)) = add_mset j (mset (view (pqueue s)))"
      proof -
        have "ordered_by (compare_jobs (infos ?s1) (pqueue_scheme ?s1)) (view (pqueue ?s1))"
          using inv ordered_by_other [OF j] by (simp add: queue_inv_def)
        then show ?thesis using offer_ok(2) [OF laws, of ?s1 j] inv by (simp add: queue_inv_def)
      qed
      then have "view (pqueue ?s2) \<noteq> []" by auto
      from next_job_decides [OF laws inv2 this times2 refl] obtain k s' where
        k: "next_job lib t ?s2 = Inr (Some k, s')" "queue_inv view (Some k) s'" "times_ok (Some k) t (infos s')"
          "same_totals ?s2 s'" "mset (view (pqueue s')) + {#k#} = mset (view (pqueue ?s2))"
          "\<forall>l \<in> set (view (pqueue s')). compare_jobs (infos s') (pqueue_scheme ?s2) k l \<le> 0" by blast
      have "same_totals s ?s2" using i by (auto simp: same_totals_def offer_def)
      then have "same_totals s s'" "pqueue_scheme ?s2 = pqueue_scheme s" using k(4) by (simp_all add: same_totals_def)
      then show ?thesis using k run m go Some by (auto simp: decides_def)
    qed
  qed
qed

lemma sched_inv_step: "sched_inv lib view r \<Longrightarrow> sched_step lib r u \<Longrightarrow> sched_inv lib view u"
  unfolding sched_inv_def
proof (intro impI, elim impE, assumption, elim conjE)
  assume laws: "pq_laws lib view" and step: "sched_step lib r u"
    and inv: "queue_inv view (running r) (sch r)" "times_ok (running r) (now r) (infos (sch r))"
      "totals_ok (finished r) (sch r)"
  from step show "queue_inv view (running u) (sch u) \<and> times_ok (running u) (now u) (infos (sch u)) \<and>
      totals_ok (finished u) (sch u)"
  proof cases
    case (arrive t j n d)
    let ?i = "\<lparr>id = n, arrival_time = t, first_arrival_time = t, remaining_time = running_time d,
        start_time = -1, fist_start_time = -1, stats = d\<rparr>"
    have j: "j \<notin> set (view (pqueue (sch r)))" "j \<notin> set_option (running r)"
      using inv(1) arrive(3) by (auto simp: queue_inv_def)
    have "queue_inv view (running r) (scheduler_new_job lib j n t d (sch r))"
      unfolding scheduler_new_job_def
      by (rule queue_inv_offer [OF laws inv(1) j(1)]) (use j arrive(3) in auto)
    moreover have "times_ok (running r) t (infos (sch r))"
      using inv(2) arrive(2) by (auto simp: times_ok_def intro: order_trans)
    then have "times_ok (running r) t ((infos (sch r))(j \<mapsto> ?i))"
      using j(2) by (auto simp: times_ok_def)
    moreover have "finite (dom (infos (sch r)))" using inv(1) by (simp add: queue_inv_def)
    ultimately show ?thesis using arrive(1,3) inv(3)
      by (auto simp: totals_ok_def scheduler_new_job_def offer_def card_insert_if)
  next
    case (expire t j s)
    then show ?thesis using quantum_expired_ok [OF laws inv(1,2) expire(2)] inv(3)
      by (auto simp: totals_ok_def same_totals_def)
  next
    case (finish t j i s)
    have s: "s = (sch r)\<lparr>
       total_waiting_time := total_waiting_time (sch r) + (t - first_arrival_time i - running_time (stats i)),
       total_turnaround_time := total_turnaround_time (sch r) + (t - first_arrival_time i),
       total_response_time := total_response_time (sch r) + (fist_start_time i - first_arrival_time i),
       infos := (infos (sch r))(j := None)\<rparr>"
      using finish(4,5) by (simp add: scheduler_job_finished_def info_of_def)
    have j: "j \<notin> set (view (pqueue (sch r)))" using inv(1) finish(3) by (auto simp: queue_inv_def)
    have "queue_inv view None s" using inv(1) j finish(3) s
      by (auto simp: queue_inv_def ordered_by_other)
    moreover have "times_ok None t (infos s)" using inv(2) finish(2) s by (fastforce simp: times_ok_def)
    moreover have "fist_start_time i \<ge> first_arrival_time i"
      using inv(2) finish(3,4) by (auto simp: times_ok_def)
    moreover have "Suc (card (dom (infos s))) = card (dom (infos (sch r)))"
    proof -
      have "finite (dom (infos (sch r)))" using inv(1) by (simp add: queue_inv_def)
      moreover have "j \<in> dom (infos (sch r))" "dom (infos s) = dom (infos (sch r)) - {j}" using finish(4) s by auto
      ultimately show ?thesis by (metis card.remove finite_Diff card_Suc_Diff1)
    qed
    ultimately show ?thesis using finish(1) inv(3) s by (auto simp: totals_ok_def)
  qed
qed

interpretation sched_runs: state_machine "sched_init lib" "sched_step lib" "sched_inv lib view" for lib view
  using sched_inv_init sched_inv_step by unfold_locales

section \<open>Properties\<close>

text \<open>Every scheme's comparison function is a total preorder, and it orders a pair of jobs by the
  scheme's criterion first: arrival of the job, priority, remaining time, time of the last eviction or
  total running time; ties of the other schemes than round robin go to the job that arrived first.
\<close>

theorem comparers_order:
  assumes "comparision_func s = Some c"
  shows "total_preorder c \<and>
    (case s of
       FCFS \<Rightarrow> (c a b \<le> 0 \<longleftrightarrow> first_arrival_time a \<le> first_arrival_time b)
     | RR \<Rightarrow> (c a b \<le> 0 \<longleftrightarrow> arrival_time a \<le> arrival_time b)
     | PSRTF \<Rightarrow> (c a b \<le> 0 \<longleftrightarrow> (remaining_time a, first_arrival_time a) \<le> (remaining_time b, first_arrival_time b))
     | SJF \<Rightarrow> (c a b \<le> 0 \<longleftrightarrow> (running_time (stats a), first_arrival_time a) \<le> (running_time (stats b), first_arrival_time b))
     | _ \<Rightarrow> (c a b \<le> 0 \<longleftrightarrow> (priority (stats a), first_arrival_time a) \<le> (priority (stats b), first_arrival_time b)))"
  using comparers_total_preorder [OF assms] assms
  by (cases s) (auto simp: comparer_defs)

text \<open>
  C14: In every run of the scheduler, with a priority queue that keeps its promises, the waiting jobs
  are in the queue in the order of the scheme, each once, the running job is not among them, and no
  other job has a record. At the end of a time slice the scheduler never faults, and it decides as it
  should: with nobody waiting, or a running job under a scheme that does not preempt, nothing changes;
  otherwise it runs a job that no waiting job precedes and keeps all the others waiting.
\<close>

theorem scheduler_decides:
  assumes "sched_init lib r" "(sched_step lib)\<^sup>*\<^sup>* r u" "pq_laws lib view" "now u \<le> t"
  shows "queue_inv view (running u) (sch u) \<and>
    (\<exists>run' s'. scheduler_quantum_expired lib (running u) t (sch u) = Inr (run', s') \<and>
       decides view (running u) t (sch u) run' s')"
proof -
  have inv: "sched_inv lib view u" using assms(1,2) by (rule sched_runs.reachable_inv)
  then show ?thesis
    using quantum_expired_ok [OF assms(3) _ _ assms(4), of "running u" "sch u"] assms(3)
    by (auto simp: sched_inv_def)
qed

text \<open>
  Over exact arithmetic (the code adds and divides doubles, so this holds of it up to rounding): when all
  jobs of a run have ended, the average turnaround time is the average waiting time plus
  the average running time, and the average response time is not negative. With no job at all the
  averages divide by zero.
\<close>

theorem scheduler_averages:
  assumes "sched_init lib r" "(sched_step lib)\<^sup>*\<^sup>* r u" "pq_laws lib view"
    and "view (pqueue (sch u)) = []" "running u = None"
  shows "number_of_jobs (sch u) = int (length (finished u)) \<and>
    (case (scheduler_average_turnaround_time (sch u), scheduler_average_waiting_time (sch u),
           scheduler_average_response_time (sch u)) of
       (Some turnaround, Some waiting, Some response) \<Rightarrow>
         turnaround = waiting + sum_list (finished u) / of_int (number_of_jobs (sch u)) \<and> 0 \<le> response
     | (None, None, None) \<Rightarrow> finished u = []
     | _ \<Rightarrow> False)"
proof -
  have inv: "queue_inv view (running u) (sch u)" "totals_ok (finished u) (sch u)"
    using sched_runs.reachable_inv [OF assms(1,2), of view] assms(3) by (auto simp: sched_inv_def)
  then have "dom (infos (sch u)) = {}" using assms(4,5) by (simp add: queue_inv_def)
  then show ?thesis using inv(2)
    by (auto simp: totals_ok_def scheduler_average_turnaround_time_def scheduler_average_waiting_time_def
        scheduler_average_response_time_def average_def add_divide_distrib)
qed

text \<open>A priority queue as a sorted list keeps the promises.\<close>

fun insert_by :: "(nat \<Rightarrow> nat \<Rightarrow> int) \<Rightarrow> nat \<Rightarrow> nat list \<Rightarrow> nat list" where
  "insert_by c x [] = [x]"
| "insert_by c x (y # ys) = (if c y x \<le> 0 then y # insert_by c x ys else x # y # ys)"

definition list_pq :: "nat list pq_lib" where
  "list_pq = \<lparr>priqueue_init = [], priqueue_offer = insert_by,
     priqueue_poll = (\<lambda>q. case q of [] \<Rightarrow> (None, []) | x # xs \<Rightarrow> (Some x, xs)), priqueue_size = length\<rparr>"

lemma mset_insert_by: "mset (insert_by c x ys) = add_mset x (mset ys)"
  by (induction ys) auto

lemma ordered_insert_by:
  "total_preorder c \<Longrightarrow> ordered_by c ys \<Longrightarrow> ordered_by c (insert_by c x ys)"
proof (induction ys)
  case (Cons y ys)
  have "set (insert_by c x ys) = insert x (set ys)" by (rule mset_add_set(1) [OF mset_insert_by])
  moreover have "c x y \<le> 0 \<or> c y x \<le> 0" using Cons.prems(1) by (auto simp: total_preorder_def)
  moreover have "c x z \<le> 0" if "c x y \<le> 0" "c y z \<le> 0" for z
    using Cons.prems(1) that unfolding total_preorder_def by blast
  ultimately show ?case using Cons by (auto simp: ordered_by_def)
qed (simp add: ordered_by_def)

lemma list_pq_laws: "pq_laws list_pq (\<lambda>q. q)"
  by (auto simp: pq_laws_def list_pq_def mset_insert_by ordered_insert_by)

definition demo_job :: "rat \<Rightarrow> rat \<Rightarrow> job_info" where
  "demo_job t n = \<lparr>id = 1, arrival_time = t, first_arrival_time = t, remaining_time = n,
     start_time = -1, fist_start_time = -1, stats = \<lparr>running_time = n, priority = 0\<rparr>\<rparr>"

theorem comparers_order_witness:
  "comparer_psrtf (demo_job 0 3) (demo_job 1 3) \<le> 0 \<and> \<not> comparer_psrtf (demo_job 1 3) (demo_job 0 3) \<le> 0"
  using comparers_order [of PSRTF comparer_psrtf "demo_job 0 3" "demo_job 1 3"]
    comparers_order [of PSRTF comparer_psrtf "demo_job 1 3" "demo_job 0 3"]
  by (simp add: demo_job_def)

definition demo_run :: "nat list sched_run" where
  "demo_run = \<lparr>sch = \<lparr>infos = Map.empty, pqueue = [], pqueue_scheme = RR, total_waiting_time = 0,
     total_turnaround_time = 0, total_response_time = 0, number_of_jobs = 0\<rparr>,
     running = None, now = 0, finished = []\<rparr>"

lemma demo_run_init: "sched_init list_pq demo_run"
  by (auto simp: sched_init_def demo_run_def scheduler_start_up_def list_pq_def intro!: exI [of _ RR])

definition demo_arrived :: "nat list sched_run" where
  "demo_arrived = demo_run\<lparr>sch := scheduler_new_job list_pq 5 1 2 \<lparr>running_time = 3, priority = 0\<rparr> (sch demo_run),
     now := 2\<rparr>"

theorem scheduler_decides_witness:
  "\<exists>run' s'. scheduler_quantum_expired list_pq None 4 (sch demo_arrived) = Inr (run', s') \<and> run' = Some 5"
proof -
  have "sched_step list_pq demo_run demo_arrived"
    unfolding demo_arrived_def by (rule sched_step.arrive) (simp_all add: demo_run_def)
  then have "(sched_step list_pq)\<^sup>*\<^sup>* demo_run demo_arrived" by blast
  from scheduler_decides [OF demo_run_init this list_pq_laws, of 4]
  obtain run' s' where d: "scheduler_quantum_expired list_pq (running demo_arrived) 4 (sch demo_arrived) = Inr (run', s')"
      "decides (\<lambda>q. q) (running demo_arrived) 4 (sch demo_arrived) run' s'"
    by (auto simp: demo_arrived_def)
  have "running demo_arrived = None" "pqueue (sch demo_arrived) = [5]"
    by (simp_all add: demo_arrived_def demo_run_def scheduler_new_job_def offer_def list_pq_def)
  then show ?thesis using d by (auto simp: decides_def)
qed

end
