(* ===== verification/Libdrm.thy ===== *)
theory Libdrm
  imports Interfaces
begin

text \<open>
  \<open>deadlock_demolition/libdrm.c\<close>: mutexes that refuse to deadlock, by a resource allocation graph.

  The graph and the set the code calls are libraries that are not part of the program: they are the
  parameter \<open>lib\<close>, a record of their functions, and \<open>graph_laws\<close> says what they promise, in terms
  of the set of vertices, the set of edges and the set of elements they stand for. Pointers to
  mutexes and to thread ids are natural numbers, null is 0; \<open>thread_value\<close> is what a thread id
  pointer points at. The depth-first search has fuel, one unit per vertex.
\<close>

record ('g, 's) graph_lib =
  shallow_graph_create :: 'g
  graph_vertices :: "'g \<Rightarrow> nat list"
  graph_neighbors :: "'g \<Rightarrow> nat \<Rightarrow> nat list"
  graph_antineighbors :: "'g \<Rightarrow> nat \<Rightarrow> nat list"
  graph_contains_vertex :: "'g \<Rightarrow> nat \<Rightarrow> bool"
  graph_add_vertex :: "nat \<Rightarrow> 'g \<Rightarrow> 'g"
  graph_remove_vertex :: "nat \<Rightarrow> 'g \<Rightarrow> 'g"
  graph_add_edge :: "nat \<Rightarrow> nat \<Rightarrow> 'g \<Rightarrow> 'g"
  graph_remove_edge :: "nat \<Rightarrow> nat \<Rightarrow> 'g \<Rightarrow> 'g"
  shallow_set_create :: 's
  set_add :: "nat \<Rightarrow> 's \<Rightarrow> 's"
  set_remove :: "nat \<Rightarrow> 's \<Rightarrow> 's"
  set_contains :: "'s \<Rightarrow> nat \<Rightarrow> bool"

record drm_t =
  locked :: int
  owner :: nat

record 'g drm_sys =
  resource_allocation_graph :: "'g option"
  drms :: "nat \<rightharpoonup> drm_t"

section \<open>The search\<close>

text \<open>
  \<open>graph_has_cycle_util\<close> scans the neighbours and then the antineighbours of the vertex; \<open>scan\<close> is
  the loop that the source has twice. The state is the pair of the sets \<open>visited\<close> and \<open>rec_stack\<close>.
\<close>

function graph_has_cycle_util :: "('g, 's) graph_lib \<Rightarrow> nat \<Rightarrow> 'g \<Rightarrow> nat \<Rightarrow> 's \<times> 's \<Rightarrow> (bool \<times> 's \<times> 's) outcome"
  and scan :: "('g, 's) graph_lib \<Rightarrow> nat \<Rightarrow> 'g \<Rightarrow> nat list \<Rightarrow> 's \<times> 's \<Rightarrow> (bool \<times> 's \<times> 's) outcome" where
  "graph_has_cycle_util lib 0 g vertex st = Inl Diverges"
| "graph_has_cycle_util lib (Suc n) g vertex (visited, rec_stack) =
     rbind (scan lib n g (graph_neighbors lib g vertex)
              (set_add lib vertex visited, set_add lib vertex rec_stack)) (\<lambda>(b, st).
     if b then Inr (True, st)
     else rbind (scan lib n g (graph_antineighbors lib g vertex) st) (\<lambda>(b, visited, rec_stack).
       if b then Inr (True, visited, rec_stack)
       else Inr (False, visited, set_remove lib vertex rec_stack)))"
| "scan lib n g [] st = Inr (False, st)"
| "scan lib n g (a # as) (visited, rec_stack) =
     (if set_contains lib rec_stack a then Inr (True, visited, rec_stack)
      else if \<not> set_contains lib visited a
      then rbind (graph_has_cycle_util lib n g a (visited, rec_stack)) (\<lambda>(b, st).
             if b then Inr (True, st) else scan lib n g as st)
      else scan lib n g as (visited, rec_stack))"
  by pat_completeness auto
termination
  by (relation "inv_image (less_than <*lex*> less_than)
        (\<lambda>x. case x of Inl (lib, n, g, v, st) \<Rightarrow> (n, 0) | Inr (lib, n, g, as, st) \<Rightarrow> (n, Suc (length as)))") auto

fun has_cycle_from :: "('g, 's) graph_lib \<Rightarrow> nat \<Rightarrow> 'g \<Rightarrow> nat list \<Rightarrow> 's \<times> 's \<Rightarrow> bool outcome" where
  "has_cycle_from lib n g [] st = Inr False"
| "has_cycle_from lib n g (v # vs) (visited, rec_stack) =
     (if \<not> set_contains lib visited v
      then rbind (graph_has_cycle_util lib n g v (visited, rec_stack)) (\<lambda>(b, st).
             if b then Inr True else has_cycle_from lib n g vs st)
      else has_cycle_from lib n g vs (visited, rec_stack))"

definition graph_has_cycle :: "('g, 's) graph_lib \<Rightarrow> nat \<Rightarrow> 'g \<Rightarrow> bool outcome" where
  "graph_has_cycle lib n g =
     has_cycle_from lib n g (graph_vertices lib g) (shallow_set_create lib, shallow_set_create lib)"

definition graph_has_edge :: "('g, 's) graph_lib \<Rightarrow> 'g \<Rightarrow> nat \<Rightarrow> nat \<Rightarrow> bool" where
  "graph_has_edge lib g s t \<longleftrightarrow> (\<exists>v \<in> set (graph_neighbors lib g s). v = t)"

section \<open>The mutexes\<close>

definition drm_init :: "('g, 's) graph_lib \<Rightarrow> nat \<Rightarrow> 'g drm_sys \<Rightarrow> 'g drm_sys" where
  "drm_init lib drm s =
     (let g = (case resource_allocation_graph s of None \<Rightarrow> shallow_graph_create lib | Some g \<Rightarrow> g) in
      s\<lparr>resource_allocation_graph := Some g, drms := (drms s)(drm \<mapsto> \<lparr>locked = 0, owner = 0\<rparr>)\<rparr>)"

definition get_drm :: "nat \<Rightarrow> 'g drm_sys \<Rightarrow> drm_t outcome" where
  "get_drm drm s = (case drms s drm of None \<Rightarrow> Inl Dangling | Some d \<Rightarrow> Inr d)"

definition drm_post :: "('g, 's) graph_lib \<Rightarrow> nat \<Rightarrow> nat \<Rightarrow> 'g drm_sys \<Rightarrow> (int \<times> 'g drm_sys) outcome" where
  "drm_post lib drm thread_id s =
     (case resource_allocation_graph s of
        None \<Rightarrow> Inr (0, s)
      | Some g \<Rightarrow>
          if drm = 0 \<or> thread_id = 0 then Inr (0, s)
          else if \<not> graph_contains_vertex lib g drm then Inr (0, s)
          else if \<not> graph_contains_vertex lib g thread_id then Inr (0, s)
          else if graph_has_edge lib g thread_id drm
          then rbind (get_drm drm s) (\<lambda>d. Inr (1, s\<lparr>
                 resource_allocation_graph := Some (graph_remove_edge lib thread_id drm g),
                 drms := (drms s)(drm \<mapsto> d\<lparr>locked := 0\<rparr>)\<rparr>))
          else Inr (0, s))"

text \<open>
  \<open>drm_wait\<close> up to its decision: return 0 (\<open>False\<close>) or go on to take the mutex (\<open>True\<close>). The loop
  that spins while the mutex is locked does not end without another thread: it is \<open>Diverges\<close>.
\<close>

definition drm_wait_check ::
  "('g, 's) graph_lib \<Rightarrow> nat \<Rightarrow> nat \<Rightarrow> nat \<Rightarrow> 'g drm_sys \<Rightarrow> (bool \<times> 'g drm_sys) outcome" where
  "drm_wait_check lib n drm thread_id s =
     (case resource_allocation_graph s of
        None \<Rightarrow> Inr (False, s)
      | Some g \<Rightarrow>
          if drm = 0 \<or> thread_id = 0 then Inr (False, s)
          else
            let g = (if \<not> graph_contains_vertex lib g drm then graph_add_vertex lib drm g else g);
                g = (if \<not> graph_contains_vertex lib g thread_id then graph_add_vertex lib thread_id g else g) in
            if graph_has_edge lib g thread_id drm
            then Inr (False, s\<lparr>resource_allocation_graph := Some g\<rparr>)
            else rbind (get_drm drm s) (\<lambda>d.
              if locked d \<noteq> 0
              then let g = graph_add_edge lib thread_id drm g in
                rbind (graph_has_cycle lib n g) (\<lambda>cycle.
                if cycle
                then Inr (False, s\<lparr>resource_allocation_graph := Some (graph_remove_edge lib thread_id drm g)\<rparr>)
                else Inl Diverges)
              else Inr (True, s\<lparr>resource_allocation_graph := Some g\<rparr>)))"

definition drm_wait_take ::
  "('g, 's) graph_lib \<Rightarrow> (nat \<Rightarrow> nat) \<Rightarrow> nat \<Rightarrow> nat \<Rightarrow> 'g drm_sys \<Rightarrow> (int \<times> 'g drm_sys) outcome" where
  "drm_wait_take lib thread_value drm thread_id s =
     (case resource_allocation_graph s of
        None \<Rightarrow> Inl Null_deref
      | Some g \<Rightarrow> rbind (get_drm drm s) (\<lambda>d. Inr (1, s\<lparr>
          resource_allocation_graph := Some (graph_add_edge lib thread_id drm g),
          drms := (drms s)(drm \<mapsto> d\<lparr>locked := 1, owner := thread_value thread_id\<rparr>)\<rparr>)))"

definition drm_wait ::
  "('g, 's) graph_lib \<Rightarrow> nat \<Rightarrow> (nat \<Rightarrow> nat) \<Rightarrow> nat \<Rightarrow> nat \<Rightarrow> 'g drm_sys \<Rightarrow> (int \<times> 'g drm_sys) outcome" where
  "drm_wait lib n thread_value drm thread_id s =
     rbind (drm_wait_check lib n drm thread_id s) (\<lambda>(go, s).
       if go then drm_wait_take lib thread_value drm thread_id s else Inr (0, s))"

definition drm_destroy :: "('g, 's) graph_lib \<Rightarrow> nat \<Rightarrow> 'g drm_sys \<Rightarrow> 'g drm_sys" where
  "drm_destroy lib drm s =
     (if drm = 0 then s
      else
        let s = (case resource_allocation_graph s of
                   None \<Rightarrow> s
                 | Some g \<Rightarrow> if graph_contains_vertex lib g drm
                     then s\<lparr>resource_allocation_graph := Some (graph_remove_vertex lib drm g)\<rparr> else s) in
        s\<lparr>drms := (drms s)(drm := None)\<rparr>)"

section \<open>The libraries\<close>

definition graph_laws :: "('g, 's) graph_lib \<Rightarrow> ('g \<Rightarrow> nat set) \<Rightarrow> ('g \<Rightarrow> (nat \<times> nat) set) \<Rightarrow> ('s \<Rightarrow> nat set) \<Rightarrow> bool" where
  "graph_laws lib V E S \<longleftrightarrow>
     V (shallow_graph_create lib) = {} \<and>
     (\<forall>g. E g \<subseteq> V g \<times> V g \<and> set (graph_vertices lib g) = V g) \<and>
     (\<forall>g v. set (graph_neighbors lib g v) = {u. (v, u) \<in> E g} \<and>
            set (graph_antineighbors lib g v) = {u. (u, v) \<in> E g} \<and>
            graph_contains_vertex lib g v = (v \<in> V g) \<and>
            V (graph_add_vertex lib v g) = insert v (V g) \<and> E (graph_add_vertex lib v g) = E g \<and>
            V (graph_remove_vertex lib v g) = V g - {v} \<and>
            E (graph_remove_vertex lib v g) = {(a, b) \<in> E g. a \<noteq> v \<and> b \<noteq> v}) \<and>
     (\<forall>g u v. V (graph_remove_edge lib u v g) = V g \<and> E (graph_remove_edge lib u v g) = E g - {(u, v)}) \<and>
     (\<forall>g u v. u \<in> V g \<and> v \<in> V g \<longrightarrow> V (graph_add_edge lib u v g) = V g \<and>
        E (graph_add_edge lib u v g) = insert (u, v) (E g)) \<and>
     S (shallow_set_create lib) = {} \<and>
     (\<forall>s v. S (set_add lib v s) = insert v (S s) \<and> S (set_remove lib v s) = S s - {v} \<and>
        set_contains lib s v = (v \<in> S s))"

lemma graph_lawsD:
  assumes "graph_laws lib V E S"
  shows "V (shallow_graph_create lib) = {}" "E g \<subseteq> V g \<times> V g" "set (graph_vertices lib g) = V g"
    "set (graph_neighbors lib g v) = {u. (v, u) \<in> E g}" "set (graph_antineighbors lib g v) = {u. (u, v) \<in> E g}"
    "graph_contains_vertex lib g v = (v \<in> V g)"
    "V (graph_add_vertex lib v g) = insert v (V g)" "E (graph_add_vertex lib v g) = E g"
    "V (graph_remove_vertex lib v g) = V g - {v}"
    "E (graph_remove_vertex lib v g) = {(a, b) \<in> E g. a \<noteq> v \<and> b \<noteq> v}"
    "V (graph_remove_edge lib u v g) = V g" "E (graph_remove_edge lib u v g) = E g - {(u, v)}"
    "u \<in> V g \<Longrightarrow> v \<in> V g \<Longrightarrow> V (graph_add_edge lib u v g) = V g"
    "u \<in> V g \<Longrightarrow> v \<in> V g \<Longrightarrow> E (graph_add_edge lib u v g) = insert (u, v) (E g)"
    "S (shallow_set_create lib) = {}" "S (set_add lib v s) = insert v (S s)"
    "S (set_remove lib v s) = S s - {v}" "set_contains lib s v = (v \<in> S s)"
  using assms by (simp_all add: graph_laws_def)

section \<open>What the search finds\<close>

definition isolated :: "(nat \<times> nat) set \<Rightarrow> nat \<Rightarrow> bool" where
  "isolated E v \<longleftrightarrow> (\<forall>u. (v, u) \<notin> E \<and> (u, v) \<notin> E)"

definition searched :: "(nat \<times> nat) set \<Rightarrow> ('s \<Rightarrow> nat set) \<Rightarrow> 's \<times> 's \<Rightarrow> bool" where
  "searched E S st \<longleftrightarrow> (\<forall>v \<in> S (fst st) - S (snd st). isolated E v)"

text \<open>When the search says no, it has seen isolated vertices only.\<close>

lemma search_isolated:
  shows "\<And>vis rec'. graph_laws lib V E S \<Longrightarrow> graph_has_cycle_util lib n g v st = Inr (False, vis, rec') \<Longrightarrow>
           searched (E g) S st \<Longrightarrow> isolated (E g) v \<and> searched (E g) S (vis, rec')"
    and "\<And>vis rec'. graph_laws lib V E S \<Longrightarrow> scan lib n g as st = Inr (False, vis, rec') \<Longrightarrow>
           searched (E g) S st \<Longrightarrow> (\<forall>a \<in> set as. isolated (E g) a) \<and> searched (E g) S (vis, rec')"
proof (induction lib n g v st and lib n g as st rule: graph_has_cycle_util_scan.induct)
  case (2 lib n g v vis0 rec0)
  note l = graph_lawsD [OF "2.prems"(1)]
  obtain st1 st2 r2 where s: "scan lib n g (graph_neighbors lib g v) (set_add lib v vis0, set_add lib v rec0) = Inr (False, st1)"
      "scan lib n g (graph_antineighbors lib g v) st1 = Inr (False, vis, r2)" "rec' = set_remove lib v r2"
    using "2.prems"(2) by (auto simp: rbind_eq_Inr split: if_splits prod.splits)
  have "searched (E g) S (set_add lib v vis0, set_add lib v rec0)"
    using "2.prems"(3) by (auto simp: searched_def l(16))
  then have n: "\<forall>a \<in> set (graph_neighbors lib g v). isolated (E g) a" "searched (E g) S st1"
    using "2.IH"(1) [OF "2.prems"(1), of "fst st1" "snd st1"] s(1) by auto
  then have a: "\<forall>a \<in> set (graph_antineighbors lib g v). isolated (E g) a" "searched (E g) S (vis, r2)"
    using "2.IH"(2) [OF s(1) _ _ "2.prems"(1) s(2)] by auto
  have iso: "isolated (E g) v" using n(1) a(1) unfolding l(4,5) isolated_def by blast
  then show ?case using a(2) s(3) by (auto simp: searched_def l(17))
next
  case (4 lib n g a as vis0 rec0)
  note l = graph_lawsD [OF "4.prems"(1)]
  have a: "\<not> set_contains lib rec0 a" using "4.prems"(2) by (auto split: if_splits)
  show ?case
  proof (cases "set_contains lib vis0 a")
    case True
    then have "isolated (E g) a" using "4.prems"(3) a by (auto simp: searched_def l(18))
    then show ?thesis using "4.IH"(3) [OF a _ "4.prems"(1), of vis rec'] "4.prems"(2,3) a True by auto
  next
    case False
    then obtain st1 where s: "graph_has_cycle_util lib n g a (vis0, rec0) = Inr (False, st1)"
        "scan lib n g as st1 = Inr (False, vis, rec')"
      using "4.prems"(2) a by (auto simp: rbind_eq_Inr split: if_splits)
    then have u: "isolated (E g) a" "searched (E g) S st1"
      using "4.IH"(1) [OF a False "4.prems"(1), of "fst st1" "snd st1"] "4.prems"(3) by auto
    show ?thesis using "4.IH"(2) [OF a False s(1), of False st1] "4.prems"(1) s(2) u by simp
  qed
qed auto

text \<open>The search ends: each nested call has visited one more vertex.\<close>

lemma search_visits:
  shows "\<And>b vis rec'. graph_laws lib V E S \<Longrightarrow> graph_has_cycle_util lib n g v st = Inr (b, vis, rec') \<Longrightarrow>
           S (fst st) \<subseteq> S vis"
    and "\<And>b vis rec'. graph_laws lib V E S \<Longrightarrow> scan lib n g as st = Inr (b, vis, rec') \<Longrightarrow> S (fst st) \<subseteq> S vis"
proof (induction lib n g v st and lib n g as st rule: graph_has_cycle_util_scan.induct)
  case (2 lib n g v vis0 rec0)
  obtain b1 vis1 rec1 where s: "scan lib n g (graph_neighbors lib g v) (set_add lib v vis0, set_add lib v rec0) = Inr (b1, vis1, rec1)"
    using "2.prems"(2) by (auto simp: rbind_eq_Inr)
  have "S vis0 \<subseteq> S vis1" using "2.IH"(1) [OF "2.prems"(1) s] graph_lawsD(16) [OF "2.prems"(1)] by auto
  moreover have "S vis1 \<subseteq> S vis"
  proof (cases b1)
    case True
    then show ?thesis using "2.prems"(2) s by simp
  next
    case False
    then obtain b2 r2 where "scan lib n g (graph_antineighbors lib g v) (vis1, rec1) = Inr (b2, vis, r2)"
      using "2.prems"(2) s by (auto simp: rbind_eq_Inr split: if_splits)
    then show ?thesis using "2.IH"(2) [OF s, of b1 "(vis1, rec1)"] False "2.prems"(1) by simp
  qed
  ultimately show ?case by simp
next
  case (4 lib n g a as vis0 rec0)
  show ?case
  proof (cases "set_contains lib rec0 a \<or> set_contains lib vis0 a")
    case True
    then show ?thesis using "4.IH"(3) "4.prems" by (auto split: if_splits)
  next
    case False
    then obtain b1 vis1 rec1 where s: "graph_has_cycle_util lib n g a (vis0, rec0) = Inr (b1, vis1, rec1)"
      using "4.prems"(2) by (auto simp: rbind_eq_Inr)
    have "S vis0 \<subseteq> S vis1" using "4.IH"(1) [OF _ _ "4.prems"(1) s] False by simp
    moreover have "S vis1 \<subseteq> S vis"
      using "4.prems" s False "4.IH"(2) [OF _ _ s, of b1 "(vis1, rec1)"] by (cases b1) auto
    ultimately show ?thesis by simp
  qed
qed auto

lemma search_ends:
  shows "graph_laws lib V E S \<Longrightarrow> finite (V g) \<Longrightarrow> v \<in> V g \<Longrightarrow> v \<notin> S (fst st) \<Longrightarrow>
           card (V g - S (fst st)) < n \<Longrightarrow> \<exists>r. graph_has_cycle_util lib n g v st = Inr r"
    and "graph_laws lib V E S \<Longrightarrow> finite (V g) \<Longrightarrow> set as \<subseteq> V g \<Longrightarrow>
           card (V g - S (fst st)) < n \<Longrightarrow> \<exists>r. scan lib n g as st = Inr r"
proof (induction lib n g v st and lib n g as st rule: graph_has_cycle_util_scan.induct)
  case (2 lib n g v vis0 rec0)
  note l = graph_lawsD [OF "2.prems"(1)]
  have "V g - insert v (S vis0) = (V g - S vis0) - {v}" by auto
  then have less: "card (V g - S (set_add lib v vis0)) < n"
  proof -
    have "V g - S vis0 \<noteq> {}" "finite (V g - S vis0)" using "2.prems"(2-4) by auto
    then have "0 < card (V g - S vis0)" by (simp add: card_gt_0_iff)
    then show ?thesis using "2.prems"(3-5) \<open>V g - insert v (S vis0) = _\<close> by (simp add: l(16) card_Diff_singleton)
  qed
  have nb: "set (graph_neighbors lib g v) \<subseteq> V g" "set (graph_antineighbors lib g v) \<subseteq> V g"
    using l(2) [of g] unfolding l(4,5) by blast+
  obtain b1 vis1 rec1 where s: "scan lib n g (graph_neighbors lib g v) (set_add lib v vis0, set_add lib v rec0) = Inr (b1, vis1, rec1)"
    using "2.IH"(1) [OF "2.prems"(1,2) nb(1)] less by auto
  have "S (set_add lib v vis0) \<subseteq> S vis1" using search_visits(2) [OF "2.prems"(1) s] by simp
  then have "card (V g - S vis1) \<le> card (V g - S (set_add lib v vis0))"
    using "2.prems"(2) by (intro card_mono) auto
  then have "\<exists>r. scan lib n g (graph_antineighbors lib g v) (vis1, rec1) = Inr r" if "\<not> b1"
    using "2.IH"(2) [OF s, of b1 "(vis1, rec1)"] that "2.prems"(1,2) nb(2) less by simp
  then show ?case using s by (auto simp: ex_bool_eq)
next
  case (4 lib n g a as vis0 rec0)
  note l = graph_lawsD [OF "4.prems"(1)]
  show ?case
  proof (cases "set_contains lib rec0 a \<or> set_contains lib vis0 a")
    case True
    then show ?thesis using "4.IH"(3) "4.prems" by auto
  next
    case False
    then obtain b1 vis1 rec1 where s: "graph_has_cycle_util lib n g a (vis0, rec0) = Inr (b1, vis1, rec1)"
      using "4.IH"(1) "4.prems" by (auto simp: l(18))
    have "S vis0 \<subseteq> S vis1" using search_visits(1) [OF "4.prems"(1) s] by simp
    then have "card (V g - S vis1) \<le> card (V g - S vis0)" using "4.prems"(2) by (intro card_mono) auto
    then show ?thesis using s False "4.IH"(2) [OF _ _ s, of b1 "(vis1, rec1)"] "4.prems" by auto
  qed
qed auto

lemma search_restores:
  shows "\<And>vis rec'. graph_laws lib V E S \<Longrightarrow> graph_has_cycle_util lib n g v st = Inr (False, vis, rec') \<Longrightarrow>
           v \<notin> S (snd st) \<Longrightarrow> S rec' = S (snd st)"
    and "\<And>vis rec'. graph_laws lib V E S \<Longrightarrow> scan lib n g as st = Inr (False, vis, rec') \<Longrightarrow> S rec' = S (snd st)"
proof (induction lib n g v st and lib n g as st rule: graph_has_cycle_util_scan.induct)
  case (2 lib n g v vis0 rec0)
  note l = graph_lawsD [OF "2.prems"(1)]
  obtain st1 r2 where s: "scan lib n g (graph_neighbors lib g v) (set_add lib v vis0, set_add lib v rec0) = Inr (False, st1)"
      "scan lib n g (graph_antineighbors lib g v) st1 = Inr (False, vis, r2)" "rec' = set_remove lib v r2"
    using "2.prems"(2) by (auto simp: rbind_eq_Inr split: if_splits)
  have "S (snd st1) = insert v (S rec0)"
    using "2.IH"(1) [OF "2.prems"(1), of "fst st1" "snd st1"] s(1) by (simp add: l(16))
  moreover have "S r2 = S (snd st1)" using "2.IH"(2) [OF s(1), of False st1] "2.prems"(1) s(2) by simp
  ultimately show ?case using s(3) "2.prems"(3) by (simp add: l(17))
next
  case (4 lib n g a as vis0 rec0)
  note l = graph_lawsD [OF "4.prems"(1)]
  have a: "\<not> set_contains lib rec0 a" using "4.prems"(2) by (auto split: if_splits)
  show ?case
  proof (cases "set_contains lib vis0 a")
    case True
    then show ?thesis using "4.IH"(3) [OF a _ "4.prems"(1), of vis rec'] "4.prems"(2) a by simp
  next
    case False
    then obtain st1 where s: "graph_has_cycle_util lib n g a (vis0, rec0) = Inr (False, st1)"
        "scan lib n g as st1 = Inr (False, vis, rec')"
      using "4.prems"(2) a by (auto simp: rbind_eq_Inr split: if_splits)
    then have "S (snd st1) = S rec0"
      using "4.IH"(1) [OF a False "4.prems"(1), of "fst st1" "snd st1"] a by (simp add: l(18))
    then show ?thesis using "4.IH"(2) [OF a False s(1), of False st1] "4.prems"(1) s(2) by simp
  qed
qed auto

lemma no_edges_no_cycle:
  assumes "graph_laws lib V E S" "E g = {}" "graph_has_cycle_util lib n g v st = Inr (b, r)"
  shows "\<not> b"
proof -
  have "graph_neighbors lib g v = []" "graph_antineighbors lib g v = []"
    using graph_lawsD(4,5) [OF assms(1), of g v] assms(2) by auto
  then show ?thesis using assms(3) by (cases n; cases st) auto
qed

lemma has_cycle_from_edges:
  assumes laws: "graph_laws lib V E S" and fin: "finite (V g)" and n: "card (V g) < n"
    and vs: "set vs \<subseteq> V g" and st: "searched (E g) S st" "S (snd st) = {}"
  shows "\<exists>b. has_cycle_from lib n g vs st = Inr b \<and> (\<not> b \<longrightarrow> (\<forall>v \<in> set vs. isolated (E g) v)) \<and>
     (b \<longrightarrow> E g \<noteq> {})"
  using vs st
proof (induction vs arbitrary: st)
  case (Cons v vs)
  obtain vis0 rec0 where st: "st = (vis0, rec0)" by (cases st)
  show ?case
  proof (cases "set_contains lib vis0 v")
    case True
    then have "isolated (E g) v"
      using Cons.prems(2,3) st graph_lawsD(18) [OF laws] by (simp add: searched_def)
    then show ?thesis using Cons.IH [OF _ Cons.prems(2,3)] Cons.prems(1) st True by simp
  next
    case False
    have "card (V g - S vis0) < n" using n fin card_mono [of "V g" "V g - S vis0"] by simp
    then obtain b vis1 rec1 where s: "graph_has_cycle_util lib n g v st = Inr (b, vis1, rec1)"
      using search_ends(1) [OF laws fin, of v st n] Cons.prems(1) False st graph_lawsD(18) [OF laws] by auto
    show ?thesis
    proof (cases b)
      case True
      then have "E g \<noteq> {}" using no_edges_no_cycle [OF laws _ s] by auto
      then show ?thesis using s True st False by auto
    next
      case nb: False
      then have "isolated (E g) v" "searched (E g) S (vis1, rec1)"
        using search_isolated(1) [OF laws, of n g v st vis1 rec1] s Cons.prems(2) by auto
      moreover have "S rec1 = {}" using search_restores(1) [OF laws, of n g v st vis1 rec1] s nb Cons.prems(3) by simp
      ultimately show ?thesis using Cons.IH [of "(vis1, rec1)"] Cons.prems(1) s nb st False by simp
    qed
  qed
qed (simp add: ex_bool_eq)

lemma graph_has_cycle_edges:
  assumes laws: "graph_laws lib V E S" and "finite (V g)" "card (V g) < n"
  shows "graph_has_cycle lib n g = Inr (E g \<noteq> {})"
proof -
  note l = graph_lawsD [OF laws]
  let ?st = "(shallow_set_create lib, shallow_set_create lib)"
  have "set (graph_vertices lib g) \<subseteq> V g" unfolding l(3) by (rule subset_refl)
  moreover have "searched (E g) S ?st" unfolding searched_def fst_conv snd_conv l(15) by blast
  moreover have "S (snd ?st) = {}" unfolding snd_conv by (rule l(15))
  ultimately have "\<exists>b. has_cycle_from lib n g (graph_vertices lib g) ?st = Inr b \<and>
      (\<not> b \<longrightarrow> (\<forall>v \<in> set (graph_vertices lib g). isolated (E g) v)) \<and> (b \<longrightarrow> E g \<noteq> {})"
    by (rule has_cycle_from_edges [OF assms])
  then obtain b where b: "graph_has_cycle lib n g = Inr b"
      "\<not> b \<longrightarrow> (\<forall>v \<in> V g. isolated (E g) v)" "b \<longrightarrow> E g \<noteq> {}"
    unfolding graph_has_cycle_def l(3) by blast
  moreover have "E g = {}" if iso: "\<forall>v \<in> V g. isolated (E g) v"
  proof -
    have none: "(u, v) \<notin> E g" for u v
    proof
      assume e: "(u, v) \<in> E g"
      then have "u \<in> V g" using subsetD [OF l(2) e] by simp
      then show False using iso e unfolding isolated_def by metis
    qed
    show ?thesis
    proof (rule equals0I)
      fix p assume "p \<in> E g"
      then show False using none [of "fst p" "snd p"] by simp
    qed
  qed
  ultimately show ?thesis by (cases b) simp_all
qed

section \<open>The operations on the sets\<close>

text \<open>The graph \<open>drm_wait\<close> works on: both vertices are there.\<close>

definition with_vertex :: "('g, 's) graph_lib \<Rightarrow> nat \<Rightarrow> 'g \<Rightarrow> 'g" where
  "with_vertex lib v g = (if \<not> graph_contains_vertex lib g v then graph_add_vertex lib v g else g)"

lemma with_vertex_laws:
  assumes "graph_laws lib V E S"
  shows "V (with_vertex lib v g) = insert v (V g)" "E (with_vertex lib v g) = E g"
  using graph_lawsD(6,7,8) [OF assms] by (simp_all add: with_vertex_def insert_absorb)

lemma graph_has_edge_laws:
  "graph_laws lib V E S \<Longrightarrow> graph_has_edge lib g s t \<longleftrightarrow> (s, t) \<in> E g"
  by (auto simp: graph_has_edge_def graph_lawsD(4))

lemma drm_wait_check_ok:
  assumes laws: "graph_laws lib V E S" and fin: "finite (V g)" and n: "card (V g) + 2 < n"
    and s: "resource_allocation_graph s = Some g" and nz: "drm \<noteq> 0" "tid \<noteq> 0" and d: "drms s drm = Some d"
  shows "\<exists>g'. drm_wait_check lib n drm tid s =
      Inr (locked d = 0 \<and> (tid, drm) \<notin> E g, s\<lparr>resource_allocation_graph := Some g'\<rparr>) \<and>
      V g' = insert drm (insert tid (V g)) \<and> E g' = E g"
proof -
  note l = graph_lawsD [OF laws]
  let ?g = "with_vertex lib tid (with_vertex lib drm g)"
  have Vg: "V ?g = insert drm (insert tid (V g))" "E ?g = E g" using with_vertex_laws [OF laws] by auto
  have run: "drm_wait_check lib n drm tid s =
      (if (tid, drm) \<in> E g then Inr (False, s\<lparr>resource_allocation_graph := Some ?g\<rparr>)
       else if locked d \<noteq> 0 then rbind (graph_has_cycle lib n (graph_add_edge lib tid drm ?g)) (\<lambda>cycle.
          if cycle then Inr (False, s\<lparr>resource_allocation_graph :=
              Some (graph_remove_edge lib tid drm (graph_add_edge lib tid drm ?g))\<rparr>)
          else Inl Diverges)
       else Inr (True, s\<lparr>resource_allocation_graph := Some ?g\<rparr>))"
    using s nz d Vg(2) by (simp add: drm_wait_check_def Let_def get_drm_def graph_has_edge_laws [OF laws]
        with_vertex_def [symmetric])
  show ?thesis
  proof (cases "(tid, drm) \<notin> E g \<and> locked d \<noteq> 0")
    case True
    let ?h = "graph_add_edge lib tid drm ?g"
    have h: "V ?h = V ?g" "E ?h = insert (tid, drm) (E g)" using l(13,14) [of tid ?g drm] Vg by simp_all
    have "card (V ?h) \<le> card (V g) + 2"
      using fin h(1) Vg(1) by (simp add: card_insert_if)
    then have "graph_has_cycle lib n ?h = Inr True"
      using graph_has_cycle_edges [OF laws, of ?h n] fin n h Vg(1) by simp
    then have "drm_wait_check lib n drm tid s =
        Inr (False, s\<lparr>resource_allocation_graph := Some (graph_remove_edge lib tid drm ?h)\<rparr>)"
      using run True by simp
    moreover have "V (graph_remove_edge lib tid drm ?h) = V ?g" "E (graph_remove_edge lib tid drm ?h) = E g"
      using l(11,12) h True by simp_all
    ultimately show ?thesis using True Vg by auto
  next
    case False
    then show ?thesis using run Vg by auto
  qed
qed

lemma drm_wait_take_ok:
  assumes laws: "graph_laws lib V E S" and s: "resource_allocation_graph s = Some g" "drm \<in> V g" "tid \<in> V g"
    and d: "drms s drm = Some d"
  shows "\<exists>g' s'. drm_wait_take lib tv drm tid s = Inr (1, s') \<and> resource_allocation_graph s' = Some g' \<and>
     V g' = V g \<and> E g' = insert (tid, drm) (E g) \<and> drms s' = (drms s)(drm \<mapsto> d\<lparr>locked := 1, owner := tv tid\<rparr>)"
  using s d graph_lawsD(13,14) [OF laws s(3,2)] by (simp add: drm_wait_take_def get_drm_def)

text \<open>A call of \<open>drm_wait\<close> that runs without interruption.\<close>

lemma drm_wait_ok:
  assumes laws: "graph_laws lib V E S" and fin: "finite (V g)" and n: "card (V g) + 2 < n"
    and s: "resource_allocation_graph s = Some g" and nz: "drm \<noteq> 0" "tid \<noteq> 0" and d: "drms s drm = Some d"
  shows "\<exists>g' s'. drm_wait lib n tv drm tid s = Inr (if locked d = 0 \<and> (tid, drm) \<notin> E g then 1 else 0, s') \<and>
     resource_allocation_graph s' = Some g' \<and> V g' = insert drm (insert tid (V g)) \<and>
     (if locked d = 0 \<and> (tid, drm) \<notin> E g
      then E g' = insert (tid, drm) (E g) \<and> drms s' = (drms s)(drm \<mapsto> d\<lparr>locked := 1, owner := tv tid\<rparr>)
      else E g' = E g \<and> drms s' = drms s)"
proof -
  obtain g1 where g1: "drm_wait_check lib n drm tid s =
      Inr (locked d = 0 \<and> (tid, drm) \<notin> E g, s\<lparr>resource_allocation_graph := Some g1\<rparr>)"
      "V g1 = insert drm (insert tid (V g))" "E g1 = E g"
    using drm_wait_check_ok [OF assms] by blast
  let ?s1 = "s\<lparr>resource_allocation_graph := Some g1\<rparr>"
  show ?thesis
  proof (cases "locked d = 0 \<and> (tid, drm) \<notin> E g")
    case True
    have "\<exists>g' s'. drm_wait_take lib tv drm tid ?s1 = Inr (1, s') \<and> resource_allocation_graph s' = Some g' \<and>
        V g' = V g1 \<and> E g' = insert (tid, drm) (E g1) \<and> drms s' = (drms ?s1)(drm \<mapsto> d\<lparr>locked := 1, owner := tv tid\<rparr>)"
      by (rule drm_wait_take_ok [OF laws]) (use g1(2) d in simp_all)
    then show ?thesis using g1 True by (auto simp: drm_wait_def)
  next
    case False
    then show ?thesis using g1 by (auto simp: drm_wait_def)
  qed
qed

section \<open>Runs of whole calls\<close>

text \<open>
  Calls that run one after the other. \<open>mutex\<close> says which addresses are those of mutexes: thread ids
  live elsewhere. The fuel of each call exceeds the number of vertices.
\<close>

definition enough_fuel :: "('g \<Rightarrow> nat set) \<Rightarrow> nat \<Rightarrow> 'g drm_sys \<Rightarrow> bool" where
  "enough_fuel V n s \<longleftrightarrow> (\<forall>g. resource_allocation_graph s = Some g \<longrightarrow> card (V g) + 2 < n)"

inductive drm_step :: "('g, 's) graph_lib \<Rightarrow> ('g \<Rightarrow> nat set) \<Rightarrow> (nat \<Rightarrow> bool) \<Rightarrow> 'g drm_sys \<Rightarrow> 'g drm_sys \<Rightarrow> bool"
  for lib V mutex where
  init: "drm \<noteq> 0 \<Longrightarrow> mutex drm \<Longrightarrow> drms s drm = None \<Longrightarrow> drm_step lib V mutex s (drm_init lib drm s)"
| wait: "drms s drm \<noteq> None \<Longrightarrow> \<not> mutex tid \<Longrightarrow> enough_fuel V n s \<Longrightarrow>
    drm_wait lib n tv drm tid s = Inr (r, s') \<Longrightarrow> drm_step lib V mutex s s'"
| post: "drm_post lib drm tid s = Inr (r, s') \<Longrightarrow> drm_step lib V mutex s s'"
| destroy: "drm = 0 \<or> mutex drm \<Longrightarrow> drm_step lib V mutex s (drm_destroy lib drm s)"

definition drm_start :: "'g drm_sys \<Rightarrow> bool" where
  "drm_start s \<longleftrightarrow> resource_allocation_graph s = None \<and> drms s = Map.empty"

text \<open>An edge goes from the thread that holds a mutex to the mutex; a locked one has exactly one.\<close>

definition holders :: "(nat \<times> nat) set \<Rightarrow> nat \<Rightarrow> nat set" where
  "holders E d = {t. (t, d) \<in> E}"

definition is_locked :: "(nat \<rightharpoonup> drm_t) \<Rightarrow> nat \<Rightarrow> bool" where
  "is_locked m d = (case m d of None \<Rightarrow> False | Some x \<Rightarrow> locked x \<noteq> 0)"

definition owned :: "(nat \<Rightarrow> bool) \<Rightarrow> (nat \<times> nat) set \<Rightarrow> (nat \<rightharpoonup> drm_t) \<Rightarrow> bool" where
  "owned mutex E m \<longleftrightarrow> m 0 = None \<and> (\<forall>d. m d \<noteq> None \<longrightarrow> mutex d) \<and> (\<forall>(t, d) \<in> E. \<not> mutex t) \<and>
     (\<forall>d. if is_locked m d then \<exists>t. holders E d = {t} else holders E d = {})"

definition drm_inv ::
  "('g, 's) graph_lib \<Rightarrow> ('g \<Rightarrow> nat set) \<Rightarrow> ('g \<Rightarrow> (nat \<times> nat) set) \<Rightarrow> ('s \<Rightarrow> nat set) \<Rightarrow> (nat \<Rightarrow> bool) \<Rightarrow>
   'g drm_sys \<Rightarrow> bool" where
  "drm_inv lib V E S mutex s \<longleftrightarrow> (graph_laws lib V E S \<longrightarrow>
     (case resource_allocation_graph s of None \<Rightarrow> drms s = Map.empty
      | Some g \<Rightarrow> finite (V g) \<and> owned mutex (E g) (drms s)))"

lemma holders_simps [simp]:
  "holders {} d = {}"
  "holders (insert (t, c) E) d = (if d = c then insert t (holders E d) else holders E d)"
  "holders (E - {(t, c)}) d = (if d = c then holders E d - {t} else holders E d)"
  by (auto simp: holders_def)

lemma is_locked_simps [simp]:
  "is_locked (m(c \<mapsto> x)) d = (if d = c then locked x \<noteq> 0 else is_locked m d)"
  "is_locked (m(c := None)) d = (d \<noteq> c \<and> is_locked m d)" "\<not> is_locked Map.empty d"
  by (auto simp: is_locked_def)

lemma ownedD:
  assumes "owned mutex E m"
  shows "m d = Some x \<Longrightarrow> d \<noteq> 0" "m d = Some x \<Longrightarrow> mutex d" "m 0 = None" "(t, d) \<in> E \<Longrightarrow> \<not> mutex t"
    "is_locked m d \<Longrightarrow> \<exists>t. holders E d = {t}" "\<not> is_locked m d \<Longrightarrow> holders E d = {}"
proof -
  show "m d = Some x \<Longrightarrow> d \<noteq> 0" using assms unfolding owned_def by (metis option.distinct(1))
  show "m d = Some x \<Longrightarrow> mutex d" "m 0 = None" "(t, d) \<in> E \<Longrightarrow> \<not> mutex t"
    using assms by (auto simp: owned_def)
  have "if is_locked m d then \<exists>t. holders E d = {t} else holders E d = {}" using assms unfolding owned_def by blast
  then show "is_locked m d \<Longrightarrow> \<exists>t. holders E d = {t}" "\<not> is_locked m d \<Longrightarrow> holders E d = {}" by simp_all
qed

lemma owned_init:
  "owned mutex E m \<Longrightarrow> m d = None \<Longrightarrow> d \<noteq> 0 \<Longrightarrow> mutex d \<Longrightarrow> owned mutex E (m(d \<mapsto> \<lparr>locked = 0, owner = k\<rparr>))"
  by (auto simp: owned_def is_locked_def dest: spec [of _ d])

lemma owned_take:
  assumes "owned mutex E m" "m d = Some x" "locked x = 0" "\<not> mutex t"
  shows "owned mutex (insert (t, d) E) (m(d \<mapsto> x\<lparr>locked := 1, owner := k\<rparr>))"
proof -
  have "holders E d = {}" "d \<noteq> 0" "mutex d"
    using assms(2,3) ownedD(1,2,6) [OF assms(1)] by (simp_all add: is_locked_def)
  then show ?thesis using assms by (auto simp: owned_def)
qed

lemma owned_release:
  assumes "owned mutex E m" "(t, d) \<in> E" "m d = Some x"
  shows "owned mutex (E - {(t, d)}) (m(d \<mapsto> x\<lparr>locked := 0\<rparr>))"
proof -
  have "t \<in> holders E d" using assms(2) by (simp add: holders_def)
  moreover from this have "\<exists>u. holders E d = {u}" using ownedD(5,6) [OF assms(1), of d] by blast
  ultimately have "holders E d = {t}" "d \<noteq> 0" "mutex d" using assms(3) ownedD(1,2) [OF assms(1)] by auto
  then show ?thesis using assms by (auto simp: owned_def)
qed

lemma owned_remove:
  assumes "owned mutex E m" "mutex d"
  shows "owned mutex {(a, b) \<in> E. a \<noteq> d \<and> b \<noteq> d} (m(d := None))"
proof -
  let ?E = "{(a, b) \<in> E. a \<noteq> d \<and> b \<noteq> d}"
  have h: "holders ?E c = (if c = d then {} else holders E c)" for c
    using assms by (auto simp: owned_def holders_def)
  have "if is_locked (m(d := None)) c then \<exists>t. holders ?E c = {t} else holders ?E c = {}" for c
    unfolding h using ownedD(5,6) [OF assms(1), of c] by (cases "c = d") auto
  note last = allI [OF this]
  show ?thesis unfolding owned_def
    by (intro conjI last) (use assms(1) in \<open>auto simp: owned_def\<close>)
qed

lemma drm_inv_start: "drm_start s \<Longrightarrow> drm_inv lib V E S mutex s"
  by (simp add: drm_start_def drm_inv_def)

lemma drm_inv_step: "drm_inv lib V E S mutex s \<Longrightarrow> drm_step lib V mutex s t \<Longrightarrow> drm_inv lib V E S mutex t"
  unfolding drm_inv_def
proof (intro impI, elim impE, assumption)
  assume laws: "graph_laws lib V E S" and step: "drm_step lib V mutex s t"
    and inv: "case resource_allocation_graph s of None \<Rightarrow> drms s = Map.empty
      | Some g \<Rightarrow> finite (V g) \<and> owned mutex (E g) (drms s)"
  note l = graph_lawsD [OF laws]
  have empty: "E (shallow_graph_create lib) = {}" using l(1) l(2) [of "shallow_graph_create lib"] by simp
  from step show "case resource_allocation_graph t of None \<Rightarrow> drms t = Map.empty
      | Some g \<Rightarrow> finite (V g) \<and> owned mutex (E g) (drms t)"
  proof cases
    case (init drm)
    show ?thesis
    proof (cases "resource_allocation_graph s")
      case None
      have "owned mutex {} (Map.empty(drm \<mapsto> \<lparr>locked = 0, owner = 0\<rparr>))"
        by (rule owned_init) (use init(2,3) in \<open>simp_all add: owned_def\<close>)
      then show ?thesis using inv None init(1) l(1) empty by (simp add: drm_init_def Let_def)
    next
      case (Some g)
      then have "owned mutex (E g) ((drms s)(drm \<mapsto> \<lparr>locked = 0, owner = 0\<rparr>))"
        using inv init(2-4) by (intro owned_init) simp_all
      then show ?thesis using inv Some init(1) by (simp add: drm_init_def Let_def)
    qed
  next
    case (wait drm tid n tv r)
    obtain g where g: "resource_allocation_graph s = Some g"
      using wait(1) inv by (cases "resource_allocation_graph s") auto
    obtain d where d: "drms s drm = Some d" using wait(1) by auto
    have own: "finite (V g)" "owned mutex (E g) (drms s)" using inv g by simp_all
    show ?thesis
    proof (cases "tid = 0")
      case True
      then show ?thesis using wait(4) g inv by (simp add: drm_wait_def drm_wait_check_def)
    next
      case False
      have "drm \<noteq> 0" using ownedD(1) [OF own(2) d] .
      then obtain g' where g': "resource_allocation_graph t = Some g'" "V g' = insert drm (insert tid (V g))"
          "if locked d = 0 \<and> (tid, drm) \<notin> E g
           then E g' = insert (tid, drm) (E g) \<and> drms t = (drms s)(drm \<mapsto> d\<lparr>locked := 1, owner := tv tid\<rparr>)
           else E g' = E g \<and> drms t = drms s"
        using drm_wait_ok [OF laws own(1) _ g _ False d, of n tv] wait(3,4) g by (auto simp: enough_fuel_def)
      then show ?thesis using own owned_take [OF own(2) d _ wait(2)] by (auto split: if_splits)
    qed
  next
    case (post drm tid r)
    show ?thesis
    proof (cases "resource_allocation_graph s")
      case (Some g)
      then show ?thesis using post inv l(11,12) graph_has_edge_laws [OF laws] owned_release [of mutex "E g" "drms s" tid drm]
        by (auto simp: drm_post_def rbind_eq_Inr get_drm_def split: if_splits option.splits)
    qed (use post inv in \<open>simp add: drm_post_def\<close>)
  next
    case (destroy drm)
    show ?thesis
    proof (cases "resource_allocation_graph s")
      case None
      then show ?thesis using destroy(1) inv by (simp add: drm_destroy_def)
    next
      case (Some g)
      have none: "{(a, b) \<in> E g. a \<noteq> drm \<and> b \<noteq> drm} = E g" if "drm \<notin> V g" using l(2) [of g] that by blast
      show ?thesis
      proof (cases "drm = 0")
        case False
        then have "owned mutex {(a, b) \<in> E g. a \<noteq> drm \<and> b \<noteq> drm} ((drms s)(drm := None))"
          using inv Some destroy(2) by (intro owned_remove) simp_all
        then show ?thesis using destroy(1) inv Some False none l(6,9,10)
          by (cases "drm \<in> V g") (simp_all add: drm_destroy_def)
      qed (use destroy(1) inv Some in \<open>simp add: drm_destroy_def\<close>)
    qed
  qed
qed

interpretation drm_runs: state_machine drm_start "drm_step lib V mutex" "drm_inv lib V E S mutex" for lib V E S mutex
  using drm_inv_start drm_inv_step by unfold_locales

section \<open>Properties\<close>

text \<open>
  C23: \<open>graph_has_cycle\<close> terminates with one unit of fuel per vertex and one more, and it does not
  detect cycles: because it follows edges backwards as well as forwards, it says yes exactly when the
  graph has an edge. So \<open>drm_wait\<close> on a mutex that another thread holds always finds a "deadlock" and
  returns 0 without waiting, whatever the graph; it returns 1 exactly when the mutex is free, and then
  the thread holds it.
\<close>

theorem drm_wait_never_waits:
  assumes "graph_laws lib V E S" "finite (V g)" "card (V g) + 2 < n"
    and "resource_allocation_graph s = Some g" "drm \<noteq> 0" "tid \<noteq> 0" "drms s drm = Some d"
  shows "graph_has_cycle lib n g = Inr (E g \<noteq> {}) \<and>
    (\<exists>r s' g'. drm_wait lib n tv drm tid s = Inr (r, s') \<and> resource_allocation_graph s' = Some g' \<and>
       (r = 1 \<longleftrightarrow> locked d = 0 \<and> (tid, drm) \<notin> E g) \<and> (r = 0 \<or> r = 1) \<and>
       (r = 0 \<longrightarrow> E g' = E g \<and> drms s' = drms s) \<and>
       (r = 1 \<longrightarrow> E g' = insert (tid, drm) (E g) \<and> (\<exists>d'. drms s' drm = Some d' \<and> locked d' = 1 \<and> owner d' = tv tid)))"
proof -
  have "graph_has_cycle lib n g = Inr (E g \<noteq> {})"
    using assms(3) by (intro graph_has_cycle_edges [OF assms(1,2)]) simp
  then show ?thesis using drm_wait_ok [OF assms, of tv] by (auto split: if_splits)
qed

text \<open>
  C34: When calls do not overlap, a mutex is held by at most one thread: in every reachable state a
  mutex is locked exactly when one thread has an edge to it, and only one has.
\<close>

theorem drm_mutual_exclusion:
  assumes "drm_start s" "(drm_step lib V mutex)\<^sup>*\<^sup>* s t" "graph_laws lib V E S"
    and "resource_allocation_graph t = Some g"
  shows "(\<forall>d x. drms t d = Some x \<longrightarrow> (locked x \<noteq> 0 \<longleftrightarrow> (\<exists>u. (u, d) \<in> E g))) \<and>
         (\<forall>u v d. (u, d) \<in> E g \<and> (v, d) \<in> E g \<longrightarrow> u = v)"
proof -
  have "drm_inv lib V E S mutex t" using assms(1,2) by (rule drm_runs.reachable_inv)
  then have own: "owned mutex (E g) (drms t)" using assms(3,4) by (simp add: drm_inv_def)
  have "locked x \<noteq> 0 \<longleftrightarrow> (\<exists>u. (u, d) \<in> E g)" if "drms t d = Some x" for d x
    using ownedD(5,6) [OF own, of d] that by (auto simp: is_locked_def holders_def)
  moreover have "u = v" if "(u, d) \<in> E g" "(v, d) \<in> E g" for u v d
  proof -
    have "u \<in> holders (E g) d" "v \<in> holders (E g) d" using that by (simp_all add: holders_def)
    then show ?thesis using ownedD(5,6) [OF own, of d] by (cases "is_locked (drms t) d") auto
  qed
  ultimately show ?thesis by blast
qed

text \<open>When calls overlap it does not exclude anybody: nothing protects the test of \<open>locked\<close> and the
  assignment after it. Two threads that both find a free mutex both get 1 and both hold it.
\<close>

theorem drm_wait_race:
  assumes "graph_laws lib V E S" "finite (V g)" "card (V g) + 4 < n" "resource_allocation_graph s = Some g"
    and "drm \<noteq> 0" "t1 \<noteq> 0" "t2 \<noteq> 0" "drms s drm = Some d" "locked d = 0"
    and "(t1, drm) \<notin> E g" "(t2, drm) \<notin> E g"
  shows "\<exists>s1 s2 s3 s4 g4. drm_wait_check lib n drm t1 s = Inr (True, s1) \<and>
     drm_wait_check lib n drm t2 s1 = Inr (True, s2) \<and>
     drm_wait_take lib tv drm t1 s2 = Inr (1, s3) \<and> drm_wait_take lib tv drm t2 s3 = Inr (1, s4) \<and>
     resource_allocation_graph s4 = Some g4 \<and> (t1, drm) \<in> E g4 \<and> (t2, drm) \<in> E g4"
proof -
  obtain g1 where g1: "drm_wait_check lib n drm t1 s = Inr (True, s\<lparr>resource_allocation_graph := Some g1\<rparr>)"
      "V g1 = insert drm (insert t1 (V g))" "E g1 = E g"
    using drm_wait_check_ok [OF assms(1,2) _ assms(4,5,6,8), of n] assms(3,9,10) by auto
  let ?s1 = "s\<lparr>resource_allocation_graph := Some g1\<rparr>"
  have "card (V g1) \<le> card (V g) + 2" using g1(2) assms(2) by (simp add: card_insert_if)
  then have "card (V g1) + 2 < n" "finite (V g1)" using assms(2,3) g1(2) by simp_all
  then obtain g2 where g2: "drm_wait_check lib n drm t2 ?s1 = Inr (True, s\<lparr>resource_allocation_graph := Some g2\<rparr>)"
      "V g2 = insert drm (insert t2 (V g1))"
    using drm_wait_check_ok [OF assms(1), of g1 n ?s1 drm t2 d] assms(5,7,8,9,11) g1(3) by auto
  let ?s2 = "s\<lparr>resource_allocation_graph := Some g2\<rparr>"
  obtain g3 s3 where g3: "drm_wait_take lib tv drm t1 ?s2 = Inr (1, s3)" "resource_allocation_graph s3 = Some g3"
      "V g3 = V g2" "E g3 = insert (t1, drm) (E g2)" "drms s3 = (drms s)(drm \<mapsto> d\<lparr>locked := 1, owner := tv t1\<rparr>)"
    using drm_wait_take_ok [OF assms(1), of ?s2 g2 drm t1 d tv] g2(2) g1(2) assms(8) by auto
  obtain g4 s4 where "drm_wait_take lib tv drm t2 s3 = Inr (1, s4)" "resource_allocation_graph s4 = Some g4"
      "E g4 = insert (t2, drm) (E g3)"
    using drm_wait_take_ok [OF assms(1) g3(2), of drm t2 _ tv] g3(3,5) g2(2) by auto
  then show ?thesis using g1(1) g2(1) g3(1,4) by blast
qed

subsection \<open>A graph and a set as lists\<close>

definition list_graph :: "(nat list \<times> (nat \<times> nat) list, nat list) graph_lib" where
  "list_graph = \<lparr>shallow_graph_create = ([], []), graph_vertices = (\<lambda>g. remdups (fst g @ map fst (snd g) @ map snd (snd g))),
     graph_neighbors = (\<lambda>g v. map snd (filter (\<lambda>e. fst e = v) (snd g))),
     graph_antineighbors = (\<lambda>g v. map fst (filter (\<lambda>e. snd e = v) (snd g))),
     graph_contains_vertex = (\<lambda>g v. v \<in> set (fst g @ map fst (snd g) @ map snd (snd g))),
     graph_add_vertex = (\<lambda>v g. (v # fst g, snd g)),
     graph_remove_vertex = (\<lambda>v g. (removeAll v (fst g @ map fst (snd g) @ map snd (snd g)),
        filter (\<lambda>e. fst e \<noteq> v \<and> snd e \<noteq> v) (snd g))),
     graph_add_edge = (\<lambda>u v g. (fst g, (u, v) # snd g)),
     graph_remove_edge = (\<lambda>u v g. (fst g @ map fst (snd g) @ map snd (snd g), removeAll (u, v) (snd g))),
     shallow_set_create = [], set_add = Cons, set_remove = removeAll, set_contains = (\<lambda>s v. v \<in> set s)\<rparr>"

definition list_vertices :: "nat list \<times> (nat \<times> nat) list \<Rightarrow> nat set" where
  "list_vertices g = set (fst g @ map fst (snd g) @ map snd (snd g))"

lemma list_graph_laws: "graph_laws list_graph list_vertices (\<lambda>g. set (snd g)) set"
  by (auto simp: graph_laws_def list_graph_def list_vertices_def image_iff) force+

definition demo_drms :: "(nat list \<times> (nat \<times> nat) list) drm_sys" where
  "demo_drms = \<lparr>resource_allocation_graph = Some ([9, 7], [(9, 7)]), drms = [7 \<mapsto> \<lparr>locked = 1, owner = 1\<rparr>]\<rparr>"

theorem drm_wait_never_waits_witness:
  "\<exists>s'. drm_wait list_graph 10 (\<lambda>_. 2) 7 8 demo_drms = Inr (0, s')"
  using drm_wait_never_waits [OF list_graph_laws, of "([9, 7], [(9, 7)])" 10 demo_drms 7 8
      "\<lparr>locked = 1, owner = 1\<rparr>" "\<lambda>_. 2"]
  by (auto simp: demo_drms_def list_vertices_def card_insert_if)

theorem drm_mutual_exclusion_witness:
  "\<exists>x. drms (drm_init list_graph 7 \<lparr>resource_allocation_graph = None, drms = Map.empty\<rparr>) 7 = Some x \<and>
     (locked x \<noteq> 0 \<longleftrightarrow> (\<exists>u. (u, 7) \<in> set (snd (shallow_graph_create list_graph))))"
proof -
  let ?s = "\<lparr>resource_allocation_graph = None, drms = Map.empty\<rparr>"
  have "drm_start ?s" by (simp add: drm_start_def)
  moreover have "drm_step list_graph list_vertices (\<lambda>d. d = 7) ?s (drm_init list_graph 7 ?s)"
    by (rule drm_step.init) simp_all
  then have "(drm_step list_graph list_vertices (\<lambda>d. d = 7))\<^sup>*\<^sup>* ?s (drm_init list_graph 7 ?s)" by blast
  ultimately show ?thesis using drm_mutual_exclusion [OF _ _ list_graph_laws, of ?s "\<lambda>d. d = 7" "drm_init list_graph 7 ?s"
        "shallow_graph_create list_graph"]
    by (simp add: drm_init_def Let_def list_graph_def)
qed

theorem drm_wait_race_witness:
  "\<exists>s1. drm_wait_check list_graph 10 7 8 \<lparr>resource_allocation_graph = Some ([7], []),
     drms = [7 \<mapsto> \<lparr>locked = 0, owner = 0\<rparr>]\<rparr> = Inr (True, s1)"
  using drm_wait_race [OF list_graph_laws, of "([7], [])" 10 "\<lparr>resource_allocation_graph = Some ([7], []),
      drms = [7 \<mapsto> \<lparr>locked = 0, owner = 0\<rparr>]\<rparr>" 7 8 9 "\<lparr>locked = 0, owner = 0\<rparr>" "\<lambda>_. 0"]
  by (auto simp: list_vertices_def)

end
