(* ===== verification/Net_Common.thy ===== *)
theory Net_Common
  imports CString
begin

text \<open>
  \<open>nonstop_networking/common.c\<close> and \<open>common.h\<close>: the request types and the loops that send and
  receive a whole buffer.

  A connected socket is what the peer makes of it. \<open>inq\<close> is what \<open>recv\<close> will find: segments of data,
  each handed out in one or more calls, failures (\<open>-1\<close>, as a non-blocking socket with nothing to read
  reports), and the end of the stream. \<open>outq\<close> is what \<open>send\<close> has handed over so far, and \<open>sends\<close> how the
  next calls of \<open>send\<close> turn out: a failure, or a number of bytes taken, which may be fewer than
  offered; when the list is used up every call takes all it is offered. Bytes are characters, a
  \<open>size_t\<close> is a natural number below \<open>2 ^ 64\<close>, and travels as eight bytes, lowest first.
\<close>

datatype verb = GET | PUT | DELETE | LIST | V_UNKNOWN

definition MAX_FILENAME :: nat where "MAX_FILENAME = 255"
definition DATA_SIZE :: nat where "DATA_SIZE = 1024"

record Cli_Request =
  rq_method :: verb
  rq_special :: char
  rq_filename :: "char list"
  rq_size :: nat

definition NL :: char where "NL = CHR 0x0A"

definition size_sub :: "nat \<Rightarrow> nat \<Rightarrow> nat" where
  "size_sub a b = (a + 2 ^ 64 - b) mod 2 ^ 64"

lemma sub_mod_ge: "b \<le> a \<Longrightarrow> a < m \<Longrightarrow> (a + m - b) mod m = a - (b :: nat)"
  by (metis Nat.add_diff_assoc2 less_imp_diff_less mod_add_self2 mod_less)

lemma size_sub_ge: "b \<le> a \<Longrightarrow> a < 2 ^ 64 \<Longrightarrow> size_sub a b = a - b"
  unfolding size_sub_def by (rule sub_mod_ge)

definition size_bytes :: "nat \<Rightarrow> char list" where
  "size_bytes n = map (\<lambda>i. char_of (n div 256 ^ i)) [0..<8]"

fun bytes_size :: "char list \<Rightarrow> nat" where
  "bytes_size [] = 0"
| "bytes_size (c # cs) = of_char c + 256 * bytes_size cs"

lemma length_size_bytes [simp]: "length (size_bytes n) = 8"
  by (simp add: size_bytes_def)

lemma size_bytes_Cons:
  "map (\<lambda>i. char_of (n div 256 ^ i) :: char) [0..<Suc k] =
     char_of (n :: nat) # map (\<lambda>i. char_of (n div 256 div 256 ^ i)) [0..<k]"
  by (simp add: upt_conv_Cons map_Suc_upt [symmetric] div_mult2_eq del: upt_Suc)

lemma bytes_size_digits:
  "bytes_size (map (\<lambda>i. char_of (n div 256 ^ i)) [0..<k]) = n mod 256 ^ k"
proof (induction k arbitrary: n)
  case (Suc k)
  have "bytes_size (map (\<lambda>i. char_of (n div 256 ^ i)) [0..<Suc k]) = n mod 256 + 256 * (n div 256 mod 256 ^ k)"
    by (simp add: size_bytes_Cons Suc del: upt_Suc)
  then show ?case by (simp add: mod_mult2_eq)
qed simp

lemma bytes_size_inverse: "n < 2 ^ 64 \<Longrightarrow> bytes_size (size_bytes n) = n"
  by (simp add: size_bytes_def bytes_size_digits del: upt_Suc)

section \<open>Sockets\<close>

datatype recv_event = Data "char list" | Recv_fail
datatype send_event = Sent nat | Send_fail

record sock =
  inq :: "recv_event list"
  outq :: "char list"
  sends :: "send_event list"

fun recv :: "nat \<Rightarrow> recv_event list \<Rightarrow> char list option \<times> recv_event list" where
  "recv n [] = (Some [], [])"
| "recv n (Recv_fail # es) = (None, es)"
| "recv n (Data bs # es) = (Some (take n bs), if length bs \<le> n then es else Data (drop n bs) # es)"

definition send :: "nat \<Rightarrow> char list \<Rightarrow> sock \<Rightarrow> nat option \<times> sock" where
  "send n bs s =
     (case sends s of
        [] \<Rightarrow> (Some n, s\<lparr>outq := outq s @ take n bs\<rparr>)
      | Send_fail # rs \<Rightarrow> (None, s\<lparr>sends := rs\<rparr>)
      | Sent k # rs \<Rightarrow> (Some (min k n), s\<lparr>outq := outq s @ take (min k n) bs, sends := rs\<rparr>))"

section \<open>\<open>sendall\<close>\<close>

text \<open>\<open>bytesleft\<close> is \<open>len - total\<close> throughout both loops. A call that takes fewer bytes than offered is
  retried from the same place.\<close>

function sendall_loop :: "char list \<Rightarrow> nat \<Rightarrow> nat \<Rightarrow> sock \<Rightarrow> nat \<times> sock" where
  "sendall_loop buf len done_bytes s =
     (if done_bytes < len then
        let bytesleft = len - done_bytes;
            try_to_send = (if DATA_SIZE < bytesleft then DATA_SIZE else bytesleft) in
        case send try_to_send (drop done_bytes buf) s of
          (None, s) \<Rightarrow> (done_bytes, s)
        | (Some n, s) \<Rightarrow>
            if n \<noteq> try_to_send then sendall_loop buf len done_bytes s
            else sendall_loop buf len (done_bytes + n) s
      else (done_bytes, s))"
  by pat_completeness auto
termination
  by (relation "measures [\<lambda>(buf, len, d, s). length (sends s), \<lambda>(buf, len, d, s). len - d]")
    (auto simp: send_def DATA_SIZE_def split: list.splits send_event.splits if_splits)

declare sendall_loop.simps [simp del]

definition sendall :: "char list \<Rightarrow> nat \<Rightarrow> sock \<Rightarrow> (nat \<times> sock) outcome" where
  "sendall buf len s =
     (if length buf < len then Inl Out_of_bounds else Inr (sendall_loop buf len 0 s))"

section \<open>\<open>recvall\<close>\<close>

function recvall_loop ::
  "nat \<Rightarrow> nat \<Rightarrow> char list \<Rightarrow> recv_event list \<Rightarrow> nat \<times> char list \<times> recv_event list" where
  "recvall_loop len done_bytes buf es =
     (if done_bytes < len then
        let bytesleft = len - done_bytes;
            try_to_recv = (if DATA_SIZE < bytesleft then DATA_SIZE else bytesleft) in
        case recv try_to_recv es of
          (None, es) \<Rightarrow> (done_bytes, buf, es)
        | (Some bs, es) \<Rightarrow>
            if bs = [] then (done_bytes, buf, es)
            else recvall_loop len (done_bytes + length bs) (buf @ bs) es
      else (done_bytes, buf, es))"
  by pat_completeness auto
termination by (relation "measure (\<lambda>(len, d, buf, es). len - d)") (auto simp: neq_Nil_conv)

declare recvall_loop.simps [simp del]

text \<open>The result, the bytes put into the buffer, and what is left to receive.\<close>

definition recvall :: "nat \<Rightarrow> recv_event list \<Rightarrow> nat \<times> char list \<times> recv_event list" where
  "recvall len es = recvall_loop len 0 [] es"

section \<open>What the two loops do\<close>

lemma sendall_loop_plain:
  "sends s = [] \<Longrightarrow> d \<le> len \<Longrightarrow> len \<le> length buf \<Longrightarrow>
   sendall_loop buf len d s = (len, s\<lparr>outq := outq s @ take (len - d) (drop d buf)\<rparr>)"
proof (induction "len - d" arbitrary: d s rule: less_induct)
  case less
  show ?case
  proof (cases "d < len")
    case True
    define n where "n = (if DATA_SIZE < len - d then DATA_SIZE else len - d)"
    have n: "0 < n" "d + n \<le> len" using True by (auto simp: n_def DATA_SIZE_def)
    have e: "send n (drop d buf) s = (Some n, s\<lparr>outq := outq s @ take n (drop d buf)\<rparr>)"
      using less.prems(1) by (simp add: send_def)
    let ?s = "s\<lparr>outq := outq s @ take n (drop d buf)\<rparr>"
    have "sendall_loop buf len d s = sendall_loop buf len (d + n) ?s"
      using True e by (subst sendall_loop.simps) (simp add: n_def [symmetric] Let_def)
    also have "\<dots> = (len, ?s\<lparr>outq := outq ?s @ take (len - (d + n)) (drop (d + n) buf)\<rparr>)"
      by (rule less.hyps) (use True n less.prems in auto)
    also have "take n (drop d buf) @ take (len - (d + n)) (drop (d + n) buf) = take (len - d) (drop d buf)"
      using n take_add [of n "len - (d + n)" "drop d buf"] by (simp add: add.commute)
    then have "?s\<lparr>outq := outq ?s @ take (len - (d + n)) (drop (d + n) buf)\<rparr> =
        s\<lparr>outq := outq s @ take (len - d) (drop d buf)\<rparr>" by simp
    finally show ?thesis .
  next
    case False
    then show ?thesis using less.prems by (subst sendall_loop.simps) simp
  qed
qed

lemma sendall_plain:
  "sends s = [] \<Longrightarrow> len \<le> length buf \<Longrightarrow> sendall buf len s = Inr (len, s\<lparr>outq := outq s @ take len buf\<rparr>)"
  by (simp add: sendall_def sendall_loop_plain)

definition segments :: "recv_event list \<Rightarrow> bool" where
  "segments es \<longleftrightarrow> (\<forall>e \<in> set es. \<exists>bs. e = Data bs \<and> bs \<noteq> [])"

fun stream :: "recv_event list \<Rightarrow> char list" where
  "stream [] = []"
| "stream (Data bs # es) = bs @ stream es"
| "stream (Recv_fail # es) = stream es"

lemma segments_simps [simp]:
  "segments []" "segments (Data bs # es) \<longleftrightarrow> bs \<noteq> [] \<and> segments es" "\<not> segments (Recv_fail # es)"
  by (auto simp: segments_def)

lemma stream_empty: "segments es \<Longrightarrow> stream es = [] \<longleftrightarrow> es = []"
  by (cases es rule: stream.cases) simp_all

lemma recv_segments:
  assumes "segments es" "0 < n" "es \<noteq> []"
  shows "\<exists>bs es'. recv n es = (Some bs, es') \<and> bs \<noteq> [] \<and> length bs \<le> n \<and> segments es' \<and> stream es = bs @ stream es'"
proof -
  obtain bs es' where es: "es = Data bs # es'" "bs \<noteq> []" "segments es'"
    using assms(1,3) by (cases es rule: stream.cases) auto
  then show ?thesis using assms(2) by (cases "length bs \<le> n") auto
qed

lemma recvall_loop_segments:
  "segments es \<Longrightarrow> d \<le> len \<Longrightarrow>
   \<exists>es'. recvall_loop len d buf es =
       (d + min (len - d) (length (stream es)), buf @ take (len - d) (stream es), es') \<and>
     segments es' \<and> stream es' = drop (len - d) (stream es)"
proof (induction "len - d" arbitrary: d buf es rule: less_induct)
  case less
  show ?case
  proof (cases "d < len \<and> es \<noteq> []")
    case True
    define n where "n = (if DATA_SIZE < len - d then DATA_SIZE else len - d)"
    have n: "0 < n" "d + n \<le> len" using True by (auto simp: n_def DATA_SIZE_def)
    obtain bs es' where r: "recv n es = (Some bs, es')" "bs \<noteq> []" "length bs \<le> n" "segments es'"
        "stream es = bs @ stream es'"
      using recv_segments [OF less.prems(1) n(1)] True by blast
    have "recvall_loop len d buf es = recvall_loop len (d + length bs) (buf @ bs) es'"
      using True r by (subst recvall_loop.simps) (simp add: n_def [symmetric] Let_def)
    moreover have dec: "len - (d + length bs) < len - d" "segments es'" "d + length bs \<le> len"
      using True r(2-4) n by (auto simp: neq_Nil_conv)
    moreover obtain es2 where "recvall_loop len (d + length bs) (buf @ bs) es' =
       (d + length bs + min (len - (d + length bs)) (length (stream es')),
        (buf @ bs) @ take (len - (d + length bs)) (stream es'), es2)"
     "segments es2" "stream es2 = drop (len - (d + length bs)) (stream es')"
      using less.hyps [of "d + length bs" es' "buf @ bs"] dec by blast
    ultimately show ?thesis using r(5) dec by (intro exI [of _ es2]) (auto simp: min_def)
  next
    case False
    then show ?thesis using less.prems(1,2) by (subst recvall_loop.simps) (auto simp: Let_def DATA_SIZE_def)
  qed
qed

lemma recvall_segments:
  "segments es \<Longrightarrow>
   \<exists>es'. recvall len es = (min len (length (stream es)), take len (stream es), es') \<and>
     segments es' \<and> stream es' = drop len (stream es)"
  using recvall_loop_segments [of es 0 len "[]"] by (simp add: recvall_def)

text \<open>C36: \<open>sendall\<close> delivers the buffer when \<open>send\<close> always takes what it is offered, and \<open>recvall\<close> then
  collects it whatever the segments it arrives in. When one call of \<open>send\<close> takes only \<open>k\<close> of the bytes
  of the first packet, \<open>sendall\<close> still reports success, but it starts again at the same place: the
  \<open>k\<close> bytes are on the wire twice and the peer does not get the buffer.\<close>

theorem sendall_recvall:
  assumes "len \<le> length buf"
  shows "(sends s = [] \<longrightarrow> sendall buf len s = Inr (len, s\<lparr>outq := outq s @ take len buf\<rparr>)) \<and>
    (segments es \<and> stream es = take len buf \<longrightarrow> recvall len es = (len, take len buf, [])) \<and>
    (sends s = [Sent k] \<and> 0 < k \<and> k < min len DATA_SIZE \<longrightarrow>
      sendall buf len s = Inr (len, s\<lparr>outq := outq s @ take k buf @ take len buf, sends := []\<rparr>))"
proof (intro conjI impI; (elim conjE)?)
  show "sends s = [] \<Longrightarrow> sendall buf len s = Inr (len, s\<lparr>outq := outq s @ take len buf\<rparr>)"
    by (rule sendall_plain) (use assms in simp_all)
  show "recvall len es = (len, take len buf, [])" if "segments es" "stream es = take len buf"
    using recvall_segments [OF that(1), of len] that(2) assms by (auto simp: stream_empty)
  assume k: "sends s = [Sent k]" "0 < k" "k < min len DATA_SIZE"
  let ?s = "s\<lparr>outq := outq s @ take k buf, sends := []\<rparr>"
  define n where "n = (if DATA_SIZE < len then DATA_SIZE else len)"
  have "k < n" using k(3) by (simp add: n_def)
  then have "send n buf s = (Some k, ?s)" using k by (simp add: send_def)
  then have "sendall_loop buf len 0 s = sendall_loop buf len 0 ?s"
    using k \<open>k < n\<close> by (subst sendall_loop.simps) (simp add: n_def [symmetric] Let_def)
  then show "sendall buf len s = Inr (len, s\<lparr>outq := outq s @ take k buf @ take len buf, sends := []\<rparr>)"
    using assms by (simp add: sendall_def sendall_loop_plain)
qed

theorem sendall_recvall_witness:
  "sendall ''hello'' 5 \<lparr>inq = [], outq = [], sends = [Sent 2]\<rparr> =
     Inr (5, \<lparr>inq = [], outq = ''hehello'', sends = []\<rparr>) \<and>
   sendall ''hello'' 5 \<lparr>inq = [], outq = [], sends = []\<rparr> = Inr (5, \<lparr>inq = [], outq = ''hello'', sends = []\<rparr>) \<and>
   recvall 5 [Data ''he'', Data ''llo''] = (5, ''hello'', [])"
proof -
  have "5 \<le> length ''hello''" by simp
  note t = sendall_recvall [OF this]
  show ?thesis
    using t [of "\<lparr>inq = [], outq = [], sends = [Sent 2]\<rparr>" "[]" 2]
      t [of "\<lparr>inq = [], outq = [], sends = []\<rparr>" "[Data ''he'', Data ''llo'']" 0]
    by (simp add: DATA_SIZE_def)
qed

end
