(* ===== verification/Net_Server.thy ===== *)
theory Net_Server
  imports Net_Common Interfaces
begin

text \<open>
  \<open>nonstop_networking/server.c\<close>: the file server's client state machine and its event loop.

  The directory the server works in is \<open>dir\<close>, the paths in the order \<open>readdir\<close> gives them with the
  inode each names; removing a path leaves the inode to the streams that are open on it. A stream is
  no stream (\<open>NULL\<close>), open on an inode, or closed, and using one that is not open is a fault. What is
  not under \<open>src/\<close> is \<open>server_env\<close>: the messages of \<open>format.h\<close>, the paths the process may create, and
  \<open>usable n\<close>, the number of bytes a block of \<open>malloc(n)\<close> really has. The other allocations succeed, and
  bytes written to a stream are in its file at once.
\<close>

definition MAX_DIRNAME :: nat where "MAX_DIRNAME = 265"

datatype ClientState =
    READING_VERB | READING_FILENAME | READING_SIZE | READING_DATA | WRITING_RESPONSE | COMPLETE

datatype file_ptr = No_file | Opened nat | Closed_file

record Client_info =
  fd :: nat
  req_method :: verb
  filename :: "char list"
  fp :: file_ptr
  file_offset :: nat
  state :: ClientState
  buffer :: "char list"
  buffer_size :: nat
  boffset :: nat
  req_size :: nat
  error_type :: int
  response :: "char list option"

record server_env =
  err_bad_request :: string
  err_bad_file_size :: string
  err_no_such_file :: string
  can_create :: "string \<Rightarrow> bool"
  usable :: "nat \<Rightarrow> nat"
  heap_byte :: char

record net_world =
  temp_directory :: string
  temp_dir_opens :: bool
  dir :: "(string \<times> nat) list"
  inodes :: "nat \<Rightarrow> char list"
  next_inode :: nat
  socks :: "nat \<Rightarrow> sock"

section \<open>Files and sockets\<close>

definition fopen_wb :: "server_env \<Rightarrow> string \<Rightarrow> net_world \<Rightarrow> nat option \<times> net_world" where
  "fopen_wb env path w =
     (if \<not> can_create env path then (None, w)
      else case map_of (dir w) path of
          Some i \<Rightarrow> (Some i, w\<lparr>inodes := (inodes w)(i := [])\<rparr>)
        | None \<Rightarrow> (Some (next_inode w),
            w\<lparr>dir := dir w @ [(path, next_inode w)], inodes := (inodes w)(next_inode w := []),
              next_inode := next_inode w + 1\<rparr>))"

definition remove_file :: "string \<Rightarrow> net_world \<Rightarrow> net_world" where
  "remove_file path w = w\<lparr>dir := filter (\<lambda>e. fst e \<noteq> path) (dir w)\<rparr>"

definition file_of :: "file_ptr \<Rightarrow> nat outcome" where
  "file_of f = (case f of No_file \<Rightarrow> Inl Null_deref | Closed_file \<Rightarrow> Inl Dangling | Opened i \<Rightarrow> Inr i)"

definition fd_send :: "nat \<Rightarrow> char list \<Rightarrow> nat \<Rightarrow> net_world \<Rightarrow> net_world outcome" where
  "fd_send k bs len w =
     rbind (sendall bs len (socks w k)) (\<lambda>(n, s). Inr (w\<lparr>socks := (socks w)(k := s)\<rparr>))"

text \<open>\<open>strchr(p, '\n')\<close> over the bytes from \<open>p\<close> to the end of the block.\<close>

fun strchr_nl :: "char list \<Rightarrow> nat option outcome" where
  "strchr_nl [] = Inl Out_of_bounds"
| "strchr_nl (c # cs) =
     (if c = NL then Inr (Some 0) else if c = NUL then Inr None
      else rbind (strchr_nl cs) (\<lambda>r. Inr (map_option Suc r)))"

section \<open>One step of a request\<close>

definition read_verb :: "Client_info \<Rightarrow> Client_info" where
  "read_verb c =
     (if take 3 (buffer c) = ''GET'' then c\<lparr>req_method := GET, state := READING_FILENAME, boffset := 4\<rparr>
      else if take 3 (buffer c) = ''PUT'' then c\<lparr>req_method := PUT, state := READING_FILENAME, boffset := 4\<rparr>
      else if take 6 (buffer c) = ''DELETE'' then c\<lparr>req_method := DELETE, state := READING_FILENAME, boffset := 7\<rparr>
      else if take 4 (buffer c) = ''LIST'' then c\<lparr>req_method := LIST, state := WRITING_RESPONSE\<rparr>
      else c\<lparr>error_type := 0, state := WRITING_RESPONSE\<rparr>)"

definition build_path :: "string \<Rightarrow> char list \<Rightarrow> char list outcome" where
  "build_path tmp name =
     rbind (put_bytes (replicate MAX_DIRNAME NUL) (length tmp + 1) name) (\<lambda>p.
     rbind (put_bytes p 0 tmp) (\<lambda>p. wr p (length tmp) (CHR ''/'')))"

text \<open>What the verb asks for once the path is known; \<open>access(path, F_OK)\<close> is whether the path is there.\<close>

definition open_file :: "server_env \<Rightarrow> string \<Rightarrow> Client_info \<Rightarrow> net_world \<Rightarrow> int \<times> Client_info \<times> net_world" where
  "open_file env path c w =
     (case req_method c of
        PUT \<Rightarrow>
          (case fopen_wb env path w of
             (None, w) \<Rightarrow> (-1, c\<lparr>fp := No_file\<rparr>, w)
           | (Some i, w) \<Rightarrow> (0, c\<lparr>fp := Opened i, state := READING_SIZE\<rparr>, w))
      | GET \<Rightarrow>
          (case map_of (dir w) path of
             None \<Rightarrow> (0, c\<lparr>fp := No_file, error_type := 2, state := WRITING_RESPONSE\<rparr>, w)
           | Some i \<Rightarrow> (0, c\<lparr>fp := Opened i, state := WRITING_RESPONSE\<rparr>, w))
      | DELETE \<Rightarrow>
          (case map_of (dir w) path of
             None \<Rightarrow> (0, c\<lparr>error_type := 2, state := WRITING_RESPONSE\<rparr>, w)
           | Some i \<Rightarrow> (0, c\<lparr>state := WRITING_RESPONSE\<rparr>, remove_file path w))
      | _ \<Rightarrow> (0, c, w))"

definition read_filename :: "server_env \<Rightarrow> Client_info \<Rightarrow> net_world \<Rightarrow> (int \<times> Client_info \<times> net_world) outcome" where
  "read_filename env c w =
     rbind (strchr_nl (drop (boffset c) (buffer c))) (\<lambda>newline.
     case newline of
       None \<Rightarrow> Inr (0, c\<lparr>error_type := 0, state := WRITING_RESPONSE\<rparr>, w)
     | Some len \<Rightarrow>
         rbind (build_path (temp_directory w) (take len (drop (boffset c) (buffer c)))) (\<lambda>p.
         rbind (cstr p 0) (\<lambda>path.
         Inr (open_file env path (c\<lparr>filename := p, file_offset := 0, boffset := boffset c + len + 1\<rparr>) w))))"

definition read_size :: "Client_info \<Rightarrow> Client_info outcome" where
  "read_size c =
     rbind (rassert (req_method c = PUT)) (\<lambda>_.
     if length (buffer c) < boffset c + 8 then Inl Out_of_bounds
     else Inr (c\<lparr>req_size := bytes_size (take 8 (drop (boffset c) (buffer c))),
                 boffset := boffset c + 8, state := READING_DATA\<rparr>))"

definition read_data :: "Client_info \<Rightarrow> net_world \<Rightarrow> (int \<times> Client_info \<times> net_world) outcome" where
  "read_data c w =
     rbind (rassert (req_method c = PUT)) (\<lambda>_.
     rbind (file_of (fp c)) (\<lambda>file.
     rbind (cstr (filename c) 0) (\<lambda>path.
     let bytes_left = size_sub (req_size c) (file_offset c);
         left_in_buffer = size_sub (buffer_size c) (boffset c) in
     if buffer_size c = 0
     then Inr (0, c\<lparr>state := WRITING_RESPONSE, error_type := 1, fp := Closed_file\<rparr>, remove_file path w)
     else
       let bytes_to_write = (if bytes_left < left_in_buffer then bytes_left else left_in_buffer) in
       if length (buffer c) < boffset c + bytes_to_write then Inl Out_of_bounds
       else
         let data = take bytes_to_write (drop (boffset c) (buffer c));
             w = w\<lparr>inodes := (inodes w)(file := inodes w file @ data)\<rparr>;
             bytes_left = bytes_left - bytes_to_write;
             c = c\<lparr>boffset := 0, buffer_size := 0, file_offset := (file_offset c + bytes_to_write) mod 2 ^ 64\<rparr>;
             left_in_buffer = left_in_buffer - bytes_to_write in
         if left_in_buffer > 0 \<and> bytes_left \<le> 0
         then Inr (0, c\<lparr>error_type := 1, state := WRITING_RESPONSE, fp := Closed_file\<rparr>, remove_file path w)
         else if file_offset c > req_size c
         then Inr (0, c\<lparr>error_type := 1, state := WRITING_RESPONSE, fp := Closed_file\<rparr>, remove_file path w)
         else if bytes_left = 0
         then Inr (0, c\<lparr>state := WRITING_RESPONSE, fp := Closed_file\<rparr>, w)
         else Inr (0, c\<lparr>state := READING_DATA, buffer_size := 0\<rparr>, w))))"

section \<open>The responses\<close>

definition err_response :: "server_env \<Rightarrow> string \<Rightarrow> Client_info \<Rightarrow> net_world \<Rightarrow> (Client_info \<times> net_world) outcome" where
  "err_response env msg c w =
     (let err_code = ''ERROR'' @ [NL]; text = err_code @ msg in
      if usable env (length err_code + length msg) < length text + 1 then Inl Out_of_bounds
      else rbind (fd_send (fd c) text (length text) w) (\<lambda>w. Inr (c\<lparr>response := Some text\<rparr>, w)))"

definition ok_response :: "Client_info \<Rightarrow> net_world \<Rightarrow> (Client_info \<times> net_world) outcome" where
  "ok_response c w =
     (let text = [CHR ''O'', CHR ''K'', NL, NUL] in
      rbind (fd_send (fd c) text 4 w) (\<lambda>w. Inr (c\<lparr>response := Some text\<rparr>, w)))"

text \<open>The names of the regular files of the server's directory.\<close>

definition listing :: "net_world \<Rightarrow> string list" where
  "listing w =
     (let pre = temp_directory w @ ''/'' in
      map (drop (length pre)) (filter (\<lambda>p. take (length pre) p = pre \<and> CHR ''/'' \<notin> set (drop (length pre) p))
        (map fst (dir w))))"

definition list_response :: "server_env \<Rightarrow> Client_info \<Rightarrow> net_world \<Rightarrow> (char list \<times> nat) outcome" where
  "list_response env c w =
     rbind (rassert (req_method c = LIST)) (\<lambda>_.
     rbind (rassert (state c = WRITING_RESPONSE)) (\<lambda>_.
     if \<not> temp_dir_opens w then Inr ([], 0)
     else
       let files = listing w; list_size = sum_list (map (\<lambda>f. length f + 1) files) in
       rbind (rfold (\<lambda>i (data, ptr).
           let file = files ! i; len = length file in
           rbind (put_bytes data ptr file) (\<lambda>data.
           let ptr = ptr + len in
           rbind (if i \<noteq> length files - 1 then wr data ptr NL else Inr data) (\<lambda>data. Inr (data, ptr + 1))))
         [0..<length files] (replicate list_size (heap_byte env), 0)) (\<lambda>(data, _). Inr (data, list_size))))"

text \<open>The first call sends the header; each call sends the next piece of the file.\<close>

definition get_header :: "nat \<Rightarrow> Client_info \<Rightarrow> net_world \<Rightarrow> (Client_info \<times> net_world) outcome" where
  "get_header file c w =
     (if file_offset c > 0 then Inr (c, w)
      else
        let file_size = length (inodes w file) in
        rbind (fd_send (fd c) (''OK'' @ [NL]) 3 w) (\<lambda>w.
        rbind (fd_send (fd c) (size_bytes file_size) 8 w) (\<lambda>w.
        Inr (c\<lparr>req_size := file_size\<rparr>, w))))"

definition get_data :: "nat \<Rightarrow> Client_info \<Rightarrow> net_world \<Rightarrow> char list" where
  "get_data file c w =
     (let bytes_left = size_sub (req_size c) (file_offset c);
          bytes_to_send = (if DATA_SIZE < bytes_left then DATA_SIZE else bytes_left) in
      take bytes_to_send (drop (file_offset c) (inodes w file)))"

definition get_piece :: "nat \<Rightarrow> Client_info \<Rightarrow> net_world \<Rightarrow> (Client_info \<times> net_world) outcome" where
  "get_piece file c w =
     (let data = get_data file c w; bytes_sent = length data in
      rbind (fd_send (fd c) data bytes_sent w) (\<lambda>w.
      let c = c\<lparr>file_offset := (file_offset c + bytes_sent) mod 2 ^ 64\<rparr> in
      if file_offset c \<ge> req_size c then Inr (c\<lparr>state := COMPLETE, fp := Closed_file\<rparr>, w)
      else Inr (c\<lparr>state := WRITING_RESPONSE\<rparr>, w)))"

definition send_get_response :: "Client_info \<Rightarrow> net_world \<Rightarrow> (Client_info \<times> net_world) outcome" where
  "send_get_response c w =
     rbind (rassert (req_method c = GET)) (\<lambda>_.
     rbind (rassert (state c = WRITING_RESPONSE)) (\<lambda>_.
     rbind (rassert (response c = None)) (\<lambda>_.
     rbind (file_of (fp c)) (\<lambda>file.
     rbind (get_header file c w) (\<lambda>(c, w). get_piece file c w)))))"

definition write_response :: "server_env \<Rightarrow> Client_info \<Rightarrow> net_world \<Rightarrow> (int \<times> Client_info \<times> net_world) outcome" where
  "write_response env c w =
     (if error_type c \<noteq> -1 then
        rbind (if error_type c = 0 then err_response env (err_bad_request env) c w
               else if error_type c = 1 then err_response env (err_bad_file_size env) c w
               else if error_type c = 2 then err_response env (err_no_such_file env) c w
               else Inr (c, w)) (\<lambda>(c, w). Inr (0, c\<lparr>state := COMPLETE\<rparr>, w))
      else if req_method c = LIST then
        rbind (list_response env c w) (\<lambda>(data, list_size).
        let sent_size = (if list_size \<noteq> 0 then list_size - 1 else list_size) in
        rbind (fd_send (fd c) (''OK'' @ [NL]) 3 w) (\<lambda>w.
        rbind (fd_send (fd c) (size_bytes sent_size) 8 w) (\<lambda>w.
        rbind (fd_send (fd c) data sent_size w) (\<lambda>w. Inr (0, c\<lparr>state := COMPLETE\<rparr>, w)))))
      else if req_method c = GET then rbind (send_get_response c w) (\<lambda>(c, w). Inr (0, c, w))
      else if req_method c = PUT \<or> req_method c = DELETE then
        rbind (ok_response c w) (\<lambda>(c, w). Inr (0, c\<lparr>state := COMPLETE\<rparr>, w))
      else Inr (0, c\<lparr>state := COMPLETE\<rparr>, w))"

definition process_request :: "server_env \<Rightarrow> Client_info \<Rightarrow> net_world \<Rightarrow> (int \<times> Client_info \<times> net_world) outcome" where
  "process_request env c w =
     (case state c of
        READING_VERB \<Rightarrow> Inr (0, read_verb c, w)
      | READING_FILENAME \<Rightarrow> read_filename env c w
      | READING_SIZE \<Rightarrow> rbind (read_size c) (\<lambda>c. Inr (0, c, w))
      | READING_DATA \<Rightarrow> read_data c w
      | WRITING_RESPONSE \<Rightarrow> write_response env c w
      | COMPLETE \<Rightarrow> Inr (0, c, w))"

section \<open>Connections and events\<close>

text \<open>The clients by their addresses, the addresses the poll set holds for the sockets it watches, the
  sockets that were shut down, closed or made non-blocking, and the array of events.\<close>

datatype ev_ptr = No_ptr | Listener | Client nat

record server =
  net :: net_world
  clients :: "nat \<Rightarrow> Client_info option"
  watched :: "(nat \<times> nat) list"
  shut_fds :: "nat list"
  closed_fds :: "nat list"
  nonblocking :: "nat list"
  events :: "ev_ptr list"

definition cleanup_client :: "nat \<Rightarrow> server \<Rightarrow> server outcome" where
  "cleanup_client p s =
     (case clients s p of
        None \<Rightarrow> Inl Dangling
      | Some c \<Rightarrow> Inr (s\<lparr>watched := filter (\<lambda>e. fst e \<noteq> fd c) (watched s),
            closed_fds := fd c # closed_fds s, clients := (clients s)(p := None)\<rparr>))"

definition receive :: "Client_info \<Rightarrow> net_world \<Rightarrow> (Client_info \<times> net_world) outcome" where
  "receive c w =
     (if state c = READING_DATA \<and> buffer_size c = 0 \<or> state c = READING_VERB then
        let s = socks w (fd c); (count, bs, es) = recvall DATA_SIZE (inq s) in
        rbind (put_bytes (buffer c) 0 bs) (\<lambda>b.
        Inr (c\<lparr>buffer := b, buffer_size := count\<rparr>, w\<lparr>socks := (socks w)(fd c := s\<lparr>inq := es\<rparr>)\<rparr>))
      else Inr (c, w))"

definition handle_client_request :: "server_env \<Rightarrow> nat \<Rightarrow> server \<Rightarrow> server outcome" where
  "handle_client_request env p s =
     (case clients s p of
        None \<Rightarrow> Inl Dangling
      | Some c \<Rightarrow>
          if state c = COMPLETE then Inr (s\<lparr>shut_fds := fd c # shut_fds s\<rparr>)
          else
            rbind (receive c (net s)) (\<lambda>(c, w).
            rbind (process_request env c w) (\<lambda>(r, c, w).
            let s = s\<lparr>net := w, clients := (clients s)(p \<mapsto> c)\<rparr> in
            if r < 0 then cleanup_client p s else Inr s)))"

text \<open>\<open>accept\<close> gives a socket or fails, \<open>malloc\<close> an address \<open>p\<close> with whatever bytes \<open>junk\<close> the buffer
  has there or fails, and \<open>epoll_ctl\<close> may fail.\<close>

definition new_client :: "nat \<Rightarrow> char list \<Rightarrow> Client_info" where
  "new_client k junk =
     \<lparr>fd = k, req_method = V_UNKNOWN, filename = replicate MAX_DIRNAME NUL, fp = No_file, file_offset = 0,
      state = READING_VERB, buffer = junk, buffer_size = 0, boffset = 0, req_size = 0, error_type = -1,
      response = None\<rparr>"

definition handle_new_connection ::
  "nat option \<Rightarrow> (nat \<times> char list) option \<Rightarrow> bool \<Rightarrow> server \<Rightarrow> (int \<times> server) outcome" where
  "handle_new_connection accepted block ctl_ok s =
     (case accepted of
        None \<Rightarrow> Inr (-1, s)
      | Some k \<Rightarrow>
          case block of
            None \<Rightarrow> Inr (-1, s)
          | Some (p, junk) \<Rightarrow>
              let s = s\<lparr>clients := (clients s)(p \<mapsto> new_client k junk)\<rparr> in
              if \<not> ctl_ok then rbind (cleanup_client p s) (\<lambda>s. Inr (-1, s))
              else Inr (0, s\<lparr>watched := watched s @ [(k, p)]\<rparr>))"

text \<open>\<open>getfl\<close> and \<open>setfl\<close> are the results of the two calls of \<open>fcntl\<close>.\<close>

definition set_nonblocking :: "int \<Rightarrow> int \<Rightarrow> nat \<Rightarrow> server \<Rightarrow> int \<times> server" where
  "set_nonblocking getfl setfl k s =
     (if getfl = -1 then (-1, s) else if setfl = -1 then (-1, s)
      else (0, s\<lparr>nonblocking := k # nonblocking s\<rparr>))"

text \<open>The body of the loop of \<open>main\<close> for the event \<open>i\<close>: whether it is an error or a hang-up, whether
  there is input, and what the three calls of \<open>handle_new_connection\<close> would give.\<close>

definition serve_event ::
  "server_env \<Rightarrow> nat option \<times> (nat \<times> char list) option \<times> bool \<Rightarrow> int \<times> int \<Rightarrow> nat \<Rightarrow> bool \<Rightarrow> bool \<Rightarrow> server \<Rightarrow> server outcome" where
  "serve_event env conn fcntls i hup input s =
     rbind (rd (events s) i) (\<lambda>ptr.
     if hup then
       (case ptr of
          Listener \<Rightarrow> Inl (Exit_status 1)
        | No_ptr \<Rightarrow> Inl Null_deref
        | Client p \<Rightarrow> rbind (cleanup_client p s) (\<lambda>s. Inr (s\<lparr>events := (events s)[i := No_ptr]\<rparr>)))
     else if ptr = Listener then
       rbind (handle_new_connection (fst conn) (fst (snd conn)) (snd (snd conn)) s) (\<lambda>(_, s). Inr s)
     else if input then
       (case ptr of
          Client p \<Rightarrow>
            rbind (handle_client_request env p s) (\<lambda>s.
            case clients s p of
              None \<Rightarrow> Inl Dangling
            | Some c \<Rightarrow> Inr (snd (set_nonblocking (fst fcntls) (snd fcntls) (fd c) s)))
        | _ \<Rightarrow> Inl Null_deref)
     else Inr s)"

text \<open>Every entry of the event array that is not null is taken for a client; the one of the listening
  socket is the number of its descriptor, which is no address of a client.\<close>

definition server_cleanup :: "nat \<Rightarrow> server \<Rightarrow> server outcome" where
  "server_cleanup listener s =
     rbind (rfold (\<lambda>i s.
         case events s ! i of
           No_ptr \<Rightarrow> Inr s
         | Listener \<Rightarrow> Inl Dangling
         | Client p \<Rightarrow> rbind (cleanup_client p s) (\<lambda>s. Inr (s\<lparr>events := (events s)[i := No_ptr]\<rparr>)))
       [0..<length (events s)]
       (s\<lparr>closed_fds := listener # closed_fds s, watched := filter (\<lambda>e. fst e \<noteq> listener) (watched s)\<rparr>)) (\<lambda>s.
     let w = net s in
     if \<not> temp_dir_opens w then Inr s
     else
       let w = fold (\<lambda>name. remove_file (temp_directory w @ ''/'' @ name)) (listing w) w in
       let pre = temp_directory w @ ''/''; empty = \<not> list_ex (\<lambda>e. take (length pre) (fst e) = pre) (dir w) in
       Inr (s\<lparr>net := w\<lparr>temp_dir_opens := \<not> empty\<rparr>\<rparr>))"

end
