(* ===== verification/Net_Server_Runs.thy ===== *)
theory Net_Server_Runs
  imports Net_Server
begin

text \<open>
  What the server of \<open>nonstop_networking/server.c\<close> does over the life of a connection: the invariant of
  a client's record, and the runs of the event loop that serve one request.
\<close>

section \<open>The invariant of a connection\<close>

definition client_ok :: "Client_info \<Rightarrow> bool" where
  "client_ok c \<longleftrightarrow> length (buffer c) = DATA_SIZE \<and>
     (case state c of
        READING_VERB \<Rightarrow> error_type c = -1 \<and> response c = None
      | READING_FILENAME \<Rightarrow> error_type c = -1 \<and> response c = None \<and> req_method c \<in> {GET, PUT, DELETE}
      | READING_SIZE \<Rightarrow> error_type c = -1 \<and> response c = None \<and> req_method c = PUT \<and>
          (\<exists>i. fp c = Opened i) \<and> (\<exists>path. cstr (filename c) 0 = Inr path)
      | READING_DATA \<Rightarrow> error_type c = -1 \<and> response c = None \<and> req_method c = PUT \<and>
          (\<exists>i. fp c = Opened i) \<and> (\<exists>path. cstr (filename c) 0 = Inr path)
      | WRITING_RESPONSE \<Rightarrow> response c = None \<and>
          (error_type c = -1 \<longrightarrow> req_method c \<noteq> V_UNKNOWN \<and> (req_method c = GET \<longrightarrow> (\<exists>i. fp c = Opened i)))
      | COMPLETE \<Rightarrow> True)"

text \<open>A connection is served, or the other connections change the files and the sockets.\<close>

inductive client_step :: "server_env \<Rightarrow> Client_info \<times> net_world \<Rightarrow> Client_info \<times> net_world \<Rightarrow> bool" for env where
  serve: "state c \<noteq> COMPLETE \<Longrightarrow> receive c w = Inr (c1, w1) \<Longrightarrow> process_request env c1 w1 = Inr (r, c', w') \<Longrightarrow>
    \<not> r < 0 \<Longrightarrow> client_step env (c, w) (c', w')"
| others: "client_step env (c, w) (c, w')"

inductive_cases client_stepE: "client_step env (c, w) (c', w')"

definition client_start :: "Client_info \<times> net_world \<Rightarrow> bool" where
  "client_start cw \<longleftrightarrow> (\<exists>k junk. fst cw = new_client k junk \<and> length junk = DATA_SIZE)"

lemma Inl_rbind: "rbind m f = Inl e \<longleftrightarrow> m = Inl e \<or> (\<exists>x. m = Inr x \<and> f x = Inl e)"
  by (cases m) simp_all

lemma receive_fields:
  assumes "receive c w = Inr (c1, w1)"
  shows "c1 = c\<lparr>buffer := buffer c1, buffer_size := buffer_size c1\<rparr>" "length (buffer c1) = length (buffer c)"
  using assms by (auto simp: receive_def Let_def rbind_eq_Inr length_put_bytes split: if_splits prod.splits)

lemma put_bytes_Inl: "put_bytes b i s = Inl e \<Longrightarrow> e = Out_of_bounds"
  by (auto simp: put_bytes_def split: if_splits)

lemma wr_Inl: "wr b i v = Inl e \<Longrightarrow> e = Out_of_bounds"
  by (auto simp: wr_def split: if_splits)

lemma cstr_Inl: "cstr b i = Inl e \<Longrightarrow> e = Out_of_bounds"
  by (auto simp: cstr_def Let_def split: if_splits)

lemma strchr_nl_Inl: "strchr_nl b = Inl e \<Longrightarrow> e = Out_of_bounds"
  by (induction b) (auto simp: Inl_rbind split: if_splits)

lemma fd_send_Inl: "fd_send k bs n w = Inl e \<Longrightarrow> e = Out_of_bounds"
  by (auto simp: fd_send_def sendall_def Inl_rbind split: if_splits prod.splits)

lemma build_path_Inl: "build_path t n = Inl e \<Longrightarrow> e = Out_of_bounds"
  by (auto simp: build_path_def Inl_rbind dest: put_bytes_Inl wr_Inl)

lemma rfold_Inl:
  "rfold f is s = Inl e \<Longrightarrow> \<exists>i s'. i \<in> set is \<and> f i s' = Inl e"
proof (induction "is" arbitrary: s)
  case (Cons i "is")
  then show ?case by (auto simp: Inl_rbind) blast+
qed simp

lemma receive_Inl: "receive c w = Inl e \<Longrightarrow> e = Out_of_bounds"
  by (auto simp: receive_def Let_def Inl_rbind dest: put_bytes_Inl split: if_splits prod.splits)

lemma list_response_Inl:
  "list_response env c w = Inl e \<Longrightarrow> req_method c = LIST \<Longrightarrow> state c = WRITING_RESPONSE \<Longrightarrow> e = Out_of_bounds"
  by (auto simp: list_response_def Let_def Inl_rbind dest!: rfold_Inl put_bytes_Inl wr_Inl split: if_splits prod.splits)

lemma err_response_Inl: "err_response env m c w = Inl e \<Longrightarrow> e = Out_of_bounds"
  by (auto simp: err_response_def Let_def Inl_rbind dest: fd_send_Inl split: if_splits)

lemma ok_response_Inl: "ok_response c w = Inl e \<Longrightarrow> e = Out_of_bounds"
  by (auto simp: ok_response_def Let_def Inl_rbind dest: fd_send_Inl)

lemma send_get_response_Inl:
  "send_get_response c w = Inl e \<Longrightarrow> req_method c = GET \<Longrightarrow> state c = WRITING_RESPONSE \<Longrightarrow> response c = None \<Longrightarrow>
   fp c = Opened i \<Longrightarrow> e = Out_of_bounds"
  by (auto simp: send_get_response_def get_header_def get_piece_def Let_def Inl_rbind file_of_def
      dest!: fd_send_Inl split: if_splits)

text \<open>The only way a step of a connection can fail is an access outside a block.\<close>

lemma process_request_Inl:
  assumes "client_ok c" "process_request env c w = Inl e"
  shows "e = Out_of_bounds"
proof (cases "state c")
  case READING_FILENAME
  then show ?thesis using assms
    by (auto simp: process_request_def read_filename_def Inl_rbind Let_def
        dest: strchr_nl_Inl build_path_Inl cstr_Inl split: option.splits)
next
  case READING_SIZE
  then show ?thesis using assms
    by (auto simp: process_request_def read_size_def client_ok_def Inl_rbind split: if_splits)
next
  case READING_DATA
  then show ?thesis using assms
    by (auto simp: process_request_def read_data_def client_ok_def file_of_def Let_def split: if_splits)
next
  case WRITING_RESPONSE
  then show ?thesis using assms
    by (auto simp: process_request_def write_response_def client_ok_def Inl_rbind Let_def
        dest: fd_send_Inl err_response_Inl ok_response_Inl list_response_Inl send_get_response_Inl
        split: if_splits prod.splits)
qed (use assms in \<open>auto simp: process_request_def\<close>)

lemma err_response_fields:
  "err_response env m c w = Inr (c', w') \<Longrightarrow> state c' = state c \<and> buffer c' = buffer c"
  by (auto simp: err_response_def Let_def rbind_eq_Inr split: if_splits)

lemma ok_response_fields:
  "ok_response c w = Inr (c', w') \<Longrightarrow> state c' = state c \<and> buffer c' = buffer c"
  by (auto simp: ok_response_def Let_def rbind_eq_Inr)

lemma client_ok_fields:
  "length b = length (buffer c) \<Longrightarrow> client_ok (c\<lparr>buffer := b, buffer_size := n\<rparr>) = client_ok c"
  by (simp add: client_ok_def cong: ClientState.case_cong)

lemma client_ok_receive:
  assumes "receive c w = Inr (c1, w1)" "client_ok c"
  shows "client_ok c1"
proof -
  obtain b n where "c1 = c\<lparr>buffer := b, buffer_size := n\<rparr>" "length b = length (buffer c)"
    using receive_fields [OF assms(1)] by blast
  then show ?thesis using assms(2) by (simp add: client_ok_fields)
qed

lemma client_ok_open:
  assumes "req_method c \<in> {GET, PUT, DELETE}" "length (buffer c) = DATA_SIZE" "error_type c = -1" "response c = None"
    "cstr (filename c) 0 = Inr path" "open_file env path c w = (r, c', w')" "\<not> r < 0"
  shows "client_ok c'"
  using assms(1)
proof (elim insertE emptyE)
  assume "req_method c = GET"
  then show ?thesis using assms(2-7) by (auto simp: open_file_def client_ok_def split: option.splits)
next
  assume "req_method c = PUT"
  then show ?thesis using assms(2-7) by (auto simp: open_file_def client_ok_def split: option.splits prod.splits)
next
  assume "req_method c = DELETE"
  then show ?thesis using assms(2-7) by (auto simp: open_file_def client_ok_def split: option.splits)
qed

lemma write_response_cases:
  assumes "write_response env c w = Inr (r, c', w')" "client_ok c" "state c = WRITING_RESPONSE"
  shows "client_ok c' \<or> error_type c = -1 \<and> req_method c = GET \<and> send_get_response c w = Inr (c', w')"
proof (cases "error_type c = -1")
  case True
  then show ?thesis using assms
    by (cases "req_method c") (auto simp: write_response_def rbind_eq_Inr Let_def client_ok_def dest!: ok_response_fields)
next
  case False
  then obtain c1 where "c' = c1\<lparr>state := COMPLETE\<rparr>" "buffer c1 = buffer c"
    using assms(1) by (auto simp: write_response_def rbind_eq_Inr dest!: err_response_fields split: if_splits)
  then show ?thesis using assms(2) by (simp add: client_ok_def)
qed

lemma send_get_response_ok:
  assumes "send_get_response c w = Inr (c', w')" "client_ok c" "error_type c = -1" "state c = WRITING_RESPONSE"
  shows "client_ok c'"
proof -
  from assms(1) obtain f c1 w1 where g: "get_header f c w = Inr (c1, w1)" "get_piece f c1 w1 = Inr (c', w')"
    by (auto simp: send_get_response_def rbind_eq_Inr)
  have "\<exists>n. c1 = c\<lparr>req_size := n\<rparr>"
    using g(1) by (auto simp: get_header_def rbind_eq_Inr Let_def split: if_splits intro: exI [of _ "req_size c"])
  then obtain n where "c1 = c\<lparr>req_size := n\<rparr>" ..
  then have "buffer c' = buffer c \<and> (state c' = COMPLETE \<or> state c' = WRITING_RESPONSE \<and> response c' = response c \<and>
      error_type c' = error_type c \<and> req_method c' = req_method c \<and> fp c' = fp c)"
    using g(2) by (auto simp: get_piece_def rbind_eq_Inr Let_def split: if_splits)
  then show ?thesis using assms(2-4) by (auto simp: client_ok_def)
qed

lemma process_read_verb: "state c = READING_VERB \<Longrightarrow> process_request env c w = Inr (0, read_verb c, w)"
  by (simp add: process_request_def)

lemma client_ok_process:
  assumes "client_ok c" "process_request env c w = Inr (r, c', w')" "\<not> r < 0"
  shows "client_ok c'"
proof (cases "state c")
  case READING_VERB
  then show ?thesis using assms by (auto simp: process_request_def read_verb_def client_ok_def split: if_splits)
next
  case READING_FILENAME
  then have c: "req_method c \<in> {GET, PUT, DELETE}" "length (buffer c) = DATA_SIZE" "error_type c = -1" "response c = None"
    using assms(1) by (auto simp: client_ok_def)
  have "read_filename env c w = Inr (r, c', w')"
    using assms(2) READING_FILENAME by (simp add: process_request_def)
  then show ?thesis
  proof (unfold read_filename_def, elim rbind_InrE)
    fix nl assume nl: "(case nl of None \<Rightarrow> Inr (0, c\<lparr>error_type := 0, state := WRITING_RESPONSE\<rparr>, w)
       | Some len \<Rightarrow> rbind (build_path (temp_directory w) (take len (drop (boffset c) (buffer c))))
           (\<lambda>p. rbind (cstr p 0) (\<lambda>path. Inr (open_file env path
              (c\<lparr>filename := p, file_offset := 0, boffset := boffset c + len + 1\<rparr>) w)))) = Inr (r, c', w')"
    show ?thesis
    proof (cases nl)
      case None
      then show ?thesis using nl c by (auto simp: client_ok_def)
    next
      case (Some len)
      then obtain p path where p: "cstr p 0 = Inr path"
          "open_file env path (c\<lparr>filename := p, file_offset := 0, boffset := boffset c + len + 1\<rparr>) w = (r, c', w')"
        using nl by (auto simp: rbind_eq_Inr)
      show ?thesis by (rule client_ok_open [OF _ _ _ _ _ p(2) assms(3)]) (use c p(1) in simp_all)
    qed
  qed
next
  case READING_SIZE
  then show ?thesis using assms
    by (auto simp: process_request_def read_size_def client_ok_def rbind_eq_Inr split: if_splits)
next
  case READING_DATA
  then show ?thesis using assms
    by (auto simp: process_request_def read_data_def client_ok_def file_of_def Let_def split: if_splits)
next
  case WRITING_RESPONSE
  then have "write_response env c w = Inr (r, c', w')" using assms(2) by (simp add: process_request_def)
  then show ?thesis using assms(1) send_get_response_ok WRITING_RESPONSE write_response_cases by blast
next
  case COMPLETE
  then show ?thesis using assms by (simp add: process_request_def)
qed

interpretation connection: state_machine client_start "client_step env" "\<lambda>cw. client_ok (fst cw)" for env
proof unfold_locales
  fix cw show "client_start cw \<Longrightarrow> client_ok (fst cw)"
    by (auto simp: client_start_def new_client_def client_ok_def)
  fix cw' assume ok: "client_ok (fst cw)" and step: "client_step env cw cw'"
  from step ok show "client_ok (fst cw')"
    by cases (auto dest: client_ok_receive client_ok_process)
qed

text \<open>C18: However a connection is served, and whatever the other connections do to the files in between,
  its record stays consistent: no assertion of the server fails, no stream is used that is not open,
  and the only fault a step can have is an access outside a block.\<close>

theorem connection_invariant:
  assumes "client_start (c0, w0)" "(client_step env)\<^sup>*\<^sup>* (c0, w0) (c, w)"
  shows "client_ok c \<and> (receive c w = Inl e \<longrightarrow> e = Out_of_bounds) \<and>
    (receive c w = Inr (c1, w1) \<and> process_request env c1 w1 = Inl e \<longrightarrow> e = Out_of_bounds)"
proof -
  have ok: "client_ok c" using connection.reachable_inv [OF assms] by simp
  then show ?thesis using receive_Inl client_ok_receive process_request_Inl by blast
qed


definition demo_world :: net_world where
  "demo_world = \<lparr>temp_directory = ''tmpdir'', temp_dir_opens = True, dir = [(''tmpdir/a'', 5)],
     inodes = (\<lambda>i. if i = 5 then ''hi'' else ''''), next_inode = 9, socks = (\<lambda>_. \<lparr>inq = [], outq = [], sends = []\<rparr>)\<rparr>"

theorem connection_invariant_witness:
  "client_ok (read_verb (new_client 4 (replicate 1024 (CHR ''x''))\<lparr>buffer_size := 0\<rparr>))"
proof -
  let ?c = "new_client 4 (replicate 1024 (CHR ''x''))"
  let ?env = "\<lparr>err_bad_request = [], err_bad_file_size = [], err_no_such_file = [], can_create = (\<lambda>_. True),
     usable = (\<lambda>n. n + 8), heap_byte = NUL\<rparr>"
  have r: "receive ?c demo_world = Inr (?c\<lparr>buffer_size := 0\<rparr>, demo_world)"
    by (simp add: receive_def new_client_def demo_world_def recvall_def recvall_loop.simps put_bytes_def DATA_SIZE_def
        fun_upd_def Let_def fun_eq_iff)
  have "client_step ?env (?c, demo_world) (read_verb (?c\<lparr>buffer_size := 0\<rparr>), demo_world)"
    by (rule client_step.serve [OF _ r process_read_verb]) (simp_all add: new_client_def)
  then have "(client_step ?env)\<^sup>*\<^sup>* (?c, demo_world) (read_verb (?c\<lparr>buffer_size := 0\<rparr>), demo_world)" by blast
  moreover have "client_start (?c, demo_world)"
    unfolding client_start_def fst_conv by (intro exI conjI, rule refl) (simp add: DATA_SIZE_def)
  ultimately show ?thesis using connection_invariant by blast
qed

end
