(* ===== verification/Net_Requests.thy ===== *)
theory Net_Requests
  imports Net_Server_Runs
begin

text \<open>
  Whole requests at the server of \<open>nonstop_networking/server.c\<close>: the runs of its event loop that serve a
  client that sends one well-formed request and shuts down its side, over a connection that delivers the
  bytes in segments of any sizes.
\<close>

section \<open>Runs\<close>

text \<open>The event loop hands the client \<open>p\<close> to \<open>handle_client_request\<close> again and again.\<close>

fun serve_times :: "server_env \<Rightarrow> nat \<Rightarrow> nat \<Rightarrow> server \<Rightarrow> server outcome" where
  "serve_times env p 0 s = Inr s"
| "serve_times env p (Suc n) s = rbind (handle_client_request env p s) (serve_times env p n)"

definition serves :: "server_env \<Rightarrow> Client_info \<times> net_world \<Rightarrow> Client_info \<times> net_world \<Rightarrow> bool" where
  "serves env cw cw' \<longleftrightarrow> state (fst cw) \<noteq> COMPLETE \<and>
     rbind (receive (fst cw) (snd cw)) (\<lambda>(c, w). process_request env c w) = Inr (0, cw')"

lemma handle_serves:
  assumes "serves env (c, w) (c', w')" "clients s p = Some c" "net s = w"
  shows "handle_client_request env p s = Inr (s\<lparr>net := w', clients := (clients s)(p \<mapsto> c')\<rparr>)"
  using assms by (auto simp: serves_def handle_client_request_def rbind_eq_Inr Let_def)

lemma serve_times_serves:
  assumes "(serves env)\<^sup>*\<^sup>* (c, w) (c', w')" "clients s p = Some c" "net s = w"
  shows "\<exists>n s'. serve_times env p n s = Inr s' \<and> clients s' p = Some c' \<and> net s' = w'"
  using assms
proof (induction arbitrary: s rule: converse_rtranclp_induct2)
  case refl
  then show ?case by (intro exI [of _ 0] exI [of _ s]) simp
next
  case (step c w c1 w1)
  let ?s = "s\<lparr>net := w1, clients := (clients s)(p \<mapsto> c1)\<rparr>"
  obtain n s' where "serve_times env p n ?s = Inr s'" "clients s' p = Some c'" "net s' = w'"
    using step.IH [of ?s] by auto
  then show ?case using handle_serves [OF step.hyps(1) step.prems] by (intro exI [of _ "Suc n"]) auto
qed

section \<open>The connection\<close>

text \<open>The socket \<open>k\<close>: the bytes still to come, and the bytes sent so far.\<close>

definition link :: "nat \<Rightarrow> char list \<Rightarrow> char list \<Rightarrow> net_world \<Rightarrow> bool" where
  "link k todo out w \<longleftrightarrow> segments (inq (socks w k)) \<and> stream (inq (socks w k)) = todo \<and>
     outq (socks w k) = out \<and> sends (socks w k) = []"

definition same_files :: "net_world \<Rightarrow> net_world \<Rightarrow> bool" where
  "same_files w w' \<longleftrightarrow> (\<exists>f. w' = w\<lparr>socks := f\<rparr>)"

lemma same_files_fields:
  assumes "same_files w w'"
  shows "temp_directory w' = temp_directory w" "dir w' = dir w" "inodes w' = inodes w"
    "temp_dir_opens w' = temp_dir_opens w" "next_inode w' = next_inode w" "listing w' = listing w"
  using assms by (auto simp: same_files_def listing_def)

lemma same_files_trans: "same_files w w' \<Longrightarrow> same_files w' w'' \<Longrightarrow> same_files w w''"
  by (auto simp: same_files_def)

lemma receive_link:
  assumes "link k S out w" "fd c = k" "length (buffer c) = DATA_SIZE"
    "state c = READING_VERB \<or> state c = READING_DATA \<and> buffer_size c = 0"
  shows "\<exists>w'. receive c w = Inr (c\<lparr>buffer := take DATA_SIZE S @ drop (min DATA_SIZE (length S)) (buffer c),
       buffer_size := min DATA_SIZE (length S)\<rparr>, w') \<and> link k (drop DATA_SIZE S) out w' \<and> same_files w w'"
proof -
  obtain es' where es: "recvall DATA_SIZE (inq (socks w k)) = (min DATA_SIZE (length S), take DATA_SIZE S, es')"
      "segments es'" "stream es' = drop DATA_SIZE S"
    using recvall_segments [of "inq (socks w k)" DATA_SIZE] assms(1) by (auto simp: link_def)
  let ?w = "w\<lparr>socks := (socks w)(k := (socks w k)\<lparr>inq := es'\<rparr>)\<rparr>"
  have "receive c w = Inr (c\<lparr>buffer := take DATA_SIZE S @ drop (min DATA_SIZE (length S)) (buffer c),
       buffer_size := min DATA_SIZE (length S)\<rparr>, ?w)"
    using assms(2-4) es(1) by (auto simp: receive_def Let_def put_bytes_def min.commute)
  moreover have "link k (drop DATA_SIZE S) out ?w" using es assms(1) by (simp add: link_def)
  moreover have "same_files w ?w" by (auto simp: same_files_def)
  ultimately show ?thesis by blast
qed

lemma receive_skip:
  "\<not> (state c = READING_DATA \<and> buffer_size c = 0 \<or> state c = READING_VERB) \<Longrightarrow> receive c w = Inr (c, w)"
  unfolding receive_def by (rule if_not_P)

lemma fd_send_link:
  assumes "link k S out w" "len \<le> length bs"
  shows "\<exists>w'. fd_send k bs len w = Inr w' \<and> link k S (out @ take len bs) w' \<and> same_files w w'"
proof -
  let ?w = "w\<lparr>socks := (socks w)(k := (socks w k)\<lparr>outq := outq (socks w k) @ take len bs\<rparr>)\<rparr>"
  have "fd_send k bs len w = Inr ?w" using assms by (simp add: fd_send_def sendall_plain link_def)
  moreover have "link k S (out @ take len bs) ?w" "same_files w ?w"
    using assms(1) by (auto simp: link_def same_files_def)
  ultimately show ?thesis by blast
qed

section \<open>The request line\<close>

definition plain_name :: "net_world \<Rightarrow> string \<Rightarrow> bool" where
  "plain_name w name \<longleftrightarrow> NL \<notin> set name \<and> NUL \<notin> set name \<and> NUL \<notin> set (temp_directory w) \<and>
     length (temp_directory w) + 1 + length name < MAX_DIRNAME"

lemma strchr_nl_at: "NL \<notin> set name \<Longrightarrow> NUL \<notin> set name \<Longrightarrow> strchr_nl (name @ NL # rest) = Inr (Some (length name))"
  by (induction name) auto

lemma build_path_ok:
  assumes "plain_name w name"
  shows "\<exists>p. build_path (temp_directory w) name = Inr p \<and> cstr p 0 = Inr (temp_directory w @ ''/'' @ name)"
proof -
  let ?t = "temp_directory w" and ?n = "MAX_DIRNAME - (length (temp_directory w) + 1 + length name)"
  have n: "length ?t + 1 + length name < MAX_DIRNAME" "NUL \<notin> set ?t" "NUL \<notin> set name"
    using assms by (auto simp: plain_name_def)
  have "put_bytes (replicate MAX_DIRNAME NUL) (length ?t + 1) name =
      Inr (replicate (length ?t) NUL @ NUL # name @ replicate ?n NUL)"
    using n by (simp add: put_bytes_def replicate_append_same min_def)
  moreover have "put_bytes (replicate (length ?t) NUL @ NUL # name @ replicate ?n NUL) 0 ?t =
      Inr (?t @ NUL # name @ replicate ?n NUL)"
    by (simp add: put_bytes_def)
  moreover have "wr (?t @ NUL # name @ replicate ?n NUL) (length ?t) (CHR ''/'') =
      Inr ((?t @ ''/'' @ name) @ NUL # replicate (?n - 1) NUL)"
    using n by (cases ?n) (simp_all add: list_update_append)
  moreover have "NUL \<notin> set (?t @ ''/'' @ name)" using n by (simp add: NUL_def)
  ultimately show ?thesis by (auto simp: build_path_def simp del: append_assoc)
qed

text \<open>After two steps the path is built and the verb's action on it is next.\<close>

definition verb_text :: "verb \<Rightarrow> string" where
  "verb_text v = (case v of GET \<Rightarrow> ''GET '' | PUT \<Rightarrow> ''PUT '' | DELETE \<Rightarrow> ''DELETE '' | LIST \<Rightarrow> ''LIST'' | V_UNKNOWN \<Rightarrow> '''')"

lemma request_line:
  assumes v: "v \<in> {GET, PUT, DELETE}" and name: "plain_name w name"
    and l: "link k (verb_text v @ name @ NL # rest) out w" and junk: "length junk = DATA_SIZE"
  obtains b p w1 c1 where "length b = DATA_SIZE"
    "c1 = (new_client k junk)\<lparr>req_method := v, state := READING_FILENAME, buffer := b,
        buffer_size := min DATA_SIZE (length (verb_text v @ name @ NL # rest)), boffset := length (verb_text v)\<rparr>"
    "serves env (new_client k junk, w) (c1, w1)"
    "take (DATA_SIZE - length (verb_text v @ name) - 1) rest =
       take (min DATA_SIZE (length (verb_text v @ name @ NL # rest)) - (length (verb_text v @ name) + 1))
         (drop (length (verb_text v @ name) + 1) b)"
    "link k (drop DATA_SIZE (verb_text v @ name @ NL # rest)) out w1" "same_files w w1"
    "cstr p 0 = Inr (temp_directory w @ ''/'' @ name)"
    "read_filename env c1 w1 = Inr (open_file env (temp_directory w @ ''/'' @ name)
       (c1\<lparr>filename := p, boffset := length (verb_text v @ name) + 1\<rparr>) w1)"
proof -
  let ?S = "verb_text v @ name @ NL # rest" and ?c = "new_client k junk"
  let ?h = "length (verb_text v @ name) + 1"
  have h: "?h \<le> DATA_SIZE" "3 \<le> length (verb_text v)"
    using name v by (auto simp: plain_name_def MAX_DIRNAME_def DATA_SIZE_def verb_text_def)
  define b where "b = take DATA_SIZE ?S @ drop (min DATA_SIZE (length ?S)) junk"
  have b: "b = verb_text v @ name @ NL # take (DATA_SIZE - ?h) rest @ drop (min DATA_SIZE (length ?S)) junk"
    using h by (simp add: b_def take_Cons' Suc_le_eq)
  obtain w1 where w1: "receive ?c w = Inr (?c\<lparr>buffer := b, buffer_size := min DATA_SIZE (length ?S)\<rparr>, w1)"
      "link k (drop DATA_SIZE ?S) out w1" "same_files w w1"
    using receive_link [OF l, of ?c] junk unfolding b_def by (auto simp: new_client_def)
  let ?c1 = "?c\<lparr>req_method := v, state := READING_FILENAME, buffer := b, buffer_size := min DATA_SIZE (length ?S),
      boffset := length (verb_text v)\<rparr>"
  have "read_verb (?c\<lparr>buffer := b, buffer_size := min DATA_SIZE (length ?S)\<rparr>) = ?c1"
    using v unfolding b by (auto simp: read_verb_def verb_text_def new_client_def)
  then have s: "serves env (?c, w) (?c1, w1)"
    using w1(1) by (simp add: serves_def process_request_def new_client_def)
  obtain p where p: "build_path (temp_directory w) name = Inr p" "cstr p 0 = Inr (temp_directory w @ ''/'' @ name)"
    using build_path_ok [OF name] by blast
  have "strchr_nl (drop (boffset ?c1) (buffer ?c1)) = Inr (Some (length name))"
    using name unfolding b by (simp add: strchr_nl_at plain_name_def)
  moreover have "take (length name) (drop (boffset ?c1) (buffer ?c1)) = name" unfolding b by simp
  moreover have "?c1\<lparr>filename := p, file_offset := 0, boffset := boffset ?c1 + length name + 1\<rparr> =
      ?c1\<lparr>filename := p, boffset := ?h\<rparr>"
    by (simp add: new_client_def)
  ultimately have "read_filename env ?c1 w1 =
      Inr (open_file env (temp_directory w @ ''/'' @ name) (?c1\<lparr>filename := p, boffset := ?h\<rparr>) w1)"
    using p same_files_fields(1) [OF w1(3)] by (simp add: read_filename_def)
  moreover have "take (DATA_SIZE - length (verb_text v @ name) - 1) rest =
      take (min DATA_SIZE (length ?S) - ?h) (drop ?h b)"
    unfolding b by (auto simp: min_def)
  moreover have "length b = DATA_SIZE" using junk by (simp add: b_def)
  ultimately show ?thesis using that s w1(2,3) p(2) by blast
qed

section \<open>\<open>PUT\<close>\<close>

lemma read_data_step:
  assumes c: "req_method c = PUT" "fp c = Opened i" "cstr (filename c) 0 = Inr path" "file_offset c = m"
    "boffset c = a" "buffer_size c = a + n" "0 < a + n" "a + n \<le> length (buffer c)" "length (buffer c) = DATA_SIZE"
    "n \<le> req_size c - m" "m \<le> req_size c" "req_size c < 2 ^ 64"
  shows "read_data c w =
    Inr (0, if m + n = req_size c
            then c\<lparr>boffset := 0, buffer_size := 0, file_offset := m + n, state := WRITING_RESPONSE, fp := Closed_file\<rparr>
            else c\<lparr>boffset := 0, buffer_size := 0, file_offset := m + n, state := READING_DATA\<rparr>,
         w\<lparr>inodes := (inodes w)(i := inodes w i @ take n (drop a (buffer c)))\<rparr>)"
proof -
  have lt: "a + n < 2 ^ 64" using c(8,9) by (simp add: DATA_SIZE_def)
  have s: "size_sub (req_size c) m = req_size c - m" by (rule size_sub_ge [OF c(11,12)])
  have t: "size_sub (a + n) a = n" using size_sub_ge [OF _ lt, of a] by simp
  have m: "(m + n) mod 2 ^ 64 = m + n" using c(10-12) by (intro mod_less) linarith
  have l: "\<not> length (buffer c) < a + n" "\<not> req_size c - m < n" "a + n \<noteq> 0" "n - n = 0" using c by simp_all
  define d where "d = take n (drop a (buffer c))"
  show ?thesis
    unfolding read_data_def c(1-6) rassert_simps rbind_simps file_of_def file_ptr.case Let_def s t if_not_P [OF l(1)]
      if_not_P [OF l(2)] if_not_P [OF l(3)] d_def [symmetric] m
    using c(10,11) by (cases "m + n = req_size c") simp_all
qed

text \<open>The upload of \<open>data\<close> to \<open>path\<close> when \<open>m\<close> bytes have arrived, and when all have.\<close>

definition put_wait :: "nat \<Rightarrow> nat \<Rightarrow> string \<Rightarrow> char list \<Rightarrow> char list \<Rightarrow> nat \<Rightarrow> Client_info \<Rightarrow> net_world \<Rightarrow> bool" where
  "put_wait k i path data out m c w \<longleftrightarrow>
     fd c = k \<and> state c = READING_DATA \<and> req_method c = PUT \<and> fp c = Opened i \<and> cstr (filename c) 0 = Inr path \<and>
     req_size c = length data \<and> file_offset c = m \<and> boffset c = 0 \<and> buffer_size c = 0 \<and>
     length (buffer c) = DATA_SIZE \<and> error_type c = -1 \<and> link k (drop m data) out w \<and> m < length data \<and>
     inodes w i = take m data \<and> map_of (dir w) path = Some i"

definition put_done :: "nat \<Rightarrow> nat \<Rightarrow> string \<Rightarrow> char list \<Rightarrow> char list \<Rightarrow> Client_info \<Rightarrow> net_world \<Rightarrow> bool" where
  "put_done k i path data out c w \<longleftrightarrow>
     fd c = k \<and> state c = WRITING_RESPONSE \<and> req_method c = PUT \<and> error_type c = -1 \<and> link k [] out w \<and>
     inodes w i = data \<and> map_of (dir w) path = Some i"

lemma put_step:
  assumes p: "put_wait k i path data out m c w" and lt: "length data < 2 ^ 64"
  shows "\<exists>c' w'. serves env (c, w) (c', w') \<and>
    (if length data \<le> m + DATA_SIZE then put_done k i path data out c' w'
     else put_wait k i path data out (m + DATA_SIZE) c' w')"
proof -
  let ?n = "min DATA_SIZE (length (drop m data))"
  let ?b = "take DATA_SIZE (drop m data) @ drop ?n (buffer c)"
  have c: "fd c = k" "state c = READING_DATA" "req_method c = PUT" "fp c = Opened i" "cstr (filename c) 0 = Inr path"
    "req_size c = length data" "file_offset c = m" "boffset c = 0" "buffer_size c = 0" "length (buffer c) = DATA_SIZE"
    "error_type c = -1" "link k (drop m data) out w" "m < length data" "inodes w i = take m data"
    "map_of (dir w) path = Some i"
    using p by (auto simp: put_wait_def)
  obtain w1 where w1: "receive c w = Inr (c\<lparr>buffer := ?b, buffer_size := ?n\<rparr>, w1)"
      "link k (drop DATA_SIZE (drop m data)) out w1" "same_files w w1"
    using receive_link [OF c(12,1,10)] c(2,9) by blast
  let ?c = "c\<lparr>buffer := ?b, buffer_size := ?n\<rparr>"
  let ?w = "w1\<lparr>inodes := (inodes w1)(i := inodes w1 i @ take ?n (drop 0 (buffer ?c)))\<rparr>"
  have l: "length ?b = DATA_SIZE" using c(10) by (simp add: min_def)
  have n0: "0 < ?n" using c(13) by (simp add: DATA_SIZE_def)
  note r = read_data_step [of ?c i path m 0 ?n w1]
  have r: "read_data ?c w1 = Inr (0, if m + ?n = length data
      then ?c\<lparr>boffset := 0, buffer_size := 0, file_offset := m + ?n, state := WRITING_RESPONSE, fp := Closed_file\<rparr>
      else ?c\<lparr>boffset := 0, buffer_size := 0, file_offset := m + ?n, state := READING_DATA\<rparr>, ?w)"
    using r c l n0 lt by (simp add: min_def)
  have s: "serves env (c, w) (c', w')" if "read_data ?c w1 = Inr (0, c', w')" for c' w'
    using that w1(1) c(2) by (simp add: serves_def process_request_def)
  have take: "take m data @ take ?n ?b = take (m + ?n) data"
    by (auto simp: take_add min_def)
  have f: "inodes ?w i = take (m + ?n) data" "map_of (dir ?w) path = Some i"
      "link k (drop (m + DATA_SIZE) data) out ?w"
    using take c(14,15) w1(2) same_files_fields [OF w1(3)] by (simp_all add: link_def add.commute)
  show ?thesis
  proof (cases "length data \<le> m + DATA_SIZE")
    case True
    then have n: "m + ?n = length data" using c(13) by simp
    note r' = r [unfolded n if_P [OF refl]]
    have "put_done k i path data out (?c\<lparr>boffset := 0, buffer_size := 0, file_offset := length data,
        state := WRITING_RESPONSE, fp := Closed_file\<rparr>) ?w"
      using f n True c by (simp add: put_done_def)
    then show ?thesis using s [OF r'] True by auto
  next
    case False
    then have n: "?n = DATA_SIZE" "m + ?n \<noteq> length data" by simp_all
    note r' = r [unfolded if_not_P [OF n(2)]]
    have "put_wait k i path data out (m + DATA_SIZE) (?c\<lparr>boffset := 0, buffer_size := 0, file_offset := m + ?n,
        state := READING_DATA\<rparr>) ?w"
      using f n(1) False c l by (simp add: put_wait_def)
    then show ?thesis using s [OF r'] False by auto
  qed
qed

lemma put_run:
  "put_wait k i path data out m c w \<Longrightarrow> length data < 2 ^ 64 \<Longrightarrow>
   \<exists>c' w'. (serves env)\<^sup>*\<^sup>* (c, w) (c', w') \<and> put_done k i path data out c' w'"
proof (induction "length data - m" arbitrary: m c w rule: less_induct)
  case less
  obtain c1 w1 where s: "serves env (c, w) (c1, w1)"
    "if length data \<le> m + DATA_SIZE then put_done k i path data out c1 w1
     else put_wait k i path data out (m + DATA_SIZE) c1 w1"
    using put_step [OF less.prems] by blast
  show ?case
  proof (cases "length data \<le> m + DATA_SIZE")
    case True
    then show ?thesis using s by auto
  next
    case False
    then have "length data - (m + DATA_SIZE) < length data - m" by (simp add: DATA_SIZE_def)
    moreover have "put_wait k i path data out (m + DATA_SIZE) c1 w1" using s(2) False by simp
    ultimately obtain c' w' where "(serves env)\<^sup>*\<^sup>* (c1, w1) (c', w')" "put_done k i path data out c' w'"
      using less.hyps less.prems(2) by blast
    then show ?thesis using s(1) by (meson converse_rtranclp_into_rtranclp)
  qed
qed

lemma fopen_wb_ok:
  assumes "can_create env path"
  shows "\<exists>i w'. fopen_wb env path w = (Some i, w') \<and> map_of (dir w') path = Some i \<and> inodes w' i = [] \<and> socks w' = socks w"
proof (cases "map_of (dir w) path")
  case None
  then show ?thesis using assms by (simp add: fopen_wb_def map_add_def)
next
  case (Some i)
  then show ?thesis using assms by (simp add: fopen_wb_def)
qed

definition ok_bytes :: "char list" where
  "ok_bytes = [CHR ''O'', CHR ''K'', NL, NUL]"

lemma ok_response_link:
  assumes "link k S out w" "fd c = k" "error_type c = -1" "req_method c = PUT \<or> req_method c = DELETE" "state c = WRITING_RESPONSE"
  shows "\<exists>c' w'. serves env (c, w) (c', w') \<and> state c' = COMPLETE \<and> link k S (out @ ok_bytes) w' \<and> same_files w w'"
proof -
  obtain w' where w': "fd_send k ok_bytes 4 w = Inr w'" "link k S (out @ ok_bytes) w'" "same_files w w'"
    using fd_send_link [OF assms(1), of 4 ok_bytes] by (auto simp: ok_bytes_def)
  have "ok_response c w = Inr (c\<lparr>response := Some ok_bytes\<rparr>, w')"
    using w'(1) assms(2) by (simp add: ok_response_def ok_bytes_def)
  then have "process_request env c w = Inr (0, c\<lparr>response := Some ok_bytes, state := COMPLETE\<rparr>, w')"
    using assms(3-5) by (auto simp: process_request_def write_response_def)
  moreover have "receive c w = Inr (c, w)" using assms(5) by (intro receive_skip) simp
  ultimately have "serves env (c, w) (c\<lparr>response := Some ok_bytes, state := COMPLETE\<rparr>, w')"
    using assms(5) by (simp add: serves_def)
  moreover have "state (c\<lparr>response := Some ok_bytes, state := COMPLETE\<rparr>) = COMPLETE" by simp
  ultimately show ?thesis using w'(2,3) by blast
qed

text \<open>The first piece of the data comes with the header.\<close>

lemma put_first:
  assumes c: "fd c = k" "state c = READING_DATA" "req_method c = PUT" "fp c = Opened i" "cstr (filename c) 0 = Inr path"
    "req_size c = length data" "file_offset c = 0" "boffset c = a" "buffer_size c = min DATA_SIZE (a + length data)"
    "length (buffer c) = DATA_SIZE" "error_type c = -1" "0 < a" "a \<le> DATA_SIZE" "length data < 2 ^ 64"
    and d: "take (DATA_SIZE - a) data = take (min DATA_SIZE (a + length data) - a) (drop a (buffer c))"
    and w: "link k (drop (DATA_SIZE - a) data) out w" "inodes w i = []" "map_of (dir w) path = Some i"
  shows "\<exists>c' w'. (serves env)\<^sup>*\<^sup>* (c, w) (c', w') \<and> put_done k i path data out c' w'"
proof -
  let ?n = "min DATA_SIZE (a + length data) - a"
  let ?w = "w\<lparr>inodes := (inodes w)(i := inodes w i @ take ?n (drop a (buffer c)))\<rparr>"
  have n: "buffer_size c = a + ?n" "?n = min (DATA_SIZE - a) (length data)" using c(9,13) by simp_all
  have r: "read_data c w = Inr (0, if 0 + ?n = req_size c
      then c\<lparr>boffset := 0, buffer_size := 0, file_offset := 0 + ?n, state := WRITING_RESPONSE, fp := Closed_file\<rparr>
      else c\<lparr>boffset := 0, buffer_size := 0, file_offset := 0 + ?n, state := READING_DATA\<rparr>, ?w)"
    by (rule read_data_step [OF c(3-5,7,8) n(1)]) (use c in auto)
  have rs: "receive c w = Inr (c, w)" using c(9,12) by (intro receive_skip) (auto simp: DATA_SIZE_def c(2))
  have s: "serves env (c, w) (c', w')" if "read_data c w = Inr (0, c', w')" for c' w'
    using that rs c(2) by (simp add: serves_def process_request_def)
  have f: "inodes ?w i = take (DATA_SIZE - a) data" "map_of (dir ?w) path = Some i"
      "link k (drop (DATA_SIZE - a) data) out ?w"
    using w d by (simp_all add: link_def)
  show ?thesis
  proof (cases "length data \<le> DATA_SIZE - a")
    case True
    then have n: "0 + ?n = req_size c" using c(6) n(2) by simp
    have "put_done k i path data out (c\<lparr>boffset := 0, buffer_size := 0, file_offset := 0 + ?n,
        state := WRITING_RESPONSE, fp := Closed_file\<rparr>) ?w"
      using f True c by (simp add: put_done_def)
    then show ?thesis using s [OF r [unfolded if_P [OF n]]] by blast
  next
    case False
    then have n: "?n = DATA_SIZE - a" "0 + ?n \<noteq> req_size c" using c(6) n(2) by simp_all
    have "put_wait k i path data out (DATA_SIZE - a) (c\<lparr>boffset := 0, buffer_size := 0, file_offset := 0 + ?n,
        state := READING_DATA\<rparr>) ?w"
      using f n(1) False c by (simp add: put_wait_def)
    then obtain c' w' where "(serves env)\<^sup>*\<^sup>* (c\<lparr>boffset := 0, buffer_size := 0, file_offset := 0 + ?n,
        state := READING_DATA\<rparr>, ?w) (c', w')" "put_done k i path data out c' w'"
      using put_run [OF _ c(14)] by blast
    then show ?thesis using s [OF r [unfolded if_not_P [OF n(2)]]] by (meson converse_rtranclp_into_rtranclp)
  qed
qed

lemma put_request:
  assumes name: "plain_name w name" and junk: "length junk = DATA_SIZE" and lt: "length data < 2 ^ 64"
    and l: "link k (''PUT '' @ name @ NL # size_bytes (length data) @ data) out w"
    and create: "can_create env (temp_directory w @ ''/'' @ name)"
  shows "\<exists>i c' w'. (serves env)\<^sup>*\<^sup>* (new_client k junk, w) (c', w') \<and> state c' = COMPLETE \<and>
    link k [] (out @ ok_bytes) w' \<and> map_of (dir w') (temp_directory w @ ''/'' @ name) = Some i \<and> inodes w' i = data"
proof -
  let ?path = "temp_directory w @ ''/'' @ name" and ?h = "length name + 5"
  let ?S = "verb_text PUT @ name @ NL # size_bytes (length data) @ data"
  have h: "?h + 8 \<le> DATA_SIZE" using name by (simp add: plain_name_def MAX_DIRNAME_def DATA_SIZE_def)
  have vt: "length (verb_text PUT) = 4" "length (verb_text PUT @ name) = length name + 4" "verb_text PUT = ''PUT ''"
    by (simp_all add: verb_text_def)
  have lS: "length ?S = (?h + 8) + length data" by (simp add: vt)
  obtain b p w1 c1 where b: "length b = DATA_SIZE"
    and c1: "c1 = (new_client k junk)\<lparr>req_method := PUT, state := READING_FILENAME, buffer := b,
        buffer_size := min DATA_SIZE ((?h + 8) + length data), boffset := 4\<rparr>"
    and s1: "serves env (new_client k junk, w) (c1, w1)"
    and tk: "take (DATA_SIZE - (length name + 4) - 1) (size_bytes (length data) @ data) =
       take (min DATA_SIZE ((?h + 8) + length data) - (length name + 4 + 1)) (drop (length name + 4 + 1) b)"
    and l1: "link k (drop DATA_SIZE ?S) out w1" and same: "same_files w w1" and p: "cstr p 0 = Inr ?path"
    and rf: "read_filename env c1 w1 = Inr (open_file env ?path (c1\<lparr>filename := p, boffset := length name + 4 + 1\<rparr>) w1)"
    by (rule request_line [of PUT w name k "size_bytes (length data) @ data" out junk env, unfolded lS vt(1,2)])
      (use name junk l in \<open>simp_all add: vt\<close>)
  obtain i w2 where w2: "fopen_wb env ?path w1 = (Some i, w2)" "map_of (dir w2) ?path = Some i" "inodes w2 i = []"
      "socks w2 = socks w1"
    using fopen_wb_ok [OF create] by blast
  let ?c2 = "c1\<lparr>filename := p, boffset := ?h, fp := Opened i, state := READING_SIZE\<rparr>"
  have "read_filename env c1 w1 = Inr (0, ?c2, w2)"
    unfolding rf using w2(1) by (simp add: open_file_def c1)
  then have s2: "serves env (c1, w1) (?c2, w2)"
    by (simp add: serves_def process_request_def receive_skip c1)
  have eq: "min DATA_SIZE ((?h + 8) + length data) - ?h = min (DATA_SIZE - ?h) (8 + length data)" by simp
  have tk: "take (DATA_SIZE - ?h) (size_bytes (length data) @ data) =
       take (min (DATA_SIZE - ?h) (8 + length data)) (drop ?h b)"
    using tk unfolding eq [symmetric] by (simp add: add.commute)
  have sz: "take 8 (drop ?h b) = size_bytes (length data)"
    using arg_cong [OF tk, of "take 8"] h by (simp add: min_def split: if_splits)
  have d: "take (DATA_SIZE - (?h + 8)) data =
      take (min DATA_SIZE ((?h + 8) + length data) - (?h + 8)) (drop (?h + 8) b)"
    using arg_cong [OF tk, of "drop 8"] h by (simp add: drop_take min_def add.commute split: if_splits)
  let ?c3 = "?c2\<lparr>req_size := length data, boffset := ?h + 8, state := READING_DATA\<rparr>"
  have "read_size ?c2 = Inr ?c3"
    using h b sz lt by (simp add: read_size_def c1 bytes_size_inverse)
  then have s3: "serves env (?c2, w2) (?c3, w2)"
    by (simp add: serves_def process_request_def receive_skip)
  have "drop DATA_SIZE ?S = drop (DATA_SIZE - (?h + 8)) data" using h by (simp add: vt drop_Cons')
  then have l2: "link k (drop (DATA_SIZE - (?h + 8)) data) out w2"
    using l1 w2(4) by (simp add: link_def)
  have "\<exists>c' w'. (serves env)\<^sup>*\<^sup>* (?c3, w2) (c', w') \<and> put_done k i ?path data out c' w'"
    by (rule put_first [where a = "?h + 8"]) (use c1 b p h lt d l2 w2 in \<open>simp_all add: new_client_def\<close>)
  then obtain c4 w4 where r4: "(serves env)\<^sup>*\<^sup>* (?c3, w2) (c4, w4)" and d4: "put_done k i ?path data out c4 w4" by blast
  then obtain c5 w5 where s5: "serves env (c4, w4) (c5, w5)" "state c5 = COMPLETE" "link k [] (out @ ok_bytes) w5"
      "same_files w4 w5"
    using ok_response_link [of k "[]" out w4 c4 env] by (auto simp: put_done_def)
  have "(serves env)\<^sup>*\<^sup>* (new_client k junk, w) (c5, w5)"
    using s1 s2 s3 r4 s5(1) by (meson converse_rtranclp_into_rtranclp rtranclp.rtrancl_into_rtrancl)
  moreover have "map_of (dir w5) ?path = Some i" "inodes w5 i = data"
    using d4 same_files_fields [OF s5(4)] by (simp_all add: put_done_def)
  ultimately show ?thesis using s5(2,3) by blast
qed

section \<open>\<open>GET\<close>\<close>

lemma receive_writing: "state c = WRITING_RESPONSE \<Longrightarrow> receive c w = Inr (c, w)"
  by (rule receive_skip) simp

lemma get_data_eq:
  "req_size c = length (inodes w i) \<Longrightarrow> file_offset c = m \<Longrightarrow> m \<le> length (inodes w i) \<Longrightarrow>
   length (inodes w i) < 2 ^ 64 \<Longrightarrow> get_data i c w = take DATA_SIZE (drop m (inodes w i))"
  by (auto simp: get_data_def Let_def size_sub_ge)

lemma get_piece_link:
  assumes "link k S (out @ take m content) w" "fd c = k" "req_size c = length content" "file_offset c = m"
    "m \<le> length content" "length content < 2 ^ 64" "inodes w i = content"
  shows "\<exists>w'. get_piece i c w =
      Inr (if length content \<le> m + DATA_SIZE
           then c\<lparr>file_offset := length content, state := COMPLETE, fp := Closed_file\<rparr>
           else c\<lparr>file_offset := m + DATA_SIZE, state := WRITING_RESPONSE\<rparr>, w') \<and>
    link k S (out @ take (m + DATA_SIZE) content) w' \<and> same_files w w'"
proof -
  let ?d = "take DATA_SIZE (drop m content)"
  obtain w' where w': "fd_send k ?d (length ?d) w = Inr w'" "link k S ((out @ take m content) @ take (length ?d) ?d) w'"
      "same_files w w'"
    using fd_send_link [OF assms(1), of "length ?d" ?d] by auto
  have g: "get_data i c w = ?d" using get_data_eq [of c w i m] assms by simp
  have m: "(m + length ?d) mod 2 ^ 64 = m + length ?d" using assms(5,6) by (intro mod_less) simp
  have "take (length ?d) ?d = ?d" by (rule take_all) simp
  then have "(out @ take m content) @ take (length ?d) ?d = out @ take (m + DATA_SIZE) content"
    by (simp add: take_add)
  moreover have "m + length ?d = (if length content \<le> m + DATA_SIZE then length content else m + DATA_SIZE)"
    using assms(5) by auto
  moreover have "get_piece i c w = Inr (if length content \<le> m + length ?d
      then c\<lparr>file_offset := m + length ?d, state := COMPLETE, fp := Closed_file\<rparr>
      else c\<lparr>file_offset := m + length ?d, state := WRITING_RESPONSE\<rparr>, w')"
    using w'(1) assms(2-4) m by (simp add: get_piece_def g Let_def)
  ultimately show ?thesis using w'(2,3) by (intro exI [of _ w']) (auto split: if_splits)
qed

definition get_wait :: "nat \<Rightarrow> nat \<Rightarrow> char list \<Rightarrow> char list \<Rightarrow> nat \<Rightarrow> Client_info \<Rightarrow> net_world \<Rightarrow> bool" where
  "get_wait k i content out m c w \<longleftrightarrow>
     fd c = k \<and> state c = WRITING_RESPONSE \<and> req_method c = GET \<and> error_type c = -1 \<and> response c = None \<and>
     fp c = Opened i \<and> req_size c = length content \<and> file_offset c = m \<and> 0 < m \<and> m \<le> length content \<and>
     inodes w i = content \<and> link k [] (out @ take m content) w"

lemma serves_get:
  assumes "state c = WRITING_RESPONSE" "req_method c = GET" "error_type c = -1" "response c = None" "fp c = Opened i"
    "get_header i c w = Inr (c1, w1)" "get_piece i c1 w1 = Inr (c2, w2)"
  shows "serves env (c, w) (c2, w2)"
  using assms by (simp add: serves_def receive_writing process_request_def write_response_def send_get_response_def file_of_def)

lemma get_run:
  "get_wait k i content out m c w \<Longrightarrow> length content < 2 ^ 64 \<Longrightarrow>
   \<exists>c' w'. (serves env)\<^sup>*\<^sup>* (c, w) (c', w') \<and> state c' = COMPLETE \<and> link k [] (out @ content) w' \<and> same_files w w'"
proof (induction "length content - m" arbitrary: m c w rule: less_induct)
  case less
  have c: "fd c = k" "state c = WRITING_RESPONSE" "req_method c = GET" "error_type c = -1" "response c = None"
      "fp c = Opened i" "req_size c = length content" "file_offset c = m" "0 < m" "m \<le> length content"
      "inodes w i = content" "link k [] (out @ take m content) w"
    using less.prems(1) by (auto simp: get_wait_def)
  obtain w1 where w1: "get_piece i c w =
      Inr (if length content \<le> m + DATA_SIZE
           then c\<lparr>file_offset := length content, state := COMPLETE, fp := Closed_file\<rparr>
           else c\<lparr>file_offset := m + DATA_SIZE, state := WRITING_RESPONSE\<rparr>, w1)"
    "link k [] (out @ take (m + DATA_SIZE) content) w1" "same_files w w1"
    using get_piece_link [OF c(12,1,7,8,10) less.prems(2) c(11)] by blast
  have "get_header i c w = Inr (c, w)" using c(8,9) by (simp add: get_header_def)
  note s = serves_get [OF c(2-6) this]
  show ?case
  proof (cases "length content \<le> m + DATA_SIZE")
    case True
    have "serves env (c, w) (c\<lparr>file_offset := length content, state := COMPLETE, fp := Closed_file\<rparr>, w1)"
      using s w1(1) True by simp
    moreover have "state (c\<lparr>file_offset := length content, state := COMPLETE, fp := Closed_file\<rparr>) = COMPLETE" by simp
    moreover have "link k [] (out @ content) w1" using w1(2) True by simp
    ultimately show ?thesis using w1(3) r_into_rtranclp [of "serves env"] by blast
  next
    case False
    let ?c = "c\<lparr>file_offset := m + DATA_SIZE, state := WRITING_RESPONSE\<rparr>"
    have "get_wait k i content out (m + DATA_SIZE) ?c w1"
      using c w1(2) same_files_fields(3) [OF w1(3)] False by (simp add: get_wait_def)
    moreover have "length content - (m + DATA_SIZE) < length content - m" using False by (simp add: DATA_SIZE_def)
    ultimately obtain c' w' where r: "(serves env)\<^sup>*\<^sup>* (?c, w1) (c', w')" "state c' = COMPLETE"
        "link k [] (out @ content) w'" "same_files w1 w'"
      using less.hyps less.prems(2) by blast
    have "serves env (c, w) (?c, w1)" using s w1(1) False by simp
    then show ?thesis using r same_files_trans [OF w1(3) r(4)] by (meson converse_rtranclp_into_rtranclp)
  qed
qed

definition ok_line :: "char list" where
  "ok_line = ''OK'' @ [NL]"

lemma get_request:
  assumes name: "plain_name w name" and junk: "length junk = DATA_SIZE" and lt: "length content < 2 ^ 64"
    and l: "link k (''GET '' @ name @ [NL]) out w"
    and there: "map_of (dir w) (temp_directory w @ ''/'' @ name) = Some i" "inodes w i = content"
  shows "\<exists>c' w'. (serves env)\<^sup>*\<^sup>* (new_client k junk, w) (c', w') \<and> state c' = COMPLETE \<and>
    link k [] (out @ ok_line @ size_bytes (length content) @ content) w' \<and> same_files w w'"
proof -
  let ?path = "temp_directory w @ ''/'' @ name"
  have vt: "verb_text GET = ''GET ''" by (simp add: verb_text_def)
  obtain p w1 c1 b n where c1: "c1 = (new_client k junk)\<lparr>req_method := GET, state := READING_FILENAME, buffer := b,
        buffer_size := n, boffset := length (verb_text GET)\<rparr>"
    and s1: "serves env (new_client k junk, w) (c1, w1)"
    and l1: "link k (drop DATA_SIZE (verb_text GET @ name @ [NL])) out w1" and same: "same_files w w1"
    and rf: "read_filename env c1 w1 = Inr (open_file env ?path (c1\<lparr>filename := p, boffset := length (verb_text GET @ name) + 1\<rparr>) w1)"
    by (rule request_line [of GET w name k "[]" out junk env]) (use name junk l in \<open>simp_all add: vt\<close>)
  let ?c2 = "c1\<lparr>filename := p, boffset := length (verb_text GET @ name) + 1, fp := Opened i, state := WRITING_RESPONSE\<rparr>"
  have "read_filename env c1 w1 = Inr (0, ?c2, w1)"
    unfolding rf using there(1) same_files_fields(2) [OF same] by (simp add: open_file_def c1)
  then have s2: "serves env (c1, w1) (?c2, w1)"
    by (simp add: serves_def process_request_def receive_skip c1)
  have "length name < DATA_SIZE - 4" using name by (simp add: plain_name_def MAX_DIRNAME_def DATA_SIZE_def)
  then have "drop DATA_SIZE (verb_text GET @ name @ [NL]) = []" by (simp add: vt)
  then obtain w2 where w2: "fd_send k ok_line 3 w1 = Inr w2" "link k [] (out @ ok_line) w2" "same_files w1 w2"
    using fd_send_link [OF l1, of 3 ok_line] by (auto simp: ok_line_def)
  obtain w3 where w3: "fd_send k (size_bytes (length content)) 8 w2 = Inr w3"
      "link k [] ((out @ ok_line) @ size_bytes (length content)) w3" "same_files w2 w3"
    using fd_send_link [OF w2(2), of 8 "size_bytes (length content)"] by auto
  note same3 = same_files_trans [OF same_files_trans [OF same w2(3)] w3(3)]
  let ?c3 = "?c2\<lparr>req_size := length content\<rparr>"
  have in1: "inodes w1 i = content" using there(2) same_files_fields(3) [OF same] by simp
  have h: "get_header i ?c2 w1 = Inr (?c3, w3)"
    using w2(1) w3(1) in1 by (simp add: get_header_def c1 new_client_def ok_line_def)
  let ?out = "out @ ok_line @ size_bytes (length content)"
  obtain w4 where w4: "get_piece i ?c3 w3 =
      Inr (if length content \<le> 0 + DATA_SIZE
           then ?c3\<lparr>file_offset := length content, state := COMPLETE, fp := Closed_file\<rparr>
           else ?c3\<lparr>file_offset := 0 + DATA_SIZE, state := WRITING_RESPONSE\<rparr>, w4)"
    "link k [] (?out @ take (0 + DATA_SIZE) content) w4" "same_files w3 w4"
    using get_piece_link [of k "[]" ?out 0 content w3 ?c3 i] w3(2) lt there(2) same_files_fields(3) [OF same3]
    by (auto simp: c1 new_client_def)
  note same4 = same_files_trans [OF same3 w4(3)]
  have sg: "serves env (?c2, w1) (c', w')" if "get_piece i ?c3 w3 = Inr (c', w')" for c' w'
    by (rule serves_get [OF _ _ _ _ _ h that]) (simp_all add: c1 new_client_def)
  show ?thesis
  proof (cases "length content \<le> DATA_SIZE")
    case True
    let ?c4 = "?c3\<lparr>file_offset := length content, state := COMPLETE, fp := Closed_file\<rparr>"
    have "serves env (?c2, w1) (?c4, w4)" using w4(1) True by (intro sg) simp
    then have r: "(serves env)\<^sup>*\<^sup>* (new_client k junk, w) (?c4, w4)"
      using s1 s2 by (meson converse_rtranclp_into_rtranclp rtranclp.rtrancl_refl)
    have st: "state ?c4 = COMPLETE" by simp
    have "link k [] (out @ ok_line @ size_bytes (length content) @ content) w4" using w4(2) True by simp
    then show ?thesis using r st same4 by blast
  next
    case False
    let ?c4 = "?c3\<lparr>file_offset := DATA_SIZE, state := WRITING_RESPONSE\<rparr>"
    have s4: "serves env (?c2, w1) (?c4, w4)" using w4(1) False by (intro sg) simp
    have "get_wait k i content ?out DATA_SIZE ?c4 w4"
      using w4(2) False there(2) same_files_fields(3) [OF same4]
      by (simp add: get_wait_def c1 new_client_def DATA_SIZE_def)
    then obtain c' w' where r: "(serves env)\<^sup>*\<^sup>* (?c4, w4) (c', w')" "state c' = COMPLETE"
        "link k [] (?out @ content) w'" "same_files w4 w'"
      using get_run [OF _ lt] by blast
    have "(serves env)\<^sup>*\<^sup>* (new_client k junk, w) (c', w')"
      using s1 s2 s4 r(1) by (meson converse_rtranclp_into_rtranclp)
    then show ?thesis using r(2,3) same_files_trans [OF same4 r(4)] by auto
  qed
qed

section \<open>\<open>LIST\<close> and the errors\<close>

text \<open>The reference for \<open>list_response\<close>: the names with a newline between them.\<close>

fun join_lines :: "string list \<Rightarrow> string" where
  "join_lines [] = []"
| "join_lines [f] = f"
| "join_lines (f # g # fs) = f @ NL # join_lines (g # fs)"

lemma join_lines_snoc: "fs \<noteq> [] \<Longrightarrow> join_lines (fs @ [f]) = join_lines fs @ NL # f"
  by (induction fs rule: join_lines.induct) auto

lemma length_join_lines: "fs \<noteq> [] \<Longrightarrow> length (join_lines fs) + 1 = sum_list (map (\<lambda>f. length f + 1) fs)"
  by (induction fs rule: join_lines.induct) auto

lemma join_lines_concat: "fs \<noteq> [] \<Longrightarrow> join_lines fs @ [NL] = concat (map (\<lambda>f. f @ [NL]) fs)"
  by (induction fs rule: join_lines.induct) auto

lemma list_response_join:
  assumes "req_method c = LIST" "state c = WRITING_RESPONSE" "temp_dir_opens w"
  shows "list_response env c w =
    Inr (join_lines (listing w) @ (if listing w = [] then [] else [heap_byte env]),
         sum_list (map (\<lambda>f. length f + 1) (listing w)))"
proof -
  let ?fs = "listing w" and ?h = "heap_byte env"
  let ?size = "\<lambda>i. sum_list (map (\<lambda>f. length f + 1) (take i ?fs))"
  define body where "body = (\<lambda>i (data, ptr).
     let file = ?fs ! i; len = length file in
       rbind (put_bytes data ptr file) (\<lambda>data.
       let ptr = ptr + len in
       rbind (if i \<noteq> length ?fs - 1 then wr data ptr NL else Inr data) (\<lambda>data. Inr (data, ptr + 1))))"
  let ?total = "sum_list (map (\<lambda>f. length f + 1) ?fs)"
  define P where "P = (\<lambda>i (data, ptr). ptr = ?size i \<and>
     data = (if i < length ?fs then concat (map (\<lambda>f. f @ [NL]) (take i ?fs))
             else join_lines ?fs @ (if ?fs = [] then [] else [?h])) @ replicate (?total - ?size i) ?h)"
  have len: "length (concat (map (\<lambda>f. f @ [NL]) (take i ?fs))) = ?size i" for i
    by (simp add: length_concat comp_def)
  have tot: "?total = ?size i + (length (?fs ! i) + 1) + sum_list (map (\<lambda>f. length f + 1) (drop (Suc i) ?fs))"
    if "i < length ?fs" for i
    using arg_cong [OF id_take_nth_drop [OF that], of "\<lambda>l. sum_list (map (\<lambda>f. length f + 1) l)"] by simp
  have "\<exists>s. rfold body [0..<length ?fs] (replicate ?total ?h, 0) = Inr s \<and> P (length ?fs) s"
  proof (rule rfold_range_rule)
    show "P 0 (replicate ?total ?h, 0)" by (simp add: P_def)
    fix i s assume i: "0 \<le> i" "i < length ?fs" and p: "P i s"
    let ?pre = "concat (map (\<lambda>f. f @ [NL]) (take i ?fs))" and ?f = "?fs ! i"
    let ?r = "sum_list (map (\<lambda>f. length f + 1) (drop (Suc i) ?fs))"
    have s: "s = (?pre @ replicate (length ?f + 1 + ?r) ?h, length ?pre)"
      using p i(2) tot [OF i(2)] len by (cases s) (simp add: P_def)
    have sz: "?size (Suc i) = ?size i + (length ?f + 1)" using i(2) by (simp add: take_Suc_conv_app_nth)
    have rest: "?total - ?size (Suc i) = ?r" using tot [OF i(2)] sz by simp
    have put: "put_bytes (?pre @ replicate (length ?f + 1 + ?r) ?h) (length ?pre) ?f =
        Inr (?pre @ ?f @ ?h # replicate ?r ?h)"
      by (simp only: add.assoc replicate_add) (simp add: put_bytes_def)
    show "\<exists>s'. body i s = Inr s' \<and> P (Suc i) s'"
    proof (cases "i = length ?fs - 1")
      case True
      then have "Suc i = length ?fs" using i(2) by simp
      then have eq: "?fs = take i ?fs @ [?f]" "?r = 0"
        using i(2) take_Suc_conv_app_nth [OF i(2)] by simp_all
      have "join_lines ?fs = ?pre @ ?f"
      proof (cases "take i ?fs = []")
        case True
        then show ?thesis using eq(1) by (metis append_Nil concat.simps(1) join_lines.simps(2) list.simps(8))
      next
        case False
        have "join_lines (take i ?fs @ [?f]) = (join_lines (take i ?fs) @ [NL]) @ ?f" using join_lines_snoc [OF False] by simp
        then show ?thesis using join_lines_concat [OF False] eq(1) by simp
      qed
      then have "P (Suc i) (?pre @ ?f @ ?h # replicate ?r ?h, length ?pre + length ?f + 1)"
        using True i(2) sz len rest eq(2) \<open>Suc i = length ?fs\<close> by (auto simp: P_def)
      then show ?thesis using s put True by (simp add: body_def Let_def)
    next
      case False
      have "Suc i < length ?fs" using False i(2) by linarith
      have "wr (?pre @ ?f @ ?h # replicate ?r ?h) (length ?pre + length ?f) NL = Inr (?pre @ ?f @ NL # replicate ?r ?h)"
        by (simp add: list_update_append)
      moreover have "P (Suc i) (?pre @ ?f @ NL # replicate ?r ?h, length ?pre + length ?f + 1)"
        using \<open>Suc i < length ?fs\<close> sz len rest by (auto simp: P_def take_Suc_conv_app_nth)
      ultimately show ?thesis using s put False by (simp add: body_def Let_def)
    qed
  qed simp
  then obtain data ptr where r: "rfold body [0..<length ?fs] (replicate ?total ?h, 0) = Inr (data, ptr)"
      "P (length ?fs) (data, ptr)"
    by (metis surj_pair)
  have "data = join_lines ?fs @ (if ?fs = [] then [] else [?h])"
    using r(2) by (simp add: P_def)
  then show ?thesis
    using r(1) assms unfolding list_response_def body_def Let_def by simp
qed

lemma write_list:
  assumes "error_type c = -1" "req_method c = LIST" "list_response env c w = Inr (d, n)" "fd c = k"
    "fd_send k ok_line 3 w = Inr w2" "fd_send k (size_bytes (if n \<noteq> 0 then n - 1 else n)) 8 w2 = Inr w3"
    "fd_send k d (if n \<noteq> 0 then n - 1 else n) w3 = Inr w4"
  shows "write_response env c w = Inr (0, c\<lparr>state := COMPLETE\<rparr>, w4)"
  using assms by (simp add: write_response_def ok_line_def Let_def)

lemma list_request:
  assumes junk: "length junk = DATA_SIZE" and l: "link k (''LIST'' @ [NL]) out w" and opens: "temp_dir_opens w"
  shows "\<exists>c' w'. (serves env)\<^sup>*\<^sup>* (new_client k junk, w) (c', w') \<and> state c' = COMPLETE \<and>
    link k [] (out @ ok_line @ size_bytes (length (join_lines (listing w))) @ join_lines (listing w)) w' \<and> same_files w w'"
proof -
  let ?c = "new_client k junk" and ?j = "join_lines (listing w)"
  obtain w1 where w1: "receive ?c w = Inr (?c\<lparr>buffer := ''LIST'' @ NL # drop 5 junk, buffer_size := 5\<rparr>, w1)"
      "link k [] out w1" "same_files w w1"
    using receive_link [OF l, of ?c] junk by (auto simp: new_client_def DATA_SIZE_def numeral_eq_Suc)
  let ?c1 = "?c\<lparr>buffer := ''LIST'' @ NL # drop 5 junk, buffer_size := 5, req_method := LIST, state := WRITING_RESPONSE\<rparr>"
  have s1: "serves env (?c, w) (?c1, w1)"
    using w1(1) by (simp add: serves_def process_request_def read_verb_def new_client_def)
  let ?n = "sum_list (map (\<lambda>f. length f + 1) (listing w))"
  let ?m = "if ?n \<noteq> 0 then ?n - 1 else ?n"
  let ?d = "?j @ (if listing w = [] then [] else [heap_byte env])"
  have lr: "list_response env ?c1 w1 = Inr (?d, ?n)"
    using list_response_join [of ?c1 w1 env] opens same_files_fields [OF w1(3)] by simp
  have m: "?m = length ?j" "take ?m ?d = ?j"
    using length_join_lines [of "listing w"] by (cases "listing w = []"; simp)+
  obtain w2 where w2: "fd_send k ok_line 3 w1 = Inr w2" "link k [] (out @ ok_line) w2" "same_files w1 w2"
    using fd_send_link [OF w1(2), of 3 ok_line] by (auto simp: ok_line_def)
  obtain w3 where w3: "fd_send k (size_bytes ?m) 8 w2 = Inr w3"
      "link k [] ((out @ ok_line) @ size_bytes ?m) w3" "same_files w2 w3"
    using fd_send_link [OF w2(2), of 8 "size_bytes ?m"] by auto
  obtain w4 where w4: "fd_send k ?d ?m w3 = Inr w4"
      "link k [] (((out @ ok_line) @ size_bytes ?m) @ ?j) w4" "same_files w3 w4"
    using fd_send_link [OF w3(2), of ?m ?d] m by auto
  have "write_response env ?c1 w1 = Inr (0, ?c1\<lparr>state := COMPLETE\<rparr>, w4)"
    by (rule write_list [OF _ _ lr _ w2(1) w3(1) w4(1)]) (simp_all add: new_client_def)
  then have "serves env (?c1, w1) (?c1\<lparr>state := COMPLETE\<rparr>, w4)"
    by (simp add: serves_def receive_writing process_request_def)
  then have r: "(serves env)\<^sup>*\<^sup>* (?c, w) (?c1\<lparr>state := COMPLETE\<rparr>, w4)"
    using s1 by (meson converse_rtranclp_into_rtranclp rtranclp.rtrancl_refl)
  have st: "state (?c1\<lparr>state := COMPLETE\<rparr>) = COMPLETE" by simp
  have "same_files w w4" using w1(3) w2(3) w3(3) w4(3) same_files_trans by blast
  moreover have "link k [] (out @ ok_line @ size_bytes (length ?j) @ ?j) w4" using w4(2) m(1) by simp
  ultimately show ?thesis using r st by blast
qed

text \<open>The message of an error.\<close>

definition err_text :: "server_env \<Rightarrow> int \<Rightarrow> string" where
  "err_text env e = (if e = 0 then err_bad_request env else if e = 1 then err_bad_file_size env else err_no_such_file env)"

text \<open>C35: The memory errors of a request. A name that does not fit behind the name of the directory in the
  array of 265 bytes is written past its end. An error is answered with \<open>ERROR\<close> and its message and
  completes the request only if the allocator gave more bytes than were asked for: the block is one byte
  too short for the terminating zero.\<close>

theorem server_overruns:
  assumes "error_type c \<in> {0, 1, 2}" "state c = WRITING_RESPONSE" "link (fd c) S out w"
    and "state d = READING_FILENAME" "drop (boffset d) (buffer d) = name @ NL # rest" "NL \<notin> set name" "NUL \<notin> set name"
      "MAX_DIRNAME < length (temp_directory w) + 1 + length name"
  shows "process_request env d w = Inl Out_of_bounds \<and>
    (if usable env (6 + length (err_text env (error_type c))) \<le> 6 + length (err_text env (error_type c))
     then process_request env c w = Inl Out_of_bounds
     else \<exists>c' w'. process_request env c w = Inr (0, c', w') \<and> state c' = COMPLETE \<and> same_files w w' \<and>
       link (fd c) S (out @ ''ERROR'' @ NL # err_text env (error_type c)) w')"
proof
  have "put_bytes (replicate MAX_DIRNAME NUL) (length (temp_directory w) + 1) name = Inl Out_of_bounds"
    using assms(8) by (simp add: put_bytes_def)
  then show "process_request env d w = Inl Out_of_bounds"
    using assms(4-7) by (simp add: process_request_def read_filename_def strchr_nl_at build_path_def)
  let ?m = "err_text env (error_type c)"
  have e: "process_request env c w = rbind (err_response env ?m c w) (\<lambda>(c, w). Inr (0, c\<lparr>state := COMPLETE\<rparr>, w))"
    using assms(1,2) by (auto simp: process_request_def write_response_def err_text_def)
  show "if usable env (6 + length ?m) \<le> 6 + length ?m then process_request env c w = Inl Out_of_bounds
     else \<exists>c' w'. process_request env c w = Inr (0, c', w') \<and> state c' = COMPLETE \<and> same_files w w' \<and>
       link (fd c) S (out @ ''ERROR'' @ NL # ?m) w'"
  proof (cases "usable env (6 + length ?m) \<le> 6 + length ?m")
    case True
    then show ?thesis unfolding e by (simp add: err_response_def Let_def numeral_eq_Suc)
  next
    case False
    let ?t = "''ERROR'' @ NL # ?m"
    obtain w' where w': "fd_send (fd c) ?t (length ?t) w = Inr w'" "link (fd c) S (out @ take (length ?t) ?t) w'" "same_files w w'"
      using fd_send_link [OF assms(3), of "length ?t" ?t] by auto
    have "err_response env ?m c w = Inr (c\<lparr>response := Some ?t\<rparr>, w')"
      using False w'(1) by (simp add: err_response_def Let_def numeral_eq_Suc)
    then have "process_request env c w = Inr (0, c\<lparr>response := Some ?t, state := COMPLETE\<rparr>, w')" unfolding e by simp
    moreover have "state (c\<lparr>response := Some ?t, state := COMPLETE\<rparr>) = COMPLETE" by simp
    ultimately show ?thesis using False w'(2,3) unfolding take_all [OF order_refl] if_not_P [OF False] by blast
  qed
qed

theorem server_overruns_witness:
  "process_request \<lparr>err_bad_request = ''bad'', err_bad_file_size = ''size'', err_no_such_file = ''none'',
      can_create = (\<lambda>_. True), usable = (\<lambda>n. n), heap_byte = NUL\<rparr>
    ((new_client 4 [])\<lparr>error_type := 2, state := WRITING_RESPONSE\<rparr>) demo_world = Inl Out_of_bounds"
proof -
  let ?d = "(new_client 4 (replicate 300 (CHR ''x'') @ [NL]))\<lparr>state := READING_FILENAME\<rparr>"
  let ?env = "\<lparr>err_bad_request = ''bad'', err_bad_file_size = ''size'', err_no_such_file = ''none'',
      can_create = (\<lambda>_. True), usable = (\<lambda>n. n), heap_byte = NUL\<rparr>"
  let ?c = "(new_client 4 [])\<lparr>error_type := 2, state := WRITING_RESPONSE\<rparr>"
  have c: "error_type ?c \<in> {0, 1, 2}" "state ?c = WRITING_RESPONSE" "link (fd ?c) [] [] demo_world"
    by (simp_all add: new_client_def link_def demo_world_def)
  have d: "state ?d = READING_FILENAME" "drop (boffset ?d) (buffer ?d) = replicate 300 (CHR ''x'') @ NL # []"
    "NL \<notin> set (replicate 300 (CHR ''x''))" "NUL \<notin> set (replicate 300 (CHR ''x''))"
    "MAX_DIRNAME < length (temp_directory demo_world) + 1 + length (replicate 300 (CHR ''x''))"
    by (simp_all add: new_client_def NL_def NUL_def MAX_DIRNAME_def)
  show ?thesis using server_overruns [OF c d, of ?env] by simp
qed

end
