(* ===== verification/Net_Client.thy ===== *)
theory Net_Client
  imports Net_Common
begin

text \<open>
  \<open>nonstop_networking/client.c\<close>: the command line, the request and the reply.

  The client's world is its files, its socket and the messages it prints (those of \<open>format.h\<close>, and the
  listing on standard output; the progress lines it also prints are left out). \<open>may_write\<close> says which
  paths \<open>fopen(path, "wb")\<close> can open, \<open>malloc_ok\<close> which sizes \<open>malloc\<close> can serve, and \<open>heap_junk\<close> is what a
  fresh block holds. A pointer to a string that may be null is an option.
\<close>

datatype message =
  Client_usage | Client_help | Invalid_response | Too_little_data | Too_much_data | Success | Error_message string |
  Stdout string

record client_env =
  may_write :: "string \<Rightarrow> bool"
  malloc_ok :: "nat \<Rightarrow> bool"
  heap_junk :: char

record client_world =
  files :: "string \<Rightarrow> char list option"
  csock :: sock
  messages :: "message list"

definition say :: "message \<Rightarrow> client_world \<Rightarrow> client_world" where
  "say m w = w\<lparr>messages := messages w @ [m]\<rparr>"

section \<open>The command line\<close>

text \<open>\<open>strtok\<close> with one delimiter: the next token and what follows it.\<close>

definition strtok :: "char \<Rightarrow> string \<Rightarrow> (string \<times> string) option" where
  "strtok d s =
     (let t = dropWhile (\<lambda>c. c = d) s in
      if t = [] then None else Some (takeWhile (\<lambda>c. c \<noteq> d) t, drop 1 (dropWhile (\<lambda>c. c \<noteq> d) t)))"

text \<open>The result is \<open>{host, port, method, remote, local, NULL}\<close>.\<close>

definition parse_args :: "string list \<Rightarrow> string option list option" where
  "parse_args argv =
     (if length argv < 3 then None
      else case strtok (CHR '':'') (argv ! 1) of
          None \<Rightarrow> None
        | Some (host, rest) \<Rightarrow>
            (case strtok (CHR '':'') rest of
               None \<Rightarrow> None
             | Some (port, _) \<Rightarrow>
                 Some [Some host, Some port, Some (map toupper (argv ! 2)),
                       if length argv > 3 then Some (argv ! 3) else None,
                       if length argv > 4 then Some (argv ! 4) else None, None]))"

definition check_args :: "string option list option \<Rightarrow> verb outcome" where
  "check_args args =
     (case args of
        None \<Rightarrow> Inl (Exit_status 1)
      | Some args \<Rightarrow>
          if args ! 2 = Some ''LIST'' then Inr LIST
          else if args ! 2 = Some ''GET''
          then (if args ! 3 \<noteq> None \<and> args ! 4 \<noteq> None then Inr GET else Inl (Exit_status 1))
          else if args ! 2 = Some ''DELETE''
          then (if args ! 3 \<noteq> None then Inr DELETE else Inl (Exit_status 1))
          else if args ! 2 = Some ''PUT''
          then (if args ! 3 = None \<or> args ! 4 = None then Inl (Exit_status 1) else Inr PUT)
          else Inl (Exit_status 1))"

section \<open>The request\<close>

definition create_request :: "client_env \<Rightarrow> verb \<Rightarrow> string option \<Rightarrow> string option \<Rightarrow> client_world \<Rightarrow> Cli_Request outcome" where
  "create_request env m remote local w =
     (let req = \<lparr>rq_method = m, rq_special = NUL,
                 rq_filename = (case remote of
                     None \<Rightarrow> replicate (MAX_FILENAME + 1) (heap_junk env)
                   | Some r \<Rightarrow> strncpy_bytes r MAX_FILENAME @ [heap_junk env]),
                 rq_size = 0\<rparr> in
      case local of
        Some l \<Rightarrow>
          if m = PUT
          then (case files w l of None \<Rightarrow> Inl (Exit_status 1) | Some data \<Rightarrow> Inr (req\<lparr>rq_size := length data\<rparr>))
          else Inr req
      | None \<Rightarrow> Inr req)"

text \<open>\<open>snprintf(buffer, DATA_SIZE, ...)\<close> and then \<open>sendall(sockfd, buffer, strlen(buffer))\<close>.\<close>

definition send_line :: "string \<Rightarrow> client_world \<Rightarrow> client_world outcome" where
  "send_line text w =
     (let buffer = take (DATA_SIZE - 1) text @ [NUL] in
      rbind (cstr buffer 0) (\<lambda>line.
      rbind (sendall buffer (length line) (csock w)) (\<lambda>(_, s). Inr (w\<lparr>csock := s\<rparr>))))"

text \<open>The loop that reads the file in pieces of \<open>DATA_SIZE\<close> bytes and sends each.\<close>

function send_file :: "char list \<Rightarrow> client_world \<Rightarrow> client_world outcome" where
  "send_file data w =
     (let bytes_read = min DATA_SIZE (length data) in
      if bytes_read \<le> 0 then Inr w
      else rbind (sendall (take bytes_read data) bytes_read (csock w)) (\<lambda>(_, s).
        send_file (drop bytes_read data) (w\<lparr>csock := s\<rparr>)))"
  by pat_completeness auto
termination by (relation "measure (\<lambda>(data, w). length data)") (auto simp: DATA_SIZE_def)

declare send_file.simps [simp del]

definition send_to_server :: "Cli_Request \<Rightarrow> string option \<Rightarrow> client_world \<Rightarrow> (int \<times> client_world) outcome" where
  "send_to_server req local w =
     (case rq_method req of
        GET \<Rightarrow> rbind (cstr (rq_filename req) 0) (\<lambda>name.
          rbind (send_line (''GET '' @ name @ [NL]) w) (\<lambda>w. Inr (0, w)))
      | PUT \<Rightarrow> rbind (cstr (rq_filename req) 0) (\<lambda>name.
          rbind (send_line (''PUT '' @ name @ [NL]) w) (\<lambda>w.
          rbind (sendall (size_bytes (rq_size req)) 8 (csock w)) (\<lambda>(_, s).
          let w = w\<lparr>csock := s\<rparr> in
          case local of
            None \<Rightarrow> Inl Null_deref
          | Some l \<Rightarrow>
              (case files w l of
                 None \<Rightarrow> Inr (1, w)
               | Some data \<Rightarrow> rbind (send_file data w) (\<lambda>w. Inr (0, w))))))
      | DELETE \<Rightarrow> rbind (cstr (rq_filename req) 0) (\<lambda>name.
          rbind (send_line (''DELETE '' @ name @ [NL]) w) (\<lambda>w. Inr (0, w)))
      | LIST \<Rightarrow> rbind (send_line (''LIST'' @ [NL]) w) (\<lambda>w. Inr (0, w))
      | V_UNKNOWN \<Rightarrow> Inr (1, w))"

section \<open>The reply\<close>

definition recv_c :: "nat \<Rightarrow> client_world \<Rightarrow> nat \<times> char list \<times> client_world" where
  "recv_c n w = (let (count, bs, es) = recvall n (inq (csock w)) in (count, bs, w\<lparr>csock := (csock w)\<lparr>inq := es\<rparr>\<rparr>))"

lemma recv_stream: "recv n es = (Some bs, es') \<Longrightarrow> stream es = bs @ stream es'"
  by (cases "(n, es)" rule: recv.cases) (auto split: if_splits)

lemma recv_fail_stream: "recv n es = (None, es') \<Longrightarrow> stream es = stream es'"
  by (cases "(n, es)" rule: recv.cases) (auto split: if_splits)

lemma recvall_loop_stream:
  "recvall_loop len d buf es = (t, b, es') \<Longrightarrow> \<exists>bs. b = buf @ bs \<and> t = d + length bs \<and> stream es = bs @ stream es'"
proof (induction len d buf es rule: recvall_loop.induct)
  case (1 len d buf es)
  define n where "n = (if DATA_SIZE < len - d then DATA_SIZE else len - d)"
  obtain r es1 where r: "recv n es = (r, es1)" by (cases "recv n es")
  show ?case
  proof (cases "d < len")
    case d: True
    show ?thesis
    proof (cases r)
      case None
      then show ?thesis using 1(2) d r recv_fail_stream [of n es es1]
        by (subst (asm) recvall_loop.simps) (simp add: n_def Let_def)
    next
      case (Some bs)
      note st = recv_stream [OF r [unfolded Some]]
      show ?thesis
      proof (cases "bs = []")
        case True
        then show ?thesis using 1(2) d r Some st
          by (subst (asm) recvall_loop.simps) (simp add: n_def Let_def)
      next
        case False
        have "recvall_loop len (d + length bs) (buf @ bs) es1 = (t, b, es')"
          using 1(2) d r Some False by (subst (asm) recvall_loop.simps) (simp add: n_def Let_def)
        then have "\<exists>bs'. b = (buf @ bs) @ bs' \<and> t = d + length bs + length bs' \<and> stream es1 = bs' @ stream es'"
          using 1(1) [OF d refl refl, of r es1 bs] r Some False unfolding n_def by simp
        then show ?thesis using st by auto
      qed
    qed
  next
    case False
    then show ?thesis using 1(2) by (subst (asm) recvall_loop.simps) simp
  qed
qed

lemma recvall_stream: "recvall len es = (t, bs, es') \<Longrightarrow> t = length bs \<and> stream es = bs @ stream es'"
  using recvall_loop_stream [of len 0 "[]" es t bs es'] by (auto simp: recvall_def)

text \<open>The loop that receives to the end of the stream, for \<open>GET\<close>.\<close>

function read_all :: "client_world \<Rightarrow> char list \<times> client_world" where
  "read_all w =
     (let (tot, bs, w) = recv_c DATA_SIZE w in
      if tot = 0 then ([], w) else let (rest, w) = read_all w in (bs @ rest, w))"
  by pat_completeness auto
termination
  by (relation "measure (\<lambda>w. length (stream (inq (csock w))))")
    (auto simp: recv_c_def Let_def split: prod.splits dest!: recvall_stream)

declare read_all.simps [simp del]

text \<open>For \<open>LIST\<close> the loop stops as soon as more than \<open>size\<close> bytes have come, and copies them into a block
  of \<open>block\<close> bytes, or to no block when \<open>malloc\<close> failed.\<close>

function read_list :: "nat option \<Rightarrow> nat \<Rightarrow> char list \<Rightarrow> client_world \<Rightarrow> (char list option \<times> client_world) outcome" where
  "read_list block n got w =
     (let (tot, bs, w) = recv_c DATA_SIZE w in
      if tot = 0 then Inr (Some got, w)
      else if length got + tot > n then Inr (None, w)
      else case block of
          None \<Rightarrow> Inl Null_deref
        | Some b \<Rightarrow> if b < length got + tot then Inl Out_of_bounds else read_list block n (got @ bs) w)"
  by pat_completeness auto
termination
  by (relation "measure (\<lambda>(block, n, got, w). length (stream (inq (csock w))))")
    (auto simp: recv_c_def Let_def split: prod.splits dest!: recvall_stream)

declare read_list.simps [simp del]

definition get_reply :: "client_env \<Rightarrow> string option \<Rightarrow> client_world \<Rightarrow> (int \<times> client_world) outcome" where
  "get_reply env local w =
     (let (_, bs, w) = recv_c 8 w; size' = bytes_size bs in
      case local of
        None \<Rightarrow> Inl Null_deref
      | Some l \<Rightarrow>
          if \<not> may_write env l then Inr (1, w)
          else
            let (data, w) = read_all w;
                w = w\<lparr>files := (files w)(l \<mapsto> data)\<rparr> in
            if length data < size' then Inr (1, say Too_little_data (w\<lparr>files := (files w)(l := None)\<rparr>))
            else if length data > size' then Inr (1, say Too_much_data (w\<lparr>files := (files w)(l := None)\<rparr>))
            else Inr (0, w))"

text \<open>\<open>malloc(size + 1)\<close> is \<open>malloc(0)\<close> for the largest size.\<close>

definition list_reply :: "client_env \<Rightarrow> client_world \<Rightarrow> (int \<times> client_world) outcome" where
  "list_reply env w =
     (let (_, bs, w) = recv_c 8 w; n = bytes_size bs; bytes = (n + 1) mod 2 ^ 64;
          block = (if malloc_ok env bytes then Some bytes else None) in
      rbind (read_list block n [] w) (\<lambda>(r, w).
      case r of
        None \<Rightarrow> Inr (1, say Too_much_data w)
      | Some output \<Rightarrow>
          if length output < n then Inr (1, say Too_little_data w)
          else
            (case block of
               None \<Rightarrow> Inl Null_deref
             | Some b \<Rightarrow>
                 if b \<le> n then Inl Out_of_bounds
                 else rbind (cstr (output @ [NUL]) 0) (\<lambda>text. Inr (0, say (Stdout text) w)))))"

text \<open>The message of an error is collected with \<open>strncat\<close> into an array of 256 bytes.\<close>

function read_error :: "string \<Rightarrow> client_world \<Rightarrow> (string \<times> client_world) outcome" where
  "read_error msg w =
     (let (n, bs, w) = recv_c 1 w in
      if n = 0 then Inr (msg, w)
      else if bs ! 0 = NL then Inr (msg, w)
      else if bs ! 0 = NUL then read_error msg w
      else if length msg + 1 \<ge> 256 then Inl Out_of_bounds
      else read_error (msg @ [bs ! 0]) w)"
  by pat_completeness auto
termination
  by (relation "measure (\<lambda>(msg, w). length (stream (inq (csock w))))")
    (auto simp: recv_c_def Let_def split: prod.splits dest!: recvall_stream)

declare read_error.simps [simp del]

definition get_from_server ::
  "client_env \<Rightarrow> Cli_Request \<Rightarrow> string option \<Rightarrow> client_world \<Rightarrow> (int \<times> client_world) outcome" where
  "get_from_server env req local w =
     (let buffer = replicate DATA_SIZE NUL; (_, bs, w) = recv_c 1 w in
      rbind (put_bytes buffer 0 bs) (\<lambda>buffer.
      if buffer ! 0 = CHR ''O'' then
        let (_, bs, w) = recv_c 2 w in
        rbind (put_bytes buffer 1 bs) (\<lambda>buffer.
        rbind (cstr buffer 0) (\<lambda>text.
        if text \<noteq> ''OK'' @ [NL] then Inr (1, say Invalid_response w)
        else if rq_method req = GET then get_reply env local w
        else if rq_method req = LIST then list_reply env w
        else Inr (0, say Success w)))
      else if buffer ! 0 = CHR ''E'' then
        let (_, bs, w) = recv_c 5 w in
        rbind (put_bytes buffer 1 bs) (\<lambda>buffer.
        rbind (cstr buffer 0) (\<lambda>text.
        if text \<noteq> ''ERROR'' @ [NL] then Inr (1, say Invalid_response w)
        else rbind (read_error [] w) (\<lambda>(msg, w). Inr (1, say (Error_message msg) w))))
      else Inr (1, say Invalid_response w)))"

text \<open>\<open>main\<close>, on a socket that is connected; \<open>shut\<close> is whether \<open>shutdown\<close> succeeds. The result is the
  exit status.\<close>

definition client_main :: "client_env \<Rightarrow> bool \<Rightarrow> string list \<Rightarrow> client_world \<Rightarrow> (int \<times> client_world) outcome" where
  "client_main env shut argv w =
     (case parse_args argv of
        None \<Rightarrow> Inr (1, say Client_usage w)
      | Some args \<Rightarrow>
          rbind (check_args (Some args)) (\<lambda>m.
          let remote = (if m = LIST then None else args ! 3); local = (if m = LIST then None else args ! 4) in
          rbind (create_request env m remote local w) (\<lambda>req.
          rbind (send_to_server req local w) (\<lambda>(r, w).
          if r \<noteq> 0 then Inr (1, w)
          else if \<not> shut then Inr (1, w)
          else rbind (get_from_server env req local w) (\<lambda>(r, w). if r \<noteq> 0 then Inr (1, w) else Inr (0, w))))))"

end
