(* ===== verification/Net_Transfer.thy ===== *)
theory Net_Transfer
  imports Net_Requests Net_Client
begin

text \<open>
  The two programs of \<open>nonstop_networking\<close> together: the client's request, as \<open>client.c\<close> sends it, is what
  \<open>server.c\<close> serves, and the server's reply is what the client accepts. Each theorem names the bytes that
  go either way and says that each side, given the other's bytes in segments of any sizes, sends exactly
  its own.
\<close>

section \<open>The client on a well-behaved connection\<close>

lemma recv_c_segments:
  assumes "segments (inq (csock w))" "stream (inq (csock w)) = S"
  shows "\<exists>es. recv_c n w = (min n (length S), take n S, w\<lparr>csock := (csock w)\<lparr>inq := es\<rparr>\<rparr>) \<and>
    segments es \<and> stream es = drop n S"
  using recvall_segments [OF assms(1), of n] assms(2) by (auto simp: recv_c_def)

lemma read_all_segments:
  "segments (inq (csock w)) \<Longrightarrow> read_all w = (stream (inq (csock w)), w\<lparr>csock := (csock w)\<lparr>inq := []\<rparr>\<rparr>)"
proof (induction "length (stream (inq (csock w)))" arbitrary: w rule: less_induct)
  case less
  let ?S = "stream (inq (csock w))"
  obtain es where es: "recv_c DATA_SIZE w = (min DATA_SIZE (length ?S), take DATA_SIZE ?S, w\<lparr>csock := (csock w)\<lparr>inq := es\<rparr>\<rparr>)"
      "segments es" "stream es = drop DATA_SIZE ?S"
    using recv_c_segments [OF less.prems refl] by blast
  show ?case
  proof (cases "?S = []")
    case True
    then have "es = []" using es(2,3) stream_empty by auto
    then show ?thesis using es(1) True by (subst read_all.simps) simp
  next
    case False
    then have "length (stream es) < length ?S" "min DATA_SIZE (length ?S) \<noteq> 0"
      using es(3) by (simp_all add: DATA_SIZE_def)
    then have "read_all (w\<lparr>csock := (csock w)\<lparr>inq := es\<rparr>\<rparr>) = (stream es, w\<lparr>csock := (csock w)\<lparr>inq := []\<rparr>\<rparr>)"
      using less.hyps [of "w\<lparr>csock := (csock w)\<lparr>inq := es\<rparr>\<rparr>"] es(2) by simp
    then show ?thesis using es(1,3) \<open>min DATA_SIZE (length ?S) \<noteq> 0\<close>
      by (subst read_all.simps) (simp, simp add: min_def DATA_SIZE_def)
  qed
qed

lemma read_list_segments:
  "segments (inq (csock w)) \<Longrightarrow> length got + length (stream (inq (csock w))) \<le> n \<Longrightarrow> n \<le> b \<Longrightarrow>
   read_list (Some b) n got w = Inr (Some (got @ stream (inq (csock w))), w\<lparr>csock := (csock w)\<lparr>inq := []\<rparr>\<rparr>)"
proof (induction "length (stream (inq (csock w)))" arbitrary: w got rule: less_induct)
  case less
  let ?S = "stream (inq (csock w))"
  obtain es where es: "recv_c DATA_SIZE w = (min DATA_SIZE (length ?S), take DATA_SIZE ?S, w\<lparr>csock := (csock w)\<lparr>inq := es\<rparr>\<rparr>)"
      "segments es" "stream es = drop DATA_SIZE ?S"
    using recv_c_segments [OF less.prems(1) refl] by blast
  show ?case
  proof (cases "?S = []")
    case True
    then have "es = []" using es(2,3) stream_empty by auto
    then show ?thesis using es(1) True by (subst read_list.simps) simp
  next
    case False
    then have lt: "length (stream es) < length ?S" "min DATA_SIZE (length ?S) \<noteq> 0"
      using es(3) by (simp_all add: DATA_SIZE_def)
    have bound: "length got + min DATA_SIZE (length ?S) \<le> n" using less.prems(2) by simp
    have "read_list (Some b) n (got @ take DATA_SIZE ?S) (w\<lparr>csock := (csock w)\<lparr>inq := es\<rparr>\<rparr>) =
        Inr (Some ((got @ take DATA_SIZE ?S) @ stream es), w\<lparr>csock := (csock w)\<lparr>inq := []\<rparr>\<rparr>)"
      using less.hyps [of "w\<lparr>csock := (csock w)\<lparr>inq := es\<rparr>\<rparr>" "got @ take DATA_SIZE ?S"] es(2,3) lt less.prems(2,3) by simp
    then show ?thesis using es(1,3) lt bound less.prems(3) by (subst read_list.simps) simp
  qed
qed

lemma send_line_plain:
  assumes "sends (csock w) = []" "NUL \<notin> set text" "length text < DATA_SIZE"
  shows "send_line text w = Inr (w\<lparr>csock := (csock w)\<lparr>outq := outq (csock w) @ text\<rparr>\<rparr>)"
proof -
  have "take (DATA_SIZE - 1) text = text" using assms(3) by simp
  then show ?thesis using assms(1,2) by (simp add: send_line_def Let_def sendall_plain)
qed

lemma send_file_plain:
  "sends (csock w) = [] \<Longrightarrow> send_file data w = Inr (w\<lparr>csock := (csock w)\<lparr>outq := outq (csock w) @ data\<rparr>\<rparr>)"
proof (induction "length data" arbitrary: data w rule: less_induct)
  case less
  show ?case
  proof (cases "data = []")
    case True
    then show ?thesis by (subst send_file.simps) simp
  next
    case False
    let ?n = "min DATA_SIZE (length data)"
    let ?w = "w\<lparr>csock := (csock w)\<lparr>outq := outq (csock w) @ take ?n data\<rparr>\<rparr>"
    have n: "0 < ?n" using False by (simp add: DATA_SIZE_def)
    have "sendall (take ?n data) ?n (csock w) = Inr (?n, (csock w)\<lparr>outq := outq (csock w) @ take ?n data\<rparr>)"
      using sendall_plain [OF less.prems, of ?n "take ?n data"] by simp
    then have "send_file data w = send_file (drop ?n data) ?w"
      using n by (subst send_file.simps) (simp add: Let_def, simp add: min_def DATA_SIZE_def)
    also have "\<dots> = Inr (?w\<lparr>csock := (csock ?w)\<lparr>outq := outq (csock ?w) @ drop ?n data\<rparr>\<rparr>)"
      by (rule less.hyps) (use n less.prems False in auto)
    finally show ?thesis by simp
  qed
qed

lemma strncpy_name:
  assumes "length name < MAX_FILENAME" "NUL \<notin> set name"
  shows "cstr (strncpy_bytes name MAX_FILENAME @ [x]) 0 = Inr name"
proof -
  have "strncpy_bytes name MAX_FILENAME @ [x] = name @ NUL # replicate (MAX_FILENAME - length name - 1) NUL @ [x]"
    using assms(1) by (cases "MAX_FILENAME - length name") (simp_all add: strncpy_bytes_def)
  then show ?thesis using assms(2) by simp
qed

text \<open>The first three bytes of a good reply.\<close>

lemma get_from_server_ok:
  assumes "segments (inq (csock w))" "stream (inq (csock w)) = ok_line @ rest"
  shows "\<exists>es. get_from_server env req local w =
      (let w = w\<lparr>csock := (csock w)\<lparr>inq := es\<rparr>\<rparr> in
       if rq_method req = GET then get_reply env local w
       else if rq_method req = LIST then list_reply env w
       else Inr (0, say Success w)) \<and> segments es \<and> stream es = rest"
proof -
  obtain e1 where e1: "recv_c 1 w = (1, ''O'', w\<lparr>csock := (csock w)\<lparr>inq := e1\<rparr>\<rparr>)" "segments e1" "stream e1 = ''K'' @ NL # rest"
    using recv_c_segments [OF assms, of 1] by (auto simp: ok_line_def)
  let ?w1 = "w\<lparr>csock := (csock w)\<lparr>inq := e1\<rparr>\<rparr>"
  obtain e2 where e2: "recv_c 2 ?w1 = (2, ''K'' @ [NL], ?w1\<lparr>csock := (csock ?w1)\<lparr>inq := e2\<rparr>\<rparr>)" "segments e2" "stream e2 = rest"
    using recv_c_segments [of ?w1 "''K'' @ NL # rest" 2] e1(2,3) by auto
  have b1: "put_bytes (replicate DATA_SIZE NUL) 0 ''O'' = Inr (CHR ''O'' # replicate (DATA_SIZE - 1) NUL)"
    by (simp add: put_bytes_def DATA_SIZE_def)
  have b2: "put_bytes (CHR ''O'' # replicate (DATA_SIZE - 1) NUL) 1 (''K'' @ [NL]) =
      Inr ((''OK'' @ [NL]) @ NUL # replicate (DATA_SIZE - 4) NUL)"
  proof -
    have "replicate (DATA_SIZE - 3) NUL = NUL # replicate (DATA_SIZE - 4) NUL"
      by (subst replicate_Suc [symmetric]) (simp add: DATA_SIZE_def)
    then show ?thesis by (simp add: put_bytes_def DATA_SIZE_def)
  qed
  have "cstr ((''OK'' @ [NL]) @ NUL # replicate (DATA_SIZE - 4) NUL) 0 = Inr (''OK'' @ [NL])"
    by (rule cstr_at_0) (simp add: NUL_def NL_def)
  then show ?thesis using e1(1) e2 b1 b2
    by (intro exI [of _ e2]) (simp add: get_from_server_def Let_def)
qed

section \<open>Transfers\<close>

lemma link_sock:
  "link k S out w \<Longrightarrow> outq (socks w k) = out"
  by (simp add: link_def)

text \<open>C1: Storing a file, over connections on which every \<open>send\<close> takes all it is offered. \<open>client PUT name local\<close> sends the request line, the size and the bytes of its local
  file; the server, given them in segments of any sizes, stores exactly these bytes under the name and
  completes with its \<open>OK\<close>; and the client, given that reply, reports success with status 0.\<close>

theorem put_transfer:
  assumes client: "parse_args argv = Some [h, po, Some ''PUT'', Some name, Some local, None]"
      "files cw local = Some data" "sends (csock cw) = []" "outq (csock cw) = []"
      "segments (inq (csock cw))" "stream (inq (csock cw)) = reply"
    and server: "clients s p = Some (new_client k junk)" "length junk = DATA_SIZE" "link k request [] (net s)"
      "can_create senv (temp_directory (net s) @ ''/'' @ name)"
    and name: "plain_name (net s) name" "length name < MAX_FILENAME" and lt: "length data < 2 ^ 64"
    and bytes: "request = ''PUT '' @ name @ NL # size_bytes (length data) @ data" "reply = ok_bytes"
  shows "\<exists>cw' n s' c i.
    client_main cenv True argv cw = Inr (0, cw') \<and> outq (csock cw') = request \<and>
      messages cw' = messages cw @ [Success] \<and> files cw' = files cw \<and>
    serve_times senv p n s = Inr s' \<and> clients s' p = Some c \<and> state c = COMPLETE \<and>
      outq (socks (net s') k) = reply \<and>
      map_of (dir (net s')) (temp_directory (net s) @ ''/'' @ name) = Some i \<and> inodes (net s') i = data"
proof -
  let ?hdr = "''PUT '' @ name @ [NL]" and ?out = "\<lambda>b. cw\<lparr>csock := (csock cw)\<lparr>outq := b\<rparr>\<rparr>"
  have nm: "NUL \<notin> set name" "NUL \<notin> set ?hdr" using name(1) by (auto simp: plain_name_def NUL_def NL_def)
  let ?req = "\<lparr>rq_method = PUT, rq_special = NUL, rq_filename = strncpy_bytes name MAX_FILENAME @ [heap_junk cenv],
     rq_size = length data\<rparr>"
  have "send_line ?hdr cw = Inr (?out ?hdr)"
    using send_line_plain [OF client(3) nm(2)] name(2) client(4) by (simp add: MAX_FILENAME_def DATA_SIZE_def)
  moreover have "sendall (size_bytes (length data)) 8 (csock (?out ?hdr)) =
      Inr (8, (csock cw)\<lparr>outq := ?hdr @ size_bytes (length data)\<rparr>)"
    using client(3) by (subst sendall_plain) simp_all
  moreover have "send_file data (?out (?hdr @ size_bytes (length data))) = Inr (?out request)"
    using client(3) by (subst send_file_plain) (simp_all add: bytes(1))
  ultimately have sent: "send_to_server ?req (Some local) cw = Inr (0, ?out request)"
    using client(2) strncpy_name [OF name(2) nm(1)] by (simp add: send_to_server_def)
  obtain es where "get_from_server cenv ?req (Some local) (?out request) =
      Inr (0, say Success ((?out request)\<lparr>csock := (csock (?out request))\<lparr>inq := es\<rparr>\<rparr>))"
    using get_from_server_ok [of "?out request" "[NUL]" cenv ?req "Some local"] client(5,6) bytes(2)
    by (auto simp: ok_bytes_def ok_line_def Let_def)
  then have main: "client_main cenv True argv cw =
      Inr (0, say Success ((?out request)\<lparr>csock := (csock (?out request))\<lparr>inq := es\<rparr>\<rparr>))"
    using sent client(1,2) by (simp add: client_main_def check_args_def create_request_def Let_def)
  obtain i c' w' where r: "(serves senv)\<^sup>*\<^sup>* (new_client k junk, net s) (c', w')" "state c' = COMPLETE"
      "link k [] ([] @ ok_bytes) w'" "map_of (dir w') (temp_directory (net s) @ ''/'' @ name) = Some i" "inodes w' i = data"
    using put_request [OF name(1) server(2) lt _ server(4)] server(3) bytes(1) by blast
  obtain n s' where sv: "serve_times senv p n s = Inr s'" "clients s' p = Some c'" "net s' = w'"
    using serve_times_serves [OF r(1) server(1) refl] by blast
  have out: "outq (socks (net s') k) = reply" using link_sock [OF r(3)] sv(3) bytes(2) by simp
  show ?thesis
    by (rule exI, rule exI [of _ n], rule exI [of _ s'], rule exI [of _ c'], rule exI [of _ i], intro conjI, rule main)
      (use sv r out in \<open>simp_all add: say_def\<close>)
qed

text \<open>C17: Fetching a file, over connections on which every \<open>send\<close> takes all it is offered, on both sides (\<open>link\<close>, and an
  empty script of short sends for the client). The server's socket is non-blocking and \<open>send_get_response\<close> does not
  look at the result of \<open>sendall\<close> (\<open>server.c:266\<close>), so this is a condition on the room in the socket buffer: without
  it bytes of a large file are lost. Then the client sends the request line; the server, given it in segments of any sizes,
  sends \<open>OK\<close>, the size and the bytes of the file, in as many steps as it takes, and leaves its files
  alone; and the client, given these in segments of any sizes, leaves exactly the file's bytes in its
  local file and ends with status 0.\<close>

theorem get_transfer:
  assumes client: "parse_args argv = Some [h, po, Some ''GET'', Some name, Some local, None]"
      "sends (csock cw) = []" "outq (csock cw) = []" "may_write cenv local"
      "segments (inq (csock cw))" "stream (inq (csock cw)) = reply"
    and server: "clients s p = Some (new_client k junk)" "length junk = DATA_SIZE" "link k request [] (net s)"
      "map_of (dir (net s)) (temp_directory (net s) @ ''/'' @ name) = Some i" "inodes (net s) i = content"
    and name: "plain_name (net s) name" "length name < MAX_FILENAME" and lt: "length content < 2 ^ 64"
    and bytes: "request = ''GET '' @ name @ [NL]" "reply = ok_line @ size_bytes (length content) @ content"
  shows "\<exists>cw' n s' c.
    client_main cenv True argv cw = Inr (0, cw') \<and> outq (csock cw') = request \<and>
      files cw' = (files cw)(local \<mapsto> content) \<and>
    serve_times senv p n s = Inr s' \<and> clients s' p = Some c \<and> state c = COMPLETE \<and>
      outq (socks (net s') k) = reply \<and> same_files (net s) (net s')"
proof -
  let ?out = "\<lambda>b. cw\<lparr>csock := (csock cw)\<lparr>outq := b\<rparr>\<rparr>"
  have nm: "NUL \<notin> set name" "NUL \<notin> set request" using name(1) by (auto simp: plain_name_def NUL_def NL_def bytes(1))
  let ?req = "\<lparr>rq_method = GET, rq_special = NUL, rq_filename = strncpy_bytes name MAX_FILENAME @ [heap_junk cenv],
     rq_size = 0\<rparr>"
  have "send_line request cw = Inr (?out request)"
    using send_line_plain [OF client(2) nm(2)] name(2) client(3) by (simp add: MAX_FILENAME_def DATA_SIZE_def bytes(1))
  then have sent: "send_to_server ?req (Some local) cw = Inr (0, ?out request)"
    using strncpy_name [OF name(2) nm(1)] by (simp add: send_to_server_def bytes(1))
  obtain e1 where e1: "get_from_server cenv ?req (Some local) (?out request) =
      get_reply cenv (Some local) ((?out request)\<lparr>csock := (csock (?out request))\<lparr>inq := e1\<rparr>\<rparr>)"
      "segments e1" "stream e1 = size_bytes (length content) @ content"
    using get_from_server_ok [of "?out request" "size_bytes (length content) @ content" cenv ?req "Some local"]
      client(5,6) bytes(2) by (auto simp: Let_def)
  let ?w1 = "(?out request)\<lparr>csock := (csock (?out request))\<lparr>inq := e1\<rparr>\<rparr>"
  obtain e2 where e2: "recv_c 8 ?w1 = (8, size_bytes (length content), ?w1\<lparr>csock := (csock ?w1)\<lparr>inq := e2\<rparr>\<rparr>)"
      "segments e2" "stream e2 = content"
    using recv_c_segments [of ?w1 "size_bytes (length content) @ content" 8] e1(2,3) by auto
  let ?w2 = "?w1\<lparr>csock := (csock ?w1)\<lparr>inq := e2\<rparr>\<rparr>"
  have "read_all ?w2 = (content, ?w2\<lparr>csock := (csock ?w2)\<lparr>inq := []\<rparr>\<rparr>)"
    using read_all_segments [of ?w2] e2(2,3) by simp
  then have "get_reply cenv (Some local) ?w1 =
      Inr (0, ?w2\<lparr>csock := (csock ?w2)\<lparr>inq := []\<rparr>, files := (files cw)(local \<mapsto> content)\<rparr>)"
    using e2(1) client(4) lt by (simp add: get_reply_def Let_def bytes_size_inverse)
  then have main: "client_main cenv True argv cw =
      Inr (0, ?w2\<lparr>csock := (csock ?w2)\<lparr>inq := []\<rparr>, files := (files cw)(local \<mapsto> content)\<rparr>)"
    using sent client(1) e1(1) by (simp add: client_main_def check_args_def create_request_def Let_def)
  obtain c' w' where r: "(serves senv)\<^sup>*\<^sup>* (new_client k junk, net s) (c', w')" "state c' = COMPLETE"
      "link k [] ([] @ ok_line @ size_bytes (length content) @ content) w'" "same_files (net s) w'"
    using get_request [OF name(1) server(2) lt server(3) [unfolded bytes(1)] server(4,5)] by blast
  obtain n s' where sv: "serve_times senv p n s = Inr s'" "clients s' p = Some c'" "net s' = w'"
    using serve_times_serves [OF r(1) server(1) refl] by blast
  have out: "outq (socks (net s') k) = reply" using link_sock [OF r(3)] sv(3) bytes(2) by simp
  show ?thesis
    by (rule exI, rule exI [of _ n], rule exI [of _ s'], rule exI [of _ c'], intro conjI, rule main) (use sv r out in simp_all)
qed

text \<open>C24: Listing, over connections on which every \<open>send\<close> takes all it is offered. The server answers with \<open>OK\<close>, a size and the names of its regular files with newlines
  between them and none at the end, and the client prints exactly that.\<close>

theorem list_transfer:
  assumes client: "parse_args argv = Some [h, po, Some ''LIST'', x, y, None]"
      "sends (csock cw) = []" "outq (csock cw) = []" "malloc_ok cenv (length text + 1)"
      "segments (inq (csock cw))" "stream (inq (csock cw)) = reply"
    and server: "clients s p = Some (new_client k junk)" "length junk = DATA_SIZE" "link k request [] (net s)"
      "temp_dir_opens (net s)"
    and tx: "text = join_lines (listing (net s))" "NUL \<notin> set text" "length text + 1 < 2 ^ 64"
    and bytes: "request = ''LIST'' @ [NL]" "reply = ok_line @ size_bytes (length text) @ text"
  shows "\<exists>cw' n s' c.
    client_main cenv True argv cw = Inr (0, cw') \<and> outq (csock cw') = request \<and>
      messages cw' = messages cw @ [Stdout text] \<and>
    serve_times senv p n s = Inr s' \<and> clients s' p = Some c \<and> state c = COMPLETE \<and>
      outq (socks (net s') k) = reply \<and> same_files (net s) (net s')"
proof -
  let ?out = "\<lambda>b. cw\<lparr>csock := (csock cw)\<lparr>outq := b\<rparr>\<rparr>"
  have lt: "length text < 2 ^ 64" using tx(3) by simp
  let ?req = "\<lparr>rq_method = LIST, rq_special = NUL, rq_filename = replicate (MAX_FILENAME + 1) (heap_junk cenv), rq_size = 0\<rparr>"
  have "send_line request cw = Inr (?out request)"
    using send_line_plain [OF client(2), of request] client(3) by (simp add: DATA_SIZE_def bytes(1) NUL_def NL_def)
  then have sent: "send_to_server ?req None cw = Inr (0, ?out request)" by (simp add: send_to_server_def bytes(1))
  obtain e1 where e1: "get_from_server cenv ?req None (?out request) =
      list_reply cenv ((?out request)\<lparr>csock := (csock (?out request))\<lparr>inq := e1\<rparr>\<rparr>)"
      "segments e1" "stream e1 = size_bytes (length text) @ text"
    using get_from_server_ok [of "?out request" "size_bytes (length text) @ text" cenv ?req None]
      client(5,6) bytes(2) by (auto simp: Let_def)
  let ?w1 = "(?out request)\<lparr>csock := (csock (?out request))\<lparr>inq := e1\<rparr>\<rparr>"
  obtain e2 where e2: "recv_c 8 ?w1 = (8, size_bytes (length text), ?w1\<lparr>csock := (csock ?w1)\<lparr>inq := e2\<rparr>\<rparr>)"
      "segments e2" "stream e2 = text"
    using recv_c_segments [of ?w1 "size_bytes (length text) @ text" 8] e1(2,3) by auto
  let ?w2 = "?w1\<lparr>csock := (csock ?w1)\<lparr>inq := e2\<rparr>\<rparr>"
  let ?w3 = "?w2\<lparr>csock := (csock ?w2)\<lparr>inq := []\<rparr>\<rparr>"
  have rl: "read_list (Some (length text + 1)) (length text) [] ?w2 = Inr (Some text, ?w3)"
    using read_list_segments [of ?w2 "[]" "length text" "length text + 1"] e2(2,3) by simp
  have md: "(length text + 1) mod 2 ^ 64 = length text + 1" by (rule mod_less [OF tx(3)])
  have "list_reply cenv ?w1 = Inr (0, say (Stdout text) ?w3)"
    unfolding list_reply_def e2(1) Let_def prod.case bytes_size_inverse [OF lt] md if_P [OF client(4)] rl
    using cstr_at_0 [OF tx(2), of "[]"] by simp
  then have main: "client_main cenv True argv cw = Inr (0, say (Stdout text) ?w3)"
    using sent client(1) e1(1) by (simp add: client_main_def check_args_def create_request_def Let_def)
  obtain c' w' where r: "(serves senv)\<^sup>*\<^sup>* (new_client k junk, net s) (c', w')" "state c' = COMPLETE"
      "link k [] ([] @ ok_line @ size_bytes (length text) @ text) w'" "same_files (net s) w'"
    using list_request [OF server(2) server(3) [unfolded bytes(1)] server(4)] tx(1) by blast
  obtain n s' where sv: "serve_times senv p n s = Inr s'" "clients s' p = Some c'" "net s' = w'"
    using serve_times_serves [OF r(1) server(1) refl] by blast
  have out: "outq (socks (net s') k) = reply" using link_sock [OF r(3)] sv(3) bytes(2) by simp
  show ?thesis
    by (rule exI, rule exI [of _ n], rule exI [of _ s'], rule exI [of _ c'], intro conjI, rule main) (use sv r out in \<open>simp_all add: say_def\<close>)
qed

section \<open>Instances\<close>

definition demo_sock :: "char list \<Rightarrow> sock" where
  "demo_sock bs = \<lparr>inq = [Data bs], outq = [], sends = []\<rparr>"

definition demo_client :: "char list \<Rightarrow> client_world" where
  "demo_client reply = \<lparr>files = (\<lambda>f. if f = ''mine'' then Some ''abc'' else None), csock = demo_sock reply, messages = []\<rparr>"

definition demo_cenv :: client_env where
  "demo_cenv = \<lparr>may_write = (\<lambda>_. True), malloc_ok = (\<lambda>n. n < 4096), heap_junk = CHR ''x''\<rparr>"

definition demo_senv :: server_env where
  "demo_senv = \<lparr>err_bad_request = ''bad'', err_bad_file_size = ''size'', err_no_such_file = ''none'',
     can_create = (\<lambda>_. True), usable = (\<lambda>n. n + 8), heap_byte = CHR ''x''\<rparr>"

definition demo_server :: "char list \<Rightarrow> server" where
  "demo_server request = \<lparr>net = demo_world\<lparr>socks := (\<lambda>_. demo_sock request)\<rparr>,
     clients = [7 \<mapsto> new_client 4 (replicate DATA_SIZE (CHR ''x''))], watched = [(4, 7)], shut_fds = [],
     closed_fds = [], nonblocking = [], events = []\<rparr>"

lemma demo_link: "bs \<noteq> [] \<Longrightarrow> link k bs [] (net (demo_server bs))"
  by (simp add: link_def demo_server_def demo_sock_def)

lemma demo_simps [simp]:
  "inq (csock (demo_client r)) = [Data r]" "sends (csock (demo_client r)) = []" "outq (csock (demo_client r)) = []"
  "clients (demo_server q) 7 = Some (new_client 4 (replicate DATA_SIZE (CHR ''x'')))"
  "temp_directory (net (demo_server q)) = ''tmpdir''" "dir (net (demo_server q)) = [(''tmpdir/a'', 5)]"
  "inodes (net (demo_server q)) = (\<lambda>i. if i = 5 then ''hi'' else '''')" "temp_dir_opens (net (demo_server q))"
  "listing (net (demo_server q)) = [''a'']" "messages (demo_client r) = []"
  "files (demo_client r) ''mine'' = Some ''abc''" "may_write demo_cenv l" "malloc_ok demo_cenv n \<longleftrightarrow> n < 4096"
  "can_create demo_senv path"
  by (simp_all add: demo_client_def demo_server_def demo_sock_def demo_world_def listing_def demo_cenv_def demo_senv_def)

lemma demo_name: "plain_name (net (demo_server q)) ''a''"
  by (simp add: plain_name_def NL_def NUL_def MAX_DIRNAME_def)

lemma demo_args:
  "parse_args [''client'', ''host:80'', ''put'', ''a'', ''mine''] =
     Some [Some ''host'', Some ''80'', Some ''PUT'', Some ''a'', Some ''mine'', None]"
  "parse_args [''client'', ''host:80'', ''get'', ''a'', ''mine''] =
     Some [Some ''host'', Some ''80'', Some ''GET'', Some ''a'', Some ''mine'', None]"
  "parse_args [''client'', ''host:80'', ''list''] =
     Some [Some ''host'', Some ''80'', Some ''LIST'', None, None, None]"
  by code_simp+

theorem put_transfer_witness:
  "\<exists>cw'. client_main demo_cenv True [''client'', ''host:80'', ''put'', ''a'', ''mine''] (demo_client ok_bytes) = Inr (0, cw') \<and>
     messages cw' = [Success]"
proof -
  let ?q = "''PUT '' @ ''a'' @ NL # size_bytes (length ''abc'') @ ''abc''"
  have "?q \<noteq> []" "ok_bytes \<noteq> []" "length ''a'' < MAX_FILENAME" by (simp_all add: ok_bytes_def MAX_FILENAME_def)
  note q = this
  show ?thesis
    using put_transfer [where reply = ok_bytes and cenv = demo_cenv and senv = demo_senv and request = ?q,
        OF demo_args(1) demo_simps(11) demo_simps(2,3) _ _ demo_simps(4) _ demo_link [OF q(1)] demo_simps(14) demo_name q(3) _ refl refl]
      q(2) by auto
qed

theorem get_transfer_witness:
  "\<exists>cw'. client_main demo_cenv True [''client'', ''host:80'', ''get'', ''a'', ''mine'']
       (demo_client (ok_line @ size_bytes (length ''hi'') @ ''hi'')) = Inr (0, cw') \<and> files cw' ''mine'' = Some ''hi''"
proof -
  let ?q = "''GET '' @ ''a'' @ [NL]" and ?r = "ok_line @ size_bytes (length ''hi'') @ ''hi''"
  have q: "?q \<noteq> []" "?r \<noteq> []" "length ''a'' < MAX_FILENAME" by (simp_all add: ok_line_def MAX_FILENAME_def)
  have in5: "map_of (dir (net (demo_server ?q))) (temp_directory (net (demo_server ?q)) @ ''/'' @ ''a'') = Some 5"
    "inodes (net (demo_server ?q)) 5 = ''hi''" by simp_all
  have rs: "segments (inq (csock (demo_client ?r)))" "stream (inq (csock (demo_client ?r))) = ?r" using q(2) by simp_all
  have hi: "length ''hi'' < 2 ^ 64" by simp
  show ?thesis
    using get_transfer [where reply = ?r and cenv = demo_cenv and senv = demo_senv and request = ?q and i = 5,
        OF demo_args(2) demo_simps(2,3) demo_simps(12) rs demo_simps(4) length_replicate demo_link [OF q(1)] in5 demo_name q(3) hi refl refl]
    by (elim exE conjE) (intro exI conjI, assumption, simp only: fun_upd_same)
qed

theorem list_transfer_witness:
  "\<exists>cw'. client_main demo_cenv True [''client'', ''host:80'', ''list''] (demo_client (ok_line @ size_bytes (length ''a'') @ ''a'')) =
       Inr (0, cw') \<and> messages cw' = [Stdout ''a'']"
proof -
  let ?q = "''LIST'' @ [NL]" and ?r = "ok_line @ size_bytes (length ''a'') @ ''a''"
  have "?q \<noteq> []" "?r \<noteq> []" "NUL \<notin> set ''a''" by (simp_all add: ok_line_def NUL_def)
  note q = this
  have rs: "segments (inq (csock (demo_client ?r)))" "stream (inq (csock (demo_client ?r))) = ?r" using q(2) by simp_all
  have mk: "malloc_ok demo_cenv (length ''a'' + 1)" and lt: "length ''a'' + 1 < 2 ^ 64"
    and tx: "''a'' = join_lines (listing (net (demo_server ?q)))" by simp_all
  show ?thesis
    using list_transfer [where reply = ?r and cenv = demo_cenv and senv = demo_senv and request = ?q,
        OF demo_args(3) demo_simps(2,3) mk rs demo_simps(4) length_replicate demo_link [OF q(1)] demo_simps(8) tx q(3) lt refl refl]
    by (elim exE conjE) (intro exI conjI, assumption, simp only: demo_simps append_Nil)
qed

end
