(* ===== verification/Mini_Memcheck.thy ===== *)
theory Mini_Memcheck
  imports Interfaces
begin

text \<open>
  \<open>mini_memcheck/mini_memcheck.c\<close>: a leak checker that threads every block it hands out on a list.

  A block is its \<open>meta_data\<close> at an address, and the payload begins \<open>META\<close> bytes after it. \<open>blocks\<close> holds
  the blocks that are allocated; the pointers of the list may lead anywhere else, which is a fault when
  they are followed, and round in a circle, which \<open>Diverges\<close>: a walk that has passed more blocks than there
  are never ends. The results of \<open>malloc\<close>, \<open>calloc\<close> and \<open>realloc\<close> are arguments, 0 when they fail. The
  counters are \<open>size_t\<close>, natural numbers modulo \<open>2 ^ 64\<close>.
\<close>

record meta_data =
  request_size :: nat
  mfilename :: string
  instruction :: nat
  next_block :: nat

record memcheck =
  head :: nat
  blocks :: "(nat \<times> meta_data) list"
  total_memory_requested :: nat
  total_memory_freed :: nat
  invalid_addresses :: nat

definition META :: nat where "META = 32"

definition size_add :: "nat \<Rightarrow> nat \<Rightarrow> nat" where
  "size_add a b = (a + b) mod 2 ^ 64"

definition set_block :: "nat \<Rightarrow> (meta_data \<Rightarrow> meta_data) \<Rightarrow> (nat \<times> meta_data) list \<Rightarrow> (nat \<times> meta_data) list" where
  "set_block a f bs = map (\<lambda>(b, m). if b = a then (b, f m) else (b, m)) bs"

section \<open>Walking the list\<close>

fun last_block :: "nat \<Rightarrow> (nat \<times> meta_data) list \<Rightarrow> nat \<Rightarrow> nat outcome" where
  "last_block 0 bs current = Inl Diverges"
| "last_block (Suc n) bs current =
     (case map_of bs current of
        None \<Rightarrow> Inl Dangling
      | Some m \<Rightarrow> if next_block m = 0 then Inr current else last_block n bs (next_block m))"

text \<open>The block of a payload, 0 if there is none, and the block before it on the list.\<close>

fun find_block :: "nat \<Rightarrow> (nat \<times> meta_data) list \<Rightarrow> nat \<Rightarrow> nat \<Rightarrow> nat \<Rightarrow> (nat \<times> nat) outcome" where
  "find_block 0 bs current prev payload = Inl Diverges"
| "find_block (Suc n) bs current prev payload =
     (if current = 0 then Inr (0, prev)
      else if current + META = payload then Inr (current, prev)
      else case map_of bs current of
          None \<Rightarrow> Inl Dangling
        | Some m \<Rightarrow> find_block n bs (next_block m) current payload)"

section \<open>The operations\<close>

text \<open>The common part of \<open>mini_malloc\<close> and \<open>mini_calloc\<close>: the new block at \<open>tmp\<close> goes to the end of the list.
  Its size is computed in a \<open>size_t\<close>, so the block may be too small for its header.\<close>

definition add_block :: "nat \<Rightarrow> nat \<Rightarrow> string \<Rightarrow> nat \<Rightarrow> memcheck \<Rightarrow> (nat \<times> memcheck) outcome" where
  "add_block tmp n file inst s =
     (let new = \<lparr>request_size = n, mfilename = file, instruction = inst, next_block = 0\<rparr> in
      if head s = 0 then
        (if tmp = 0 then Inl Null_deref
         else if size_add META n < META then Inl Out_of_bounds
         else Inr (tmp + META, s\<lparr>head := tmp, blocks := (tmp, new) # blocks s\<rparr>))
      else
        rbind (last_block (Suc (length (blocks s))) (blocks s) (head s)) (\<lambda>current.
        if tmp = 0 then Inl Null_deref
        else if size_add META n < META then Inl Out_of_bounds
        else Inr (tmp + META,
          s\<lparr>blocks := (tmp, new) # set_block current (\<lambda>m. m\<lparr>next_block := tmp\<rparr>) (blocks s)\<rparr>)))"

definition mini_malloc :: "nat \<Rightarrow> nat \<Rightarrow> string \<Rightarrow> nat \<Rightarrow> memcheck \<Rightarrow> (nat \<times> memcheck) outcome" where
  "mini_malloc tmp n file inst s =
     (if n = 0 then Inr (0, s)
      else add_block tmp n file inst
        (s\<lparr>total_memory_requested := size_add (total_memory_requested s) n\<rparr>))"

definition mini_calloc :: "nat \<Rightarrow> nat \<Rightarrow> nat \<Rightarrow> string \<Rightarrow> nat \<Rightarrow> memcheck \<Rightarrow> (nat \<times> memcheck) outcome" where
  "mini_calloc tmp num_elements element_size file inst s =
     (if num_elements = 0 \<or> element_size = 0 then Inr (0, s)
      else
        let n = num_elements * element_size mod 2 ^ 64 in
        add_block tmp n file inst
          (s\<lparr>total_memory_requested := size_add (total_memory_requested s) n\<rparr>))"

definition mini_free :: "nat \<Rightarrow> memcheck \<Rightarrow> memcheck outcome" where
  "mini_free payload s =
     (if payload = 0 then Inr s
      else
        rbind (find_block (Suc (length (blocks s))) (blocks s) (head s) 0 payload) (\<lambda>(current, prev).
        if current = 0 then Inr (s\<lparr>invalid_addresses := size_add (invalid_addresses s) 1\<rparr>)
        else case map_of (blocks s) current of
            None \<Rightarrow> Inl Dangling
          | Some m \<Rightarrow>
              let s = (if prev = 0 then s\<lparr>head := next_block m\<rparr>
                       else s\<lparr>blocks := set_block prev (\<lambda>p. p\<lparr>next_block := next_block m\<rparr>) (blocks s)\<rparr>) in
              Inr (s\<lparr>total_memory_freed := size_add (total_memory_freed s) (request_size m),
                     blocks := filter (\<lambda>e. fst e \<noteq> current) (blocks s)\<rparr>)))"

text \<open>\<open>realloc\<close> may move the block; then \<open>current\<close> is freed when its \<open>request_size\<close> is read again.\<close>

definition mini_realloc :: "nat \<Rightarrow> nat \<Rightarrow> nat \<Rightarrow> string \<Rightarrow> nat \<Rightarrow> memcheck \<Rightarrow> (nat \<times> memcheck) outcome" where
  "mini_realloc moved payload n file inst s =
     (if payload = 0 then mini_malloc moved n file inst s
      else if n = 0 then rbind (mini_free payload s) (\<lambda>s. Inr (0, s))
      else
        rbind (find_block (Suc (length (blocks s))) (blocks s) (head s) 0 payload) (\<lambda>(current, _).
        if current = 0 then Inr (0, s\<lparr>invalid_addresses := size_add (invalid_addresses s) 1\<rparr>)
        else case map_of (blocks s) current of
            None \<Rightarrow> Inl Dangling
          | Some m \<Rightarrow>
              if request_size m = n then Inr (payload, s)
              else if moved = 0 then Inl Null_deref
              else if moved \<noteq> current then Inl Dangling
              else
                let s = (if request_size m > n
                         then s\<lparr>total_memory_freed := size_add (total_memory_freed s) (request_size m - n)\<rparr>
                         else s\<lparr>total_memory_requested := size_add (total_memory_requested s) (n - request_size m)\<rparr>) in
                if size_add META n < META then Inl Out_of_bounds
                else Inr (moved + META, s\<lparr>blocks := set_block current (\<lambda>p. p\<lparr>request_size := n\<rparr>) (blocks s)\<rparr>)))"

section \<open>The list and the counters\<close>

fun chain :: "(nat \<times> meta_data) list \<Rightarrow> nat \<Rightarrow> nat list \<Rightarrow> bool" where
  "chain bs p [] \<longleftrightarrow> p = 0"
| "chain bs p (a # as) \<longleftrightarrow> p = a \<and> a \<noteq> 0 \<and> (\<exists>m. map_of bs a = Some m \<and> chain bs (next_block m) as)"

definition live :: "(nat \<times> meta_data) list \<Rightarrow> nat" where
  "live bs = sum_list (map (request_size \<circ> snd) bs)"

text \<open>The allocated blocks are the ones on the list, and the counters account for them.\<close>

definition memcheck_ok :: "memcheck \<Rightarrow> nat list \<Rightarrow> bool" where
  "memcheck_ok s as \<longleftrightarrow> chain (blocks s) (head s) as \<and> distinct as \<and> distinct (map fst (blocks s)) \<and>
     set as = fst ` set (blocks s) \<and>
     total_memory_requested s mod 2 ^ 64 = (total_memory_freed s + live (blocks s)) mod 2 ^ 64"

lemma memcheck_ok_length: "memcheck_ok s as \<Longrightarrow> length as = length (blocks s)"
  by (metis memcheck_ok_def distinct_card length_map set_map)

lemma map_fst_set_block [simp]: "map fst (set_block a f bs) = map fst bs"
  by (induction bs) (auto simp: set_block_def)

lemma fst_set_block [simp]: "fst ` set (set_block a f bs) = fst ` set bs"
  using arg_cong [OF map_fst_set_block [of a f bs], of set] by (simp only: set_map)

lemma length_set_block [simp]: "length (set_block a f bs) = length bs"
  by (simp add: set_block_def)

lemma map_of_set_block: "map_of (set_block a f bs) b = (if b = a then map_option f (map_of bs b) else map_of bs b)"
  by (induction bs) (auto simp: set_block_def)

lemma map_of_filter_ne: "map_of (filter (\<lambda>e. fst e \<noteq> a) bs) b = (if b = a then None else map_of bs b)"
  by (induction bs) auto

lemma chain_same: "chain bs p as \<Longrightarrow> (\<And>a. a \<in> set as \<Longrightarrow> map_of cs a = map_of bs a) \<Longrightarrow> chain cs p as"
  by (induction as arbitrary: p) auto

lemma chain_nz: "chain bs p as \<Longrightarrow> a \<in> set as \<Longrightarrow> a \<noteq> 0 \<and> map_of bs a \<noteq> None"
  by (induction as arbitrary: p) auto

lemma last_block_chain:
  "chain bs p as \<Longrightarrow> as \<noteq> [] \<Longrightarrow> length as \<le> n \<Longrightarrow> last_block n bs p = Inr (last as)"
proof (induction n bs p arbitrary: as rule: last_block.induct)
  case (2 n bs current)
  then obtain m as' where as: "as = current # as'" "map_of bs current = Some m" "chain bs (next_block m) as'"
    by (cases as) auto
  show ?case
  proof (cases "as' = []")
    case True
    then show ?thesis using as by simp
  next
    case False
    then have nz: "next_block m \<noteq> 0" using as(3) by (cases as') auto
    have "last_block n bs (next_block m) = Inr (last as')"
      using 2(1) [OF as(2) nz as(3) False] 2(4) as(1) by simp
    then show ?thesis using as(1,2) nz False by simp
  qed
qed auto

lemma find_block_chain:
  "chain bs p as \<Longrightarrow> distinct as \<Longrightarrow> length as < n \<Longrightarrow>
   (\<exists>pre a post. as = pre @ a # post \<and> a + META = payload \<and>
      find_block n bs p q payload = Inr (a, if pre = [] then q else last pre)) \<or>
   (\<forall>a \<in> set as. a + META \<noteq> payload) \<and> (\<exists>q'. find_block n bs p q payload = Inr (0, q'))"
proof (induction n bs p q payload arbitrary: as rule: find_block.induct)
  case (2 n bs current q payload)
  show ?case
  proof (cases as)
    case Nil
    then show ?thesis using 2(2) by simp
  next
    case (Cons a as')
    then obtain m where m: "current = a" "a \<noteq> 0" "map_of bs a = Some m" "chain bs (next_block m) as'"
      using 2(2) by auto
    show ?thesis
    proof (cases "a + META = payload")
      case True
      then have "find_block (Suc n) bs current q payload = Inr (a, q)" using m by simp
      then show ?thesis using Cons True
        by (intro disjI1 exI [of _ "[]"] exI [of _ a] exI [of _ as']) (simp del: find_block.simps)
    next
      case False
      have f: "find_block (Suc n) bs current q payload = find_block n bs (next_block m) a payload"
        using False m by simp
      have nf: "current \<noteq> 0" "current + META \<noteq> payload" "map_of bs current = Some m" "distinct as'" "length as' < n"
        using False m 2(3,4) Cons by simp_all
      show ?thesis using 2(1) [OF nf(1-3) m(4) nf(4,5)]
      proof (elim disjE exE conjE)
        fix pre b post
        assume a: "as' = pre @ b # post" and b: "b + META = payload"
          and r: "find_block n bs (next_block m) current payload = Inr (b, if pre = [] then current else last pre)"
        have "as = (a # pre) @ b # post" using Cons a by (simp only: append_Cons)
        moreover have "find_block (Suc n) bs current q payload = Inr (b, if a # pre = [] then q else last (a # pre))"
          unfolding f r [unfolded m(1)] by (simp del: find_block.simps)
        ultimately show ?thesis using b by blast
      next
        fix q' assume "\<forall>b \<in> set as'. b + META \<noteq> payload" "find_block n bs (next_block m) current payload = Inr (0, q')"
        then show ?thesis unfolding f using Cons False m(1) by (auto simp del: find_block.simps)
      qed
    qed
  qed
qed simp

section \<open>What the operations keep\<close>

definition links_ok :: "(nat \<times> meta_data) list \<Rightarrow> nat \<Rightarrow> nat list \<Rightarrow> bool" where
  "links_ok bs p as \<longleftrightarrow> chain bs p as \<and> distinct as \<and> distinct (map fst bs) \<and> set as = fst ` set bs"

lemma memcheck_ok_links:
  "memcheck_ok s as \<longleftrightarrow> links_ok (blocks s) (head s) as \<and>
     total_memory_requested s mod 2 ^ 64 = (total_memory_freed s + live (blocks s)) mod 2 ^ 64"
  by (auto simp: memcheck_ok_def links_ok_def)

lemma links_ok_length: "links_ok bs p as \<Longrightarrow> length as = length bs"
  by (metis links_ok_def distinct_card length_map set_map)

lemma links_ok_mem: "links_ok bs p as \<Longrightarrow> a \<in> set as \<Longrightarrow> a \<noteq> 0 \<and> (\<exists>m. map_of bs a = Some m)"
  using chain_nz [of bs p as a] by (auto simp: links_ok_def)

lemma meta_chain_snoc:
  assumes "chain bs p as" "as \<noteq> []" "distinct as" "tmp \<notin> set as" "tmp \<noteq> 0" "next_block new = 0"
  shows "chain ((tmp, new) # set_block (last as) (\<lambda>m. m\<lparr>next_block := tmp\<rparr>) bs) p (as @ [tmp])"
  using assms
proof (induction as arbitrary: p)
  case (Cons a as)
  obtain m where m: "p = a" "a \<noteq> 0" "map_of bs a = Some m" "chain bs (next_block m) as" using Cons.prems(1) by auto
  show ?case
  proof (cases "as = []")
    case True
    then show ?thesis using m Cons.prems by (simp add: map_of_set_block)
  next
    case False
    then have "a \<noteq> last as" using Cons.prems(3) by auto
    then show ?thesis using m Cons.IH [OF m(4) False] Cons.prems False by (simp add: map_of_set_block)
  qed
qed simp

lemma chain_remove:
  assumes "chain bs p (pre @ a # post)" "distinct (pre @ a # post)" "map_of bs a = Some m"
  shows "if pre = [] then chain (filter (\<lambda>e. fst e \<noteq> a) bs) (next_block m) post
    else chain (filter (\<lambda>e. fst e \<noteq> a) (set_block (last pre) (\<lambda>q. q\<lparr>next_block := next_block m\<rparr>) bs)) p (pre @ post)"
  using assms
proof (induction pre arbitrary: p)
  case Nil
  then have "chain bs (next_block m) post" by auto
  then show ?case using Nil.prems(2) by (auto elim!: chain_same simp: map_of_filter_ne)
next
  case (Cons b pre)
  obtain k where k: "p = b" "b \<noteq> 0" "map_of bs b = Some k" "chain bs (next_block k) (pre @ a # post)"
    using Cons.prems(1) by auto
  have ab: "b \<noteq> a" using Cons.prems(2) by auto
  show ?case
  proof (cases "pre = []")
    case True
    have "chain bs (next_block m) post" using k(4) True assms(3) by auto
    then have "chain (filter (\<lambda>e. fst e \<noteq> a) (set_block b (\<lambda>q. q\<lparr>next_block := next_block m\<rparr>) bs)) (next_block m) post"
      by (rule chain_same) (use Cons.prems(2) True in \<open>auto simp: map_of_filter_ne map_of_set_block\<close>)
    then show ?thesis using k ab True by (simp add: map_of_filter_ne map_of_set_block)
  next
    case False
    have "last pre \<noteq> b" using Cons.prems(2) False by auto
    then show ?thesis using k ab False Cons.IH [OF k(4) _ assms(3)] Cons.prems(2)
      by (simp add: map_of_filter_ne map_of_set_block)
  qed
qed

lemma live_Cons [simp]: "live ((a, m) # bs) = request_size m + live bs"
  by (simp add: live_def)

lemma live_set_next [simp]: "live (set_block a (\<lambda>m. m\<lparr>next_block := q\<rparr>) bs) = live bs"
  by (induction bs) (auto simp: set_block_def live_def)

lemma live_notin: "a \<notin> fst ` set bs \<Longrightarrow> set_block a f bs = bs \<and> filter (\<lambda>e. fst e \<noteq> a) bs = bs"
  by (induction bs) (auto simp: set_block_def)

lemma set_block_Cons [simp]:
  "set_block a f ((b, m) # bs) = (b, if b = a then f m else m) # set_block a f bs"
  by (simp add: set_block_def)

lemma live_remove:
  "distinct (map fst bs) \<Longrightarrow> map_of bs a = Some m \<Longrightarrow> live bs = request_size m + live (filter (\<lambda>e. fst e \<noteq> a) bs)"
  by (induction bs) (auto simp: live_notin split: if_splits)

lemma live_resize:
  "distinct (map fst bs) \<Longrightarrow> map_of bs a = Some m \<Longrightarrow>
   live (set_block a (\<lambda>p. p\<lparr>request_size := n\<rparr>) bs) + request_size m = live bs + n"
  by (induction bs) (auto simp: live_notin split: if_splits)

lemma chain_set_size: "chain bs p as \<Longrightarrow> chain (set_block a (\<lambda>p. p\<lparr>request_size := n\<rparr>) bs) p as"
  by (induction as arbitrary: p) (auto simp: map_of_set_block)

lemma add_block_ok:
  assumes "links_ok (blocks s) (head s) as" "tmp \<notin> fst ` set (blocks s)" "add_block tmp n file inst s = Inr (p, s')"
  shows "\<exists>as'. links_ok (blocks s') (head s') as' \<and> live (blocks s') = live (blocks s) + n \<and>
    total_memory_requested s' = total_memory_requested s \<and> total_memory_freed s' = total_memory_freed s"
proof -
  let ?new = "\<lparr>request_size = n, mfilename = file, instruction = inst, next_block = 0\<rparr>"
  have l: "chain (blocks s) (head s) as" "distinct as" "set as = fst ` set (blocks s)" "distinct (map fst (blocks s))"
    using assms(1) by (auto simp: links_ok_def)
  show ?thesis
  proof (cases "head s = 0")
    case True
    then have "as = []" using l(1) by (cases as) auto
    then have "blocks s = []" using l(3) by simp
    then have e: "links_ok [(tmp, ?new)] tmp [tmp] \<longleftrightarrow> tmp \<noteq> 0" "live (blocks s) = 0" "blocks s = []"
      by (auto simp: links_ok_def live_def)
    have "tmp \<noteq> 0" "s' = s\<lparr>head := tmp, blocks := [(tmp, ?new)]\<rparr>"
      using assms(3) True e(3) by (auto simp: add_block_def Let_def split: if_splits)
    then show ?thesis using e by (intro exI [of _ "[tmp]"]) simp
  next
    case False
    then have ne: "as \<noteq> []" using l(1) by auto
    have lb: "last_block (Suc (length (blocks s))) (blocks s) (head s) = Inr (last as)"
      using last_block_chain [OF l(1) ne] links_ok_length [OF assms(1)] by (simp del: last_block.simps)
    have tmp: "tmp \<noteq> 0"
      and s': "s' = s\<lparr>blocks := (tmp, ?new) # set_block (last as) (\<lambda>m. m\<lparr>next_block := tmp\<rparr>) (blocks s)\<rparr>"
      using assms(3) False unfolding add_block_def lb by (auto simp: Let_def split: if_splits)
    have nt: "tmp \<notin> set as" using assms(2) l(3) by simp
    have "chain ((tmp, ?new) # set_block (last as) (\<lambda>m. m\<lparr>next_block := tmp\<rparr>) (blocks s)) (head s) (as @ [tmp])"
      by (rule meta_chain_snoc [OF l(1) ne l(2) nt tmp]) simp
    then have "links_ok (blocks s') (head s') (as @ [tmp])"
      using l nt unfolding s' by (simp add: links_ok_def)
    then show ?thesis unfolding s' by auto
  qed
qed

lemma find_block_ok:
  assumes "links_ok bs p as"
  shows "(\<exists>pre a post m. as = pre @ a # post \<and> a + META = payload \<and> a \<noteq> 0 \<and> map_of bs a = Some m \<and>
      find_block (Suc (length bs)) bs p 0 payload = Inr (a, if pre = [] then 0 else last pre) \<and>
      (pre \<noteq> [] \<longrightarrow> last pre \<noteq> 0)) \<or>
    (\<forall>a \<in> fst ` set bs. a + META \<noteq> payload) \<and> (\<exists>q. find_block (Suc (length bs)) bs p 0 payload = Inr (0, q))"
proof -
  have c: "chain bs p as" "distinct as" "set as = fst ` set bs" using assms by (auto simp: links_ok_def)
  have len: "length as < Suc (length bs)" using links_ok_length [OF assms] by simp
  from find_block_chain [OF c(1,2) len, of payload 0] show ?thesis
  proof (elim disjE exE conjE)
    fix pre a post assume as: "as = pre @ a # post"
      and r: "a + META = payload" "find_block (Suc (length bs)) bs p 0 payload = Inr (a, if pre = [] then 0 else last pre)"
    obtain m where m: "a \<noteq> 0" "map_of bs a = Some m" using links_ok_mem [OF assms, of a] as by auto
    have "last pre \<noteq> 0" if "pre \<noteq> []" using links_ok_mem [OF assms, of "last pre"] that as by simp
    then show ?thesis using as r m by blast
  next
    fix q assume "\<forall>a\<in>set as. a + META \<noteq> payload" "find_block (Suc (length bs)) bs p 0 payload = Inr (0, q)"
    then show ?thesis using c(3) by simp
  qed
qed

text \<open>\<open>mini_free\<close> of a live payload takes its block off the list; of any other address it counts an error.\<close>

lemma mini_free_ok:
  assumes "memcheck_ok s as" "p \<noteq> 0"
  shows "\<exists>s'. mini_free p s = Inr s' \<and> (\<exists>as'. memcheck_ok s' as') \<and>
    (if \<exists>a \<in> fst ` set (blocks s). a + META = p
     then \<exists>m. map_of (blocks s) (p - META) = Some m \<and> fst ` set (blocks s') = fst ` set (blocks s) - {p - META} \<and>
       total_memory_freed s' = size_add (total_memory_freed s) (request_size m) \<and>
       total_memory_requested s' = total_memory_requested s \<and> invalid_addresses s' = invalid_addresses s
     else s' = s\<lparr>invalid_addresses := size_add (invalid_addresses s) 1\<rparr>)"
proof -
  have l: "links_ok (blocks s) (head s) as" and cnt: "total_memory_requested s mod 2 ^ 64 = (total_memory_freed s + live (blocks s)) mod 2 ^ 64"
    using assms(1) by (auto simp: memcheck_ok_links)
  from find_block_ok [OF l, of p] show ?thesis
  proof (elim disjE exE conjE)
    fix pre a post m
    assume as: "as = pre @ a # post" and a: "a + META = p" "a \<noteq> 0" "map_of (blocks s) a = Some m"
      and f: "find_block (Suc (length (blocks s))) (blocks s) (head s) 0 p = Inr (a, if pre = [] then 0 else last pre)"
      and pre: "pre \<noteq> [] \<longrightarrow> last pre \<noteq> 0"
    have c: "chain (blocks s) (head s) (pre @ a # post)" "distinct (pre @ a # post)" "distinct (map fst (blocks s))"
        "set (pre @ a # post) = fst ` set (blocks s)"
      using l as by (auto simp: links_ok_def)
    define bs where "bs = (if pre = [] then blocks s else set_block (last pre) (\<lambda>q. q\<lparr>next_block := next_block m\<rparr>) (blocks s))"
    define h where "h = (if pre = [] then next_block m else head s)"
    let ?s = "s\<lparr>head := h, total_memory_freed := size_add (total_memory_freed s) (request_size m),
        blocks := filter (\<lambda>e. fst e \<noteq> a) bs\<rparr>"
    have r: "mini_free p s = Inr ?s"
      using assms(2) f a pre by (cases "pre = []") (simp_all add: mini_free_def bs_def h_def Let_def)
    have ch: "chain (filter (\<lambda>e. fst e \<noteq> a) bs) h (pre @ post)"
      using chain_remove [OF c(1,2) a(3)] by (auto simp: bs_def h_def split: if_splits)
    have keys: "map fst bs = map fst (blocks s)" "fst ` set bs = fst ` set (blocks s)" by (simp_all add: bs_def)
    have k2: "fst ` set (filter (\<lambda>e. fst e \<noteq> a) bs) = fst ` set (blocks s) - {a}"
      using keys(2) by (auto simp: image_iff)
    have "distinct (map fst (filter (\<lambda>e. fst e \<noteq> a) bs))"
      using c(3) keys(1) by (metis distinct_map_filter)
    then have lk: "links_ok (filter (\<lambda>e. fst e \<noteq> a) bs) h (pre @ post)"
      using ch c(2,4) k2 by (auto simp: links_ok_def)
    have ma: "\<exists>m'. map_of bs a = Some m' \<and> request_size m' = request_size m"
      using a(3) by (auto simp: bs_def map_of_set_block)
    have "live (blocks s) = live bs" by (simp add: bs_def)
    then have lv: "live (blocks s) = request_size m + live (filter (\<lambda>e. fst e \<noteq> a) bs)"
      using live_remove [of bs a] c(3) keys(1) ma by auto
    have "memcheck_ok ?s (pre @ post)"
      using lk cnt unfolding memcheck_ok_links lv by (simp add: size_add_def mod_simps add.assoc)
    moreover have "p - META = a" using a(1) by simp
    moreover have "a \<in> fst ` set (blocks s)" using c(4) by auto
    then have "\<exists>a \<in> fst ` set (blocks s). a + META = p" using a(1) by (rule bexI [rotated])
    ultimately show ?thesis using r a(3) k2 by auto
  next
    fix q assume no: "\<forall>a \<in> fst ` set (blocks s). a + META \<noteq> p"
      and f: "find_block (Suc (length (blocks s))) (blocks s) (head s) 0 p = Inr (0, q)"
    have "mini_free p s = Inr (s\<lparr>invalid_addresses := size_add (invalid_addresses s) 1\<rparr>)"
      using assms(2) f by (simp add: mini_free_def)
    moreover have "memcheck_ok (s\<lparr>invalid_addresses := size_add (invalid_addresses s) 1\<rparr>) as"
      using assms(1) by (simp add: memcheck_ok_def)
    ultimately show ?thesis using no by auto
  qed
qed

lemma add_counted_ok:
  assumes "memcheck_ok s as" "tmp \<notin> fst ` set (blocks s)"
    "add_block tmp n file inst (s\<lparr>total_memory_requested := size_add (total_memory_requested s) n\<rparr>) = Inr (p, s')"
  shows "\<exists>as'. memcheck_ok s' as'"
proof -
  let ?s = "s\<lparr>total_memory_requested := size_add (total_memory_requested s) n\<rparr>"
  have l: "links_ok (blocks ?s) (head ?s) as" "tmp \<notin> fst ` set (blocks ?s)"
    and cnt: "total_memory_requested s mod 2 ^ 64 = (total_memory_freed s + live (blocks s)) mod 2 ^ 64"
    using assms by (auto simp: memcheck_ok_links)
  obtain as' where as': "links_ok (blocks s') (head s') as'" "live (blocks s') = live (blocks s) + n"
      "total_memory_requested s' = size_add (total_memory_requested s) n" "total_memory_freed s' = total_memory_freed s"
    using add_block_ok [OF l assms(3)] by auto
  have "(total_memory_requested s + n) mod 2 ^ 64 = (total_memory_freed s + live (blocks s) + n) mod 2 ^ 64"
    using cnt by (metis mod_add_left_eq)
  then have "memcheck_ok s' as'"
    using as' by (simp add: memcheck_ok_links size_add_def add.assoc)
  then show ?thesis ..
qed

inductive memcheck_step :: "memcheck \<Rightarrow> memcheck \<Rightarrow> bool" where
  malloc: "tmp \<notin> fst ` set (blocks s) \<Longrightarrow> mini_malloc tmp n file inst s = Inr (p, s') \<Longrightarrow> memcheck_step s s'"
| calloc: "tmp \<notin> fst ` set (blocks s) \<Longrightarrow> mini_calloc tmp k n file inst s = Inr (p, s') \<Longrightarrow> memcheck_step s s'"
| realloc: "tmp \<notin> fst ` set (blocks s) \<or> tmp + META = payload \<Longrightarrow> mini_realloc tmp payload n file inst s = Inr (p, s') \<Longrightarrow>
    memcheck_step s s'"
| free: "mini_free payload s = Inr s' \<Longrightarrow> memcheck_step s s'"

definition memcheck_start :: "memcheck \<Rightarrow> bool" where
  "memcheck_start s \<longleftrightarrow> s = \<lparr>head = 0, blocks = [], total_memory_requested = 0, total_memory_freed = 0, invalid_addresses = 0\<rparr>"

lemma mini_malloc_keeps:
  "memcheck_ok s as \<Longrightarrow> tmp \<notin> fst ` set (blocks s) \<Longrightarrow> mini_malloc tmp n file inst s = Inr (p, s') \<Longrightarrow>
   \<exists>as'. memcheck_ok s' as'"
  using add_counted_ok [of s as tmp n] by (auto simp: mini_malloc_def split: if_splits)

lemma mini_free_keeps: "memcheck_ok s as \<Longrightarrow> mini_free p s = Inr s' \<Longrightarrow> \<exists>as'. memcheck_ok s' as'"
  using mini_free_ok [of s as p] by (cases "p = 0") (auto simp: mini_free_def)

lemma mini_realloc_keeps:
  assumes ok: "memcheck_ok s as" and t: "tmp \<notin> fst ` set (blocks s) \<or> tmp + META = payload"
    and r: "mini_realloc tmp payload n file inst s = Inr (p, s')"
  shows "\<exists>as'. memcheck_ok s' as'"
proof (cases "payload = 0 \<or> n = 0")
  case True
  have "META \<noteq> 0" by (simp add: META_def)
  then show ?thesis using True r t mini_malloc_keeps [OF ok] mini_free_keeps [OF ok]
    by (auto simp: mini_realloc_def rbind_eq_Inr split: if_splits)
next
  case False
  have l: "links_ok (blocks s) (head s) as" and cnt: "total_memory_requested s mod 2 ^ 64 = (total_memory_freed s + live (blocks s)) mod 2 ^ 64"
    using ok by (auto simp: memcheck_ok_links)
  from find_block_ok [OF l, of payload] show ?thesis
  proof (elim disjE exE conjE)
    fix pre a post m
    assume a: "a \<noteq> 0" "map_of (blocks s) a = Some m"
      and f: "find_block (Suc (length (blocks s))) (blocks s) (head s) 0 payload = Inr (a, if pre = [] then 0 else last pre)"
    let ?bs = "set_block a (\<lambda>p. p\<lparr>request_size := n\<rparr>) (blocks s)"
    have lk: "links_ok ?bs (head s) as" using l by (simp add: links_ok_def chain_set_size)
    have lv: "live ?bs + request_size m = live (blocks s) + n" using live_resize [of "blocks s" a m n] l a(2) by (simp add: links_ok_def)
    show ?thesis
    proof (cases "request_size m = n")
      case True
      then show ?thesis using r False f a ok by (auto simp: mini_realloc_def)
    next
      case ne: False
      define s1 where "s1 = (if request_size m > n
         then s\<lparr>total_memory_freed := size_add (total_memory_freed s) (request_size m - n)\<rparr>
         else s\<lparr>total_memory_requested := size_add (total_memory_requested s) (n - request_size m)\<rparr>)"
      have s': "s' = s1\<lparr>blocks := ?bs\<rparr>" "head s1 = head s"
        using r False f a ne by (auto simp: mini_realloc_def s1_def Let_def split: if_splits)
      have "total_memory_requested s1 mod 2 ^ 64 = (total_memory_freed s1 + live ?bs) mod 2 ^ 64"
      proof (cases "request_size m > n")
        case True
        then have "total_memory_freed s + (request_size m - n) + live ?bs = total_memory_freed s + live (blocks s)" using lv by simp
        then show ?thesis using True cnt by (simp add: s1_def size_add_def mod_simps)
      next
        case False
        then have "live ?bs = live (blocks s) + (n - request_size m)" using lv by simp
        moreover have "(total_memory_requested s + (n - request_size m)) mod 2 ^ 64 =
            (total_memory_freed s + live (blocks s) + (n - request_size m)) mod 2 ^ 64"
          using cnt by (metis mod_add_left_eq)
        ultimately show ?thesis using False by (simp add: s1_def size_add_def add.assoc)
      qed
      then have "memcheck_ok s' as" using lk s' by (simp add: memcheck_ok_links)
      then show ?thesis ..
    qed
  next
    fix q assume "find_block (Suc (length (blocks s))) (blocks s) (head s) 0 payload = Inr (0, q)"
    then have "s' = s\<lparr>invalid_addresses := size_add (invalid_addresses s) 1\<rparr>" using r False by (auto simp: mini_realloc_def)
    then have "memcheck_ok s' as" using ok by (simp add: memcheck_ok_def)
    then show ?thesis ..
  qed
qed

interpretation memcheck_runs: state_machine memcheck_start memcheck_step "\<lambda>s. \<exists>as. memcheck_ok s as"
proof unfold_locales
  fix s show "memcheck_start s \<Longrightarrow> \<exists>as. memcheck_ok s as"
    by (intro exI [of _ "[]"]) (auto simp: memcheck_start_def memcheck_ok_def live_def)
  fix t assume ok: "\<exists>as. memcheck_ok s as" and step: "memcheck_step s t"
  from step ok show "\<exists>as. memcheck_ok t as"
  proof cases
    case malloc then show ?thesis using ok mini_malloc_keeps by blast
  next
    case (calloc tmp k n f inst p)
    then show ?thesis using ok add_counted_ok [of s _ tmp "k * n mod 2 ^ 64"]
      by (auto simp: mini_calloc_def Let_def split: if_splits)
  next
    case realloc then show ?thesis using ok mini_realloc_keeps by blast
  next
    case free then show ?thesis using ok mini_free_keeps by blast
  qed
qed

text \<open>C27: The leak checker's books. After any calls of \<open>malloc\<close>, \<open>calloc\<close>, \<open>realloc\<close> and \<open>free\<close> the memory
  requested is the memory freed plus the sizes of the blocks that are still allocated (modulo \<open>2 ^ 64\<close>),
  and these are exactly the blocks a walk of the list finds: \<open>free\<close> of one of their payloads succeeds,
  removes it and credits its size, and of any other address only counts an invalid address. But a
  \<open>realloc\<close> that moves a block reads the old one after it is freed.\<close>

theorem memcheck_accounting:
  assumes "memcheck_start s0" "memcheck_step\<^sup>*\<^sup>* s0 s" "p \<noteq> 0"
  shows "total_memory_requested s mod 2 ^ 64 = (total_memory_freed s + live (blocks s)) mod 2 ^ 64 \<and>
    (\<exists>s'. mini_free p s = Inr s' \<and>
      (if \<exists>a \<in> fst ` set (blocks s). a + META = p
       then \<exists>m. map_of (blocks s) (p - META) = Some m \<and> fst ` set (blocks s') = fst ` set (blocks s) - {p - META} \<and>
         total_memory_freed s' = size_add (total_memory_freed s) (request_size m) \<and>
         total_memory_requested s' = total_memory_requested s \<and> invalid_addresses s' = invalid_addresses s
       else s' = s\<lparr>invalid_addresses := size_add (invalid_addresses s) 1\<rparr>)) \<and>
    (\<forall>m. map_of (blocks s) (p - META) = Some m \<and> META \<le> p \<and> 0 < n \<and> request_size m \<noteq> n \<and> moved \<noteq> 0 \<and> moved \<noteq> p - META \<longrightarrow>
      mini_realloc moved p n file inst s = Inl Dangling)"
proof -
  obtain as where ok: "memcheck_ok s as" using memcheck_runs.reachable_inv [OF assms(1,2)] by blast
  then have l: "links_ok (blocks s) (head s) as" by (simp add: memcheck_ok_links)
  have "mini_realloc moved p n file inst s = Inl Dangling"
    if m: "map_of (blocks s) (p - META) = Some m" "META \<le> p" "0 < n" "request_size m \<noteq> n" "moved \<noteq> 0" "moved \<noteq> p - META" for m
  proof -
    have "p - META \<in> fst ` set (blocks s)" using m(1) by (metis domI dom_map_of_conv_image_fst)
    moreover have "p - META + META = p" using m(2) by simp
    ultimately obtain a q where "a \<noteq> 0" "a + META = p" "find_block (Suc (length (blocks s))) (blocks s) (head s) 0 p = Inr (a, q)"
      using find_block_ok [OF l, of p] by blast
    then show ?thesis using m assms(3) by (auto simp: mini_realloc_def)
  qed
  then show ?thesis using mini_free_ok [OF ok assms(3)] ok unfolding memcheck_ok_def by blast
qed
definition fresh_memcheck :: memcheck where
  "fresh_memcheck = \<lparr>head = 0, blocks = [], total_memory_requested = 0, total_memory_freed = 0, invalid_addresses = 0\<rparr>"

definition one_block :: memcheck where
  "one_block = \<lparr>head = 100, blocks = [(100, \<lparr>request_size = 8, mfilename = ''f'', instruction = 0, next_block = 0\<rparr>)],
      total_memory_requested = 8, total_memory_freed = 0, invalid_addresses = 0\<rparr>"

lemma one_block_step: "mini_malloc 100 8 ''f'' 0 fresh_memcheck = Inr (132, one_block)"
  unfolding fresh_memcheck_def one_block_def
  by (simp add: mini_malloc_def add_block_def) (simp add: size_add_def META_def)

theorem memcheck_accounting_witness:
  "\<exists>s s'. mini_malloc 100 8 ''f'' 0 fresh_memcheck = Inr (132, s) \<and> mini_free 132 s = Inr s' \<and> total_memory_freed s' = 8"
proof -
  note m = one_block_step
  have "memcheck_step fresh_memcheck one_block" by (rule memcheck_step.malloc [OF _ m]) (simp add: fresh_memcheck_def)
  then have r: "memcheck_step\<^sup>*\<^sup>* fresh_memcheck one_block" by blast
  have p: "(132 :: nat) \<noteq> 0" by simp
  show ?thesis
    using memcheck_accounting [OF _ r p, of 0 0 "[]" 0] m
    by (auto simp: memcheck_start_def META_def size_add_def fresh_memcheck_def one_block_def)
qed

end
