(* ===== verification/MMU.thy ===== *)
theory MMU
  imports Interfaces
begin

text \<open>
  \<open>ideal_indirection/mmu.c\<close>: a two-level page table with a translation cache.

  Memory is physical frames; a frame is read either as a table of 1024 entries (\<open>tables\<close>) or as 4096
  bytes (\<open>bytes\<close>), and an entry is pointed to by its frame and index. What the code calls and the
  repository does not hold is \<open>mmu_lib\<close>: the translation cache, the test of an address against the
  segments of a process, and the kernel, whose state is \<open>kernel\<close> and which hands out frames (perhaps
  evicting a page for them), takes them back and reads pages from disk. \<open>tlb_laws\<close> and \<open>kernel_laws\<close> of \<open>MMU_Tables\<close> say what they promise.
  The headers are not in the repository either: pages of 4096 bytes and tables of 1024 entries are what
  the shifts and masks of the code are for.
\<close>

definition PAGE_SIZE :: nat where "PAGE_SIZE = 4096"
definition NUM_ENTRIES :: nat where "NUM_ENTRIES = 1024"

record page_table_entry =
  present :: bool
  read_write :: bool
  user_supervisor :: bool
  base_addr :: nat
  accessed :: bool
  dirty :: bool

type_synonym pte_ptr = "nat \<times> nat"

record 'k pmem =
  tables :: "nat \<Rightarrow> nat \<Rightarrow> page_table_entry"
  bytes :: "nat \<Rightarrow> nat \<Rightarrow> char"
  kernel :: 'k

datatype segment = STACK | MMAP | HEAP | BSS | DATA | TEXT | TESTING

record vm_segmentation =
  seg_start :: nat
  seg_end :: nat
  seg_read :: bool
  seg_write :: bool
  seg_exec :: bool
  grows_down :: bool

record ('t, 'k) mmu_lib =
  tlb_create :: 't
  tlb_flush :: "'t \<Rightarrow> 't"
  tlb_get_pte :: "'t \<Rightarrow> nat \<Rightarrow> pte_ptr option \<times> 't"
  tlb_add_pte :: "'t \<Rightarrow> nat \<Rightarrow> pte_ptr \<Rightarrow> 't"
  address_in_segmentations :: "(segment \<Rightarrow> vm_segmentation) \<Rightarrow> nat \<Rightarrow> bool"
  ask_kernel_for_frame :: "pte_ptr option \<Rightarrow> 'k pmem \<Rightarrow> nat \<times> 'k pmem"
  return_frame_to_kernel :: "nat \<Rightarrow> 'k pmem \<Rightarrow> 'k pmem"
  read_page_from_disk :: "pte_ptr \<Rightarrow> 'k pmem \<Rightarrow> 'k pmem"
  remove_swap_file :: "pte_ptr \<Rightarrow> 'k pmem \<Rightarrow> 'k pmem"

record ('t, 'k) mmu =
  mem :: "'k pmem"
  page_directories :: "nat \<Rightarrow> nat option"
  segmentations :: "nat \<Rightarrow> (segment \<Rightarrow> vm_segmentation) option"
  tlb :: 't
  curr_pid :: nat
  num_tlb_misses :: nat
  num_page_faults :: nat
  num_segmentation_faults :: nat

section \<open>Entries\<close>

definition entry :: "'k pmem \<Rightarrow> pte_ptr \<Rightarrow> page_table_entry" where
  "entry m p = tables m (fst p) (snd p)"

definition set_entry :: "pte_ptr \<Rightarrow> (page_table_entry \<Rightarrow> page_table_entry) \<Rightarrow> 'k pmem \<Rightarrow> 'k pmem" where
  "set_entry p f m = m\<lparr>tables := (tables m)(fst p := (tables m (fst p))(snd p := f (entry m p)))\<rparr>"

definition map_frame :: "nat \<Rightarrow> page_table_entry \<Rightarrow> page_table_entry" where
  "map_frame address e = e\<lparr>base_addr := address div 2 ^ 12, present := True, read_write := True, user_supervisor := True\<rparr>"

definition pde_index :: "nat \<Rightarrow> nat" where "pde_index va = va div 2 ^ 22 mod 1024"
definition pte_index :: "nat \<Rightarrow> nat" where "pte_index va = va div 2 ^ 12 mod 1024"

section \<open>The operations\<close>

definition mmu_create :: "('t, 'k) mmu_lib \<Rightarrow> 'k pmem \<Rightarrow> ('t, 'k) mmu" where
  "mmu_create lib m =
     \<lparr>mem = m, page_directories = (\<lambda>_. None), segmentations = (\<lambda>_. None), tlb = tlb_create lib, curr_pid = 0,
      num_tlb_misses = 0, num_page_faults = 0, num_segmentation_faults = 0\<rparr>"

definition mmu_tlb_miss :: "('t, 'k) mmu \<Rightarrow> ('t, 'k) mmu" where
  "mmu_tlb_miss s = s\<lparr>num_tlb_misses := num_tlb_misses s + 1\<rparr>"

definition mmu_raise_page_fault :: "('t, 'k) mmu \<Rightarrow> ('t, 'k) mmu" where
  "mmu_raise_page_fault s = s\<lparr>num_page_faults := num_page_faults s + 1\<rparr>"

definition mmu_raise_segmentation_fault :: "('t, 'k) mmu \<Rightarrow> ('t, 'k) mmu" where
  "mmu_raise_segmentation_fault s = s\<lparr>num_segmentation_faults := num_segmentation_faults s + 1\<rparr>"

text \<open>The page table of an address, made when the directory has none.\<close>

definition walk_directory :: "('t, 'k) mmu_lib \<Rightarrow> nat \<Rightarrow> nat \<Rightarrow> ('t, 'k) mmu \<Rightarrow> pte_ptr \<times> ('t, 'k) mmu" where
  "walk_directory lib pd va s =
     (let pde = (pd, pde_index va);
          s = (if present (entry (mem s) pde) then s
               else
                 let s = mmu_raise_page_fault s; (address, m) = ask_kernel_for_frame lib None (mem s) in
                 s\<lparr>mem := set_entry pde (map_frame address) m\<rparr>) in
      ((base_addr (entry (mem s) pde), pte_index va), s))"

text \<open>The page of an entry, brought in when it is not present, and the test of its permissions.\<close>

definition check_page :: "('t, 'k) mmu_lib \<Rightarrow> pte_ptr \<Rightarrow> ('t, 'k) mmu \<Rightarrow> pte_ptr option \<times> ('t, 'k) mmu" where
  "check_page lib pte s =
     (let s = (if present (entry (mem s) pte) then s
               else
                 let s = mmu_raise_page_fault s; (address, m) = ask_kernel_for_frame lib None (mem s) in
                 s\<lparr>mem := read_page_from_disk lib pte (set_entry pte (map_frame address) m)\<rparr>) in
      if \<not> (user_supervisor (entry (mem s) pte) \<and> read_write (entry (mem s) pte))
      then (None, mmu_raise_segmentation_fault s)
      else (Some pte, s))"

definition mmu_perform_check ::
  "('t, 'k) mmu_lib \<Rightarrow> nat \<Rightarrow> nat \<Rightarrow> ('t, 'k) mmu \<Rightarrow> (pte_ptr option \<times> ('t, 'k) mmu) outcome" where
  "mmu_perform_check lib va pid s =
     (let s = (if curr_pid s \<noteq> pid then s\<lparr>tlb := tlb_flush lib (tlb s), curr_pid := pid\<rparr> else s) in
      case segmentations s pid of
        None \<Rightarrow> Inl Null_deref
      | Some segs \<Rightarrow>
          if \<not> address_in_segmentations lib segs va then Inr (None, mmu_raise_segmentation_fault s)
          else
            let (hit, t) = tlb_get_pte lib (tlb s) (va div 2 ^ 12); s = s\<lparr>tlb := t\<rparr> in
            (case hit of
               Some pte \<Rightarrow> Inr (check_page lib pte s)
             | None \<Rightarrow>
                 let s = mmu_tlb_miss s in
                 (case page_directories s pid of
                    None \<Rightarrow> Inl Null_deref
                  | Some pd \<Rightarrow>
                      let (pte, s) = walk_directory lib pd va s;
                          s = s\<lparr>tlb := tlb_add_pte lib (tlb s) (va div 2 ^ 12) pte\<rparr> in
                      Inr (check_page lib pte s))))"

text \<open>\<open>max_pid\<close> is \<open>MAX_PROCESS_ID\<close>. The bytes read are those written to the buffer, none on a fault.\<close>

definition mmu_read_from_virtual_address ::
  "('t, 'k) mmu_lib \<Rightarrow> nat \<Rightarrow> nat \<Rightarrow> nat \<Rightarrow> nat \<Rightarrow> ('t, 'k) mmu \<Rightarrow> (char list \<times> ('t, 'k) mmu) outcome" where
  "mmu_read_from_virtual_address lib max_pid va pid num_bytes s =
     rbind (rassert (pid < max_pid)) (\<lambda>_.
     rbind (rassert (num_bytes + va mod PAGE_SIZE \<le> PAGE_SIZE)) (\<lambda>_.
     rbind (mmu_perform_check lib va pid s) (\<lambda>(pte, s).
     case pte of
       None \<Rightarrow> Inr ([], s)
     | Some p \<Rightarrow>
         let frame = base_addr (entry (mem s) p); off = va mod PAGE_SIZE in
         Inr (map (\<lambda>i. bytes (mem s) frame (off + i)) [0..<num_bytes],
              s\<lparr>mem := set_entry p (\<lambda>e. e\<lparr>accessed := True\<rparr>) (mem s)\<rparr>))))"

definition put_frame :: "nat \<Rightarrow> nat \<Rightarrow> char list \<Rightarrow> 'k pmem \<Rightarrow> 'k pmem" where
  "put_frame frame off bs m = m\<lparr>bytes := (bytes m)(frame := (\<lambda>i.
     if off \<le> i \<and> i < off + length bs then bs ! (i - off) else bytes m frame i))\<rparr>"

definition mmu_write_to_virtual_address ::
  "('t, 'k) mmu_lib \<Rightarrow> nat \<Rightarrow> nat \<Rightarrow> nat \<Rightarrow> char list \<Rightarrow> nat \<Rightarrow> ('t, 'k) mmu \<Rightarrow> ('t, 'k) mmu outcome" where
  "mmu_write_to_virtual_address lib max_pid va pid buffer num_bytes s =
     rbind (rassert (pid < max_pid)) (\<lambda>_.
     rbind (rassert (num_bytes + va mod PAGE_SIZE \<le> PAGE_SIZE)) (\<lambda>_.
     rbind (mmu_perform_check lib va pid s) (\<lambda>(pte, s).
     case pte of
       None \<Rightarrow> Inr s
     | Some p \<Rightarrow>
         if length buffer < num_bytes then Inl Out_of_bounds
         else
           let m = put_frame (base_addr (entry (mem s) p)) (va mod PAGE_SIZE) (take num_bytes buffer) (mem s) in
           Inr (s\<lparr>mem := set_entry p (\<lambda>e. e\<lparr>dirty := True, accessed := True\<rparr>) m\<rparr>))))"

definition segment_table :: "segment \<Rightarrow> vm_segmentation" where
  "segment_table g = (case g of
      STACK \<Rightarrow> \<lparr>seg_start = 0xBFFFE000, seg_end = 0xC07FE000, seg_read = True, seg_write = True, seg_exec = False, grows_down = True\<rparr>
    | MMAP \<Rightarrow> \<lparr>seg_start = 0xC07FE000, seg_end = 0xC07FE000, seg_read = True, seg_write = True, seg_exec = True, grows_down = True\<rparr>
    | HEAP \<Rightarrow> \<lparr>seg_start = 0x08072000, seg_end = 0x08072000, seg_read = True, seg_write = True, seg_exec = False, grows_down = False\<rparr>
    | BSS \<Rightarrow> \<lparr>seg_start = 0x0805A000, seg_end = 0x08072000, seg_read = True, seg_write = True, seg_exec = False, grows_down = False\<rparr>
    | DATA \<Rightarrow> \<lparr>seg_start = 0x08052000, seg_end = 0x0805A000, seg_read = True, seg_write = True, seg_exec = False, grows_down = False\<rparr>
    | TEXT \<Rightarrow> \<lparr>seg_start = 0x08048000, seg_end = 0x08052000, seg_read = True, seg_write = False, seg_exec = True, grows_down = False\<rparr>
    | TESTING \<Rightarrow> \<lparr>seg_start = PAGE_SIZE, seg_end = 3 * PAGE_SIZE, seg_read = True, seg_write = True, seg_exec = False, grows_down = False\<rparr>)"

text \<open>The entry \<open>i\<close> of the first page table gets a page of its own, which the kernel may evict.\<close>

definition map_testing_page :: "('t, 'k) mmu_lib \<Rightarrow> pte_ptr \<Rightarrow> nat \<Rightarrow> 'k pmem \<Rightarrow> 'k pmem" where
  "map_testing_page lib pde i m =
     (let pte = (base_addr (entry m pde), i); (address, m) = ask_kernel_for_frame lib (Some pte) m in
      set_entry pte (map_frame address) m)"

definition mmu_add_process :: "('t, 'k) mmu_lib \<Rightarrow> nat \<Rightarrow> nat \<Rightarrow> ('t, 'k) mmu \<Rightarrow> ('t, 'k) mmu outcome" where
  "mmu_add_process lib max_pid pid s =
     rbind (rassert (pid < max_pid)) (\<lambda>_.
     let (address, m) = ask_kernel_for_frame lib None (mem s);
         pd = address div 2 ^ 12;
         s = s\<lparr>page_directories := (page_directories s)(pid \<mapsto> pd),
               segmentations := (segmentations s)(pid \<mapsto> segment_table)\<rparr>;
         pde = (pd, 0);
         (address, m) = ask_kernel_for_frame lib None m;
         m = set_entry pde (map_frame address) m;
         m = fold (map_testing_page lib pde) [1..<3] m in
     Inr (s\<lparr>mem := m\<rparr>))"

definition return_table :: "('t, 'k) mmu_lib \<Rightarrow> nat \<Rightarrow> 'k pmem \<Rightarrow> 'k pmem" where
  "return_table lib pt m =
     return_frame_to_kernel lib pt (fold (\<lambda>vpn2 m.
        let pte = (pt, vpn2);
            m = (if present (entry m pte) then return_frame_to_kernel lib (base_addr (entry m pte)) m else m) in
        remove_swap_file lib pte m) [0..<NUM_ENTRIES] m)"

definition mmu_remove_process :: "('t, 'k) mmu_lib \<Rightarrow> nat \<Rightarrow> nat \<Rightarrow> ('t, 'k) mmu \<Rightarrow> ('t, 'k) mmu outcome" where
  "mmu_remove_process lib max_pid pid s =
     rbind (rassert (pid < max_pid)) (\<lambda>_.
     let m = (case page_directories s pid of
                None \<Rightarrow> mem s
              | Some pd \<Rightarrow>
                  return_frame_to_kernel lib pd (fold (\<lambda>vpn1 m.
                     let pde = (pd, vpn1) in
                     if present (entry m pde) then return_table lib (base_addr (entry m pde)) m else m)
                   [0..<NUM_ENTRIES] (mem s)));
         s = s\<lparr>mem := m, page_directories := (page_directories s)(pid := None),
               segmentations := (segmentations s)(pid := None)\<rparr> in
     Inr (if curr_pid s = pid then s\<lparr>tlb := tlb_flush lib (tlb s)\<rparr> else s))"

definition mmu_delete :: "('t, 'k) mmu_lib \<Rightarrow> nat \<Rightarrow> ('t, 'k) mmu \<Rightarrow> ('t, 'k) mmu outcome" where
  "mmu_delete lib max_pid s = rfold (mmu_remove_process lib max_pid) [0..<max_pid] s"

end
