(* ===== verification/MMU_Tables.thy ===== *)
theory MMU_Tables
  imports MMU
begin

text \<open>
  The invariant of the page tables of \<open>ideal_indirection/mmu.c\<close>: what the kernel and the translation cache
  promise, and that no two entries of any process's tables ever lead to the same frame.
\<close>

section \<open>What the libraries promise\<close>

text \<open>\<open>tmap\<close> is what a translation cache holds, \<open>pinned\<close> the frames the kernel will not take back by itself,
  \<open>owners\<close> the entries whose page it may evict. A frame it hands out is none of those in use; a page it
  evicts is marked as not present in its entry; a frame it gives for a table is empty.\<close>

definition tlb_laws :: "('t, 'k) mmu_lib \<Rightarrow> ('t \<Rightarrow> nat \<rightharpoonup> pte_ptr) \<Rightarrow> bool" where
  "tlb_laws lib tmap \<longleftrightarrow> tmap (tlb_create lib) = Map.empty \<and> (\<forall>t. tmap (tlb_flush lib t) = Map.empty) \<and>
     (\<forall>t v. fst (tlb_get_pte lib t v) = tmap t v \<and> tmap (snd (tlb_get_pte lib t v)) = tmap t) \<and>
     (\<forall>t v p. tmap (tlb_add_pte lib t v p) \<subseteq>\<^sub>m (tmap t)(v \<mapsto> p))"

definition asked ::
  "('k \<Rightarrow> nat set) \<Rightarrow> ('k \<Rightarrow> pte_ptr set) \<Rightarrow> pte_ptr option \<Rightarrow> 'k pmem \<Rightarrow> nat \<Rightarrow> 'k pmem \<Rightarrow> bool" where
  "asked pinned owners req m f m' \<longleftrightarrow>
     f \<notin> pinned (kernel m) \<and>
     pinned (kernel m') = (if req = None then insert f (pinned (kernel m)) else pinned (kernel m)) \<and>
     set_option req \<subseteq> owners (kernel m') \<and> owners (kernel m') \<subseteq> owners (kernel m) \<union> set_option req \<and>
     (\<forall>p. fst p \<noteq> f \<longrightarrow> entry m' p =
        (if p \<in> owners (kernel m) \<and> p \<notin> owners (kernel m') then (entry m p)\<lparr>present := False\<rparr> else entry m p)) \<and>
     (\<forall>p \<in> owners (kernel m) \<inter> owners (kernel m'). fst p \<noteq> f \<longrightarrow> base_addr (entry m p) \<noteq> f) \<and>
     (\<forall>i. \<not> present (tables m' f i))"

definition kernel_laws :: "('t, 'k) mmu_lib \<Rightarrow> ('k \<Rightarrow> nat set) \<Rightarrow> ('k \<Rightarrow> pte_ptr set) \<Rightarrow> bool" where
  "kernel_laws lib pinned owners \<longleftrightarrow>
     (\<forall>req m. \<exists>f. fst (ask_kernel_for_frame lib req m) = f * 2 ^ 12 \<and>
        asked pinned owners req m f (snd (ask_kernel_for_frame lib req m))) \<and>
     (\<forall>f m. let m' = return_frame_to_kernel lib f m in
        pinned (kernel m') = pinned (kernel m) - {f} \<and>
        owners (kernel m') = {p \<in> owners (kernel m). base_addr (entry m p) \<noteq> f} \<and>
        (\<forall>p. fst p \<noteq> f \<longrightarrow> entry m' p = entry m p)) \<and>
     (\<forall>p m. let m' = read_page_from_disk lib p m in
        pinned (kernel m') = pinned (kernel m) \<and> owners (kernel m') = owners (kernel m) \<and> tables m' = tables m) \<and>
     (\<forall>p m. let m' = remove_swap_file lib p m in
        pinned (kernel m') = pinned (kernel m) \<and> owners (kernel m') = owners (kernel m) \<and> tables m' = tables m)"

lemma ask_cases:
  assumes "kernel_laws lib pinned owners"
  obtains f m' where "ask_kernel_for_frame lib req m = (f * 2 ^ 12, m')" "asked pinned owners req m f m'"
  using assms unfolding kernel_laws_def by (metis prod.collapse)

section \<open>The tables\<close>

definition idx :: "nat \<Rightarrow> bool" where "idx i \<longleftrightarrow> i < NUM_ENTRIES"

text \<open>The page tables that the directories \<open>D\<close> lead to.\<close>

definition pts :: "nat set \<Rightarrow> 'k pmem \<Rightarrow> nat set" where
  "pts D m = {base_addr (entry m (d, i)) | d i. d \<in> D \<and> idx i \<and> present (entry m (d, i))}"

definition tab_ok :: "nat set \<Rightarrow> 'k pmem \<Rightarrow> nat set \<Rightarrow> pte_ptr set \<Rightarrow> bool" where
  "tab_ok D m pin own \<longleftrightarrow> D \<subseteq> pin \<and> pts D m \<subseteq> pin \<and> D \<inter> pts D m = {} \<and>
     (\<forall>d \<in> D. \<forall>d' \<in> D. \<forall>i i'. idx i \<and> idx i' \<and> present (entry m (d, i)) \<and> present (entry m (d', i')) \<and>
        base_addr (entry m (d, i)) = base_addr (entry m (d', i')) \<longrightarrow> d = d' \<and> i = i') \<and>
     (\<forall>t \<in> pts D m. \<forall>j. idx j \<and> present (entry m (t, j)) \<longrightarrow>
        base_addr (entry m (t, j)) \<notin> D \<union> pts D m \<and> (base_addr (entry m (t, j)) \<in> pin \<or> (t, j) \<in> own)) \<and>
     (\<forall>t \<in> pts D m. \<forall>t' \<in> pts D m. \<forall>j j'. idx j \<and> idx j' \<and> present (entry m (t, j)) \<and> present (entry m (t', j')) \<and>
        base_addr (entry m (t, j)) = base_addr (entry m (t', j')) \<longrightarrow> t = t' \<and> j = j') \<and>
     (\<forall>p \<in> own. fst p \<in> pts D m \<and> idx (snd p) \<and> present (entry m p))"

lemma tab_okD:
  assumes "tab_ok D m pin own"
  shows "D \<subseteq> pin" "pts D m \<subseteq> pin" "D \<inter> pts D m = {}"
    "\<And>d d' i i'. d \<in> D \<Longrightarrow> d' \<in> D \<Longrightarrow> idx i \<Longrightarrow> idx i' \<Longrightarrow> present (entry m (d, i)) \<Longrightarrow> present (entry m (d', i')) \<Longrightarrow>
      base_addr (entry m (d, i)) = base_addr (entry m (d', i')) \<Longrightarrow> d = d' \<and> i = i'"
    "\<And>t j. t \<in> pts D m \<Longrightarrow> idx j \<Longrightarrow> present (entry m (t, j)) \<Longrightarrow>
      base_addr (entry m (t, j)) \<notin> D \<union> pts D m \<and> (base_addr (entry m (t, j)) \<in> pin \<or> (t, j) \<in> own)"
    "\<And>t t' j j'. t \<in> pts D m \<Longrightarrow> t' \<in> pts D m \<Longrightarrow> idx j \<Longrightarrow> idx j' \<Longrightarrow> present (entry m (t, j)) \<Longrightarrow>
      present (entry m (t', j')) \<Longrightarrow> base_addr (entry m (t, j)) = base_addr (entry m (t', j')) \<Longrightarrow> t = t' \<and> j = j'"
    "\<And>p. p \<in> own \<Longrightarrow> fst p \<in> pts D m \<and> idx (snd p) \<and> present (entry m p)"
  using assms unfolding tab_ok_def by blast+

lemma entry_set_entry [simp]:
  "entry (set_entry p f m) q = (if q = p then f (entry m p) else entry m q)"
  by (cases p; cases q) (auto simp: entry_def set_entry_def)

lemma kernel_set_entry [simp]: "kernel (set_entry p f m) = kernel m"
  by (simp add: set_entry_def)

lemma map_frame_simps [simp]:
  "present (map_frame (f * 2 ^ 12) e)" "base_addr (map_frame (f * 2 ^ 12) e) = f"
  "present (map_frame (f * 4096) e)" "base_addr (map_frame (f * 4096) e) = f"
  "read_write (map_frame a e)" "user_supervisor (map_frame a e)"
  by (simp_all add: map_frame_def)

text \<open>Asking for a frame: the directories are untouched, entries of page tables at most lose their page,
  and the frame is used by no table and no present entry.\<close>

lemma pts_cong: "(\<And>d i. d \<in> D \<Longrightarrow> entry m' (d, i) = entry m (d, i)) \<Longrightarrow> pts D m' = pts D m"
  unfolding pts_def by (metis (no_types, lifting))

lemma asked_ok:
  assumes a: "asked pinned owners req m f m'" and ok: "tab_ok D m (pinned (kernel m)) (owners (kernel m))"
    and req: "set_option req \<inter> owners (kernel m) = {}"
  shows "tab_ok D m' (pinned (kernel m')) (owners (kernel m') - set_option req)"
    and "pts D m' = pts D m" and "f \<notin> D \<union> pts D m" and "\<And>d i. d \<in> D \<Longrightarrow> entry m' (d, i) = entry m (d, i)"
    and "\<And>t j. t \<in> pts D m \<Longrightarrow> idx j \<Longrightarrow> present (entry m' (t, j)) \<Longrightarrow> present (entry m (t, j)) \<and> base_addr (entry m (t, j)) \<noteq> f"
    and "\<And>t j. t \<in> pts D m \<Longrightarrow> present (entry m' (t, j)) \<Longrightarrow> entry m' (t, j) = entry m (t, j)"
proof -
  note t = tab_okD [OF ok]
  have a: "f \<notin> pinned (kernel m)" "pinned (kernel m) \<subseteq> pinned (kernel m')"
    "set_option req \<subseteq> owners (kernel m')" "owners (kernel m') \<subseteq> owners (kernel m) \<union> set_option req"
    "\<And>p. fst p \<noteq> f \<Longrightarrow> entry m' p =
        (if p \<in> owners (kernel m) \<and> p \<notin> owners (kernel m') then (entry m p)\<lparr>present := False\<rparr> else entry m p)"
    "\<And>p. p \<in> owners (kernel m) \<Longrightarrow> p \<in> owners (kernel m') \<Longrightarrow> fst p \<noteq> f \<Longrightarrow> base_addr (entry m p) \<noteq> f"
    using a unfolding asked_def by auto
  show f: "f \<notin> D \<union> pts D m" using a(1) t(1,2) by blast
  have dir: "entry m' (d, i) = entry m (d, i)" if "d \<in> D" for d i
  proof -
    have "(d, i) \<notin> owners (kernel m)" using t(7) [of "(d, i)"] t(3) that by auto
    then show ?thesis using a(5) [of "(d, i)"] f that by auto
  qed
  then show "\<And>d i. d \<in> D \<Longrightarrow> entry m' (d, i) = entry m (d, i)" .
  show p: "pts D m' = pts D m" by (rule pts_cong) (rule dir)
  have same: "entry m' (q, j) = entry m (q, j)" if "q \<in> pts D m" "present (entry m' (q, j))" for q j
  proof -
    have "q \<noteq> f" using f that(1) by auto
    then show ?thesis using a(5) [of "(q, j)"] that(2)
      by (cases "(q, j) \<in> owners (kernel m) \<and> (q, j) \<notin> owners (kernel m')") simp_all
  qed
  then show "\<And>t j. t \<in> pts D m \<Longrightarrow> present (entry m' (t, j)) \<Longrightarrow> entry m' (t, j) = entry m (t, j)" .
  have new: "present (entry m (q, j)) \<and> base_addr (entry m (q, j)) \<noteq> f \<and> ((q, j) \<in> owners (kernel m) \<longrightarrow> (q, j) \<in> owners (kernel m'))"
    if "q \<in> pts D m" "idx j" "present (entry m' (q, j))" for q j
  proof -
    have pr: "present (entry m (q, j))" using same [OF that(1,3)] that(3) by simp
    have "q \<noteq> f" using that(1) f by auto
    then have ow: "(q, j) \<in> owners (kernel m) \<longrightarrow> (q, j) \<in> owners (kernel m')"
      using a(5) [of "(q, j)"] that(3) by (cases "(q, j) \<in> owners (kernel m')") auto
    have "base_addr (entry m (q, j)) \<noteq> f"
      using t(5) [OF that(1,2) pr] a(1) a(6) [of "(q, j)"] ow \<open>q \<noteq> f\<close> by auto
    then show ?thesis using pr ow by blast
  qed
  then show "\<And>t j. t \<in> pts D m \<Longrightarrow> idx j \<Longrightarrow> present (entry m' (t, j)) \<Longrightarrow> present (entry m (t, j)) \<and> base_addr (entry m (t, j)) \<noteq> f"
    by blast
  have own: "fst q \<in> pts D m \<and> idx (snd q) \<and> present (entry m' q)" if "q \<in> owners (kernel m') - set_option req" for q
  proof -
    have "q \<in> owners (kernel m)" using that a(4) by auto
    moreover have "fst q \<noteq> f" using t(7) [OF \<open>q \<in> owners (kernel m)\<close>] f by auto
    ultimately show ?thesis using t(7) [of q] a(5) [of q] that by auto
  qed
  show "tab_ok D m' (pinned (kernel m')) (owners (kernel m') - set_option req)"
    unfolding tab_ok_def p
  proof (intro conjI ballI allI impI)
    show "D \<subseteq> pinned (kernel m')" "pts D m \<subseteq> pinned (kernel m')" using t(1,2) a(2) by auto
    show "D \<inter> pts D m = {}" by (rule t(3))
  next
    fix d d' i i' assume h: "d \<in> D" "d' \<in> D" "idx i \<and> idx i' \<and> present (entry m' (d, i)) \<and> present (entry m' (d', i')) \<and>
        base_addr (entry m' (d, i)) = base_addr (entry m' (d', i'))"
    then show "d = d'" "i = i'" using t(4) [of d d' i i'] dir [of d i] dir [of d' i'] by auto
  next
    fix q j assume h: "q \<in> pts D m" "idx j \<and> present (entry m' (q, j))"
    then have n: "present (entry m (q, j))" "(q, j) \<in> owners (kernel m) \<longrightarrow> (q, j) \<in> owners (kernel m')" "entry m' (q, j) = entry m (q, j)"
      using new same by auto
    then show "base_addr (entry m' (q, j)) \<notin> D \<union> pts D m" using t(5) [OF h(1)] h(2) by auto
    have "(q, j) \<in> owners (kernel m) \<Longrightarrow> (q, j) \<notin> set_option req" using req by (cases req) auto
    then show "base_addr (entry m' (q, j)) \<in> pinned (kernel m') \<or> (q, j) \<in> owners (kernel m') - set_option req"
      using t(5) [OF h(1)] h(2) n a(2) by auto
  next
    fix q q' j j' assume h: "q \<in> pts D m" "q' \<in> pts D m" "idx j \<and> idx j' \<and> present (entry m' (q, j)) \<and> present (entry m' (q', j')) \<and>
        base_addr (entry m' (q, j)) = base_addr (entry m' (q', j'))"
    then show "q = q'" "j = j'" using t(6) [of q q' j j'] same [of q j] same [of q' j'] by auto
  next
    fix q assume "q \<in> owners (kernel m') - set_option req"
    then show "fst q \<in> pts D m" "idx (snd q)" "present (entry m' q)" using own by blast+
  qed
qed

text \<open>Mapping a fresh frame as a page, and as a page table.\<close>

lemma map_page_ok:
  assumes ok: "tab_ok D m pin own" and p: "fst p \<in> pts D m" "idx (snd p)" "\<not> present (entry m p)"
    and f: "f \<notin> D \<union> pts D m" "\<And>t j. t \<in> pts D m \<Longrightarrow> idx j \<Longrightarrow> present (entry m (t, j)) \<Longrightarrow> base_addr (entry m (t, j)) \<noteq> f"
    and X: "X \<subseteq> {p}" "f \<in> pin \<or> p \<in> X"
  shows "tab_ok D (set_entry p (map_frame (f * 2 ^ 12)) m) pin (own \<union> X)"
    "pts D (set_entry p (map_frame (f * 2 ^ 12)) m) = pts D m"
proof -
  note t = tab_okD [OF ok]
  let ?m = "set_entry p (map_frame (f * 2 ^ 12)) m"
  have d: "fst p \<notin> D" using p(1) t(3) by blast
  have dir: "entry ?m (d, i) = entry m (d, i)" if "d \<in> D" for d i using d that by (cases p) auto
  show pp: "pts D ?m = pts D m" by (rule pts_cong) (rule dir)
  show "tab_ok D ?m pin (own \<union> X)"
    unfolding tab_ok_def pp
  proof (intro conjI ballI allI impI)
    show "D \<subseteq> pin" "pts D m \<subseteq> pin" "D \<inter> pts D m = {}" by (rule t(1-3))+
  next
    fix d d' i i' assume h: "d \<in> D" "d' \<in> D" "idx i \<and> idx i' \<and> present (entry ?m (d, i)) \<and> present (entry ?m (d', i')) \<and>
        base_addr (entry ?m (d, i)) = base_addr (entry ?m (d', i'))"
    then show "d = d'" "i = i'" using t(4) [of d d' i i'] unfolding dir [OF h(1)] dir [OF h(2)] by blast+
  next
    fix q j assume h: "q \<in> pts D m" "idx j \<and> present (entry ?m (q, j))"
    show "base_addr (entry ?m (q, j)) \<notin> D \<union> pts D m" "base_addr (entry ?m (q, j)) \<in> pin \<or> (q, j) \<in> own \<union> X"
      using t(5) [OF h(1), of j] h(2) f(1) X(2) by (auto split: if_splits)
  next
    fix q q' j j' assume h: "q \<in> pts D m" "q' \<in> pts D m" "idx j \<and> idx j' \<and> present (entry ?m (q, j)) \<and> present (entry ?m (q', j')) \<and>
        base_addr (entry ?m (q, j)) = base_addr (entry ?m (q', j'))"
    have "(q, j) = (q', j')"
      using h(3) t(6) [OF h(1,2), of j j'] f(2) [OF h(1), of j] f(2) [OF h(2), of j'] by (auto split: if_splits)
    then show "q = q'" "j = j'" by auto
  next
    fix q assume "q \<in> own \<union> X"
    then show "fst q \<in> pts D m" "idx (snd q)" "present (entry ?m q)" using t(7) [of q] p X(1) by auto
  qed
qed

lemma map_table_ok:
  assumes ok: "tab_ok D m pin own" and p: "d0 \<in> D" "idx i0" "\<not> present (entry m (d0, i0))"
    and f: "f \<notin> D \<union> pts D m" "\<And>t j. t \<in> pts D m \<Longrightarrow> idx j \<Longrightarrow> present (entry m (t, j)) \<Longrightarrow> base_addr (entry m (t, j)) \<noteq> f"
      "f \<in> pin" "\<And>j. \<not> present (entry m (f, j))"
  shows "tab_ok D (set_entry (d0, i0) (map_frame (f * 2 ^ 12)) m) pin own"
    "pts D (set_entry (d0, i0) (map_frame (f * 2 ^ 12)) m) = insert f (pts D m)"
proof -
  note t = tab_okD [OF ok]
  let ?m = "set_entry (d0, i0) (map_frame (f * 2 ^ 12)) m"
  have e: "entry ?m q = (if q = (d0, i0) then map_frame (f * 2 ^ 12) (entry m (d0, i0)) else entry m q)" for q by simp
  have inpts: "base_addr (entry m (d, i)) \<in> pts D m" if "d \<in> D" "idx i" "present (entry m (d, i))" for d i
    using that unfolding pts_def by blast
  show pp: "pts D ?m = insert f (pts D m)"
  proof
    show "pts D ?m \<subseteq> insert f (pts D m)" unfolding pts_def [of D ?m] e using inpts by (auto split: if_splits)
    have "f \<in> pts D ?m" using p(1,2) unfolding pts_def [of D ?m] e by (intro CollectI exI [of _ d0] exI [of _ i0]) simp
    moreover have "pts D m \<subseteq> pts D ?m"
    proof
      fix x assume "x \<in> pts D m"
      then obtain d i where x: "x = base_addr (entry m (d, i))" "d \<in> D" "idx i" "present (entry m (d, i))" unfolding pts_def by blast
      then have "(d, i) \<noteq> (d0, i0)" using p(3) by auto
      then show "x \<in> pts D ?m" using x unfolding pts_def [of D ?m] e by (intro CollectI exI [of _ d] exI [of _ i]) auto
    qed
    ultimately show "insert f (pts D m) \<subseteq> pts D ?m" by blast
  qed
  have pt: "entry ?m (q, j) = entry m (q, j)" if "q \<in> insert f (pts D m)" for q j
    using that p(1) f(1) t(3) by auto
  show "tab_ok D ?m pin own"
    unfolding tab_ok_def pp
  proof (intro conjI ballI allI impI)
    show "D \<subseteq> pin" "insert f (pts D m) \<subseteq> pin" "D \<inter> insert f (pts D m) = {}" using t(1-3) f(1,3) by auto
  next
    fix d d' i i' assume h: "d \<in> D" "d' \<in> D" "idx i \<and> idx i' \<and> present (entry ?m (d, i)) \<and> present (entry ?m (d', i')) \<and>
        base_addr (entry ?m (d, i)) = base_addr (entry ?m (d', i'))"
    have "(d, i) = (d', i')"
      using h(3) t(4) [OF h(1,2), of i i'] inpts [OF h(1), of i] inpts [OF h(2), of i'] f(1) by (auto split: if_splits)
    then show "d = d'" "i = i'" by auto
  next
    fix q j assume h: "q \<in> insert f (pts D m)" "idx j \<and> present (entry ?m (q, j))"
    then have "q \<in> pts D m" "present (entry m (q, j))" using f(4) unfolding pt [OF h(1)] by auto
    then show "base_addr (entry ?m (q, j)) \<notin> D \<union> insert f (pts D m)" "base_addr (entry ?m (q, j)) \<in> pin \<or> (q, j) \<in> own"
      using t(5) [of q j] f(2) [of q j] h(2) unfolding pt [OF h(1)] by auto
  next
    fix q q' j j' assume h: "q \<in> insert f (pts D m)" "q' \<in> insert f (pts D m)"
      "idx j \<and> idx j' \<and> present (entry ?m (q, j)) \<and> present (entry ?m (q', j')) \<and> base_addr (entry ?m (q, j)) = base_addr (entry ?m (q', j'))"
    then have "q \<in> pts D m" "q' \<in> pts D m" using f(4) unfolding pt [OF h(1)] pt [OF h(2)] by auto
    then show "q = q'" "j = j'" using t(6) [of q q' j j'] h(3) unfolding pt [OF h(1)] pt [OF h(2)] by auto
  next
    fix q assume "q \<in> own"
    then have "fst q \<in> pts D m" "idx (snd q)" "present (entry m q)" using t(7) by auto
    then show "fst q \<in> insert f (pts D m)" "idx (snd q)" "present (entry ?m q)" using pt [of "fst q" "snd q"] by auto
  qed
qed

text \<open>Asking for a frame and mapping it.\<close>

lemma ask_page_ok:
  assumes k: "kernel_laws lib pinned owners" and ok: "tab_ok D m (pinned (kernel m)) (owners (kernel m))"
    and p: "fst p \<in> pts D m" "idx (snd p)" "\<not> present (entry m p)" and req: "req = None \<or> req = Some p"
  shows "\<exists>a m1 m'. ask_kernel_for_frame lib req m = (a, m1) \<and> m' = set_entry p (map_frame a) m1 \<and>
    tab_ok D m' (pinned (kernel m')) (owners (kernel m')) \<and> pts D m' = pts D m \<and>
    (\<forall>d \<in> D. \<forall>i. entry m' (d, i) = entry m (d, i)) \<and>
    present (entry m' p) \<and> read_write (entry m' p) \<and> user_supervisor (entry m' p) \<and>
    (\<forall>q. fst q \<in> pts D m \<and> idx (snd q) \<and> q \<noteq> p \<and> present (entry m' q) \<longrightarrow> present (entry m q))"
proof -
  obtain f m1 where a: "ask_kernel_for_frame lib req m = (f * 2 ^ 12, m1)" "asked pinned owners req m f m1"
    using ask_cases [OF k] .
  have "set_option req \<inter> owners (kernel m) = {}" using tab_okD(7) [OF ok, of p] p(3) req by auto
  note o = asked_ok [OF a(2) ok this]
  have np: "\<not> present (entry m1 p)" using o(5) [of "fst p" "snd p"] p by auto
  have X: "set_option req \<subseteq> {p}" "f \<in> pinned (kernel m1) \<or> p \<in> set_option req" and own: "set_option req \<subseteq> owners (kernel m1)"
    using req a(2) by (auto simp: asked_def)
  let ?m = "set_entry p (map_frame (f * 2 ^ 12)) m1"
  have f: "f \<notin> D \<union> pts D m1" using o(2,3) by simp
  have f2: "base_addr (entry m1 (t, j)) \<noteq> f" if "t \<in> pts D m1" "idx j" "present (entry m1 (t, j))" for t j
    using o(5,6) [of t j] that o(2) by simp
  have r: "tab_ok D ?m (pinned (kernel m1)) (owners (kernel m1) - set_option req \<union> set_option req)" "pts D ?m = pts D m1"
    using map_page_ok [OF o(1) _ p(2) np f f2 X] p(1) o(2) by simp_all
  moreover have "owners (kernel m1) - set_option req \<union> set_option req = owners (kernel m1)" using own by blast
  moreover have "entry ?m (d, i) = entry m (d, i)" if "d \<in> D" for d i
    using o(4) [OF that] tab_okD(3) [OF ok] p(1) that by (cases p) auto
  moreover have "present (entry m q)" if "fst q \<in> pts D m" "idx (snd q)" "q \<noteq> p" "present (entry ?m q)" for q
    using o(5) [of "fst q" "snd q"] that by simp
  ultimately show ?thesis using a(1) o(2) by auto
qed

lemma ask_table_ok:
  assumes k: "kernel_laws lib pinned owners" and ok: "tab_ok D m (pinned (kernel m)) (owners (kernel m))"
    and p: "d0 \<in> D" "idx i0" "\<not> present (entry m (d0, i0))"
  shows "\<exists>a m1 m'. ask_kernel_for_frame lib None m = (a, m1) \<and> m' = set_entry (d0, i0) (map_frame a) m1 \<and>
    tab_ok D m' (pinned (kernel m')) (owners (kernel m')) \<and>
    (\<forall>d \<in> D. \<forall>i. (d, i) \<noteq> (d0, i0) \<longrightarrow> entry m' (d, i) = entry m (d, i)) \<and>
    present (entry m' (d0, i0)) \<and> base_addr (entry m' (d0, i0)) \<in> pts D m' \<and>
    (\<forall>j. \<not> present (entry m' (base_addr (entry m' (d0, i0)), j)))"
proof -
  obtain f m1 where a: "ask_kernel_for_frame lib None m = (f * 2 ^ 12, m1)" "asked pinned owners None m f m1"
    using ask_cases [OF k] .
  have "set_option None \<inter> owners (kernel m) = {}" by simp
  note o = asked_ok [OF a(2) ok this]
  have np: "\<not> present (entry m1 (d0, i0))" using o(4) p by simp
  have f: "f \<notin> D \<union> pts D m1" "f \<in> pinned (kernel m1)" and z: "\<not> present (entry m1 (f, j))" for j
    using o(2,3) a(2) by (auto simp: asked_def entry_def)
  have f2: "base_addr (entry m1 (t, j)) \<noteq> f" if "t \<in> pts D m1" "idx j" "present (entry m1 (t, j))" for t j
    using o(5,6) [of t j] that o(2) by simp
  have ok1: "tab_ok D m1 (pinned (kernel m1)) (owners (kernel m1))" using o(1) by simp
  note r = map_table_ok [OF ok1 p(1,2) np f(1) f2 f(2) z]
  let ?m = "set_entry (d0, i0) (map_frame (f * 2 ^ 12)) m1"
  have "entry ?m (d, i) = entry m (d, i)" if "d \<in> D" "(d, i) \<noteq> (d0, i0)" for d i
    using o(4) [OF that(1), of i] that(2) unfolding entry_set_entry if_not_P [OF that(2)] by simp
  moreover have "(f, j) \<noteq> (d0, i0)" for j using f(1) p(1) by auto
  ultimately show ?thesis using a(1) r z by auto
qed

lemma ask_directory_ok:
  assumes k: "kernel_laws lib pinned owners" and ok: "tab_ok D m (pinned (kernel m)) (owners (kernel m))"
  shows "\<exists>f m1. ask_kernel_for_frame lib None m = (f * 2 ^ 12, m1) \<and> f \<notin> D \<and>
    tab_ok (insert f D) m1 (pinned (kernel m1)) (owners (kernel m1)) \<and>
    (\<forall>d \<in> D. \<forall>i. entry m1 (d, i) = entry m (d, i)) \<and> (\<forall>i. \<not> present (entry m1 (f, i)))"
proof -
  obtain f m1 where a: "ask_kernel_for_frame lib None m = (f * 2 ^ 12, m1)" "asked pinned owners None m f m1"
    using ask_cases [OF k] .
  have "set_option None \<inter> owners (kernel m) = {}" by simp
  note o = asked_ok [OF a(2) ok this]
  have f: "f \<notin> D" "f \<notin> pts D m1" "f \<in> pinned (kernel m1)" and z: "\<not> present (entry m1 (f, j))" for j
    using o(2,3) a(2) by (auto simp: asked_def entry_def)
  have f2: "base_addr (entry m1 (t, j)) \<noteq> f" if "t \<in> pts D m1" "idx j" "present (entry m1 (t, j))" for t j
    using o(5,6) [of t j] that o(2) by simp
  have ok1: "tab_ok D m1 (pinned (kernel m1)) (owners (kernel m1))" using o(1) by simp
  have p: "pts (insert f D) m1 = pts D m1" using z unfolding pts_def by blast
  have "tab_ok (insert f D) m1 (pinned (kernel m1)) (owners (kernel m1))"
    unfolding tab_ok_def p
  proof (intro conjI)
    show "\<forall>t\<in>pts D m1. \<forall>j. idx j \<and> present (entry m1 (t, j)) \<longrightarrow> base_addr (entry m1 (t, j)) \<notin> insert f D \<union> pts D m1 \<and>
        (base_addr (entry m1 (t, j)) \<in> pinned (kernel m1) \<or> (t, j) \<in> owners (kernel m1))"
      using tab_okD(5) [OF ok1] f2 by auto
  qed (use tab_okD [OF ok1] f z in blast)+
  then show ?thesis using a(1) f(1) o(4) z by blast
qed

section \<open>The whole unit\<close>

definition tlb_ok :: "('t \<Rightarrow> nat \<rightharpoonup> pte_ptr) \<Rightarrow> ('t, 'k) mmu \<Rightarrow> bool" where
  "tlb_ok tmap s \<longleftrightarrow> (\<forall>v p. tmap (tlb s) v = Some p \<longrightarrow>
     (\<exists>d. page_directories s (curr_pid s) = Some d \<and> present (entry (mem s) (d, v div 1024 mod 1024)) \<and>
        p = (base_addr (entry (mem s) (d, v div 1024 mod 1024)), v mod 1024)))"

definition mmu_inv ::
  "('t, 'k) mmu_lib \<Rightarrow> ('t \<Rightarrow> nat \<rightharpoonup> pte_ptr) \<Rightarrow> ('k \<Rightarrow> nat set) \<Rightarrow> ('k \<Rightarrow> pte_ptr set) \<Rightarrow> ('t, 'k) mmu \<Rightarrow> bool" where
  "mmu_inv lib tmap pinned owners s \<longleftrightarrow>
     (\<forall>p q d. page_directories s p = Some d \<and> page_directories s q = Some d \<longrightarrow> p = q) \<and>
     tab_ok (ran (page_directories s)) (mem s) (pinned (kernel (mem s))) (owners (kernel (mem s))) \<and>
     tlb_ok tmap s \<and> (\<forall>p. page_directories s p = None \<longleftrightarrow> segmentations s p = None)"

lemma page_index: "pde_index va = va div 2 ^ 12 div 1024 mod 1024" "pte_index va = va div 2 ^ 12 mod 1024"
  by (simp_all add: pde_index_def pte_index_def div_mult2_eq [symmetric])

lemma idx_index: "idx (pde_index va)" "idx (pte_index va)"
  by (simp_all add: idx_def NUM_ENTRIES_def pde_index_def pte_index_def)

text \<open>What an access may change.\<close>

definition access_keeps :: "('t, 'k) mmu \<Rightarrow> ('t, 'k) mmu \<Rightarrow> bool" where
  "access_keeps s s' \<longleftrightarrow> page_directories s' = page_directories s \<and> segmentations s' = segmentations s \<and>
     tlb s' = tlb s \<and> curr_pid s' = curr_pid s \<and>
     (\<forall>d \<in> ran (page_directories s). \<forall>i. present (entry (mem s) (d, i)) \<longrightarrow> entry (mem s') (d, i) = entry (mem s) (d, i))"

lemma access_keeps_trans: "access_keeps s s' \<Longrightarrow> access_keeps s' s'' \<Longrightarrow> access_keeps s s''"
  by (simp add: access_keeps_def)

lemma tlb_ok_keeps: "tlb_ok tmap s \<Longrightarrow> access_keeps s s' \<Longrightarrow> tlb_ok tmap s'"
  unfolding tlb_ok_def access_keeps_def by (metis ranI)

abbreviation tables_ok :: "('k \<Rightarrow> nat set) \<Rightarrow> ('k \<Rightarrow> pte_ptr set) \<Rightarrow> ('t, 'k) mmu \<Rightarrow> bool" where
  "tables_ok pinned owners s \<equiv>
     tab_ok (ran (page_directories s)) (mem s) (pinned (kernel (mem s))) (owners (kernel (mem s)))"

lemma mmu_inv_keeps:
  "mmu_inv lib tmap pinned owners s \<Longrightarrow> access_keeps s s' \<Longrightarrow> tables_ok pinned owners s' \<Longrightarrow> mmu_inv lib tmap pinned owners s'"
  using tlb_ok_keeps by (auto simp: mmu_inv_def access_keeps_def)

lemma walk_directory_ok:
  assumes k: "kernel_laws lib pinned owners" and ok: "tables_ok pinned owners s"
    and pd: "page_directories s pid = Some d" and w: "walk_directory lib d va s = (p, s')"
  shows "tables_ok pinned owners s' \<and> access_keeps s s' \<and> present (entry (mem s') (d, pde_index va)) \<and>
    p = (base_addr (entry (mem s') (d, pde_index va)), pte_index va) \<and> fst p \<in> pts (ran (page_directories s')) (mem s')"
proof -
  have d: "d \<in> ran (page_directories s)" using pd by (rule ranI)
  have pt: "base_addr (entry m (e, pde_index va)) \<in> pts D m" if "present (entry m (e, pde_index va))" "e \<in> D" for e D and m :: "'b pmem"
    unfolding pts_def using that idx_index(1) by blast
  show ?thesis
  proof (cases "present (entry (mem s) (d, pde_index va))")
    case True
    then show ?thesis using w ok pt [OF True d] by (auto simp: walk_directory_def access_keeps_def)
  next
    case False
    obtain a m1 m' where m': "ask_kernel_for_frame lib None (mem s) = (a, m1)"
        "m' = set_entry (d, pde_index va) (map_frame a) m1"
        "tab_ok (ran (page_directories s)) m' (pinned (kernel m')) (owners (kernel m'))"
        "\<forall>e \<in> ran (page_directories s). \<forall>i. (e, i) \<noteq> (d, pde_index va) \<longrightarrow> entry m' (e, i) = entry (mem s) (e, i)"
        "present (entry m' (d, pde_index va))"
      using ask_table_ok [OF k ok d idx_index(1) False] by blast
    have "s' = (mmu_raise_page_fault s)\<lparr>mem := m'\<rparr>" "p = (base_addr (entry m' (d, pde_index va)), pte_index va)"
      using w False m'(1,2) by (auto simp: walk_directory_def Let_def mmu_raise_page_fault_def)
    moreover have "entry m' (e, i) = entry (mem s) (e, i)" if "e \<in> ran (page_directories s)" "present (entry (mem s) (e, i))" for e i
      using m'(4) that False by (cases "(e, i) = (d, pde_index va)") auto
    ultimately show ?thesis using m'(3,5) pt [OF m'(5) d] by (auto simp: access_keeps_def mmu_raise_page_fault_def)
  qed
qed

lemma read_page_laws:
  assumes "kernel_laws lib pinned owners"
  shows "pinned (kernel (read_page_from_disk lib p m)) = pinned (kernel m)"
    "owners (kernel (read_page_from_disk lib p m)) = owners (kernel m)" "tables (read_page_from_disk lib p m) = tables m"
    "pinned (kernel (remove_swap_file lib p m)) = pinned (kernel m)"
    "owners (kernel (remove_swap_file lib p m)) = owners (kernel m)" "tables (remove_swap_file lib p m) = tables m"
  using assms unfolding kernel_laws_def Let_def by blast+

lemma entries_cong:
  assumes "\<And>q. entry m' q = entry m q"
  shows "pts D m' = pts D m" "tab_ok D m' pin own = tab_ok D m pin own"
proof -
  show p: "pts D m' = pts D m" unfolding pts_def assms by (rule refl)
  show "tab_ok D m' pin own = tab_ok D m pin own" unfolding tab_ok_def p assms by (rule refl)
qed

lemma check_page_fault:
  assumes "\<not> present (entry (mem s) p)" "ask_kernel_for_frame lib None (mem s) = (a, m1)"
  shows "check_page lib p s =
    (let m' = read_page_from_disk lib p (set_entry p (map_frame a) m1); s' = (mmu_raise_page_fault s)\<lparr>mem := m'\<rparr> in
     if user_supervisor (entry m' p) \<and> read_write (entry m' p) then (Some p, s')
     else (None, mmu_raise_segmentation_fault s'))"
  using assms by (simp add: check_page_def Let_def mmu_raise_page_fault_def)

lemma check_page_ok:
  assumes k: "kernel_laws lib pinned owners" and ok: "tables_ok pinned owners s"
    and p: "fst p \<in> pts (ran (page_directories s)) (mem s)" "idx (snd p)" and c: "check_page lib p s = (r, s')"
  shows "tables_ok pinned owners s' \<and> access_keeps s s' \<and> present (entry (mem s') p) \<and>
    pts (ran (page_directories s')) (mem s') = pts (ran (page_directories s)) (mem s) \<and>
    r = (if user_supervisor (entry (mem s') p) \<and> read_write (entry (mem s') p) then Some p else None)"
proof (cases "present (entry (mem s) p)")
  case True
  then show ?thesis using c ok by (auto simp: check_page_def access_keeps_def mmu_raise_segmentation_fault_def split: if_splits)
next
  case False
  obtain a m1 m' where m': "ask_kernel_for_frame lib None (mem s) = (a, m1)" "m' = set_entry p (map_frame a) m1"
      "tab_ok (ran (page_directories s)) m' (pinned (kernel m')) (owners (kernel m'))"
      "pts (ran (page_directories s)) m' = pts (ran (page_directories s)) (mem s)"
      "\<forall>d \<in> ran (page_directories s). \<forall>i. entry m' (d, i) = entry (mem s) (d, i)"
      "present (entry m' p)" "read_write (entry m' p)" "user_supervisor (entry m' p)"
    using ask_page_ok [OF k ok p False, of None] by auto
  let ?m = "read_page_from_disk lib p m'"
  have rd: "pinned (kernel ?m) = pinned (kernel m')" "owners (kernel ?m) = owners (kernel m')" "entry ?m q = entry m' q" for q
    using read_page_laws [OF k, of p m'] by (simp_all add: entry_def)
  have t: "tab_ok (ran (page_directories s)) ?m (pinned (kernel ?m)) (owners (kernel ?m))"
      "pts (ran (page_directories s)) ?m = pts (ran (page_directories s)) (mem s)"
    using m'(3,4) entries_cong [OF rd(3)] rd(1,2) by metis+
  have "s' = (mmu_raise_page_fault s)\<lparr>mem := ?m\<rparr>" "r = Some p"
    using check_page_fault [OF False m'(1)] c m'(2,7,8) rd(3) [of p] by simp_all
  then show ?thesis using t m'(5-8) rd(3) by (auto simp: access_keeps_def mmu_raise_page_fault_def)
qed

end
