(* ===== verification/MMU_Access.thy ===== *)
theory MMU_Access
  imports MMU_Tables
begin

text \<open>
  Accesses of \<open>ideal_indirection/mmu.c\<close> keep the invariant of the tables and of the translation cache, and
  find the entry that a walk without a cache finds.
\<close>

section \<open>Accesses\<close>

text \<open>The reference: the same access without a translation cache.\<close>

definition mmu_walk ::
  "('t, 'k) mmu_lib \<Rightarrow> nat \<Rightarrow> nat \<Rightarrow> ('t, 'k) mmu \<Rightarrow> (pte_ptr option \<times> ('t, 'k) mmu) outcome" where
  "mmu_walk lib va pid s =
     (case segmentations s pid of
        None \<Rightarrow> Inl Null_deref
      | Some segs \<Rightarrow>
          if \<not> address_in_segmentations lib segs va then Inr (None, mmu_raise_segmentation_fault s)
          else
            (case page_directories s pid of
               None \<Rightarrow> Inl Null_deref
             | Some pd \<Rightarrow> let (pte, s) = walk_directory lib pd va s in Inr (check_page lib pte s)))"

definition same_but_tlb :: "('t, 'k) mmu \<Rightarrow> ('t, 'k) mmu \<Rightarrow> bool" where
  "same_but_tlb s s' \<longleftrightarrow> mem s = mem s' \<and> page_directories s = page_directories s' \<and> segmentations s = segmentations s' \<and>
     num_page_faults s = num_page_faults s' \<and> num_segmentation_faults s = num_segmentation_faults s'"

lemma check_page_same:
  "same_but_tlb s s' \<Longrightarrow> check_page lib p s = (r, s1) \<Longrightarrow> \<exists>s2. check_page lib p s' = (r, s2) \<and> same_but_tlb s1 s2"
  by (auto simp: check_page_def same_but_tlb_def Let_def mmu_raise_page_fault_def mmu_raise_segmentation_fault_def
      split: if_splits prod.splits)

lemma walk_directory_same:
  "same_but_tlb s s' \<Longrightarrow> walk_directory lib pd va s = (p, s1) \<Longrightarrow> \<exists>s2. walk_directory lib pd va s' = (p, s2) \<and> same_but_tlb s1 s2"
  by (auto simp: walk_directory_def same_but_tlb_def Let_def mmu_raise_page_fault_def split: if_splits prod.splits)

lemma same_but_tlb_simps [simp]:
  "same_but_tlb (s\<lparr>tlb := t\<rparr>) s' = same_but_tlb s s'" "same_but_tlb (s\<lparr>curr_pid := p\<rparr>) s' = same_but_tlb s s'"
  "same_but_tlb (mmu_tlb_miss s) s' = same_but_tlb s s'" "same_but_tlb s s"
  "same_but_tlb (mmu_raise_segmentation_fault s) (mmu_raise_segmentation_fault s') = same_but_tlb s s'"
  by (auto simp: same_but_tlb_def mmu_tlb_miss_def mmu_raise_segmentation_fault_def)

lemma tlbD:
  assumes "tlb_laws lib tmap"
  shows "tmap (tlb_create lib) = Map.empty" "tmap (tlb_flush lib t) = Map.empty"
    "fst (tlb_get_pte lib t v) = tmap t v" "tmap (snd (tlb_get_pte lib t v)) = tmap t"
    "tmap (tlb_add_pte lib t v p) \<subseteq>\<^sub>m (tmap t)(v \<mapsto> p)"
  using assms unfolding tlb_laws_def by blast+

lemma tlb_okD:
  "tlb_ok tmap s \<Longrightarrow> tmap (tlb s) v = Some p \<Longrightarrow> page_directories s (curr_pid s) = Some d \<Longrightarrow>
   present (entry (mem s) (d, v div 1024 mod 1024)) \<and> p = (base_addr (entry (mem s) (d, v div 1024 mod 1024)), v mod 1024)"
  unfolding tlb_ok_def by (metis option.inject)

lemma tlb_ok_add:
  assumes "tlb_ok tmap s" "tmap t \<subseteq>\<^sub>m (tmap (tlb s))(v \<mapsto> p)" "page_directories s (curr_pid s) = Some d"
    "present (entry (mem s) (d, v div 1024 mod 1024))" "p = (base_addr (entry (mem s) (d, v div 1024 mod 1024)), v mod 1024)"
  shows "tlb_ok tmap (s\<lparr>tlb := t\<rparr>)"
proof -
  have "\<exists>d. page_directories s (curr_pid s) = Some d \<and> present (entry (mem s) (d, u div 1024 mod 1024)) \<and>
      q = (base_addr (entry (mem s) (d, u div 1024 mod 1024)), u mod 1024)" if "tmap t u = Some q" for u q
  proof -
    have "((tmap (tlb s))(v \<mapsto> p)) u = Some q" using assms(2) that by (metis domI map_le_def)
    note m = this
    show ?thesis
    proof (cases "u = v")
      case True
      then have "q = p" using m by simp
      then show ?thesis unfolding True using assms(3-5) by blast
    next
      case False
      then have "tmap (tlb s) u = Some q" using m by simp
      then show ?thesis using tlb_okD [OF assms(1) _ assms(3)] assms(3) by blast
    qed
  qed
  then show ?thesis by (simp add: tlb_ok_def)
qed

text \<open>The first lines of \<open>mmu_perform_check\<close>.\<close>

definition switch_to :: "('t, 'k) mmu_lib \<Rightarrow> nat \<Rightarrow> ('t, 'k) mmu \<Rightarrow> ('t, 'k) mmu" where
  "switch_to lib pid s = (if curr_pid s \<noteq> pid then s\<lparr>tlb := tlb_flush lib (tlb s), curr_pid := pid\<rparr> else s)"

lemma switch_to_ok:
  assumes "tlb_laws lib tmap" "mmu_inv lib tmap pinned owners s"
  shows "mmu_inv lib tmap pinned owners (switch_to lib pid s)" "curr_pid (switch_to lib pid s) = pid"
    "same_but_tlb (switch_to lib pid s) s"
  using assms(2) tlbD(2) [OF assms(1)] by (auto simp: switch_to_def mmu_inv_def tlb_ok_def)

text \<open>After the entry is found, by the cache or by the walk, it is the entry of the walk.\<close>

definition found :: "('t \<Rightarrow> nat \<rightharpoonup> pte_ptr) \<Rightarrow> nat \<Rightarrow> nat \<Rightarrow> pte_ptr \<Rightarrow> ('t, 'k) mmu \<Rightarrow> bool" where
  "found tmap va pid p s \<longleftrightarrow> (\<exists>d. page_directories s pid = Some d \<and> present (entry (mem s) (d, pde_index va)) \<and>
     p = (base_addr (entry (mem s) (d, pde_index va)), pte_index va))"

lemma found_pts: "found tmap va pid p s \<Longrightarrow> fst p \<in> pts (ran (page_directories s)) (mem s) \<and> idx (snd p)"
  unfolding found_def pts_def using idx_index by (metis (mono_tags, lifting) CollectI fst_conv ranI snd_conv)

lemma found_keeps: "found tmap va pid p s \<Longrightarrow> access_keeps s s' \<Longrightarrow> found tmap va pid p s'"
  unfolding found_def access_keeps_def by (metis ranI)

lemma perform_check_walk:
  assumes t: "tlb_laws lib tmap" and k: "kernel_laws lib pinned owners"
    and inv: "mmu_inv lib tmap pinned owners s" and pd: "page_directories s pid = Some d"
  shows "\<exists>r s1 s2. mmu_perform_check lib va pid s = Inr (r, s1) \<and> mmu_walk lib va pid s = Inr (r, s2) \<and>
    same_but_tlb s1 s2 \<and> mmu_inv lib tmap pinned owners s1 \<and> curr_pid s1 = pid \<and>
    page_directories s1 = page_directories s \<and> segmentations s1 = segmentations s \<and>
    (\<forall>p. r = Some p \<longrightarrow> found tmap va pid p s1 \<and> present (entry (mem s1) p) \<and> user_supervisor (entry (mem s1) p) \<and>
       read_write (entry (mem s1) p)) \<and>
    (r = None \<longrightarrow> num_segmentation_faults s1 = num_segmentation_faults s + 1)"
proof -
  let ?s = "switch_to lib pid s"
  note sw = switch_to_ok [OF t inv, of pid]
  obtain segs where segs: "segmentations s pid = Some segs" using inv pd unfolding mmu_inv_def by (metis not_None_eq)
  have f: "segmentations ?s = segmentations s" "page_directories ?s = page_directories s" "mem ?s = mem s"
      "num_segmentation_faults ?s = num_segmentation_faults s"
    using sw(3) by (auto simp: same_but_tlb_def)
  have pc: "mmu_perform_check lib va pid s = (case segmentations ?s pid of None \<Rightarrow> Inl Null_deref | Some segs \<Rightarrow>
      if \<not> address_in_segmentations lib segs va then Inr (None, mmu_raise_segmentation_fault ?s)
      else
        let (hit, t) = tlb_get_pte lib (tlb ?s) (va div 2 ^ 12); s = ?s\<lparr>tlb := t\<rparr> in
        (case hit of Some pte \<Rightarrow> Inr (check_page lib pte s)
         | None \<Rightarrow> let s = mmu_tlb_miss s in
             (case page_directories s pid of None \<Rightarrow> Inl Null_deref
              | Some pd \<Rightarrow> let (pte, s) = walk_directory lib pd va s; s = s\<lparr>tlb := tlb_add_pte lib (tlb s) (va div 2 ^ 12) pte\<rparr> in
                  Inr (check_page lib pte s))))"
    unfolding mmu_perform_check_def switch_to_def [symmetric] Let_def by (rule refl)
  show ?thesis
  proof (cases "address_in_segmentations lib segs va")
    case False
    let ?sy = "mmu_raise_segmentation_fault ?s"
    have "mmu_perform_check lib va pid s = Inr (None, ?sy)" "mmu_walk lib va pid s = Inr (None, mmu_raise_segmentation_fault s)"
      using False segs f by (simp_all add: pc mmu_walk_def)
    moreover have "mmu_inv lib tmap pinned owners ?sy"
      using sw(1) by (simp add: mmu_inv_def tlb_ok_def mmu_raise_segmentation_fault_def)
    ultimately show ?thesis using sw(2,3) f by (simp add: mmu_raise_segmentation_fault_def same_but_tlb_def)
  next
    case True
    obtain hit u where get: "tlb_get_pte lib (tlb ?s) (va div 2 ^ 12) = (hit, u)" by fastforce
    have hit: "hit = tmap (tlb ?s) (va div 2 ^ 12)" "tmap u = tmap (tlb ?s)" using tlbD(3,4) [OF t, of "tlb ?s" "va div 2 ^ 12"] get by auto
    obtain q w2 where w: "walk_directory lib d va s = (q, w2)" by fastforce
    have mid: "\<exists>p s0. mmu_perform_check lib va pid s = Inr (check_page lib p s0) \<and> mmu_inv lib tmap pinned owners s0 \<and>
        same_but_tlb s0 w2 \<and> p = q \<and> found tmap va pid p s0 \<and> curr_pid s0 = pid \<and>
        page_directories s0 = page_directories s \<and> segmentations s0 = segmentations s \<and>
        num_segmentation_faults s0 = num_segmentation_faults s"
    proof (cases hit)
      case (Some p)
      let ?sx = "?s\<lparr>tlb := u\<rparr>"
      have inv0: "mmu_inv lib tmap pinned owners ?sx" using sw(1) hit(2) by (simp add: mmu_inv_def tlb_ok_def)
      have "tmap (tlb ?s) (va div 2 ^ 12) = Some p" using hit(1) unfolding Some by (rule sym)
      then have pe: "present (entry (mem s) (d, pde_index va))" "p = (base_addr (entry (mem s) (d, pde_index va)), pte_index va)"
        using tlb_okD [of tmap ?s "va div 2 ^ 12" p d] sw(1,2) pd f by (simp_all add: mmu_inv_def page_index)
      then have "walk_directory lib d va s = (p, s)" by (simp add: walk_directory_def)
      moreover have "mmu_perform_check lib va pid s = Inr (check_page lib p ?sx)"
        using True segs f get Some by (simp add: pc)
      ultimately show ?thesis using inv0 w pe pd f sw(2,3) by (intro exI [of _ p] exI [of _ ?sx]) (simp add: found_def)
    next
      case None
      let ?sm = "mmu_tlb_miss (?s\<lparr>tlb := u\<rparr>)"
      have tm: "tables_ok pinned owners ?sm" "tlb_ok tmap ?sm"
        using sw(1) hit(2) by (simp_all add: mmu_inv_def mmu_tlb_miss_def tlb_ok_def)
      have pm: "page_directories ?sm pid = Some d" using pd f by (simp add: mmu_tlb_miss_def)
      obtain p s' where w': "walk_directory lib d va ?sm = (p, s')" by fastforce
      note wo = walk_directory_ok [OF k tm(1) pm w']
      have "same_but_tlb ?sm s" using sw(3) by simp
      then obtain w3 where "walk_directory lib d va s = (p, w3)" "same_but_tlb s' w3"
        using walk_directory_same [OF _ w'] by blast
      then have pq: "p = q" "same_but_tlb s' w2" using w by auto
      let ?sx = "s'\<lparr>tlb := tlb_add_pte lib (tlb s') (va div 2 ^ 12) p\<rparr>"
      have c: "mmu_perform_check lib va pid s = Inr (check_page lib p ?sx)"
        using True segs f get None w' pd by (simp add: pc mmu_tlb_miss_def)
      have pe: "present (entry (mem s') (d, pde_index va))" "p = (base_addr (entry (mem s') (d, pde_index va)), pte_index va)"
        using wo by blast+
      have same: "page_directories s' = page_directories s" "segmentations s' = segmentations s" "curr_pid s' = pid"
        using wo f sw(2) by (auto simp: access_keeps_def mmu_tlb_miss_def)
      have "tlb_ok tmap s'" using tlb_ok_keeps [OF tm(2)] wo by blast
      then have "tlb_ok tmap ?sx"
        using pe pd same unfolding page_index by (intro tlb_ok_add [where p = p and d = d, OF \<open>tlb_ok tmap s'\<close> tlbD(5) [OF t]]) simp_all
      then have "mmu_inv lib tmap pinned owners ?sx"
        using wo inv same by (simp add: mmu_inv_def)
      moreover have "num_segmentation_faults s' = num_segmentation_faults s"
        using w' f(4) by (auto simp: walk_directory_def Let_def mmu_raise_page_fault_def mmu_tlb_miss_def split: if_splits prod.splits)
      ultimately show ?thesis using c pq same pe pd
        by (intro exI [of _ p] exI [of _ ?sx]) (auto simp: found_def)
    qed
    then obtain p s0 where m: "mmu_perform_check lib va pid s = Inr (check_page lib p s0)" "mmu_inv lib tmap pinned owners s0"
        "same_but_tlb s0 w2" "p = q" "found tmap va pid p s0" "curr_pid s0 = pid" "page_directories s0 = page_directories s"
        "segmentations s0 = segmentations s" "num_segmentation_faults s0 = num_segmentation_faults s"
      by blast
    obtain r s1 where c: "check_page lib p s0 = (r, s1)" by fastforce
    obtain s2 where c2: "check_page lib p w2 = (r, s2)" "same_but_tlb s1 s2" using check_page_same [OF m(3) c] by blast
    have "mmu_walk lib va pid s = Inr (r, s2)" using True segs pd w c2(1) m(4) by (simp add: mmu_walk_def)
    moreover have to: "tables_ok pinned owners s0" using m(2) by (simp add: mmu_inv_def)
    note co = check_page_ok [OF k to _ _ c]
    have co: "tables_ok pinned owners s1" "access_keeps s0 s1" "present (entry (mem s1) p)"
        "r = (if user_supervisor (entry (mem s1) p) \<and> read_write (entry (mem s1) p) then Some p else None)"
      using co found_pts [OF m(5)] by blast+
    have "mmu_inv lib tmap pinned owners s1" by (rule mmu_inv_keeps [OF m(2) co(2,1)])
    moreover have "found tmap va pid p s1" by (rule found_keeps [OF m(5) co(2)])
    moreover have "num_segmentation_faults s1 = num_segmentation_faults s + 1" if "r = None"
      using c that m(9) by (auto simp: check_page_def Let_def mmu_raise_page_fault_def mmu_raise_segmentation_fault_def split: if_splits prod.splits)
    moreover have "curr_pid s1 = pid" "page_directories s1 = page_directories s" "segmentations s1 = segmentations s"
      using co(2) m(6-8) by (simp_all add: access_keeps_def)
    ultimately show ?thesis using m(1) c c2(2) co(3,4) by (intro exI [of _ r] exI [of _ s1] exI [of _ s2]) (auto split: if_splits)
  qed
qed

end
