(* ===== verification/MMU_Runs.thy ===== *)
theory MMU_Runs
  imports MMU_Access
begin

text \<open>
  The operations of \<open>ideal_indirection/mmu.c\<close> in any order: adding and removing processes keep the
  invariant too, and what follows. The cache is invisible, and memory reads what was written.
\<close>

section \<open>The other operations\<close>

text \<open>Setting the flags of an access, and writing bytes, changes nothing the invariant speaks of.\<close>

definition same_map :: "'k pmem \<Rightarrow> 'k pmem \<Rightarrow> bool" where
  "same_map m m' \<longleftrightarrow> kernel m' = kernel m \<and>
     (\<forall>q. present (entry m' q) = present (entry m q) \<and> base_addr (entry m' q) = base_addr (entry m q))"

lemma same_map_inv:
  assumes "same_map (mem s) m'" "mmu_inv lib tmap pinned owners s"
  shows "mmu_inv lib tmap pinned owners (s\<lparr>mem := m'\<rparr>)"
proof -
  have e: "present (entry m' q) = present (entry (mem s) q)" "base_addr (entry m' q) = base_addr (entry (mem s) q)"
      "kernel m' = kernel (mem s)" for q
    using assms(1) unfolding same_map_def by blast+
  have p: "pts D m' = pts D (mem s)" for D unfolding pts_def e by (rule refl)
  have "tab_ok D m' pin own = tab_ok D (mem s) pin own" for D pin own unfolding tab_ok_def p e by (rule refl)
  then show ?thesis using assms(2) by (simp add: mmu_inv_def tlb_ok_def e)
qed

lemma same_map_simps:
  "same_map m (set_entry p (\<lambda>e. e\<lparr>accessed := True\<rparr>) m)"
  "same_map m (set_entry p (\<lambda>e. e\<lparr>dirty := True, accessed := True\<rparr>) (put_frame f off bs m))"
  by (auto simp: same_map_def put_frame_def set_entry_def entry_def)

lemma mmu_add_process_inv:
  assumes k: "kernel_laws lib pinned owners" and inv: "mmu_inv lib tmap pinned owners s"
    and free: "page_directories s pid = None" and r: "mmu_add_process lib max_pid pid s = Inr s'"
  shows "mmu_inv lib tmap pinned owners s'"
proof -
  let ?D = "ran (page_directories s)"
  have ok: "tables_ok pinned owners s" using inv by (simp add: mmu_inv_def)
  obtain f m1 where a1: "ask_kernel_for_frame lib None (mem s) = (f * 2 ^ 12, m1)" "f \<notin> ?D"
      "tab_ok (insert f ?D) m1 (pinned (kernel m1)) (owners (kernel m1))"
      "\<forall>d \<in> ?D. \<forall>i. entry m1 (d, i) = entry (mem s) (d, i)" "\<forall>i. \<not> present (entry m1 (f, i))"
    using ask_directory_ok [OF k ok] by blast
  have i: "idx 0" "idx 1" "idx 2" by (simp_all add: idx_def NUM_ENTRIES_def)
  obtain b2 m2' m2 where a2: "ask_kernel_for_frame lib None m1 = (b2, m2')" "m2 = set_entry (f, 0) (map_frame b2) m2'"
      "tab_ok (insert f ?D) m2 (pinned (kernel m2)) (owners (kernel m2))"
      "\<forall>d \<in> insert f ?D. \<forall>i. (d, i) \<noteq> (f, 0) \<longrightarrow> entry m2 (d, i) = entry m1 (d, i)"
      "present (entry m2 (f, 0))" "base_addr (entry m2 (f, 0)) \<in> pts (insert f ?D) m2"
      "\<forall>j. \<not> present (entry m2 (base_addr (entry m2 (f, 0)), j))"
    using ask_table_ok [OF k a1(3) insertI1 i(1)] a1(5) by blast
  define t where "t = base_addr (entry m2 (f, 0))"
  have t: "t \<in> pts (insert f ?D) m2" "\<not> present (entry m2 (t, j))" for j using a2(6,7) by (simp_all add: t_def)
  obtain b3 m3' m3 where a3: "ask_kernel_for_frame lib (Some (t, 1)) m2 = (b3, m3')" "m3 = set_entry (t, 1) (map_frame b3) m3'"
      "tab_ok (insert f ?D) m3 (pinned (kernel m3)) (owners (kernel m3))" "pts (insert f ?D) m3 = pts (insert f ?D) m2"
      "\<forall>d \<in> insert f ?D. \<forall>i. entry m3 (d, i) = entry m2 (d, i)"
      "\<forall>q. fst q \<in> pts (insert f ?D) m2 \<and> idx (snd q) \<and> q \<noteq> (t, 1) \<and> present (entry m3 q) \<longrightarrow> present (entry m2 q)"
    using ask_page_ok [OF k a2(3), of "(t, 1)" "Some (t, 1)"] t i(2) by auto
  have np: "\<not> present (entry m3 (t, 2))" using a3(6) [rule_format, of "(t, 2)"] t i(3) by auto
  obtain b4 m4' m4 where a4: "ask_kernel_for_frame lib (Some (t, 2)) m3 = (b4, m4')" "m4 = set_entry (t, 2) (map_frame b4) m4'"
      "tab_ok (insert f ?D) m4 (pinned (kernel m4)) (owners (kernel m4))"
      "\<forall>d \<in> insert f ?D. \<forall>i. entry m4 (d, i) = entry m3 (d, i)"
    using ask_page_ok [OF k a3(3), of "(t, 2)" "Some (t, 2)"] t i(3) np a3(4) by auto
  have u: "[1..<3] = [1, 2 :: nat]" by (simp add: upt_rec)
  have tt: "base_addr (entry m3 (f, 0)) = t" using a3(5) by (simp add: t_def)
  have "map_testing_page lib (f, 0) 1 m2 = m3" "map_testing_page lib (f, 0) 2 m3 = m4"
    using a3(1,2) a4(1,2) tt by (simp_all add: map_testing_page_def t_def [symmetric])
  then have fold: "fold (map_testing_page lib (f, 0)) [1..<3] m2 = m4" unfolding u by simp
  have s': "s' = s\<lparr>page_directories := (page_directories s)(pid \<mapsto> f), segmentations := (segmentations s)(pid \<mapsto> segment_table), mem := m4\<rparr>"
    using r a1(1) a2(1,2) fold by (auto simp: mmu_add_process_def rbind_eq_Inr Let_def)
  have ran: "ran ((page_directories s)(pid \<mapsto> f)) = insert f ?D" using free by simp
  have dir: "entry m4 (d, i) = entry (mem s) (d, i)" if "d \<in> ?D" for d i
    using that a1(2,4) a2(4) a3(5) a4(4) by (metis insertI2 prod.inject)
  have tok: "tlb_ok tmap s" and tlb_unchanged: "tlb s' = tlb s" using inv s' by (simp_all add: mmu_inv_def)
  have "tlb_ok tmap s'"
    unfolding tlb_ok_def
  proof (intro allI impI)
    fix v p assume p: "tmap (tlb s') v = Some p"
    then obtain d where d: "page_directories s (curr_pid s) = Some d" "present (entry (mem s) (d, v div 1024 mod 1024))"
        "p = (base_addr (entry (mem s) (d, v div 1024 mod 1024)), v mod 1024)"
      using tok [unfolded tlb_ok_def] p tlb_unchanged by metis
    then have "d \<in> ?D" "curr_pid s \<noteq> pid" using free by (auto intro: ranI)
    then show "\<exists>d. page_directories s' (curr_pid s') = Some d \<and> present (entry (mem s') (d, v div 1024 mod 1024)) \<and>
        p = (base_addr (entry (mem s') (d, v div 1024 mod 1024)), v mod 1024)"
      using d dir unfolding s' by (intro exI [of _ d]) simp
  qed
  moreover have "p = q" if h: "page_directories s' p = Some d" "page_directories s' q = Some d" for p q d
  proof -
    have pd: "page_directories s' = (page_directories s)(pid \<mapsto> f)" using s' by simp
    have nf: "page_directories s r \<noteq> Some f" for r using a1(2) by (auto intro: ranI)
    have inj: "page_directories s p = Some d \<and> page_directories s q = Some d \<longrightarrow> p = q"
      using inv unfolding mmu_inv_def by blast
    show ?thesis using h inj nf [of p] nf [of q] unfolding pd by (cases "p = pid"; cases "q = pid") simp_all
  qed
  moreover have "tables_ok pinned owners s'" using a4(3) ran s' by simp
  moreover have "page_directories s' p = None \<longleftrightarrow> segmentations s' p = None" for p
    using inv s' unfolding mmu_inv_def by (cases "p = pid") simp_all
  ultimately show ?thesis unfolding mmu_inv_def by blast
qed

text \<open>Removing a process gives back the frames \<open>G\<close>: entries elsewhere are as they were, and an entry
  whose page was given back is no longer the kernel's to evict.\<close>

definition released ::
  "('k \<Rightarrow> nat set) \<Rightarrow> ('k \<Rightarrow> pte_ptr set) \<Rightarrow> 'k pmem \<Rightarrow> nat set \<Rightarrow> 'k pmem \<Rightarrow> bool" where
  "released pinned owners m G m' \<longleftrightarrow> (\<forall>q. fst q \<notin> G \<longrightarrow> entry m' q = entry m q) \<and>
     pinned (kernel m') = pinned (kernel m) - G \<and>
     owners (kernel m') = {p \<in> owners (kernel m). base_addr (entry m p) \<notin> G} \<and>
     (\<forall>p \<in> owners (kernel m). fst p \<in> G \<longrightarrow> base_addr (entry m p) \<in> G)"

lemma released_refl: "released pinned owners m {} m"
  by (simp add: released_def)

lemma return_laws:
  assumes "kernel_laws lib pinned owners"
  shows "pinned (kernel (return_frame_to_kernel lib f m)) = pinned (kernel m) - {f}"
    "owners (kernel (return_frame_to_kernel lib f m)) = {p \<in> owners (kernel m). base_addr (entry m p) \<noteq> f}"
    "fst p \<noteq> f \<Longrightarrow> entry (return_frame_to_kernel lib f m) p = entry m p"
  using assms unfolding kernel_laws_def Let_def by blast+

lemma released_return:
  assumes k: "kernel_laws lib pinned owners" and r: "released pinned owners m G m'"
    and o: "\<And>p. p \<in> owners (kernel m) \<Longrightarrow> fst p = f \<Longrightarrow> base_addr (entry m p) \<in> G"
  shows "released pinned owners m (insert f G) (return_frame_to_kernel lib f m')"
proof -
  have r: "\<And>q. fst q \<notin> G \<Longrightarrow> entry m' q = entry m q" "pinned (kernel m') = pinned (kernel m) - G"
      "owners (kernel m') = {p \<in> owners (kernel m). base_addr (entry m p) \<notin> G}"
      "\<And>p. p \<in> owners (kernel m) \<Longrightarrow> fst p \<in> G \<Longrightarrow> base_addr (entry m p) \<in> G"
    using r unfolding released_def by blast+
  have e: "entry m' p = entry m p" if "p \<in> owners (kernel m)" "base_addr (entry m p) \<notin> G" for p
    using r(1,4) that by blast
  show ?thesis
    unfolding released_def return_laws(1,2) [OF k] r(2,3)
  proof (intro conjI)
    show "\<forall>q. fst q \<notin> insert f G \<longrightarrow> entry (return_frame_to_kernel lib f m') q = entry m q"
      using return_laws(3) [OF k] r(1) by simp
    show "{p \<in> {p \<in> owners (kernel m). base_addr (entry m p) \<notin> G}. base_addr (entry m' p) \<noteq> f} =
        {p \<in> owners (kernel m). base_addr (entry m p) \<notin> insert f G}"
      using e by auto
    show "\<forall>p\<in>owners (kernel m). fst p \<in> insert f G \<longrightarrow> base_addr (entry m p) \<in> insert f G" using r(4) o by blast
  qed blast
qed

lemma released_swap:
  assumes k: "kernel_laws lib pinned owners" and r: "released pinned owners m G m'"
  shows "released pinned owners m G (remove_swap_file lib p m')"
proof -
  have "entry (remove_swap_file lib p m') q = entry m' q" for q using read_page_laws(6) [OF k] by (simp add: entry_def)
  then show ?thesis using r read_page_laws(4,5) [OF k] unfolding released_def by metis
qed

text \<open>The frames below a page table, and below a directory.\<close>

definition pages_of :: "'k pmem \<Rightarrow> nat \<Rightarrow> nat \<Rightarrow> nat set" where
  "pages_of m t n = {base_addr (entry m (t, j)) | j. j < n \<and> present (entry m (t, j))}"

definition frames_of :: "'k pmem \<Rightarrow> nat \<Rightarrow> nat \<Rightarrow> nat set" where
  "frames_of m d n = (\<Union>i \<in> {i. i < n \<and> present (entry m (d, i))}.
     insert (base_addr (entry m (d, i))) (pages_of m (base_addr (entry m (d, i))) NUM_ENTRIES))"

lemma pages_of_Suc:
  "pages_of m t (Suc n) = (if present (entry m (t, n)) then insert (base_addr (entry m (t, n))) (pages_of m t n) else pages_of m t n)"
  unfolding pages_of_def by (auto simp: less_Suc_eq)

lemma frames_of_Suc:
  "frames_of m d (Suc n) = (if present (entry m (d, n))
     then insert (base_addr (entry m (d, n))) (pages_of m (base_addr (entry m (d, n))) NUM_ENTRIES) \<union> frames_of m d n
     else frames_of m d n)"
  unfolding frames_of_def by (auto simp: less_Suc_eq)

lemma return_table_ok:
  assumes k: "kernel_laws lib pinned owners" and ok: "tab_ok D m (pinned (kernel m)) (owners (kernel m))"
    and t: "t \<in> pts D m" "t \<notin> G" and r: "released pinned owners m G m'"
  shows "released pinned owners m (insert t (pages_of m t NUM_ENTRIES) \<union> G) (return_table lib t m')"
proof -
  note o = tab_okD [OF ok]
  define step where "step = (\<lambda>vpn2 m. let pte = (t, vpn2);
            m = (if present (entry m pte) then return_frame_to_kernel lib (base_addr (entry m pte)) m else m) in
        remove_swap_file lib pte m)"
  have nt: "t \<notin> pages_of m t n" if "n \<le> NUM_ENTRIES" for n
  proof
    assume "t \<in> pages_of m t n"
    then obtain j where j: "t = base_addr (entry m (t, j))" "j < n" "present (entry m (t, j))" unfolding pages_of_def by blast
    have "idx j" using j(2) that by (simp add: idx_def)
    from o(5) [OF t(1) this j(3)] have "t \<notin> pts D m" using j(1) by simp
    then show False using t(1) by simp
  qed
  have "released pinned owners m (pages_of m t n \<union> G) (fold step [0..<n] m')" if "n \<le> NUM_ENTRIES" for n
    using that
  proof (induction n)
    case 0
    then show ?case using r by (simp add: pages_of_def)
  next
    case (Suc n)
    let ?m = "fold step [0..<n] m'"
    have rn: "released pinned owners m (pages_of m t n \<union> G) ?m" using Suc by simp
    have e: "entry ?m (t, n) = entry m (t, n)" using rn nt [of n] t(2) Suc.prems unfolding released_def by auto
    have idx: "idx n" using Suc.prems by (simp add: idx_def)
    have step: "fold step [0..<Suc n] m' = step n ?m" by simp
    show ?case
    proof (cases "present (entry m (t, n))")
      case True
      have "base_addr (entry m (t, n)) \<notin> pts D m" using o(5) [OF t(1) idx True] by blast
      then have "released pinned owners m (insert (base_addr (entry m (t, n))) (pages_of m t n \<union> G))
          (return_frame_to_kernel lib (base_addr (entry m (t, n))) ?m)"
        using o(7) by (intro released_return [OF k rn]) auto
      then show ?thesis using True e released_swap [OF k] unfolding step by (simp add: step_def Let_def pages_of_Suc)
    next
      case False
      then show ?thesis using e released_swap [OF k rn] unfolding step by (simp add: step_def Let_def pages_of_Suc)
    qed
  qed
  then have rl: "released pinned owners m (pages_of m t NUM_ENTRIES \<union> G) (fold step [0..<NUM_ENTRIES] m')" by simp
  have "base_addr (entry m p) \<in> pages_of m t NUM_ENTRIES \<union> G" if "p \<in> owners (kernel m)" "fst p = t" for p
    using o(7) [OF that(1)] that(2) unfolding pages_of_def idx_def by (cases p) auto
  then have "released pinned owners m (insert t (pages_of m t NUM_ENTRIES \<union> G))
      (return_frame_to_kernel lib t (fold step [0..<NUM_ENTRIES] m'))"
    by (rule released_return [OF k rl])
  then show ?thesis by (simp add: return_table_def step_def)
qed

definition return_directory :: "('t, 'k) mmu_lib \<Rightarrow> nat \<Rightarrow> 'k pmem \<Rightarrow> 'k pmem" where
  "return_directory lib d m = return_frame_to_kernel lib d (fold (\<lambda>vpn1 m.
     let pde = (d, vpn1) in if present (entry m pde) then return_table lib (base_addr (entry m pde)) m else m) [0..<NUM_ENTRIES] m)"

lemma frames_of_tables:
  assumes ok: "tab_ok D m pin own" and d: "d \<in> D" and n: "n \<le> NUM_ENTRIES"
  shows "d \<notin> frames_of m d n" "i < NUM_ENTRIES \<Longrightarrow> n \<le> i \<Longrightarrow> present (entry m (d, i)) \<Longrightarrow> base_addr (entry m (d, i)) \<notin> frames_of m d n"
proof -
  note o = tab_okD [OF ok]
  have pt: "base_addr (entry m (d, i)) \<in> pts D m" if "i < NUM_ENTRIES" "present (entry m (d, i))" for i
    unfolding pts_def idx_def using d that by blast
  have pg: "x \<notin> D \<union> pts D m" if "x \<in> pages_of m t NUM_ENTRIES" "t \<in> pts D m" for x t
    using o(5) [OF that(2)] that(1) unfolding pages_of_def idx_def by blast
  have mem: "\<exists>j. j < n \<and> present (entry m (d, j)) \<and> (x = base_addr (entry m (d, j)) \<or> x \<in> pages_of m (base_addr (entry m (d, j))) NUM_ENTRIES)"
    if "x \<in> frames_of m d n" for x
    using that unfolding frames_of_def by blast
  show "d \<notin> frames_of m d n"
  proof
    assume "d \<in> frames_of m d n"
    then obtain j where j: "j < n" "present (entry m (d, j))"
        "d = base_addr (entry m (d, j)) \<or> d \<in> pages_of m (base_addr (entry m (d, j))) NUM_ENTRIES"
      using mem by blast
    have p: "base_addr (entry m (d, j)) \<in> pts D m" using pt j n by simp
    from j(3) show False
    proof
      assume "d = base_addr (entry m (d, j))"
      then show False using p o(3) d by auto
    next
      assume "d \<in> pages_of m (base_addr (entry m (d, j))) NUM_ENTRIES"
      then show False using pg [OF _ p] d by blast
    qed
  qed
  assume i: "i < NUM_ENTRIES" "n \<le> i" "present (entry m (d, i))"
  show "base_addr (entry m (d, i)) \<notin> frames_of m d n"
  proof
    assume "base_addr (entry m (d, i)) \<in> frames_of m d n"
    then obtain j where j: "j < n" "present (entry m (d, j))"
        "base_addr (entry m (d, i)) = base_addr (entry m (d, j)) \<or> base_addr (entry m (d, i)) \<in> pages_of m (base_addr (entry m (d, j))) NUM_ENTRIES"
      using mem by blast
    have p: "base_addr (entry m (d, j)) \<in> pts D m" using pt j n by simp
    have "idx i" "idx j" using i j n by (simp_all add: idx_def)
    then have "base_addr (entry m (d, i)) \<noteq> base_addr (entry m (d, j))" using o(4) [OF d d, of i j] i j by fastforce
    then show False using j(3) pg [OF _ p] pt [OF i(1,3)] by blast
  qed
qed

lemma return_directory_released:
  assumes k: "kernel_laws lib pinned owners" and ok: "tab_ok D m (pinned (kernel m)) (owners (kernel m))" and d: "d \<in> D"
  shows "released pinned owners m (insert d (frames_of m d NUM_ENTRIES)) (return_directory lib d m)"
proof -
  define step where "step = (\<lambda>vpn1 m. let pde = (d, vpn1) in
     if present (entry m pde) then return_table lib (base_addr (entry m pde)) m else m)"
  have "released pinned owners m (frames_of m d n) (fold step [0..<n] m)" if "n \<le> NUM_ENTRIES" for n
    using that
  proof (induction n)
    case 0
    then show ?case by (simp add: frames_of_def released_refl)
  next
    case (Suc n)
    let ?m = "fold step [0..<n] m"
    have rn: "released pinned owners m (frames_of m d n) ?m" using Suc by simp
    have n: "n \<le> NUM_ENTRIES" "n < NUM_ENTRIES" using Suc.prems by simp_all
    have e: "entry ?m (d, n) = entry m (d, n)" using rn frames_of_tables(1) [OF ok d n(1)] unfolding released_def by simp
    have step: "fold step [0..<Suc n] m = step n ?m" by simp
    show ?case
    proof (cases "present (entry m (d, n))")
      case True
      have "base_addr (entry m (d, n)) \<in> pts D m" unfolding pts_def idx_def using d True n(2) by blast
      then show ?thesis
        using True e return_table_ok [OF k ok _ frames_of_tables(2) [OF ok d n(1,2) order_refl True] rn]
        unfolding step by (simp add: step_def Let_def frames_of_Suc)
    next
      case False
      then show ?thesis using e rn unfolding step by (simp add: step_def Let_def frames_of_Suc)
    qed
  qed
  then have r: "released pinned owners m (frames_of m d NUM_ENTRIES) (fold step [0..<NUM_ENTRIES] m)" by simp
  have "fst p \<noteq> d" if "p \<in> owners (kernel m)" for p using tab_okD(3,7) [OF ok] that d by blast
  then show ?thesis using released_return [OF k r, of d] unfolding return_directory_def step_def by blast
qed

lemma tab_ok_released:
  assumes ok: "tab_ok D m (pinned (kernel m)) (owners (kernel m))" and d: "d \<in> D"
    and r: "released pinned owners m (insert d (frames_of m d NUM_ENTRIES)) m'"
  shows "tab_ok (D - {d}) m' (pinned (kernel m')) (owners (kernel m'))" "\<And>e i. e \<in> D - {d} \<Longrightarrow> entry m' (e, i) = entry m (e, i)"
proof -
  note o = tab_okD [OF ok]
  let ?G = "insert d (frames_of m d NUM_ENTRIES)"
  have r: "\<And>q. fst q \<notin> ?G \<Longrightarrow> entry m' q = entry m q" "pinned (kernel m') = pinned (kernel m) - ?G"
      "owners (kernel m') = {p \<in> owners (kernel m). base_addr (entry m p) \<notin> ?G}"
      "\<And>p. p \<in> owners (kernel m) \<Longrightarrow> fst p \<in> ?G \<Longrightarrow> base_addr (entry m p) \<in> ?G"
    using r unfolding released_def by blast+
  have G: "x = d \<or> (\<exists>i. idx i \<and> present (entry m (d, i)) \<and> (x = base_addr (entry m (d, i)) \<or>
      (\<exists>j. idx j \<and> present (entry m (base_addr (entry m (d, i)), j)) \<and> x = base_addr (entry m (base_addr (entry m (d, i)), j)))))"
    if "x \<in> ?G" for x
    using that unfolding frames_of_def pages_of_def idx_def by blast
  have pt: "base_addr (entry m (e, i)) \<in> pts D m" if "e \<in> D" "idx i" "present (entry m (e, i))" for e i
    unfolding pts_def using that by blast
  have D': "e \<notin> ?G" if "e \<in> D - {d}" for e using G [of e] that d o(3,5) pt by blast
  then show dir: "\<And>e i. e \<in> D - {d} \<Longrightarrow> entry m' (e, i) = entry m (e, i)" using r(1) by simp
  have p: "pts (D - {d}) m' = pts (D - {d}) m" by (rule pts_cong) (rule dir)
  have sub: "pts (D - {d}) m \<subseteq> pts D m" unfolding pts_def by blast
  have P': "t \<notin> ?G" if "t \<in> pts (D - {d}) m" for t
  proof
    assume g: "t \<in> ?G"
    note tp = that
    obtain e i where e: "t = base_addr (entry m (e, i))" "e \<in> D" "e \<noteq> d" "idx i" "present (entry m (e, i))"
      using tp unfolding pts_def by blast
    have t: "t \<in> pts D m" using that sub by blast
    have td: "t \<noteq> d" using t o(3) d by blast
    from G [OF g] td obtain i where i: "idx i" "present (entry m (d, i))" "t = base_addr (entry m (d, i)) \<or>
        (\<exists>j. idx j \<and> present (entry m (base_addr (entry m (d, i)), j)) \<and> t = base_addr (entry m (base_addr (entry m (d, i)), j)))"
      by blast
    from i(3) show False
    proof (elim disjE exE conjE)
      assume "t = base_addr (entry m (d, i))"
      then show False using o(4) [OF e(2) d e(4) i(1) e(5) i(2)] e(1,3) by simp
    next
      fix j assume j: "idx j" "present (entry m (base_addr (entry m (d, i)), j))" "t = base_addr (entry m (base_addr (entry m (d, i)), j))"
      then show False using o(5) [OF pt [OF d i(1,2)] j(1,2)] t by simp
    qed
  qed
  have pe: "entry m' (t, j) = entry m (t, j)" if "t \<in> pts (D - {d}) m" for t j using r(1) P' [OF that] by simp
  have pg: "base_addr (entry m (t, j)) \<notin> ?G" if "t \<in> pts (D - {d}) m" "idx j" "present (entry m (t, j))" for t j
  proof
    assume g: "base_addr (entry m (t, j)) \<in> ?G"
    note h = that
    have t: "t \<in> pts D m" using h(1) sub by blast
    obtain i j' where i: "idx i" "present (entry m (d, i))" "idx j'" "present (entry m (base_addr (entry m (d, i)), j'))"
        "base_addr (entry m (t, j)) = base_addr (entry m (base_addr (entry m (d, i)), j'))"
      proof -
      have nd: "base_addr (entry m (t, j)) \<noteq> d" "base_addr (entry m (t, j)) \<notin> pts D m" using o(5) [OF t h(2,3)] d by auto
      then show thesis using G [OF g] pt [OF d] that by metis
    qed
    then have tt: "t = base_addr (entry m (d, i))" using o(6) [OF t pt [OF d i(1,2)] h(2) i(3) h(3) i(4,5)] by simp
    have "base_addr (entry m (d, i)) \<in> ?G" unfolding frames_of_def using i(1,2) unfolding idx_def by blast
    then show False using P' [OF h(1)] tt by simp
  qed
  show "tab_ok (D - {d}) m' (pinned (kernel m')) (owners (kernel m'))"
    unfolding tab_ok_def p
  proof (intro conjI ballI allI impI; (elim conjE)?)
    show "D - {d} \<subseteq> pinned (kernel m')" using o(1) D' r(2) by blast
    show "pts (D - {d}) m \<subseteq> pinned (kernel m')" using o(2) sub P' r(2) by blast
    show "(D - {d}) \<inter> pts (D - {d}) m = {}" using o(3) sub by blast
  next
    fix e e' i i' assume h: "e \<in> D - {d}" "e' \<in> D - {d}" "idx i" "idx i'" "present (entry m' (e, i))" "present (entry m' (e', i'))"
      "base_addr (entry m' (e, i)) = base_addr (entry m' (e', i'))"
    show "e = e'" "i = i'" using o(4) [of e e' i i'] h dir [OF h(1)] dir [OF h(2)] by simp_all
  next
    fix t j assume h: "t \<in> pts (D - {d}) m" "idx j" "present (entry m' (t, j))"
    have h': "present (entry m (t, j))" "t \<in> pts D m" using h pe [OF h(1)] sub by auto
    have nG: "base_addr (entry m (t, j)) \<notin> ?G" by (rule pg [OF h(1,2) h'(1)])
    show "base_addr (entry m' (t, j)) \<notin> D - {d} \<union> pts (D - {d}) m" using o(5) [OF h'(2) h(2) h'(1)] sub pe [OF h(1)] by auto
    show "base_addr (entry m' (t, j)) \<in> pinned (kernel m') \<or> (t, j) \<in> owners (kernel m')"
      using o(5) [OF h'(2) h(2) h'(1)] nG pe [OF h(1)] unfolding r(2,3) by auto
  next
    fix t t' j j' assume h: "t \<in> pts (D - {d}) m" "t' \<in> pts (D - {d}) m" "idx j" "idx j'" "present (entry m' (t, j))"
      "present (entry m' (t', j'))" "base_addr (entry m' (t, j)) = base_addr (entry m' (t', j'))"
    have "t \<in> pts D m" "t' \<in> pts D m" using h(1,2) sub by blast+
    then show "t = t'" "j = j'" using o(6) [of t t' j j'] h(3-7) unfolding pe [OF h(1)] pe [OF h(2)] by auto
  next
    fix q assume "q \<in> owners (kernel m')"
    then have q: "q \<in> owners (kernel m)" "base_addr (entry m q) \<notin> ?G" unfolding r(3) by auto
    have q': "fst q \<in> pts D m" "idx (snd q)" "present (entry m q)" using o(7) [OF q(1)] by auto
    have "fst q \<notin> ?G" using r(4) [OF q(1)] q(2) by blast
    then have e: "entry m' q = entry m q" by (rule r(1))
    have "fst q \<in> pts (D - {d}) m"
    proof -
      obtain c i where c: "fst q = base_addr (entry m (c, i))" "c \<in> D" "idx i" "present (entry m (c, i))"
        using q'(1) unfolding pts_def by blast
      have "c \<noteq> d" using \<open>fst q \<notin> ?G\<close> c unfolding frames_of_def idx_def by blast
      then show ?thesis using c unfolding pts_def by blast
    qed
    then show "fst q \<in> pts (D - {d}) m" "idx (snd q)" "present (entry m' q)" using q' e by auto
  qed
qed

lemma mmu_remove_process_inv:
  assumes t: "tlb_laws lib tmap" and k: "kernel_laws lib pinned owners" and inv: "mmu_inv lib tmap pinned owners s"
    and r: "mmu_remove_process lib max_pid pid s = Inr s'"
  shows "mmu_inv lib tmap pinned owners s'"
proof -
  define m' where "m' = (case page_directories s pid of None \<Rightarrow> mem s | Some pd \<Rightarrow> return_directory lib pd (mem s))"
  let ?sx = "s\<lparr>mem := m', page_directories := (page_directories s)(pid := None), segmentations := (segmentations s)(pid := None)\<rparr>"
  have s': "s' = (if curr_pid s = pid then ?sx\<lparr>tlb := tlb_flush lib (tlb s)\<rparr> else ?sx)"
    using r unfolding mmu_remove_process_def return_directory_def Let_def m'_def by (auto simp: rbind_eq_Inr)
  have i: "\<forall>p q d. page_directories s p = Some d \<and> page_directories s q = Some d \<longrightarrow> p = q" "tables_ok pinned owners s"
      "tlb_ok tmap s" "\<forall>p. page_directories s p = None \<longleftrightarrow> segmentations s p = None"
    using inv unfolding mmu_inv_def by blast+
  have main: "tab_ok (ran ((page_directories s)(pid := None))) m' (pinned (kernel m')) (owners (kernel m')) \<and>
      (\<forall>q e j. page_directories s q = Some e \<and> q \<noteq> pid \<longrightarrow> entry m' (e, j) = entry (mem s) (e, j))"
  proof (cases "page_directories s pid")
    case None
    then have "(page_directories s)(pid := None) = page_directories s" by auto
    then show ?thesis using i(2) None by (simp add: m'_def)
  next
    case (Some d)
    have d: "d \<in> ran (page_directories s)" using Some by (rule ranI)
    have ran: "ran ((page_directories s)(pid := None)) = ran (page_directories s) - {d}"
    proof
      show "ran ((page_directories s)(pid := None)) \<subseteq> ran (page_directories s) - {d}"
        using Some i(1) unfolding ran_def by auto
      show "ran (page_directories s) - {d} \<subseteq> ran ((page_directories s)(pid := None))"
      proof
        fix x assume "x \<in> ran (page_directories s) - {d}"
        then obtain a where "page_directories s a = Some x" "x \<noteq> d" unfolding ran_def by blast
        then show "x \<in> ran ((page_directories s)(pid := None))" using Some by (intro ranI [of _ a]) auto
      qed
    qed
    have m': "m' = return_directory lib d (mem s)" by (simp add: m'_def Some)
    note tr = tab_ok_released [OF i(2) d return_directory_released [OF k i(2) d]]
    have e: "entry m' (e, j) = entry (mem s) (e, j)" if "page_directories s q = Some e" "q \<noteq> pid" for q e j
    proof -
      have "e \<noteq> d" using i(1) that Some by blast
      then show ?thesis using tr(2) [of e j] that(1) m' by (auto intro: ranI)
    qed
    show ?thesis using e tr(1) unfolding ran m' by blast
  qed
  have "tlb_ok tmap s'"
  proof (cases "curr_pid s = pid")
    case True
    then show ?thesis using s' tlbD(2) [OF t] by (simp add: tlb_ok_def)
  next
    case False
    then show ?thesis using i(3) main unfolding s' tlb_ok_def by fastforce
  qed
  moreover have "page_directories s' = (page_directories s)(pid := None)" "segmentations s' = (segmentations s)(pid := None)" "mem s' = m'"
    using s' by simp_all
  ultimately show ?thesis using main i(1,4) unfolding mmu_inv_def by simp
qed

section \<open>Any order of operations\<close>

inductive mmu_step :: "('t, 'k) mmu_lib \<Rightarrow> nat \<Rightarrow> ('t, 'k) mmu \<Rightarrow> ('t, 'k) mmu \<Rightarrow> bool"
  for lib :: "('t, 'k) mmu_lib" and max_pid :: nat where
  step_read: "mmu_read_from_virtual_address lib max_pid va pid n s = Inr (bs, s') \<Longrightarrow> mmu_step lib max_pid s s'"
| step_write: "mmu_write_to_virtual_address lib max_pid va pid buf n s = Inr s' \<Longrightarrow> mmu_step lib max_pid s s'"
| step_add: "page_directories s pid = None \<Longrightarrow> mmu_add_process lib max_pid pid s = Inr s' \<Longrightarrow> mmu_step lib max_pid s s'"
| step_remove: "mmu_remove_process lib max_pid pid s = Inr s' \<Longrightarrow> mmu_step lib max_pid s s'"

text \<open>A new unit, over a memory of which the kernel owns nothing yet.\<close>

definition mmu_start :: "('t, 'k) mmu_lib \<Rightarrow> ('k \<Rightarrow> pte_ptr set) \<Rightarrow> ('t, 'k) mmu \<Rightarrow> bool" where
  "mmu_start lib owners s \<longleftrightarrow> s = mmu_create lib (mem s) \<and> owners (kernel (mem s)) = {}"

lemma mmu_start_inv:
  assumes "tlb_laws lib tmap" "mmu_start lib owners s"
  shows "mmu_inv lib tmap pinned owners s"
proof -
  obtain m where s: "s = mmu_create lib m" "owners (kernel m) = {}" using assms(2) unfolding mmu_start_def by metis
  show ?thesis unfolding s(1) using tlbD(1) [OF assms(1)] s(2)
    by (simp add: mmu_create_def mmu_inv_def tlb_ok_def tab_ok_def pts_def ran_def)
qed

lemma perform_check_pid:
  assumes "mmu_inv lib tmap pinned owners s" "mmu_perform_check lib va pid s = Inr r"
  shows "\<exists>d. page_directories s pid = Some d"
proof (rule ccontr)
  assume "\<nexists>d. page_directories s pid = Some d"
  then have "segmentations s pid = None" using assms(1) unfolding mmu_inv_def by (metis not_None_eq)
  then show False using assms(2) by (cases "curr_pid s = pid") (simp_all add: mmu_perform_check_def Let_def)
qed

lemma read_cases:
  assumes "mmu_read_from_virtual_address lib max_pid va pid n s = Inr (bs, s')"
  obtains s1 where "mmu_perform_check lib va pid s = Inr (None, s1)" "s' = s1"
  | p s1 where "mmu_perform_check lib va pid s = Inr (Some p, s1)" "s' = s1\<lparr>mem := set_entry p (\<lambda>e. e\<lparr>accessed := True\<rparr>) (mem s1)\<rparr>"
proof -
  obtain r s1 where "mmu_perform_check lib va pid s = Inr (r, s1)"
    using assms by (auto simp: mmu_read_from_virtual_address_def rbind_eq_Inr)
  then show thesis using assms that by (cases r) (simp_all add: mmu_read_from_virtual_address_def rbind_eq_Inr Let_def)
qed

lemma write_cases:
  assumes "mmu_write_to_virtual_address lib max_pid va pid buf n s = Inr s'"
  obtains s1 where "mmu_perform_check lib va pid s = Inr (None, s1)" "s' = s1"
  | p s1 where "mmu_perform_check lib va pid s = Inr (Some p, s1)" "n \<le> length buf" "pid < max_pid" "n + va mod PAGE_SIZE \<le> PAGE_SIZE"
      "s' = s1\<lparr>mem := set_entry p (\<lambda>e. e\<lparr>dirty := True, accessed := True\<rparr>)
         (put_frame (base_addr (entry (mem s1) p)) (va mod PAGE_SIZE) (take n buf) (mem s1))\<rparr>"
proof -
  obtain r s1 where c: "mmu_perform_check lib va pid s = Inr (r, s1)"
    using assms by (auto simp: mmu_write_to_virtual_address_def rbind_eq_Inr)
  then show thesis using assms that
    by (cases r; cases "length buf < n") (auto simp: mmu_write_to_virtual_address_def rbind_eq_Inr rassert_eq_Inr Let_def)
qed

lemma mmu_step_inv:
  assumes t: "tlb_laws lib tmap" and k: "kernel_laws lib pinned owners"
    and inv: "mmu_inv lib tmap pinned owners s" and st: "mmu_step lib max_pid s s'"
  shows "mmu_inv lib tmap pinned owners s'"
  using st
proof cases
  case (step_read va pid n bs)
  have inv1: "mmu_inv lib tmap pinned owners s1" if c: "mmu_perform_check lib va pid s = Inr (r, s1)" for r s1
  proof -
    obtain d where "page_directories s pid = Some d" using perform_check_pid [OF inv c] by blast
    from perform_check_walk [OF t k inv this, of va] show ?thesis using c by auto
  qed
  from step_read show ?thesis
    by (cases rule: read_cases) (use inv1 same_map_inv [OF same_map_simps(1) inv1] in blast)+
next
  case (step_write va pid buf n)
  have inv1: "mmu_inv lib tmap pinned owners s1" if c: "mmu_perform_check lib va pid s = Inr (r, s1)" for r s1
  proof -
    obtain d where "page_directories s pid = Some d" using perform_check_pid [OF inv c] by blast
    from perform_check_walk [OF t k inv this, of va] show ?thesis using c by auto
  qed
  from step_write show ?thesis
    by (cases rule: write_cases) (use inv1 same_map_inv [OF same_map_simps(2) inv1] in blast)+
next
  case (step_add pid)
  then show ?thesis using mmu_add_process_inv [OF k inv] by blast
next
  case (step_remove pid)
  then show ?thesis using mmu_remove_process_inv [OF t k inv] by blast
qed

interpretation mmu_runs: state_machine "\<lambda>s. mmu_start lib owners s \<and> tlb_laws lib tmap \<and> kernel_laws lib pinned owners"
  "\<lambda>s s'. mmu_step lib max_pid s s'"
  "\<lambda>s. mmu_inv lib tmap pinned owners s \<and> tlb_laws lib tmap \<and> kernel_laws lib pinned owners"
  for lib :: "('t, 'k) mmu_lib" and tmap pinned owners max_pid
  by unfold_locales (blast intro: mmu_start_inv mmu_step_inv)+

section \<open>What follows\<close>

lemma walk_resident:
  assumes "segmentations s pid = Some segs" "address_in_segmentations lib segs va" "page_directories s pid = Some d"
    "present (entry (mem s) (d, pde_index va))" "p = (base_addr (entry (mem s) (d, pde_index va)), pte_index va)"
    "present (entry (mem s) p)" "user_supervisor (entry (mem s) p)" "read_write (entry (mem s) p)"
  shows "mmu_walk lib va pid s = Inr (Some p, s)"
  using assms by (simp add: mmu_walk_def walk_directory_def check_page_def)

text \<open>The frame that holds the page of an address of a process.\<close>

definition translate :: "('t, 'k) mmu \<Rightarrow> nat \<Rightarrow> nat \<Rightarrow> nat option" where
  "translate s pid va = (case page_directories s pid of
      None \<Rightarrow> None
    | Some d \<Rightarrow>
        let pde = (d, pde_index va); pte = (base_addr (entry (mem s) pde), pte_index va) in
        if present (entry (mem s) pde) \<and> present (entry (mem s) pte) then Some (base_addr (entry (mem s) pte)) else None)"

lemma index_page: "va < 2 ^ 32 \<Longrightarrow> va div PAGE_SIZE = pde_index va * 1024 + pte_index va"
proof -
  assume "va < 2 ^ 32"
  then have "va div 2 ^ 12 div 1024 < 1024" by (simp add: div_mult2_eq [symmetric])
  then show ?thesis unfolding page_index PAGE_SIZE_def by simp
qed

section \<open>A kernel and a cache\<close>

text \<open>They satisfy the laws: the cache is a map, and the kernel numbers the frames it hands out.\<close>

definition blank :: page_table_entry where
  "blank = \<lparr>present = False, read_write = False, user_supervisor = False, base_addr = 0, accessed = False, dirty = False\<rparr>"

definition fresh_frame :: "(nat list \<times> pte_ptr list) pmem \<Rightarrow> nat" where
  "fresh_frame m = Suc (fold max (fst (kernel m) @ List.map (\<lambda>p. base_addr (entry m p)) (snd (kernel m))) 0)"

definition plain_lib :: "(nat \<rightharpoonup> pte_ptr, nat list \<times> pte_ptr list) mmu_lib" where
  "plain_lib = \<lparr>tlb_create = Map.empty, tlb_flush = (\<lambda>_. Map.empty), tlb_get_pte = (\<lambda>t v. (t v, t)),
     tlb_add_pte = (\<lambda>t v p. t(v \<mapsto> p)),
     address_in_segmentations = (\<lambda>segs va. list_ex (\<lambda>g. seg_start (segs g) \<le> va \<and> va < seg_end (segs g))
       [STACK, MMAP, HEAP, BSS, DATA, TEXT, TESTING]),
     ask_kernel_for_frame = (\<lambda>req m. let f = fresh_frame m in
       (f * 2 ^ 12, m\<lparr>tables := (tables m)(f := (\<lambda>_. blank)),
          kernel := (case req of None \<Rightarrow> (f # fst (kernel m), snd (kernel m)) | Some p \<Rightarrow> (fst (kernel m), p # snd (kernel m)))\<rparr>)),
     return_frame_to_kernel = (\<lambda>f m. m\<lparr>kernel := (removeAll f (fst (kernel m)),
       List.filter (\<lambda>p. base_addr (entry m p) \<noteq> f) (snd (kernel m)))\<rparr>),
     read_page_from_disk = (\<lambda>_ m. m), remove_swap_file = (\<lambda>_ m. m)\<rparr>"

abbreviation plain_pinned :: "nat list \<times> pte_ptr list \<Rightarrow> nat set" where "plain_pinned k \<equiv> set (fst k)"
abbreviation plain_owners :: "nat list \<times> pte_ptr list \<Rightarrow> pte_ptr set" where "plain_owners k \<equiv> set (snd k)"

lemma fold_max_ge: "(x :: nat) \<in> insert a (set xs) \<Longrightarrow> x \<le> fold max xs a"
proof (induction xs arbitrary: a x)
  case (Cons y ys)
  have "max y a \<le> fold max ys (max y a)" by (rule Cons.IH) simp
  then show ?case using Cons by auto
qed simp

lemma fresh_frame_new:
  "f \<in> set (fst (kernel m)) \<Longrightarrow> f \<noteq> fresh_frame m" "p \<in> set (snd (kernel m)) \<Longrightarrow> base_addr (entry m p) \<noteq> fresh_frame m"
proof -
  have le: "x < fresh_frame m" if "x \<in> set (fst (kernel m)) \<union> (\<lambda>p. base_addr (entry m p)) ` set (snd (kernel m))" for x
    using fold_max_ge [of x 0 "fst (kernel m) @ List.map (\<lambda>p. base_addr (entry m p)) (snd (kernel m))"] that
    by (auto simp: fresh_frame_def less_Suc_eq_le)
  show "f \<in> set (fst (kernel m)) \<Longrightarrow> f \<noteq> fresh_frame m" using le [of f] by auto
  show "p \<in> set (snd (kernel m)) \<Longrightarrow> base_addr (entry m p) \<noteq> fresh_frame m" using le [of "base_addr (entry m p)"] by auto
qed

lemma plain_laws: "tlb_laws plain_lib (\<lambda>t. t)" "kernel_laws plain_lib plain_pinned plain_owners"
proof -
  show "tlb_laws plain_lib (\<lambda>t. t)" by (simp add: tlb_laws_def plain_lib_def)
  have "asked plain_pinned plain_owners req m (fresh_frame m) (snd (ask_kernel_for_frame plain_lib req m))" for req m
    using fresh_frame_new [of _ m] unfolding asked_def
    by (cases req) (auto simp: plain_lib_def Let_def entry_def blank_def)
  moreover have "fst (ask_kernel_for_frame plain_lib req m) = fresh_frame m * 2 ^ 12" for req m
    by (simp add: plain_lib_def Let_def)
  ultimately have "\<exists>f. fst (ask_kernel_for_frame plain_lib req m) = f * 2 ^ 12 \<and>
      asked plain_pinned plain_owners req m f (snd (ask_kernel_for_frame plain_lib req m))" for req m
    by blast
  then show "kernel_laws plain_lib plain_pinned plain_owners"
    unfolding kernel_laws_def by (auto simp: plain_lib_def Let_def entry_def)
qed

lemma entry_put_frame [simp]: "entry (put_frame f off bs m) q = entry m q"
  by (simp add: put_frame_def entry_def)

section \<open>The properties\<close>

text \<open>A witness: process 0 over an empty memory.\<close>

definition empty_memory :: "(nat list \<times> pte_ptr list) pmem" where
  "empty_memory = \<lparr>tables = (\<lambda>_ _. blank), bytes = (\<lambda>_ _. CHR ''-''), kernel = ([], [])\<rparr>"

definition one_process :: "(nat \<rightharpoonup> pte_ptr, nat list \<times> pte_ptr list) mmu" where
  "one_process = projr (mmu_add_process plain_lib 4 0 (mmu_create plain_lib empty_memory))"

lemma one_process_reached:
  "mmu_start plain_lib plain_owners (mmu_create plain_lib empty_memory)"
  "(\<lambda>s s'. mmu_step plain_lib 4 s s')\<^sup>*\<^sup>* (mmu_create plain_lib empty_memory) one_process"
proof -
  show "mmu_start plain_lib plain_owners (mmu_create plain_lib empty_memory)"
    by (simp add: mmu_start_def mmu_create_def empty_memory_def)
  have "mmu_add_process plain_lib 4 0 (mmu_create plain_lib empty_memory) = Inr one_process"
    by (simp add: one_process_def mmu_add_process_def rbind_def rassert_def split_def Let_def)
  then show "(\<lambda>s s'. mmu_step plain_lib 4 s s')\<^sup>*\<^sup>* (mmu_create plain_lib empty_memory) one_process"
    by (intro r_into_rtranclp step_add) (simp_all add: mmu_create_def)
qed

lemma one_process_value:
  "page_directories one_process = [0 \<mapsto> 1]" "segmentations one_process = [0 \<mapsto> segment_table]"
  "entry (mem one_process) (1, 0) = map_frame 8192 blank"
  "entry (mem one_process) (2, 1) = map_frame 12288 blank" "entry (mem one_process) (2, 2) = map_frame 16384 blank"
  by (simp_all add: one_process_def mmu_add_process_def mmu_create_def empty_memory_def rbind_def rassert_def Let_def plain_lib_def
      fresh_frame_def map_testing_page_def entry_def set_entry_def map_frame_def blank_def upt_rec)

lemma one_process_translates: "page_directories one_process 0 = Some 1" "translate one_process 0 4100 = Some 3"
  "translate one_process 0 8200 = Some 4"
  by (simp_all add: one_process_value [unfolded One_nat_def] translate_def pde_index_def pte_index_def map_frame_def Let_def)

text \<open>C8: the translation cache is invisible. In every state that adding and removing processes, reads and
  writes lead to, and for every address of every process, \<open>mmu_perform_check\<close> finds the entry that a walk
  of the tables without a cache finds, raises the same faults and leaves the same memory: no cached entry
  outlives a context switch, an eviction or the removal of its process.\<close>

theorem mmu_tlb_transparent:
  assumes "tlb_laws lib tmap" "kernel_laws lib pinned owners" "mmu_start lib owners s0"
    and "(\<lambda>s s'. mmu_step lib max_pid s s')\<^sup>*\<^sup>* s0 s" "page_directories s pid = Some d"
  shows "\<exists>r s1 s2. mmu_perform_check lib va pid s = Inr (r, s1) \<and> mmu_walk lib va pid s = Inr (r, s2) \<and> same_but_tlb s1 s2"
proof -
  have "mmu_inv lib tmap pinned owners s" using mmu_runs.reachable_inv [OF _ assms(4)] assms(1-3) by blast
  from perform_check_walk [OF assms(1,2) this assms(5), of va] show ?thesis by blast
qed

theorem mmu_tlb_transparent_witness:
  "\<exists>r s1 s2. mmu_perform_check plain_lib 4100 0 one_process = Inr (r, s1) \<and>
     mmu_walk plain_lib 4100 0 one_process = Inr (r, s2) \<and> same_but_tlb s1 s2"
  by (rule mmu_tlb_transparent [OF plain_laws one_process_reached one_process_translates(1)])

text \<open>C3: no two pages share a frame. In every state the operations lead to, two addresses whose pages are
  in the same frame are addresses of the same process and the same page: whatever frames the kernel hands
  out and takes back, no process reads or writes the memory of another, or one page through another.\<close>

theorem mmu_pages_disjoint:
  assumes "tlb_laws lib tmap" "kernel_laws lib pinned owners" "mmu_start lib owners s0"
    and "(\<lambda>s s'. mmu_step lib max_pid s s')\<^sup>*\<^sup>* s0 s"
    and "translate s pid va = Some f" "translate s pid' va' = Some f" "va < 2 ^ 32" "va' < 2 ^ 32"
  shows "pid = pid' \<and> va div PAGE_SIZE = va' div PAGE_SIZE"
proof -
  have inv: "mmu_inv lib tmap pinned owners s" using mmu_runs.reachable_inv [OF _ assms(4)] assms(1-3) by blast
  then have i: "\<And>p q d. page_directories s p = Some d \<Longrightarrow> page_directories s q = Some d \<Longrightarrow> p = q"
      "tables_ok pinned owners s"
    unfolding mmu_inv_def by blast+
  note o = tab_okD [OF i(2)]
  have tr: "\<exists>d. page_directories s p = Some d \<and> present (entry (mem s) (d, pde_index v)) \<and>
      present (entry (mem s) (base_addr (entry (mem s) (d, pde_index v)), pte_index v)) \<and>
      base_addr (entry (mem s) (base_addr (entry (mem s) (d, pde_index v)), pte_index v)) = f"
    if "translate s p v = Some f" for p v
    using that by (auto simp: translate_def Let_def split: option.splits if_splits)
  obtain d d' where d: "page_directories s pid = Some d" "present (entry (mem s) (d, pde_index va))"
      "present (entry (mem s) (base_addr (entry (mem s) (d, pde_index va)), pte_index va))"
      "base_addr (entry (mem s) (base_addr (entry (mem s) (d, pde_index va)), pte_index va)) = f"
    and d': "page_directories s pid' = Some d'" "present (entry (mem s) (d', pde_index va'))"
      "present (entry (mem s) (base_addr (entry (mem s) (d', pde_index va')), pte_index va'))"
      "base_addr (entry (mem s) (base_addr (entry (mem s) (d', pde_index va')), pte_index va')) = f"
    using tr [OF assms(5)] tr [OF assms(6)] by blast
  have D: "d \<in> ran (page_directories s)" "d' \<in> ran (page_directories s)" using d(1) d'(1) by (auto intro: ranI)
  have pt: "base_addr (entry (mem s) (e, pde_index v)) \<in> pts (ran (page_directories s)) (mem s)"
    if "e \<in> ran (page_directories s)" "present (entry (mem s) (e, pde_index v))" for e v
    unfolding pts_def using that idx_index(1) by blast
  have j: "base_addr (entry (mem s) (d, pde_index va)) = base_addr (entry (mem s) (d', pde_index va'))" "pte_index va = pte_index va'"
    using o(6) [OF pt [OF D(1) d(2)] pt [OF D(2) d'(2)] idx_index(2) idx_index(2) d(3) d'(3)] d(4) d'(4) by simp_all
  have "d = d'" "pde_index va = pde_index va'" using o(4) [OF D idx_index(1) idx_index(1) d(2) d'(2) j(1)] by simp_all
  then show ?thesis using i(1) d(1) d'(1) j(2) index_page assms(7,8) by simp
qed

theorem mmu_pages_disjoint_witness:
  "translate one_process 0 4100 = Some 3 \<and> (0 :: nat) = 0 \<and> (4100 :: nat) div PAGE_SIZE = 4100 div PAGE_SIZE"
  using mmu_pages_disjoint [OF plain_laws one_process_reached one_process_translates(2,2)] one_process_translates(2) by simp

text \<open>C11: memory reads what was written. In every state the operations lead to, after a write that raised no
  segmentation fault, a read of as many bytes at the same address of the same process returns them.\<close>

theorem mmu_read_after_write:
  assumes "tlb_laws lib tmap" "kernel_laws lib pinned owners" "mmu_start lib owners s0"
    and "(\<lambda>s s'. mmu_step lib max_pid s s')\<^sup>*\<^sup>* s0 s"
    and "mmu_write_to_virtual_address lib max_pid va pid buf n s = Inr s1"
    and "num_segmentation_faults s1 = num_segmentation_faults s"
  shows "\<exists>s2. mmu_read_from_virtual_address lib max_pid va pid n s1 = Inr (take n buf, s2)"
proof -
  have inv: "mmu_inv lib tmap pinned owners s" using mmu_runs.reachable_inv [OF _ assms(4)] assms(1-3) by blast
  obtain d where d: "page_directories s pid = Some d"
    using assms(5) by (cases rule: write_cases) (use perform_check_pid [OF inv] in blast)+
  obtain r sx sy where c: "mmu_perform_check lib va pid s = Inr (r, sx)" "mmu_walk lib va pid s = Inr (r, sy)"
      "mmu_inv lib tmap pinned owners sx" "page_directories sx = page_directories s" "segmentations sx = segmentations s"
      "\<forall>p. r = Some p \<longrightarrow> found tmap va pid p sx \<and> present (entry (mem sx) p) \<and> user_supervisor (entry (mem sx) p) \<and>
         read_write (entry (mem sx) p)"
      "r = None \<longrightarrow> num_segmentation_faults sx = num_segmentation_faults s + 1"
    using perform_check_walk [OF assms(1,2) inv d, of va] by blast
  have "r \<noteq> None" using assms(5,6) c(1,7) by (cases rule: write_cases) auto
  then obtain p where r: "r = Some p" by blast
  define m' where "m' = set_entry p (\<lambda>e. e\<lparr>dirty := True, accessed := True\<rparr>)
      (put_frame (base_addr (entry (mem sx) p)) (va mod PAGE_SIZE) (take n buf) (mem sx))"
  have w: "n \<le> length buf" "pid < max_pid" "n + va mod PAGE_SIZE \<le> PAGE_SIZE" "s1 = sx\<lparr>mem := m'\<rparr>"
    using assms(5) c(1) r unfolding m'_def by (cases rule: write_cases; simp)+
  have inv1: "mmu_inv lib tmap pinned owners s1" unfolding w(4) m'_def by (rule same_map_inv [OF same_map_simps(2) c(3)])
  have e: "present (entry m' q) = present (entry (mem sx) q)" "base_addr (entry m' q) = base_addr (entry (mem sx) q)"
      "user_supervisor (entry m' q) = user_supervisor (entry (mem sx) q)" "read_write (entry m' q) = read_write (entry (mem sx) q)" for q
    by (simp_all add: m'_def)
  obtain segs where segs: "segmentations s pid = Some segs" "address_in_segmentations lib segs va"
    using c(2) unfolding r mmu_walk_def by (auto split: option.splits if_splits)
  have f: "found tmap va pid p sx" "present (entry (mem sx) p)" "user_supervisor (entry (mem sx) p)" "read_write (entry (mem sx) p)"
    using c(6) r by blast+
  obtain d' where d': "page_directories sx pid = Some d'" "present (entry (mem sx) (d', pde_index va))"
      "p = (base_addr (entry (mem sx) (d', pde_index va)), pte_index va)"
    using f(1) unfolding found_def by blast
  have wk: "mmu_walk lib va pid s1 = Inr (Some p, s1)"
    using segs d' f c(5) by (intro walk_resident [of _ _ segs _ _ d']) (simp_all add: w(4) e)
  have d1: "page_directories s1 pid = Some d'" using d'(1) w(4) by simp
  obtain sz where z: "mmu_perform_check lib va pid s1 = Inr (Some p, sz)" "same_but_tlb sz s1"
    using perform_check_walk [OF assms(1,2) inv1 d1, of va] wk by auto
  have m: "mem sz = m'" using z(2) w(4) by (simp add: same_but_tlb_def)
  have bt: "bytes m' (base_addr (entry m' p)) (va mod PAGE_SIZE + i) = buf ! i" if "i < n" for i
    using that w(1) e(2) [of p] by (simp add: m'_def put_frame_def set_entry_def)
  have "map (\<lambda>i. bytes m' (base_addr (entry m' p)) (va mod PAGE_SIZE + i)) [0..<n] = take n buf"
    using w(1) by (intro nth_equalityI) (simp_all add: bt)
  then show ?thesis using w(2,3) z(1) m by (simp add: mmu_read_from_virtual_address_def rassert_def rbind_def Let_def)
qed

theorem mmu_read_after_write_witness:
  "\<exists>s1 s2. mmu_write_to_virtual_address plain_lib 4 4100 0 ''hi'' 2 one_process = Inr s1 \<and>
     mmu_read_from_virtual_address plain_lib 4 4100 0 2 s1 = Inr (''hi'', s2)"
proof -
  have "\<exists>s1. mmu_write_to_virtual_address plain_lib 4 4100 0 ''hi'' 2 one_process = Inr s1 \<and>
      num_segmentation_faults s1 = num_segmentation_faults one_process"
  proof -
    have "mmu_walk plain_lib 4100 0 one_process = Inr (Some (2, 1), one_process)"
      by (rule walk_resident [of _ _ segment_table _ _ 1])
        (simp_all add: one_process_value [unfolded One_nat_def] pde_index_def pte_index_def map_frame_def plain_lib_def segment_table_def PAGE_SIZE_def)
    moreover have "mmu_inv plain_lib (\<lambda>t. t) plain_pinned plain_owners one_process"
      using mmu_runs.reachable_inv [OF _ one_process_reached(2)] one_process_reached(1) plain_laws by blast
    ultimately obtain sx where x: "mmu_perform_check plain_lib 4100 0 one_process = Inr (Some (2, 1), sx)" "same_but_tlb sx one_process"
      using perform_check_walk [OF plain_laws _ one_process_translates(1), of 4100] by auto
    then show ?thesis
      by (simp add: mmu_write_to_virtual_address_def rassert_def rbind_def PAGE_SIZE_def Let_def same_but_tlb_def)
  qed
  then obtain s1 where w: "mmu_write_to_virtual_address plain_lib 4 4100 0 ''hi'' 2 one_process = Inr s1"
      "num_segmentation_faults s1 = num_segmentation_faults one_process"
    by blast
  from mmu_read_after_write [OF plain_laws one_process_reached w] w(1) show ?thesis by auto
qed

end
