(* ===== verification/Minixfs.thy ===== *)
theory Minixfs
  imports Prelude
begin

unbundle bit_operations_syntax

text \<open>
  \<open>finding_filesystems/minixfs.c\<close>: permissions, creation, reading and writing of files.

  The disk is the table of inodes and the bytes of the data blocks: \<open>data_root\<close> maps the distance in
  bytes from \<open>fs->data_root\<close> to a byte, and block \<open>b\<close> starts at \<open>b * sizeof(data_block)\<close>. A block that is
  used as an indirect block holds numbers, \<open>number_size\<close> bytes each. An inode pointer is its index. The
  constants and the helper functions of \<open>minixfs.h\<close> and \<open>minixfs_utils.h\<close> are not in the repository: they
  are \<open>fs_lib\<close>. The time of a call is an argument. Memory ends with the last data block, and an access
  outside is the fault \<open>Out_of_bounds\<close>. \<open>asprintf\<close> succeeds, the code does not test it.
\<close>

datatype fs_error = ENOENT | ENOSPC | EISDIR

record inode =
  mode :: nat
  uid :: "32 word"
  gid :: "32 word"
  fsize :: nat
  direct :: "int list"
  indirect :: int
  atim :: nat
  mtim :: nat
  ctim :: nat

record 'm file_system =
  meta :: 'm
  inode_root :: "nat \<Rightarrow> inode"
  data_root :: "nat \<Rightarrow> char"
  errno :: "fs_error option"

record minixfs_dirent =
  inode_num :: int
  dname :: string

record 'm fs_lib =
  DATA_NUMBER :: nat
  RWX_BITS_NUMBER :: nat
  NUM_DIRECT_BLOCKS :: nat
  NUM_INDIRECT_BLOCKS :: nat
  FILE_NAME_ENTRY :: nat
  UNASSIGNED_NODE :: int
  block_size :: nat
  number_size :: nat
  number_of :: "char list \<Rightarrow> int"
  bytes_of :: "int \<Rightarrow> char list"
  dblock_count :: nat
  get_inode :: "'m file_system \<Rightarrow> string \<Rightarrow> nat option"
  parent_directory :: "'m file_system \<Rightarrow> string \<Rightarrow> nat option \<times> string"
  first_unused_inode :: "'m file_system \<Rightarrow> int"
  strdup :: "string \<Rightarrow> string option"
  init_inode :: "nat \<Rightarrow> nat \<Rightarrow> 'm file_system \<Rightarrow> 'm file_system"
  add_data_block_to_inode :: "nat \<Rightarrow> 'm file_system \<Rightarrow> int \<times> 'm file_system"
  add_single_indirect_block :: "nat \<Rightarrow> 'm file_system \<Rightarrow> int \<times> 'm file_system"
  add_data_block_to_indirect_block :: "int \<Rightarrow> 'm file_system \<Rightarrow> int \<times> 'm file_system"
  minixfs_min_blockcount :: "string \<Rightarrow> nat \<Rightarrow> 'm file_system \<Rightarrow> int \<times> 'm file_system"
  make_string_from_dirent :: "nat \<Rightarrow> minixfs_dirent \<Rightarrow> 'm file_system \<Rightarrow> 'm file_system"
  is_virtual_path :: "string \<Rightarrow> string option"
  get_data_used :: "'m file_system \<Rightarrow> nat \<Rightarrow> bool"
  is_directory :: "inode \<Rightarrow> bool"

section \<open>Memory\<close>

abbreviation set_inode :: "nat \<Rightarrow> (inode \<Rightarrow> inode) \<Rightarrow> 'm file_system \<Rightarrow> 'm file_system" where
  "set_inode i f s \<equiv> s\<lparr>inode_root := (inode_root s)(i := f (inode_root s i))\<rparr>"

text \<open>\<open>n\<close> bytes at \<open>data_root\<close> plus \<open>b\<close> blocks plus \<open>off\<close> bytes.\<close>

definition in_data :: "'m fs_lib \<Rightarrow> int \<Rightarrow> nat \<Rightarrow> nat \<Rightarrow> bool" where
  "in_data lib b off n \<longleftrightarrow> 0 \<le> b \<and> nat b * block_size lib + off + n \<le> dblock_count lib * block_size lib"

definition load :: "'m fs_lib \<Rightarrow> int \<Rightarrow> nat \<Rightarrow> nat \<Rightarrow> 'm file_system \<Rightarrow> char list outcome" where
  "load lib b off n s =
     (if in_data lib b off n then Inr (map (\<lambda>k. data_root s (nat b * block_size lib + off + k)) [0..<n]) else Inl Out_of_bounds)"

definition put_bytes :: "nat \<Rightarrow> char list \<Rightarrow> (nat \<Rightarrow> char) \<Rightarrow> nat \<Rightarrow> char" where
  "put_bytes a bs m = (\<lambda>k. if a \<le> k \<and> k < a + length bs then bs ! (k - a) else m k)"

definition store :: "'m fs_lib \<Rightarrow> int \<Rightarrow> nat \<Rightarrow> char list \<Rightarrow> 'm file_system \<Rightarrow> 'm file_system outcome" where
  "store lib b off bs s =
     (if in_data lib b off (length bs)
      then Inr (s\<lparr>data_root := put_bytes (nat b * block_size lib + off) bs (data_root s)\<rparr>) else Inl Out_of_bounds)"

definition number_at :: "'m fs_lib \<Rightarrow> int \<Rightarrow> nat \<Rightarrow> 'm file_system \<Rightarrow> int outcome" where
  "number_at lib b k s =
     rbind (load lib b (k * number_size lib) (number_size lib) s) (\<lambda>bs. Inr (number_of lib bs))"

section \<open>Permissions\<close>

definition minixfs_chmod :: "'m fs_lib \<Rightarrow> nat \<Rightarrow> string \<Rightarrow> int \<Rightarrow> 'm file_system \<Rightarrow> int \<times> 'm file_system" where
  "minixfs_chmod lib now path new_permissions s =
     (case get_inode lib s path of
        None \<Rightarrow> (-1, s\<lparr>errno := Some ENOENT\<rparr>)
      | Some i \<Rightarrow>
          let type = drop_bit (RWX_BITS_NUMBER lib) (mode (inode_root s i)) in
          (0, set_inode i (\<lambda>nd. nd\<lparr>mode := nat (new_permissions AND 0x1FF) OR push_bit (RWX_BITS_NUMBER lib) type,
                                     ctim := now\<rparr>) s))"

definition minixfs_chown :: "'m fs_lib \<Rightarrow> nat \<Rightarrow> string \<Rightarrow> 32 word \<Rightarrow> 32 word \<Rightarrow> 'm file_system \<Rightarrow> int \<times> 'm file_system" where
  "minixfs_chown lib now path owner grp s =
     (case get_inode lib s path of
        None \<Rightarrow> (-1, s\<lparr>errno := Some ENOENT\<rparr>)
      | Some i \<Rightarrow>
          let s = (if owner \<noteq> -1 then set_inode i (\<lambda>nd. nd\<lparr>uid := owner\<rparr>) s else s);
              s = (if grp \<noteq> -1 then set_inode i (\<lambda>nd. nd\<lparr>gid := grp\<rparr>) s else s) in
          (0, set_inode i (\<lambda>nd. nd\<lparr>ctim := now\<rparr>) s))"

section \<open>Blocks\<close>

text \<open>The block of an inode, added to the file when there is none; nothing when the disk is full.\<close>

definition block_for :: "'m fs_lib \<Rightarrow> nat \<Rightarrow> nat \<Rightarrow> 'm file_system \<Rightarrow> (int option \<times> 'm file_system) outcome" where
  "block_for lib i block_num s =
     (if block_num < NUM_DIRECT_BLOCKS lib then
        rbind (rd (direct (inode_root s i)) block_num) (\<lambda>b.
        if b = UNASSIGNED_NODE lib then
          let (n, s) = add_data_block_to_inode lib i s;
              s = set_inode i (\<lambda>nd. nd\<lparr>direct := (direct nd)[block_num := n]\<rparr>) s in
          Inr (if n = -1 then (None, s\<lparr>errno := Some ENOSPC\<rparr>) else (Some n, s))
        else Inr (Some b, s))
      else
        let indirect_index = block_num - NUM_DIRECT_BLOCKS lib;
            (full, s) = (if indirect (inode_root s i) = UNASSIGNED_NODE lib then
                   let (n, s) = add_single_indirect_block lib i s in (n = -1, set_inode i (\<lambda>nd. nd\<lparr>indirect := n\<rparr>) s)
                 else (False, s)) in
        if full then Inr (None, s\<lparr>errno := Some ENOSPC\<rparr>)
        else
          let block_array = indirect (inode_root s i) in
          rbind (number_at lib block_array indirect_index s) (\<lambda>b.
          if b = UNASSIGNED_NODE lib then
            let (n, s) = add_data_block_to_indirect_block lib block_array s in
            rbind (store lib block_array (indirect_index * number_size lib) (bytes_of lib n) s) (\<lambda>s.
            Inr (if n = -1 then (None, s\<lparr>errno := Some ENOSPC\<rparr>) else (Some n, s)))
          else Inr (Some b, s)))"

definition minixfs_create_inode_for_path ::
  "'m fs_lib \<Rightarrow> string \<Rightarrow> 'm file_system \<Rightarrow> (nat option \<times> 'm file_system) outcome" where
  "minixfs_create_inode_for_path lib path s =
     (if get_inode lib s path \<noteq> None then Inr (None, s)
      else
        (case parent_directory lib s path of
           (None, filename) \<Rightarrow> Inr (None, s)
         | (Some parent, filename) \<Rightarrow>
             let num = first_unused_inode lib s in
             (case strdup lib filename of
                None \<Rightarrow> Inr (None, s)
              | Some name \<Rightarrow>
                  if num = -1 then Inr (None, s)
                  else
                    let new_dirent = \<lparr>inode_num = num, dname = name\<rparr>;
                        new_node = nat num;
                        s = init_inode lib parent new_node s;
                        block_num = fsize (inode_root s parent) div block_size lib;
                        block_offset = fsize (inode_root s parent) mod block_size lib in
                    rbind (block_for lib parent block_num s) (\<lambda>(b, s).
                    case b of
                      None \<Rightarrow> Inr (None, s)
                    | Some b \<Rightarrow>
                        if \<not> in_data lib b block_offset 0 then Inl Out_of_bounds
                        else
                          let s = make_string_from_dirent lib (nat b * block_size lib + block_offset) new_dirent s in
                          Inr (Some new_node, set_inode parent (\<lambda>nd. nd\<lparr>fsize := fsize nd + FILE_NAME_ENTRY lib\<rparr>) s)))))"

section \<open>Reading\<close>

fun decimal :: "nat \<Rightarrow> string" where
  "decimal n = (if n < 10 then [char_of (48 + n)] else decimal (n div 10) @ [char_of (48 + n mod 10)])"

declare decimal.simps [simp del]

definition print_zd :: "int \<Rightarrow> string" where
  "print_zd n = (if n < 0 then CHR ''-'' # decimal (nat (- n)) else decimal (nat n))"

definition block_info_string :: "'m fs_lib \<Rightarrow> nat \<Rightarrow> string" where
  "block_info_string lib num_used_blocks =
     ''Free blocks: '' @ print_zd (int (DATA_NUMBER lib) - int num_used_blocks) @ [CHR 0x0A] @
     ''Used blocks: '' @ print_zd (int num_used_blocks) @ [CHR 0x0A]"

text \<open>What a read returns: the result, the bytes in the buffer, the offset.\<close>

definition minixfs_virtual_read ::
  "'m fs_lib \<Rightarrow> string \<Rightarrow> nat \<Rightarrow> nat \<Rightarrow> 'm file_system \<Rightarrow> int \<times> char list \<times> nat \<times> 'm file_system" where
  "minixfs_virtual_read lib path count off s =
     (if path = ''info'' then
        let used_blocks = fold (\<lambda>i n. if get_data_used lib s i then n + 1 else n) [0..<dblock_count lib] 0;
            info_string = block_info_string lib used_blocks;
            len = length info_string in
        if len \<le> off then (0, [], off, s)
        else
          let byte_left = len - off; byte_to_read = (if count < byte_left then count else byte_left) in
          (int byte_to_read, take byte_to_read (drop off info_string), off + byte_to_read, s)
      else (-1, [], off, s\<lparr>errno := Some ENOENT\<rparr>))"

definition block_of :: "'m fs_lib \<Rightarrow> inode \<Rightarrow> nat \<Rightarrow> 'm file_system \<Rightarrow> int outcome" where
  "block_of lib nd block_num s =
     (if block_num < NUM_DIRECT_BLOCKS lib then rd (direct nd) block_num
      else number_at lib (indirect nd) (block_num - NUM_DIRECT_BLOCKS lib) s)"

definition read_step :: "'m fs_lib \<Rightarrow> inode \<Rightarrow> nat \<Rightarrow> nat \<Rightarrow> 'm file_system \<Rightarrow> char list outcome" where
  "read_step lib nd remaining cur_pos s =
     rbind (block_of lib nd (cur_pos div block_size lib) s) (\<lambda>block.
     load lib block (cur_pos mod block_size lib) (min (block_size lib - cur_pos mod block_size lib) remaining) s)"

partial_function (option) read_blocks ::
  "'m fs_lib \<Rightarrow> inode \<Rightarrow> nat \<Rightarrow> 'm file_system \<Rightarrow> char list \<Rightarrow> nat \<Rightarrow> (char list \<times> nat) outcome option" where
  "read_blocks lib nd to_read s buf cur_pos =
     (if length buf < to_read then
        (case read_step lib nd (to_read - length buf) cur_pos s of
           Inl e \<Rightarrow> Some (Inl e)
         | Inr bs \<Rightarrow> read_blocks lib nd to_read s (buf @ bs) (cur_pos + length bs))
      else Some (Inr (buf, cur_pos)))"

definition minixfs_read ::
  "'m fs_lib \<Rightarrow> nat \<Rightarrow> string \<Rightarrow> nat \<Rightarrow> nat \<Rightarrow> 'm file_system \<Rightarrow> (int \<times> char list \<times> nat \<times> 'm file_system) outcome option" where
  "minixfs_read lib now path count off s =
     (case is_virtual_path lib path of
        Some virtual_path \<Rightarrow> Some (Inr (minixfs_virtual_read lib virtual_path count off s))
      | None \<Rightarrow>
          (case get_inode lib s path of
             None \<Rightarrow> Some (Inr (-1, [], off, s\<lparr>errno := Some ENOENT\<rparr>))
           | Some i \<Rightarrow>
               let nd = inode_root s i in
               if fsize nd \<le> off then Some (Inr (0, [], off, s))
               else if is_directory lib nd then Some (Inr (-1, [], off, s\<lparr>errno := Some EISDIR\<rparr>))
               else
                 let left_to_read = fsize nd - off; to_read = (if count < left_to_read then count else left_to_read) in
                 (case read_blocks lib nd to_read s [] off of
                    None \<Rightarrow> None
                  | Some (Inl e) \<Rightarrow> Some (Inl e)
                  | Some (Inr (buf, cur_pos)) \<Rightarrow>
                      Some (Inr (int (length buf), buf, cur_pos, set_inode i (\<lambda>nd. nd\<lparr>atim := now\<rparr>) s)))))"

section \<open>Writing\<close>

text \<open>One round of the loop: the number of bytes written, nothing when the disk is full. \<open>fs->data_root\<close>
  counts in blocks, and so does the sum \<open>fs->data_root + block + block_offset\<close> of the copy.\<close>

definition write_step ::
  "'m fs_lib \<Rightarrow> nat \<Rightarrow> char list \<Rightarrow> nat \<Rightarrow> nat \<Rightarrow> 'm file_system \<Rightarrow> (nat option \<times> 'm file_system) outcome" where
  "write_step lib i write_buf remaining cur_pos s =
     (let block_num = cur_pos div block_size lib; block_offset = cur_pos mod block_size lib in
      rbind (block_for lib i block_num s) (\<lambda>(block, s).
      case block of
        None \<Rightarrow> Inr (None, s)
      | Some block \<Rightarrow>
          let to_write = min (block_size lib - block_offset) remaining in
          if length write_buf < to_write then Inl Out_of_bounds
          else rbind (store lib (block + int block_offset) 0 (take to_write write_buf) s) (\<lambda>s. Inr (Some to_write, s))))"

partial_function (option) write_blocks ::
  "'m fs_lib \<Rightarrow> nat \<Rightarrow> char list \<Rightarrow> nat \<Rightarrow> nat \<Rightarrow> nat \<Rightarrow> 'm file_system \<Rightarrow> (nat option \<times> 'm file_system) outcome option" where
  "write_blocks lib i buf count written cur_pos s =
     (if written < count then
        (case write_step lib i (drop written buf) (count - written) cur_pos s of
           Inl e \<Rightarrow> Some (Inl e)
         | Inr (None, s) \<Rightarrow> Some (Inr (None, s))
         | Inr (Some n, s) \<Rightarrow> write_blocks lib i buf count (written + n) (cur_pos + n) s)
      else Some (Inr (Some written, s)))"

definition max_file_size :: "'m fs_lib \<Rightarrow> nat" where
  "max_file_size lib = (NUM_INDIRECT_BLOCKS lib + NUM_DIRECT_BLOCKS lib * NUM_DIRECT_BLOCKS lib) * block_size lib"

text \<open>The result and the offset. The sums of the offset and the count are of type \<open>size_t\<close>.\<close>

definition minixfs_write ::
  "'m fs_lib \<Rightarrow> nat \<Rightarrow> nat \<Rightarrow> string \<Rightarrow> char list \<Rightarrow> nat \<Rightarrow> nat \<Rightarrow> 'm file_system \<Rightarrow> (int \<times> nat \<times> 'm file_system) outcome option" where
  "minixfs_write lib now now' path buf count off s =
     (if (off + count) mod 2 ^ 64 > max_file_size lib then Some (Inr (-1, off, s\<lparr>errno := Some ENOSPC\<rparr>))
      else
        (case (case get_inode lib s path of Some i \<Rightarrow> Inr (Some i, s) | None \<Rightarrow> minixfs_create_inode_for_path lib path s) of
           Inl e \<Rightarrow> Some (Inl e)
         | Inr (None, s) \<Rightarrow> Some (Inr (-1, off, s\<lparr>errno := Some ENOENT\<rparr>))
         | Inr (Some i, s) \<Rightarrow>
             let end_pos = (off + count) mod 2 ^ 64;
                 blocks_needed = end_pos div block_size lib + (if end_pos mod block_size lib \<noteq> 0 then 1 else 0);
                 (r, s) = minixfs_min_blockcount lib path blocks_needed s in
             if r = -1 then Some (Inr (-1, off, s\<lparr>errno := Some ENOSPC\<rparr>))
             else
               (case write_blocks lib i buf count 0 off s of
                  None \<Rightarrow> None
                | Some (Inl e) \<Rightarrow> Some (Inl e)
                | Some (Inr (None, s)) \<Rightarrow> Some (Inr (-1, off, s))
                | Some (Inr (Some written, s)) \<Rightarrow>
                    let s = set_inode i (\<lambda>nd. nd\<lparr>fsize := (if end_pos > fsize nd then end_pos else fsize nd),
                                                   atim := now, mtim := now'\<rparr>) s in
                    Some (Inr (int written, off + written, s)))))"

end
