(* ===== verification/Minixfs_Files.thy ===== *)
theory Minixfs_Files
  imports Minixfs
begin

text \<open>
  What the loops of \<open>finding_filesystems/minixfs.c\<close> do, on files as lists of bytes: a read returns a
  stretch of the file and a write that starts at a block boundary replaces one.
\<close>

section \<open>Files\<close>

definition file_byte :: "'m fs_lib \<Rightarrow> 'm file_system \<Rightarrow> nat \<Rightarrow> nat \<Rightarrow> char" where
  "file_byte lib s i k = (case block_of lib (inode_root s i) (k div block_size lib) s of
      Inl _ \<Rightarrow> CHR 0x00
    | Inr b \<Rightarrow> data_root s (nat b * block_size lib + k mod block_size lib))"

definition file_contents :: "'m fs_lib \<Rightarrow> 'm file_system \<Rightarrow> nat \<Rightarrow> char list" where
  "file_contents lib s i = map (file_byte lib s i) [0..<fsize (inode_root s i)]"

definition num_blocks :: "'m fs_lib \<Rightarrow> nat \<Rightarrow> nat" where
  "num_blocks lib n = n div block_size lib + (if n mod block_size lib \<noteq> 0 then 1 else 0)"

definition disk_block :: "'m fs_lib \<Rightarrow> int \<Rightarrow> bool" where
  "disk_block lib b \<longleftrightarrow> 0 \<le> b \<and> b < int (dblock_count lib)"

text \<open>The first \<open>n\<close> blocks of the file are on the disk.\<close>

definition has_blocks :: "'m fs_lib \<Rightarrow> 'm file_system \<Rightarrow> nat \<Rightarrow> nat \<Rightarrow> bool" where
  "has_blocks lib s i n \<longleftrightarrow>
     (\<forall>k < n. case block_of lib (inode_root s i) k s of Inl _ \<Rightarrow> False | Inr b \<Rightarrow> disk_block lib b)"

lemma has_blocksE:
  assumes "has_blocks lib s i n" "k < n"
  obtains b where "block_of lib (inode_root s i) k s = Inr b" "disk_block lib b"
  using assms unfolding has_blocks_def by (cases "block_of lib (inode_root s i) k s") fastforce+

lemma num_blocks_covers:
  assumes "0 < block_size lib" "k < n" shows "k div block_size lib < num_blocks lib n"
proof -
  define m q r where "m = block_size lib" and "q = n div m" and "r = n mod m"
  have "n = q * m + r" "r < m" using assms(1) by (simp_all add: m_def q_def r_def)
  then have "n \<le> (q + (if r \<noteq> 0 then 1 else 0)) * m" by (cases "r = 0") (simp_all add: algebra_simps)
  then have "n \<le> num_blocks lib n * block_size lib" by (simp add: num_blocks_def m_def q_def r_def)
  then have "k < num_blocks lib n * block_size lib" using assms(2) by simp
  then show ?thesis using assms(1) by (simp add: div_less_iff_less_mult)
qed

lemma disk_block_in_data:
  assumes "disk_block lib b" "off + n \<le> block_size lib" shows "in_data lib b off n"
proof -
  have "nat b + 1 \<le> dblock_count lib" using assms(1) by (auto simp: disk_block_def)
  then have "(nat b + 1) * block_size lib \<le> dblock_count lib * block_size lib" by (rule mult_le_mono1)
  then show ?thesis using assms by (auto simp: in_data_def disk_block_def)
qed

lemma within_block:
  assumes "0 < (m :: nat)" "j < m - c mod m" shows "(c + j) div m = c div m" "(c + j) mod m = c mod m + j"
proof -
  define q r where "q = c div m" and "r = c mod m"
  have c: "c = q * m + r" "r + j < m" using assms by (simp_all add: q_def r_def)
  have e: "c + j = q * m + (r + j)" using c by simp
  have "(q * m + (r + j)) div m = q" "(q * m + (r + j)) mod m = r + j" using c(2) by simp_all
  then show "(c + j) div m = c div m" "(c + j) mod m = c mod m + j"
    unfolding e q_def [symmetric] r_def [symmetric] .
qed

section \<open>Reading\<close>

lemma read_step_ok:
  assumes bs: "0 < block_size lib" and h: "has_blocks lib s i n" and k: "cur div block_size lib < n"
  shows "read_step lib (inode_root s i) r cur s =
    Inr (map (file_byte lib s i) [cur..<cur + min (block_size lib - cur mod block_size lib) r])"
proof -
  obtain b where b: "block_of lib (inode_root s i) (cur div block_size lib) s = Inr b" "disk_block lib b"
    using has_blocksE [OF h k] .
  let ?n = "min (block_size lib - cur mod block_size lib) r"
  have "cur mod block_size lib < block_size lib" using bs by simp
  then have "in_data lib b (cur mod block_size lib) ?n" using disk_block_in_data [OF b(2)] by simp
  then have "read_step lib (inode_root s i) r cur s =
      Inr (map (\<lambda>k. data_root s (nat b * block_size lib + cur mod block_size lib + k)) [0..<?n])"
    using b(1) by (simp add: read_step_def load_def)
  moreover have "map (\<lambda>k. data_root s (nat b * block_size lib + cur mod block_size lib + k)) [0..<?n] =
      map (file_byte lib s i) [cur..<cur + ?n]"
    using within_block [OF bs] b(1) by (intro nth_equalityI) (simp_all add: file_byte_def add.assoc)
  ultimately show ?thesis by simp
qed

lemma read_blocks_ok:
  assumes bs: "0 < block_size lib" and h: "has_blocks lib s i n"
    and k: "\<And>k. cur \<le> k \<Longrightarrow> k < cur + (to_read - length buf) \<Longrightarrow> k div block_size lib < n"
  shows "read_blocks lib (inode_root s i) to_read s buf cur =
    Some (Inr (buf @ map (file_byte lib s i) [cur..<cur + (to_read - length buf)], cur + (to_read - length buf)))"
  using k
proof (induction "to_read - length buf" arbitrary: buf cur rule: less_induct)
  case less
  show ?case
  proof (cases "length buf < to_read")
    case True
    define m where "m = min (block_size lib - cur mod block_size lib) (to_read - length buf)"
    let ?bs = "map (file_byte lib s i) [cur..<cur + m]"
    have m: "0 < m" "m \<le> to_read - length buf" using True bs by (simp_all add: m_def)
    have "cur div block_size lib < n" using less.prems [of cur] True by simp
    from read_step_ok [OF bs h this] have st: "read_step lib (inode_root s i) (to_read - length buf) cur s = Inr ?bs"
      by (simp add: m_def)
    have rest: "to_read - length (buf @ ?bs) = to_read - length buf - m" by simp
    have "read_blocks lib (inode_root s i) to_read s (buf @ ?bs) (cur + m) =
        Some (Inr ((buf @ ?bs) @ map (file_byte lib s i) [cur + m..<cur + m + (to_read - length (buf @ ?bs))],
          cur + m + (to_read - length (buf @ ?bs))))"
      by (rule less.hyps) (use m less.prems rest True in simp_all)
    moreover have "map (file_byte lib s i) [cur..<cur + (to_read - length buf)] =
        ?bs @ map (file_byte lib s i) [cur + m..<cur + m + (to_read - length buf - m)]"
    proof -
      have "[cur..<cur + (to_read - length buf)] = [cur..<cur + m] @ [cur + m..<cur + m + (to_read - length buf - m)]"
        using m upt_add_eq_append [of cur "cur + m" "to_read - length buf - m"] by simp
      then show ?thesis by simp
    qed
    ultimately show ?thesis using st True m by (subst read_blocks.simps) (simp add: rest)
  next
    case False
    then show ?thesis by (subst read_blocks.simps) simp
  qed
qed

text \<open>C26: \<open>minixfs_read\<close> always returns, and it returns the stretch of the file that is there: as many of
  the bytes from the offset on as were asked for and the file has. The offset moves past them, only the
  access time of the inode changes; past the end nothing is read, and a directory is an error.\<close>

theorem minixfs_read_stretch:
  assumes "0 < block_size lib" "is_virtual_path lib path = None" "get_inode lib s path = Some i"
    and "has_blocks lib s i (num_blocks lib (fsize (inode_root s i)))"
  shows "minixfs_read lib now path count off s = Some (Inr (
    if fsize (inode_root s i) \<le> off then (0, [], off, s)
    else if is_directory lib (inode_root s i) then (-1, [], off, s\<lparr>errno := Some EISDIR\<rparr>)
    else let r = take count (drop off (file_contents lib s i)) in
      (int (length r), r, off + length r, set_inode i (\<lambda>nd. nd\<lparr>atim := now\<rparr>) s)))"
proof -
  let ?z = "fsize (inode_root s i)"
  define to_read where "to_read = (if count < ?z - off then count else ?z - off)"
  have rb: "read_blocks lib (inode_root s i) to_read s [] off =
      Some (Inr (map (file_byte lib s i) [off..<off + to_read], off + to_read))" if "off < ?z"
    using read_blocks_ok [OF assms(1,4), of off to_read "[]"] num_blocks_covers [OF assms(1), of _ ?z] that
    by (simp add: to_read_def split: if_splits)
  have r: "take count (drop off (file_contents lib s i)) = map (file_byte lib s i) [off..<off + to_read]" if "off < ?z"
    using that by (auto simp: file_contents_def drop_map take_map to_read_def min_def)
  show ?thesis
    using assms(2,3) rb r by (auto simp: minixfs_read_def to_read_def [symmetric] Let_def not_le)
qed

section \<open>Writing\<close>

text \<open>The first \<open>n\<close> blocks of the file are its own: on the disk, different from each other and from the
  block that holds the numbers of the others, which has room for them.\<close>

definition owns_blocks :: "'m fs_lib \<Rightarrow> 'm file_system \<Rightarrow> nat \<Rightarrow> nat \<Rightarrow> bool" where
  "owns_blocks lib s i n \<longleftrightarrow> has_blocks lib s i n \<and>
     (\<forall>k < n. block_of lib (inode_root s i) k s \<noteq> Inr (UNASSIGNED_NODE lib)) \<and>
     (\<forall>k < n. \<forall>l < n. block_of lib (inode_root s i) k s = block_of lib (inode_root s i) l s \<longrightarrow> k = l) \<and>
     (NUM_DIRECT_BLOCKS lib < n \<longrightarrow> indirect (inode_root s i) \<noteq> UNASSIGNED_NODE lib \<and> 0 \<le> indirect (inode_root s i) \<and>
        (n - NUM_DIRECT_BLOCKS lib) * number_size lib \<le> block_size lib \<and>
        (\<forall>k < n. block_of lib (inode_root s i) k s \<noteq> Inr (indirect (inode_root s i))))"

lemma owns_blocksD:
  assumes "owns_blocks lib s i n"
  shows "has_blocks lib s i n" "\<And>k. k < n \<Longrightarrow> block_of lib (inode_root s i) k s \<noteq> Inr (UNASSIGNED_NODE lib)"
    "\<And>k l. k < n \<Longrightarrow> l < n \<Longrightarrow> block_of lib (inode_root s i) k s = block_of lib (inode_root s i) l s \<Longrightarrow> k = l"
    "NUM_DIRECT_BLOCKS lib < n \<Longrightarrow> indirect (inode_root s i) \<noteq> UNASSIGNED_NODE lib"
    "NUM_DIRECT_BLOCKS lib < n \<Longrightarrow> 0 \<le> indirect (inode_root s i)"
    "NUM_DIRECT_BLOCKS lib < n \<Longrightarrow> (n - NUM_DIRECT_BLOCKS lib) * number_size lib \<le> block_size lib"
    "\<And>k. NUM_DIRECT_BLOCKS lib < n \<Longrightarrow> k < n \<Longrightarrow> block_of lib (inode_root s i) k s \<noteq> Inr (indirect (inode_root s i))"
  using assms unfolding owns_blocks_def by blast+

lemma block_for_owned:
  assumes o: "owns_blocks lib s i n" and k: "k < n" and b: "block_of lib (inode_root s i) k s = Inr b"
  shows "block_for lib i k s = Inr (Some b, s)"
proof -
  have u: "b \<noteq> UNASSIGNED_NODE lib" using owns_blocksD(2) [OF o k] b by auto
  show ?thesis
  proof (cases "k < NUM_DIRECT_BLOCKS lib")
    case True
    then show ?thesis using b u by (simp add: block_for_def block_of_def)
  next
    case False
    then have "indirect (inode_root s i) \<noteq> UNASSIGNED_NODE lib" using owns_blocksD(4) [OF o] k by simp
    then show ?thesis using b u False by (simp add: block_for_def block_of_def)
  qed
qed

text \<open>Storing in a block that is not the one with the numbers changes the block and nothing else.\<close>

lemma put_bytes_other_block:
  assumes "b \<noteq> c" "l + length bs \<le> (m :: nat)" "x < m"
  shows "put_bytes (b * m + l) bs d (c * m + x) = d (c * m + x)"
proof -
  have "\<not> (b * m + l \<le> c * m + x \<and> c * m + x < b * m + l + length bs)"
  proof (cases "b < c")
    case True
    then have "(b + 1) * m \<le> c * m" by (intro mult_le_mono1) simp
    then show ?thesis using assms(2) by (simp add: algebra_simps)
  next
    case False
    then have "(c + 1) * m \<le> b * m" using assms(1) by (intro mult_le_mono1) simp
    then show ?thesis using assms(3) by (simp add: algebra_simps)
  qed
  then show ?thesis unfolding put_bytes_def by (rule if_not_P)
qed

lemma block_of_store:
  assumes o: "owns_blocks lib s i n" and k: "k < n" and l: "l < n"
    and b: "block_of lib (inode_root s i) k s = Inr b" and len: "length bs \<le> block_size lib"
  defines "s' \<equiv> s\<lparr>data_root := put_bytes (nat b * block_size lib) bs (data_root s)\<rparr>"
  shows "block_of lib (inode_root s' i) l s' = block_of lib (inode_root s i) l s"
proof (cases "l < NUM_DIRECT_BLOCKS lib")
  case True
  then show ?thesis by (simp add: block_of_def s'_def)
next
  case False
  then have nd: "NUM_DIRECT_BLOCKS lib < n" using l by simp
  let ?x = "(l - NUM_DIRECT_BLOCKS lib) * number_size lib" and ?i = "indirect (inode_root s i)"
  have "disk_block lib b" using has_blocksE [OF owns_blocksD(1) [OF o] k] b by auto
  then have ne: "nat b \<noteq> nat ?i" using owns_blocksD(5,7) [OF o nd] k b by (auto simp: disk_block_def nat_eq_iff)
  have "(l - NUM_DIRECT_BLOCKS lib + 1) * number_size lib \<le> (n - NUM_DIRECT_BLOCKS lib) * number_size lib"
    using l False by (intro mult_le_mono1) simp
  then have fit: "?x + number_size lib \<le> block_size lib" using owns_blocksD(6) [OF o nd] by simp
  have "put_bytes (nat b * block_size lib + 0) bs (data_root s) (nat ?i * block_size lib + (?x + j)) =
      data_root s (nat ?i * block_size lib + (?x + j))" if "j < number_size lib" for j
    using len fit that by (intro put_bytes_other_block [OF ne]) simp_all
  then have "load lib ?i ?x (number_size lib) s' = load lib ?i ?x (number_size lib) s"
    by (auto simp: load_def s'_def add.assoc)
  then show ?thesis using False by (simp add: block_of_def number_at_def s'_def)
qed

lemma owns_blocks_store:
  assumes o: "owns_blocks lib s i n" and k: "k < n" and b: "block_of lib (inode_root s i) k s = Inr b"
    and len: "length bs \<le> block_size lib"
  defines "s' \<equiv> s\<lparr>data_root := put_bytes (nat b * block_size lib) bs (data_root s)\<rparr>"
  shows "owns_blocks lib s' i n"
    "\<And>x. x div block_size lib < n \<Longrightarrow> 0 < block_size lib \<Longrightarrow> file_byte lib s' i x =
       (if x div block_size lib = k \<and> x mod block_size lib < length bs then bs ! (x mod block_size lib) else file_byte lib s i x)"
proof -
  have same: "block_of lib (inode_root s' i) l s' = block_of lib (inode_root s i) l s" if "l < n" for l
    unfolding s'_def by (rule block_of_store [OF o k that b len])
  have "inode_root s' = inode_root s" by (simp add: s'_def)
  note same' = same [unfolded this]
  show "owns_blocks lib s' i n"
    unfolding owns_blocks_def has_blocks_def \<open>inode_root s' = inode_root s\<close>
    using owns_blocksD [OF o] same' by (auto simp: has_blocks_def)
  fix x assume x: "x div block_size lib < n" "0 < block_size lib"
  obtain c where c: "block_of lib (inode_root s i) (x div block_size lib) s = Inr c" "disk_block lib c"
    using has_blocksE [OF owns_blocksD(1) [OF o] x(1)] .
  have db: "disk_block lib b" using has_blocksE [OF owns_blocksD(1) [OF o] k] b by auto
  have lt: "x mod block_size lib < block_size lib" using x(2) by simp
  have f: "file_byte lib s' i x = data_root s' (nat c * block_size lib + x mod block_size lib)"
      "file_byte lib s i x = data_root s (nat c * block_size lib + x mod block_size lib)"
    using same [OF x(1)] c by (simp_all add: file_byte_def)
  show "file_byte lib s' i x =
      (if x div block_size lib = k \<and> x mod block_size lib < length bs then bs ! (x mod block_size lib) else file_byte lib s i x)"
  proof (cases "x div block_size lib = k")
    case True
    then show ?thesis using f b c by (auto simp: s'_def put_bytes_def)
  next
    case False
    then have "b \<noteq> c" using owns_blocksD(3) [OF o x(1) k] b c by auto
    then have "nat b \<noteq> nat c" using db c(2) by (auto simp: disk_block_def)
    then have "put_bytes (nat b * block_size lib + 0) bs (data_root s) (nat c * block_size lib + x mod block_size lib) =
        data_root s (nat c * block_size lib + x mod block_size lib)"
      using len lt by (intro put_bytes_other_block) simp_all
    then show ?thesis using f False by (simp add: s'_def)
  qed
qed

lemma file_byte_set_inode:
  assumes "direct (f (inode_root s i)) = direct (inode_root s i)" "indirect (f (inode_root s i)) = indirect (inode_root s i)"
  shows "file_byte lib (set_inode i f s) i x = file_byte lib s i x"
proof -
  have "block_of lib (inode_root (set_inode i f s) i) k (set_inode i f s) = block_of lib (inode_root s i) k s" for k
    using assms by (simp add: block_of_def number_at_def load_def)
  then show ?thesis by (simp add: file_byte_def cong: sum.case_cong)
qed

text \<open>One round of the loop at a block boundary.\<close>

lemma write_step_boundary:
  assumes bs: "0 < block_size lib" and o: "owns_blocks lib s i n" and al: "cur mod block_size lib = 0"
    and k: "cur div block_size lib < n" and len: "min (block_size lib) r \<le> length buf"
  obtains s' where "write_step lib i buf r cur s = Inr (Some (min (block_size lib) r), s')"
    "owns_blocks lib s' i n" "inode_root s' = inode_root s"
    "\<And>x. x div block_size lib < n \<Longrightarrow> file_byte lib s' i x =
       (if cur \<le> x \<and> x < cur + min (block_size lib) r then buf ! (x - cur) else file_byte lib s i x)"
proof -
  obtain b where b: "block_of lib (inode_root s i) (cur div block_size lib) s = Inr b" "disk_block lib b"
    using has_blocksE [OF owns_blocksD(1) [OF o] k] .
  let ?n = "min (block_size lib) r"
  let ?bs = "take ?n buf"
  let ?s = "s\<lparr>data_root := put_bytes (nat b * block_size lib) ?bs (data_root s)\<rparr>"
  have l: "length ?bs \<le> block_size lib" "length ?bs = ?n" using len by simp_all
  note st = owns_blocks_store [OF o k b(1) l(1)]
  have "in_data lib b 0 (length ?bs)" using disk_block_in_data [OF b(2)] l(1) by simp
  then have "write_step lib i buf r cur s = Inr (Some ?n, ?s)"
    using block_for_owned [OF o k b(1)] al len by (cases "block_size lib \<le> r") (simp_all add: write_step_def store_def Let_def)
  moreover have "file_byte lib ?s i x = (if cur \<le> x \<and> x < cur + ?n then buf ! (x - cur) else file_byte lib s i x)"
    if "x div block_size lib < n" for x
  proof -
    define m q where "m = block_size lib" and "q = cur div m"
    have c: "cur = q * m" using al by (auto simp: m_def q_def)
    have x: "x = x div m * m + x mod m" by simp
    have iff: "(x div m = q \<and> x mod m < ?n) = (cur \<le> x \<and> x < cur + ?n)"
    proof
      assume "x div m = q \<and> x mod m < ?n"
      then have q: "x div m = q" "x mod m < ?n" by simp_all
      have "x = q * m + x mod m" using q(1) x by simp
      then show "cur \<le> x \<and> x < cur + ?n" using q(2) c by linarith
    next
      assume h: "cur \<le> x \<and> x < cur + ?n"
      then have "x div m = q" using bs unfolding c m_def by (intro div_nat_eqI) (auto simp: algebra_simps)
      note q = this
      have "x = q * m + x mod m" using q x by simp
      then show "x div m = q \<and> x mod m < ?n" using q h c by linarith
    qed
    have "x mod m = x - cur" if "x div m = q" using x c that by auto
    then show ?thesis
      using st(2) [OF that bs] iff l(2) unfolding m_def [symmetric] q_def [symmetric] by auto
  qed
  ultimately show thesis using that st(1) by auto
qed

lemma write_blocks_boundary:
  assumes bs: "0 < block_size lib" and al: "off mod block_size lib = 0" and len: "count \<le> length buf"
    and k: "\<And>x. x < off + count \<Longrightarrow> x div block_size lib < n"
  shows "\<lbrakk>owns_blocks lib s i n; written \<le> count; written < count \<longrightarrow> written mod block_size lib = 0\<rbrakk> \<Longrightarrow>
    \<exists>s'. write_blocks lib i buf count written (off + written) s = Some (Inr (Some count, s')) \<and>
      owns_blocks lib s' i n \<and> inode_root s' = inode_root s \<and>
      (\<forall>x. x div block_size lib < n \<longrightarrow> file_byte lib s' i x =
         (if off + written \<le> x \<and> x < off + count then buf ! (x - off) else file_byte lib s i x))"
proof (induction "count - written" arbitrary: written s rule: less_induct)
  case less
  show ?case
  proof (cases "written < count")
    case False
    then show ?thesis using less.prems by (intro exI [of _ s]) (subst write_blocks.simps, auto)
  next
    case True
    let ?n = "min (block_size lib) (count - written)"
    have al': "(off + written) mod block_size lib = 0" using al True less.prems by (simp add: mod_add_eq [symmetric])
    obtain s1 where s1: "write_step lib i (drop written buf) (count - written) (off + written) s = Inr (Some ?n, s1)"
        "owns_blocks lib s1 i n" "inode_root s1 = inode_root s"
        "\<And>x. x div block_size lib < n \<Longrightarrow> file_byte lib s1 i x =
           (if off + written \<le> x \<and> x < off + written + ?n then drop written buf ! (x - (off + written)) else file_byte lib s i x)"
      using write_step_boundary [OF bs less.prems(1) al', of "count - written" "drop written buf"] k [of "off + written"] True len
      by (metis add_less_cancel_left diff_le_mono length_drop min.coboundedI2)
    have next_ok: "written + ?n \<le> count" "written + ?n < count \<longrightarrow> (written + ?n) mod block_size lib = 0"
      using True less.prems(3) by (auto simp: min_def)
    have "count - (written + ?n) < count - written" using True bs by simp
    from less.hyps [OF this s1(2) next_ok] obtain s2 where s2:
        "write_blocks lib i buf count (written + ?n) (off + (written + ?n)) s1 = Some (Inr (Some count, s2))"
        "owns_blocks lib s2 i n" "inode_root s2 = inode_root s1"
        "\<And>x. x div block_size lib < n \<Longrightarrow> file_byte lib s2 i x =
           (if off + (written + ?n) \<le> x \<and> x < off + count then buf ! (x - off) else file_byte lib s1 i x)"
      by blast
    have "write_blocks lib i buf count written (off + written) s = Some (Inr (Some count, s2))"
      using s1(1) s2(1) True by (subst write_blocks.simps) (simp add: add.assoc)
    moreover have "file_byte lib s2 i x = (if off + written \<le> x \<and> x < off + count then buf ! (x - off) else file_byte lib s i x)"
      if "x div block_size lib < n" for x
      using s1(4) [OF that] s2(4) [OF that] True len by (auto simp: not_le not_less)
    ultimately show ?thesis using s1(3) s2(2,3) by auto
  qed
qed

text \<open>C15: a \<open>minixfs_write\<close> that starts at a block boundary returns, and replaces exactly the bytes of the
  file from the offset on by those of the buffer, making the file longer when it must, given what
  \<open>minixfs_min_blockcount\<close> is for: that the file has blocks of its own for all of it.\<close>

theorem minixfs_write_at_boundary:
  assumes "0 < block_size lib" "off mod block_size lib = 0" "off + count < 2 ^ 64" "off + count \<le> max_file_size lib"
    and "count \<le> length buf" "get_inode lib s path = Some i"
    and "minixfs_min_blockcount lib path (num_blocks lib (off + count)) s = (r, s1)" "r \<noteq> -1"
    and "owns_blocks lib s1 i (num_blocks lib (max (fsize (inode_root s1 i)) (off + count)))" "off \<le> fsize (inode_root s1 i)"
  shows "\<exists>s2. minixfs_write lib now now' path buf count off s = Some (Inr (int count, off + count, s2)) \<and>
    file_contents lib s2 i =
      take off (file_contents lib s1 i) @ take count buf @ drop (off + count) (file_contents lib s1 i)"
proof -
  let ?z = "fsize (inode_root s1 i)" and ?e = "off + count"
  let ?n = "num_blocks lib (max ?z ?e)"
  have k: "x div block_size lib < ?n" if "x < max ?z ?e" for x by (rule num_blocks_covers [OF assms(1) that])
  have kk: "x div block_size lib < ?n" if "x < ?e" for x using k that by simp
  obtain s2 where s2: "write_blocks lib i buf count 0 (off + 0) s1 = Some (Inr (Some count, s2))" "inode_root s2 = inode_root s1"
      "\<forall>x. x div block_size lib < ?n \<longrightarrow> file_byte lib s2 i x =
         (if off + 0 \<le> x \<and> x < off + count then buf ! (x - off) else file_byte lib s1 i x)"
    using write_blocks_boundary [where written = 0, OF assms(1,2,5) kk assms(9)] by auto
  let ?s = "set_inode i (\<lambda>nd. nd\<lparr>fsize := (if ?e > fsize nd then ?e else fsize nd), atim := now, mtim := now'\<rparr>) s2"
  have "minixfs_write lib now now' path buf count off s = Some (Inr (int count, ?e, ?s))"
    using assms(3,4,6,7,8) s2(1) by (simp add: minixfs_write_def num_blocks_def Let_def)
  moreover have "file_contents lib ?s i = take off (file_contents lib s1 i) @ take count buf @ drop ?e (file_contents lib s1 i)"
  proof (rule nth_equalityI)
    have z: "fsize (inode_root ?s i) = max ?z ?e" using s2(2) by simp
    show "length (file_contents lib ?s i) =
        length (take off (file_contents lib s1 i) @ take count buf @ drop ?e (file_contents lib s1 i))"
      using z assms(5,10) by (simp add: file_contents_def)
    fix x assume "x < length (file_contents lib ?s i)"
    then have x: "x < max ?z ?e" using z by (simp add: file_contents_def)
    have fb: "file_byte lib ?s i x = file_byte lib s2 i x"
      by (rule file_byte_set_inode) simp_all
    have l: "file_contents lib ?s i ! x = (if off \<le> x \<and> x < ?e then buf ! (x - off) else file_byte lib s1 i x)"
      using fb s2(3) k [OF x] x z by (simp add: file_contents_def)
    show "file_contents lib ?s i ! x = (take off (file_contents lib s1 i) @ take count buf @ drop ?e (file_contents lib s1 i)) ! x"
      unfolding l using x assms(5,10) by (auto simp: nth_append file_contents_def min_def)
  qed
  ultimately show ?thesis by blast
qed

text \<open>C37: a write inside a block goes astray. One that starts \<open>o > 0\<close> bytes into block \<open>b\<close> and stays in it
  returns the count as if it had succeeded, but its bytes are stored at the start of the block \<open>b + o\<close> of
  the disk, whosever that is, or past the end of the disk.\<close>

theorem minixfs_write_inside_block:
  assumes "0 < off mod block_size lib" "off mod block_size lib + count \<le> block_size lib" "0 < count"
    and "off + count < 2 ^ 64" "off + count \<le> max_file_size lib" "count \<le> length buf" "get_inode lib s path = Some i"
    and "minixfs_min_blockcount lib path (num_blocks lib (off + count)) s = (r, s1)" "r \<noteq> -1"
    and "owns_blocks lib s1 i (num_blocks lib (off + count))"
    and "block_of lib (inode_root s1 i) (off div block_size lib) s1 = Inr b"
  shows "minixfs_write lib now now' path buf count off s =
    (let a = nat b + off mod block_size lib in
     if dblock_count lib \<le> a then Some (Inl Out_of_bounds)
     else Some (Inr (int count, off + count,
       set_inode i (\<lambda>nd. nd\<lparr>fsize := (if off + count > fsize nd then off + count else fsize nd), atim := now, mtim := now'\<rparr>)
         (s1\<lparr>data_root := put_bytes (a * block_size lib) (take count buf) (data_root s1)\<rparr>))))"
proof -
  let ?o = "off mod block_size lib"
  have bs: "0 < block_size lib" using assms(1,2) by (cases "block_size lib") simp_all
  have k: "off div block_size lib < num_blocks lib (off + count)" using num_blocks_covers [OF bs, of off "off + count"] assms(3) by simp
  have "disk_block lib b" using has_blocksE [OF owns_blocksD(1) [OF assms(10)] k] assms(11) by auto
  then have nb: "nat (b + int ?o) = nat b + ?o" "0 \<le> b + int ?o" by (simp_all add: disk_block_def nat_add_distrib)
  have m: "min (block_size lib - ?o) count = count" using assms(2) by simp
  have id: "in_data lib (b + int ?o) 0 count \<longleftrightarrow> nat b + ?o < dblock_count lib"
  proof -
    have "in_data lib (b + int ?o) 0 count \<longleftrightarrow> (nat b + ?o) * block_size lib + count \<le> dblock_count lib * block_size lib"
      using nb by (simp add: in_data_def)
    also have "\<dots> \<longleftrightarrow> nat b + ?o < dblock_count lib"
    proof
      assume h: "(nat b + ?o) * block_size lib + count \<le> dblock_count lib * block_size lib"
      then have "(nat b + ?o) * block_size lib < dblock_count lib * block_size lib" using assms(3) by linarith
      then show "nat b + ?o < dblock_count lib" using bs mult_less_cancel2 by blast
    next
      assume "nat b + ?o < dblock_count lib"
      then have "(nat b + ?o + 1) * block_size lib \<le> dblock_count lib * block_size lib" by (intro mult_le_mono1) simp
      then show "(nat b + ?o) * block_size lib + count \<le> dblock_count lib * block_size lib" using assms(2) by simp
    qed
    finally show ?thesis .
  qed
  have "write_step lib i buf count off s1 = (if nat b + ?o < dblock_count lib
      then Inr (Some count, s1\<lparr>data_root := put_bytes ((nat b + ?o) * block_size lib) (take count buf) (data_root s1)\<rparr>)
      else Inl Out_of_bounds)"
    using block_for_owned [OF assms(10) k assms(11)] m assms(6) id nb(1) by (simp add: write_step_def store_def)
  then have "write_blocks lib i buf count 0 off s1 = (if nat b + ?o < dblock_count lib
      then Some (Inr (Some count, s1\<lparr>data_root := put_bytes ((nat b + ?o) * block_size lib) (take count buf) (data_root s1)\<rparr>))
      else Some (Inl Out_of_bounds))"
    using assms(3) by (subst write_blocks.simps) (simp add: write_blocks.simps [of _ _ _ _ count])
  then show ?thesis
    using assms(4,5,7,8,9) by (simp add: minixfs_write_def num_blocks_def Let_def not_le)
qed

section \<open>Witnesses\<close>

text \<open>A disk of six blocks of four bytes. The file is inode 1: twelve bytes in the blocks 1, 3 and, by the
  number in block 4, 5.\<close>

definition small_lib :: "unit fs_lib" where
  "small_lib = \<lparr>DATA_NUMBER = 6, RWX_BITS_NUMBER = 9, NUM_DIRECT_BLOCKS = 2, NUM_INDIRECT_BLOCKS = 4, FILE_NAME_ENTRY = 4,
     UNASSIGNED_NODE = -1, block_size = 4, number_size = 1, number_of = (\<lambda>bs. of_char (hd bs)), bytes_of = (\<lambda>n. [char_of n]),
     dblock_count = 6, get_inode = (\<lambda>_ path. if path = ''f'' then Some 1 else None), parent_directory = (\<lambda>_ path. (Some 0, path)),
     first_unused_inode = (\<lambda>_. 2), strdup = Some, init_inode = (\<lambda>_ _ s. s), add_data_block_to_inode = (\<lambda>_ s. (-1, s)),
     add_single_indirect_block = (\<lambda>_ s. (-1, s)), add_data_block_to_indirect_block = (\<lambda>_ s. (-1, s)),
     minixfs_min_blockcount = (\<lambda>_ n s. (if n \<le> 3 then 0 else -1, s)), make_string_from_dirent = (\<lambda>_ _ s. s),
     is_virtual_path = (\<lambda>_. None), get_data_used = (\<lambda>_ _. True), is_directory = (\<lambda>nd. mode nd = 0)\<rparr>"

definition small_fs :: "unit file_system" where
  "small_fs = \<lparr>meta = (), inode_root = (\<lambda>_. \<lparr>mode = 1, uid = 0, gid = 0, fsize = 12, direct = [1, 3], indirect = 4,
       atim = 0, mtim = 0, ctim = 0\<rparr>),
     data_root = (\<lambda>k. if k = 16 then CHR 0x05 else ''abcdefghijklmnopqrstuvwx'' ! k), errno = None\<rparr>"

lemma small_blocks:
  "block_of small_lib (inode_root small_fs 1) 0 small_fs = Inr 1"
  "block_of small_lib (inode_root small_fs 1) 1 small_fs = Inr 3"
  "block_of small_lib (inode_root small_fs 1) 2 small_fs = Inr 5"
  by (simp_all add: small_lib_def small_fs_def block_of_def number_at_def load_def in_data_def)

lemma all_less_numerals:
  "(\<forall>k < (1 :: nat). P k) \<longleftrightarrow> P 0" "(\<forall>k < (3 :: nat). P k) \<longleftrightarrow> P 0 \<and> P 1 \<and> P 2"
  by (auto simp: less_Suc_eq numeral_3_eq_3 numeral_2_eq_2)

lemma small_owns: "owns_blocks small_lib small_fs 1 3" "owns_blocks small_lib small_fs 1 1"
  unfolding owns_blocks_def has_blocks_def all_less_numerals small_blocks
  by (simp_all add: disk_block_def small_lib_def small_fs_def)

lemma small_contents: "file_contents small_lib small_fs 1 = ''efghmnopuvwx''"
proof -
  have "file_byte small_lib small_fs 1 k = ''efghmnopuvwx'' ! k" if "k < 12" for k
  proof -
    have "k = 0 \<or> k = 1 \<or> k = 2 \<or> k = 3 \<or> k = 4 \<or> k = 5 \<or> k = 6 \<or> k = 7 \<or> k = 8 \<or> k = 9 \<or> k = 10 \<or> k = 11"
      using that by presburger
    moreover have "block_size small_lib = 4" by (simp add: small_lib_def)
    ultimately show ?thesis
      using small_blocks [unfolded One_nat_def] unfolding file_byte_def
      by (elim disjE; simp del: One_nat_def; simp add: small_fs_def)
  qed
  then show ?thesis by (intro nth_equalityI) (simp_all add: file_contents_def small_fs_def)
qed

lemma small_simps:
  "block_size small_lib = 4" "get_inode small_lib s ''f'' = Some 1" "is_virtual_path small_lib p = None"
  "is_directory small_lib (inode_root small_fs 1) = False" "fsize (inode_root small_fs 1) = 12" "max_file_size small_lib = 32"
  "minixfs_min_blockcount small_lib p 2 s = (0, s)" "dblock_count small_lib = 6"
  "minixfs_min_blockcount small_lib p 1 s = (0, s)"
  "num_blocks small_lib 12 = 3" "num_blocks small_lib 8 = 2" "num_blocks small_lib 3 = 1"
  by (simp_all add: small_lib_def small_fs_def max_file_size_def block_of_def num_blocks_def)

theorem minixfs_read_stretch_witness:
  "\<exists>s. minixfs_read small_lib 7 ''f'' 6 3 small_fs = Some (Inr (6, ''hmnopu'', 9, s))"
proof -
  have "has_blocks small_lib small_fs 1 (num_blocks small_lib (fsize (inode_root small_fs 1)))"
    using owns_blocksD(1) [OF small_owns(1)] by (simp add: small_simps del: One_nat_def)
  then show ?thesis
    using minixfs_read_stretch [of small_lib "''f''" small_fs 1 7 6 3] small_contents by (simp add: small_simps del: One_nat_def)
qed

theorem minixfs_write_at_boundary_witness:
  "\<exists>s. minixfs_write small_lib 7 7 ''f'' ''XYZW'' 4 4 small_fs = Some (Inr (4, 8, s)) \<and>
     file_contents small_lib s 1 = ''efghXYZWuvwx''"
  using minixfs_write_at_boundary [of small_lib 4 4 "''XYZW''" small_fs "''f''" 1 0 small_fs 7 7] small_owns(1) small_contents
  by (simp add: small_simps del: One_nat_def)

theorem minixfs_write_inside_block_witness:
  "\<exists>s. minixfs_write small_lib 7 7 ''f'' ''XY'' 2 1 small_fs = Some (Inr (2, 3, s)) \<and>
     map (data_root s) [5, 6, 8, 9] = ''fgXY''"
proof -
  have "minixfs_write small_lib 7 7 ''f'' ''XY'' 2 1 small_fs = Some (Inr (2, 3,
      set_inode 1 (\<lambda>nd. nd\<lparr>fsize := fsize nd, atim := 7, mtim := 7\<rparr>)
        (small_fs\<lparr>data_root := put_bytes 8 ''XY'' (data_root small_fs)\<rparr>)))"
    using minixfs_write_inside_block [of 1 small_lib 2 "''XY''" small_fs "''f''" 1 0 small_fs 1 7 7] small_owns(2)
    by (simp add: small_simps small_blocks del: One_nat_def)
  moreover have "map (put_bytes 8 ''XY'' (data_root small_fs)) [5, 6, 8, 9] = ''fgXY''"
    by (simp add: put_bytes_def small_fs_def)
  ultimately show ?thesis by simp
qed

end
