(* ===== verification/Shell.thy ===== *)
theory Shell
  imports Prelude
begin

text \<open>
  \<open>shell/shell.c\<close>: the command line, the history, and the processes it starts.

  What the code asks of the operating system is \<open>os\<close>, over a state \<open>'w\<close> of the rest of the world. A child
  process is what it does between \<open>fork\<close> and the end, as a list of calls of which the first that fails ends
  it with \<open>exit(1)\<close>; \<open>fork\<close> is given the list. What the children do to the world the shell goes on in is
  part of the new world that \<open>fork\<close>, \<open>waitpid\<close> and \<open>wait\<close> give. This includes the offsets of the open files, which
  children share: \<open>exit\<close> in a child closes its copies of the streams, and moves the offset of a script back by what
  the shell has buffered and not yet read, so that the shell reads lines again when its buffer is empty.
  \<open>next_line\<close> is \<open>fgets\<close> with the shell's buffer of 100 bytes on the script or the standard input: nothing is
  said of what it finds, in particular not that the lines are those of the file one after the other. The messages of \<open>format.h\<close> are a list of events. \<open>uninit\<close> is
  what uninitialised memory reads as. An array of word pointers is the list of the words, the pointer after
  the last one being null. \<open>malloc\<close> does not fail, the code does not test it.

  \<open>get_process_info\<close> is not modelled: it formats what \<open>/proc\<close> says about a process.
\<close>

section \<open>The world\<close>

datatype child_call =
    Setpgid
  | Default_sigint
  | Open string nat                \<comment> \<open>with the mode of \<open>redirect\<close>\<close>
  | Open_null nat                  \<comment> \<open>the same with a null file name\<close>
  | Dup2 bool                      \<comment> \<open>onto the standard input, or else the output\<close>
  | Execvp "string list" bool      \<comment> \<open>with a message when it fails, or none\<close>

datatype stream = Script | Stdin

datatype signal = SIGKILL | SIGSTOP | SIGCONT

datatype event =
    Print_prompt
  | Print_usage
  | Print_script_file_error
  | Print_history_line nat string
  | Print_invalid_index
  | Print_command string
  | Print_no_history_match
  | Print_invalid_command string
  | Print_no_directory string
  | Print_no_process_found int
  | Print_killed_process int string
  | Print_stopped_process int string
  | Print_continued_process int string
  | Print_fork_failed
  | Print_command_executed int
  | Print_wait_failed
  | Print_process_info_header
  | Print_process_info int

record 'w os =
  getpid :: int
  fork :: "child_call list \<Rightarrow> 'w \<Rightarrow> int \<times> 'w"
  waitpid :: "int \<Rightarrow> 'w \<Rightarrow> int \<times> int \<times> 'w"
  wait :: "'w \<Rightarrow> 'w"
  chdir :: "string \<Rightarrow> 'w \<Rightarrow> int \<times> 'w"
  kill :: "int \<Rightarrow> signal \<Rightarrow> 'w \<Rightarrow> int \<times> 'w"
  proc_dir :: "'w \<Rightarrow> string list option"
  proc_status :: "'w \<Rightarrow> int \<Rightarrow> string list option"
  proc_cmdline :: "'w \<Rightarrow> int \<Rightarrow> char list option"
  read_file :: "'w \<Rightarrow> string \<Rightarrow> char list option"
  open_script :: "string \<Rightarrow> 'w \<Rightarrow> 'w option"
  next_line :: "stream \<Rightarrow> 'w \<Rightarrow> string option \<times> 'w"
  write_file :: "string \<Rightarrow> char list \<Rightarrow> 'w \<Rightarrow> 'w option"
  uninit :: string

text \<open>The history is the used part of its array of 1024 entries.\<close>

record process =
  command :: string
  pid :: int

record 'w shell_state =
  history :: "process list"
  printed :: "event list"
  world :: 'w

definition MAX_COMMAND :: nat where "MAX_COMMAND = 1024"
definition MAX_HISTORY :: nat where "MAX_HISTORY = 1024"

definition say :: "event \<Rightarrow> 'w shell_state \<Rightarrow> 'w shell_state" where
  "say e s = s\<lparr>printed := printed s @ [e]\<rparr>"

section \<open>Library functions\<close>

definition NL :: char where "NL = CHR 0x0A"

definition is_space :: "char \<Rightarrow> bool" where
  "is_space c \<longleftrightarrow> c = CHR 0x20 \<or> (9 \<le> (of_char c :: nat) \<and> (of_char c :: nat) \<le> 13)"

definition is_digit :: "char \<Rightarrow> bool" where
  "is_digit c \<longleftrightarrow> 48 \<le> (of_char c :: nat) \<and> (of_char c :: nat) \<le> 57"

definition digits_value :: "string \<Rightarrow> int" where
  "digits_value ds = foldl (\<lambda>n c. 10 * n + (int (of_char c) - 48)) 0 ds"

text \<open>\<open>atoi\<close>; what it returns for a number that is not an \<open>int\<close> is undefined in C.\<close>

definition atoi :: "string \<Rightarrow> int" where
  "atoi str = (case dropWhile is_space str of
      [] \<Rightarrow> 0
    | c # cs \<Rightarrow>
        if c = CHR ''-'' then - digits_value (takeWhile is_digit cs)
        else if c = CHR ''+'' then digits_value (takeWhile is_digit cs)
        else digits_value (takeWhile is_digit (c # cs)))"

definition delim :: "char \<Rightarrow> bool" where "delim c \<longleftrightarrow> c = CHR 0x20 \<or> c = NL"

text \<open>The words that \<open>strtok\<close> with \<open>" \n"\<close> finds one after the other.\<close>

function tokens :: "string \<Rightarrow> string list" where
  "tokens str =
     (let r = dropWhile delim str in
      if r = [] then [] else takeWhile (\<lambda>c. \<not> delim c) r # tokens (dropWhile (\<lambda>c. \<not> delim c) r))"
  by pat_completeness auto

termination
proof (relation "measure length")
  fix str r :: string assume r: "r = dropWhile delim str" "r \<noteq> []"
  obtain c cs where rc: "r = c # cs" using r(2) by (cases r) simp_all
  have "\<not> delim (hd r)" unfolding r(1) by (rule hd_dropWhile) (use r in simp)
  then have c: "r = c # cs" "\<not> delim c" using rc by simp_all
  have "length (dropWhile (\<lambda>c. \<not> delim c) cs) \<le> length cs" "length r \<le> length str"
    using r(1) by (simp_all add: length_dropWhile_le)
  then show "(dropWhile (\<lambda>c. \<not> delim c) r, str) \<in> measure length" using c by simp
qed simp

declare tokens.simps [simp del]

definition WEXITSTATUS :: "int \<Rightarrow> int" where "WEXITSTATUS status = status div 256 mod 256"

section \<open>History\<close>

definition store_process :: "string \<Rightarrow> int \<Rightarrow> 'w shell_state \<Rightarrow> 'w shell_state outcome" where
  "store_process cmd p s =
     (if MAX_HISTORY \<le> length (history s) \<or> MAX_COMMAND \<le> length cmd then Inl Out_of_bounds
      else Inr (s\<lparr>history := history s @ [\<lparr>command = cmd, pid = p\<rparr>]\<rparr>))"

fun modify_first :: "string \<Rightarrow> int \<Rightarrow> process list \<Rightarrow> process list" where
  "modify_first cmd p [] = []"
| "modify_first cmd p (e # es) = (if command e = cmd then e\<lparr>pid := p\<rparr> # es else e # modify_first cmd p es)"

definition modify_pid :: "string \<Rightarrow> int \<Rightarrow> 'w shell_state \<Rightarrow> 'w shell_state" where
  "modify_pid cmd p s = s\<lparr>history := modify_first cmd p (history s)\<rparr>"

section \<open>Processes\<close>

text \<open>The parent process of a process, from the first line of its status that names it.\<close>

definition ppid_of :: "string list \<Rightarrow> int option" where
  "ppid_of ls = map_option (\<lambda>l. atoi (drop 5 l)) (List.find (\<lambda>l. take 5 l = ''PPid:'') ls)"

definition ps_entry :: "'w os \<Rightarrow> int \<Rightarrow> string \<Rightarrow> 'w shell_state \<Rightarrow> 'w shell_state" where
  "ps_entry os shell_pid name s =
     (let p = atoi name in
      if p > 0 then
        (case proc_status os (world s) p of
           None \<Rightarrow> s
         | Some ls \<Rightarrow> if ppid_of ls = Some shell_pid \<and> p \<noteq> shell_pid then say (Print_process_info p) s else s)
      else s)"

definition ps_command :: "'w os \<Rightarrow> int \<Rightarrow> 'w shell_state \<Rightarrow> 'w shell_state" where
  "ps_command os shell_pid s =
     (let s = say (Print_process_info shell_pid) (say Print_process_info_header s) in
      case proc_dir os (world s) of
        None \<Rightarrow> s
      | Some names \<Rightarrow> fold (ps_entry os shell_pid) names s)"

text \<open>At most 100 bytes are read into the buffer of 100.\<close>

definition find_command :: "'w os \<Rightarrow> int \<Rightarrow> 'w shell_state \<Rightarrow> string option outcome" where
  "find_command os p s =
     (case proc_cmdline os (world s) p of
        None \<Rightarrow> Inr None
      | Some bs \<Rightarrow>
          let bs = take 100 bs in
          if bs = [] then Inr (Some (uninit os))
          else if length bs = 100 then Inl Out_of_bounds
          else Inr (Some (butlast (map (\<lambda>c. if c = CHR 0x00 then CHR 0x20 else c) bs))))"

definition external_run :: "'w os \<Rightarrow> string list \<Rightarrow> bool \<Rightarrow> 'w shell_state \<Rightarrow> (int \<times> 'w shell_state) outcome" where
  "external_run os words zombie s =
     (if zombie then
        let (p, w) = fork os [Setpgid, Execvp words True] (world s); s = s\<lparr>world := w\<rparr> in
        if p < 0 then Inl (Exit_status (-1)) else Inr (p, say (Print_command_executed p) s)
      else
        let (p, w) = fork os [Default_sigint, Execvp words True] (world s); s = s\<lparr>world := w\<rparr> in
        if p < 0 then Inl (Exit_status (-1))
        else
          let s = say (Print_command_executed p) s;
              (r, status, w) = waitpid os p (world s);
              s = s\<lparr>world := w\<rparr>;
              s = (if r = -1 then say Print_wait_failed s else s) in
          Inr (if WEXITSTATUS status \<noteq> 0 then -1 else p, s))"

definition redirect :: "'w os \<Rightarrow> string list \<Rightarrow> string option \<Rightarrow> nat \<Rightarrow> 'w shell_state \<Rightarrow> (int \<times> 'w shell_state) outcome" where
  "redirect os words f mode s =
     (let opening = (case f of Some name \<Rightarrow> Open name mode | None \<Rightarrow> Open_null mode);
          (p, w) = fork os [opening, Dup2 (mode = 5), Execvp words False] (world s); s = s\<lparr>world := w\<rparr> in
      if p < 0 then Inl (Exit_status (-1)) else Inr (p, s\<lparr>world := wait os (world s)\<rparr>))"

definition run_cmd :: "'w os \<Rightarrow> string list \<Rightarrow> bool \<Rightarrow> 'w shell_state \<Rightarrow> (int \<times> 'w shell_state) outcome" where
  "run_cmd os words zombie s =
     (case words of
        [] \<Rightarrow> Inl Null_deref
      | w0 # args \<Rightarrow>
          if w0 = ''cd'' then
            (case args of
               [] \<Rightarrow> Inr (-1, say (Print_invalid_command w0) s)
             | d # _ \<Rightarrow>
                 let (r, w) = chdir os d (world s); s = s\<lparr>world := w\<rparr> in
                 if r \<noteq> 0 then Inr (-1, say (Print_no_directory d) s) else Inr (0, s))
          else if w0 = ''ps'' then Inr (0, ps_command os (getpid os) s)
          else external_run os words zombie s)"

section \<open>The command line\<close>

record parsed =
  words :: "string list"
  words1 :: "string list"
  zombie :: bool
  mode :: nat

text \<open>The arrays of words have 30 places, the null pointer after the last word included.\<close>

definition MAX_WORDS :: nat where "MAX_WORDS = 30"

definition push_word :: "string \<Rightarrow> string list \<Rightarrow> string list outcome" where
  "push_word w ws = (if length ws < MAX_WORDS then Inr (ws @ [w]) else Inl Out_of_bounds)"

definition parse_word :: "string \<Rightarrow> parsed \<Rightarrow> parsed outcome" where
  "parse_word word p =
     (if last word = CHR '';'' then rbind (push_word (butlast word) (words p)) (\<lambda>ws. Inr (p\<lparr>words := ws, mode := 1\<rparr>))
      else if word = ''&&'' then Inr (p\<lparr>mode := 2\<rparr>)
      else if word = ''||'' then Inr (p\<lparr>mode := 3\<rparr>)
      else if word = ''>'' then Inr (p\<lparr>mode := 4\<rparr>)
      else if word = ''<'' then Inr (p\<lparr>mode := 5\<rparr>)
      else if word = ''>>'' then Inr (p\<lparr>mode := 6\<rparr>)
      else if mode p \<noteq> 0 then rbind (push_word word (words1 p)) (\<lambda>ws. Inr (p\<lparr>words1 := ws\<rparr>))
      else rbind (push_word word (words p)) (\<lambda>ws. Inr (p\<lparr>words := ws\<rparr>)))"

text \<open>The last word is dropped when it is \<open>&\<close>, and a null pointer put after the words.\<close>

definition end_words :: "string list \<Rightarrow> (bool \<times> string list) outcome" where
  "end_words ws =
     (if ws = [] then Inl Out_of_bounds
      else let (z, ws) = (if last ws = ''&'' then (True, butlast ws) else (False, ws)) in
        if length ws < MAX_WORDS then Inr (z, ws) else Inl Out_of_bounds)"

definition parse :: "string \<Rightarrow> parsed outcome" where
  "parse input =
     rbind (rfold parse_word (tokens input) \<lparr>words = [], words1 = [], zombie = False, mode = 0\<rparr>) (\<lambda>p.
     rbind (end_words (words p)) (\<lambda>(z, ws).
     if mode p \<noteq> 0 then rbind (end_words (words1 p)) (\<lambda>(z1, ws1).
       Inr (p\<lparr>words := ws, words1 := ws1, zombie := z \<or> z1\<rparr>))
     else Inr (p\<lparr>words := ws, zombie := z\<rparr>)))"

definition chomp :: "string \<Rightarrow> string outcome" where
  "chomp input = (if input = [] then Inl Out_of_bounds else Inr (if last input = NL then butlast input else input))"

text \<open>\<open>kill\<close>, \<open>stop\<close> and \<open>cont\<close>, three times the same code in the source.\<close>

definition signal_process ::
  "'w os \<Rightarrow> signal \<Rightarrow> (int \<Rightarrow> string \<Rightarrow> event) \<Rightarrow> string list \<Rightarrow> 'w shell_state \<Rightarrow> (int \<times> 'w shell_state) outcome" where
  "signal_process os sg done_event ws s =
     (case tl ws of
        [] \<Rightarrow> Inr (-1, say (Print_invalid_command (hd ws)) s)
      | arg # _ \<Rightarrow>
          let p = atoi arg in
          rbind (find_command os p s) (\<lambda>cmd.
          case cmd of
            None \<Rightarrow> Inr (-1, say (Print_no_process_found p) s)
          | Some c \<Rightarrow>
              let (r, w) = kill os p sg (world s); s = s\<lparr>world := w\<rparr> in
              if r = -1 then Inr (-1, say (Print_invalid_command (hd ws)) s)
              else Inr (0, say (done_event p c) s)))"

definition run_external :: "'w os \<Rightarrow> string \<Rightarrow> parsed \<Rightarrow> 'w shell_state \<Rightarrow> (int \<times> 'w shell_state) outcome" where
  "run_external os input p s =
     rbind (store_process input (getpid os) s) (\<lambda>s.
     if mode p = 0 then
       rbind (run_cmd os (words p) (zombie p) s) (\<lambda>(r, s).
       if r = -1 then Inr (-1, s) else Inr (0, modify_pid input r s))
     else if mode p = 1 then
       rbind (run_cmd os (words p) (zombie p) s) (\<lambda>(_, s).
       rbind (run_cmd os (words1 p) (zombie p) s) (\<lambda>(r, s).
       Inr (0, modify_pid input r s)))
     else if mode p = 2 then
       rbind (run_cmd os (words p) (zombie p) s) (\<lambda>(r, s).
       if r = -1 then Inr (-1, s)
       else rbind (run_cmd os (words1 p) (zombie p) s) (\<lambda>(r, s).
         if r = -1 then Inr (-1, s) else Inr (0, modify_pid input (getpid os) s)))
     else if mode p = 3 then
       rbind (run_cmd os (words p) (zombie p) s) (\<lambda>(r, s).
       if r = -1 then
         rbind (run_cmd os (words1 p) (zombie p) s) (\<lambda>(r, s).
         if r = -1 then Inr (-1, s) else Inr (0, modify_pid input (getpid os) s))
       else Inr (0, modify_pid input (getpid os) s))
     else
       rbind (redirect os (words p) (case words1 p of [] \<Rightarrow> None | f # _ \<Rightarrow> Some f) (mode p) s) (\<lambda>(r, s).
       Inr (0, modify_pid input r s)))"

text \<open>A command of the history is run in its place: \<open>run\<close> strips a newline at its end there too.\<close>

definition chomp_history :: "nat \<Rightarrow> 'w shell_state \<Rightarrow> 'w shell_state outcome" where
  "chomp_history i s =
     rbind (chomp (command (history s ! i))) (\<lambda>c. Inr (s\<lparr>history := (history s)[i := (history s ! i)\<lparr>command := c\<rparr>]\<rparr>))"

definition print_history :: "'w shell_state \<Rightarrow> 'w shell_state" where
  "print_history s = fold (\<lambda>i. say (Print_history_line i (command (history s ! i)))) [0..<length (history s)] s"

text \<open>The last command that starts with the prefix.\<close>

definition last_match :: "string \<Rightarrow> process list \<Rightarrow> nat option" where
  "last_match prefix h =
     List.find (\<lambda>i. take (length prefix) (command (h ! i)) = prefix) (rev [0..<length h])"

text \<open>A call of \<open>run\<close> handles the line itself, or runs a line of the history.\<close>

datatype 'w dispatch = Done int "'w shell_state" | Rerun nat "'w shell_state"

definition dispatch :: "'w os \<Rightarrow> string \<Rightarrow> 'w shell_state \<Rightarrow> 'w dispatch outcome" where
  "dispatch os line s =
     rbind (chomp line) (\<lambda>input.
     rbind (parse line) (\<lambda>p.
     case words p of
       [] \<Rightarrow> Inl Null_deref
     | w0 # _ \<Rightarrow>
         if w0 = ''!history'' then Inr (Done 0 (print_history s))
         else if w0 \<noteq> [] \<and> hd w0 = CHR ''#'' then
           let num = atoi (tl w0) in
           if num > int (length (history s)) then Inr (Done (-1) (say Print_invalid_index s))
           else if num < 0 \<or> num = int (length (history s)) then Inl Out_of_bounds
           else Inr (Rerun (nat num) (say (Print_command (command (history s ! nat num))) s))
         else if w0 \<noteq> [] \<and> hd w0 = CHR ''!'' then
           (case last_match (tl input) (history s) of
              None \<Rightarrow> Inr (Done 0 (say Print_no_history_match s))
            | Some i \<Rightarrow> Inr (Rerun i (say (Print_command (command (history s ! i))) s)))
         else if w0 = ''kill'' then rbind (signal_process os SIGKILL Print_killed_process (words p) s) (\<lambda>(r, s). Inr (Done r s))
         else if w0 = ''stop'' then rbind (signal_process os SIGSTOP Print_stopped_process (words p) s) (\<lambda>(r, s). Inr (Done r s))
         else if w0 = ''cont'' then rbind (signal_process os SIGCONT Print_continued_process (words p) s) (\<lambda>(r, s). Inr (Done r s))
         else rbind (run_external os input p s) (\<lambda>(r, s). Inr (Done r s))))"

partial_function (option) run :: "'w os \<Rightarrow> string \<Rightarrow> 'w shell_state \<Rightarrow> (int \<times> 'w shell_state) outcome option" where
  "run os line s =
     (case dispatch os line s of
        Inl e \<Rightarrow> Some (Inl e)
      | Inr (Done r s) \<Rightarrow> Some (Inr (r, s))
      | Inr (Rerun i s) \<Rightarrow>
          (case chomp_history i s of
             Inl e \<Rightarrow> Some (Inl e)
           | Inr s' \<Rightarrow>
               Option.bind (run os (command (history s ! i)) s') (\<lambda>r. Some (rbind r (\<lambda>(_, s). Inr (0, s))))))"

section \<open>The shell\<close>

text \<open>The lines of a file, each of fewer than \<open>n\<close> characters.\<close>

function input_lines :: "nat \<Rightarrow> char list \<Rightarrow> string list" where
  "input_lines n cs =
     (if cs = [] \<or> n < 2 then []
      else
        let l = takeWhile (\<lambda>c. c \<noteq> NL) cs;
            line = take (n - 1) (if length l < length cs then l @ [NL] else l) in
        line # input_lines n (drop (length line) cs))"
  by pat_completeness auto

termination
proof (relation "measure (\<lambda>(n, cs). length cs)")
  fix n :: nat and cs :: string and l line assume h: "\<not> (cs = [] \<or> n < 2)" "l = takeWhile (\<lambda>c. c \<noteq> NL) cs"
    "line = take (n - 1) (if length l < length cs then l @ [NL] else l)"
  have "0 < length (if length l < length cs then l @ [NL] else l)" using h(1) by (cases cs) auto
  then have "0 < length line" unfolding h(3) using h(1) by simp
  moreover have "0 < length cs" using h(1) by simp
  ultimately have "length (drop (length line) cs) < length cs" by simp
  then show "((n, drop (length line) cs), (n, cs)) \<in> measure (\<lambda>(n, cs). length cs)" by simp
qed simp

declare input_lines.simps [simp del]

text \<open>The loop over a script, and over the standard input. It may not end.\<close>

partial_function (option) session :: "'w os \<Rightarrow> stream \<Rightarrow> 'w shell_state \<Rightarrow> 'w shell_state outcome option" where
  "session os f s =
     (case next_line os f (world s) of
        (None, w) \<Rightarrow> Some (Inr (s\<lparr>world := w\<rparr>))
      | (Some line, w) \<Rightarrow>
          if line = [NL] then session os f (say Print_prompt (s\<lparr>world := w\<rparr>))
          else if line = ''exit'' @ [NL] then Some (Inr (s\<lparr>world := w\<rparr>))
          else
            (case run os line (s\<lparr>world := w\<rparr>) of
               None \<Rightarrow> None
             | Some (Inl e) \<Rightarrow> Some (Inl e)
             | Some (Inr (_, s)) \<Rightarrow> session os f (say Print_prompt s)))"

text \<open>\<open>getline\<close> gives lines of any length; the last character of each is dropped.\<close>

definition load_history :: "'w os \<Rightarrow> char list \<Rightarrow> 'w shell_state \<Rightarrow> 'w shell_state outcome" where
  "load_history os cs s = rfold (\<lambda>line. store_process (butlast line) (getpid os)) (input_lines (length cs + 2) cs) s"

definition MAX_NAME :: nat where "MAX_NAME = 100"

text \<open>The arguments from the \<open>i\<close>-th on; the result is the name of the script, or nothing when the shell
  ends with -1.\<close>

function read_args ::
  "'w os \<Rightarrow> string list \<Rightarrow> nat \<Rightarrow> string \<Rightarrow> 'w shell_state \<Rightarrow> (string option \<times> 'w shell_state) outcome"
  and script_arg ::
  "'w os \<Rightarrow> string list \<Rightarrow> nat \<Rightarrow> string \<Rightarrow> 'w shell_state \<Rightarrow> (string option \<times> 'w shell_state) outcome" where
  "read_args os argv i exe_file s =
     (if length argv \<le> i then Inr (Some exe_file, s)
      else if argv ! i = ''-h'' then
        if length argv \<le> i + 1 then Inr (None, say Print_usage s)
        else if MAX_NAME \<le> length (argv ! (i + 1)) then Inl Out_of_bounds
        else
          rbind (case read_file os (world s) (argv ! (i + 1)) of None \<Rightarrow> Inr s | Some cs \<Rightarrow> load_history os cs s) (\<lambda>s.
          script_arg os argv (i + 1) exe_file s)
      else script_arg os argv i exe_file s)"
| "script_arg os argv i exe_file s =
     (if length argv \<le> i then Inl Null_deref
      else if argv ! i = ''-f'' then
        if length argv \<le> i + 1 then Inr (None, say Print_usage s)
        else if MAX_NAME \<le> length (argv ! (i + 1)) then Inl Out_of_bounds
        else if read_file os (world s) (argv ! (i + 1)) = None then Inr (None, say Print_script_file_error s)
        else read_args os argv (i + 2) (argv ! (i + 1)) s
      else read_args os argv (i + 1) exe_file s)"
  by pat_completeness auto

termination
  by (relation "measure (\<lambda>x. case x of Inl (os, argv, i, e, s) \<Rightarrow> 2 * (length argv - i) + 1 | Inr (os, argv, i, e, s) \<Rightarrow> 2 * (length argv - i))")
    auto

declare read_args.simps [simp del] script_arg.simps [simp del]

text \<open>For every \<open>-h\<close> the history is written: the newline replaces the zero byte at the end of the command,
  so what follows it in its buffer is written too.\<close>

definition save_history :: "'w os \<Rightarrow> string list \<Rightarrow> nat \<Rightarrow> 'w shell_state \<Rightarrow> 'w shell_state outcome" where
  "save_history os argv i s =
     (if argv ! i \<noteq> ''-h'' then Inr s
      else if length argv \<le> i + 1 then Inl Null_deref
      else if MAX_NAME \<le> length (argv ! (i + 1)) then Inl Out_of_bounds
      else
        let h = map (\<lambda>e. e\<lparr>command := command e @ [NL] @ uninit os\<rparr>) (history s) in
        (case write_file os (argv ! (i + 1)) (concat (map command h)) (world s) of
           None \<Rightarrow> Inl Null_deref
         | Some w \<Rightarrow> Inr (s\<lparr>history := h, world := w\<rparr>)))"

definition kill_left :: "'w os \<Rightarrow> process \<Rightarrow> 'w \<Rightarrow> 'w" where
  "kill_left os e w =
     (if pid e \<noteq> getpid os \<and> proc_status os w (pid e) \<noteq> None then snd (kill os (pid e) SIGKILL w) else w)"

definition shell :: "'w os \<Rightarrow> string list \<Rightarrow> 'w \<Rightarrow> (int \<times> 'w shell_state) outcome option" where
  "shell os argv w =
     (let s = \<lparr>history = [], printed = [], world = w\<rparr> in
      if length argv > 5 then Some (Inr (-1, say Print_usage s))
      else
        (case read_args os argv 1 [] s of
           Inl e \<Rightarrow> Some (Inl e)
         | Inr (None, s) \<Rightarrow> Some (Inr (-1, s))
         | Inr (Some exe_file, s) \<Rightarrow>
             let s = say Print_prompt s in
             (case (if exe_file = [] then Some (Inr s)
                    else case open_script os exe_file (world s) of
                        None \<Rightarrow> Some (Inl Null_deref)
                      | Some w \<Rightarrow> session os Script (s\<lparr>world := w\<rparr>)) of
                None \<Rightarrow> None
              | Some (Inl e) \<Rightarrow> Some (Inl e)
              | Some (Inr s) \<Rightarrow>
                  (case session os Stdin s of
                     None \<Rightarrow> None
                   | Some (Inl e) \<Rightarrow> Some (Inl e)
                   | Some (Inr s) \<Rightarrow>
                       Some (rbind (rfold (save_history os argv) [1..<length argv] s) (\<lambda>s.
                         Inr (0, s\<lparr>world := fold (kill_left os) (history s) (world s)\<rparr>)))))))"

end
