(* ===== verification/Shell_Runs.thy ===== *)
theory Shell_Runs
  imports Shell
begin

text \<open>
  Sessions of \<open>shell/shell.c\<close>: what its history holds, why running a line of the history ends, and where the
  pid of a command goes.
\<close>

section \<open>Commands that run themselves\<close>

text \<open>A newline at the end of a line makes no difference to its words.\<close>

lemma dropWhile_end: "\<not> P x \<Longrightarrow> dropWhile P (xs @ [x]) = dropWhile P xs @ [x]"
  by (induction xs) auto

lemma takeWhile_end: "\<not> P x \<Longrightarrow> takeWhile P (xs @ [x]) = takeWhile P xs"
  by (induction xs) auto

lemma tokens_NL: "tokens (str @ [NL]) = tokens str"
proof (induction str rule: tokens.induct)
  case (1 str)
  have d: "delim NL" by (simp add: delim_def)
  show ?case
  proof (cases "dropWhile delim str = []")
    case True
    then have "\<forall>c \<in> set str. delim c" by (simp add: dropWhile_eq_Nil_conv)
    then have "dropWhile delim (str @ [NL]) = []" using d by (simp add: dropWhile_eq_Nil_conv)
    then show ?thesis using True by (simp add: tokens.simps [of str] tokens.simps [of "str @ [NL]"])
  next
    case False
    then obtain c where c: "c \<in> set str" "\<not> delim c" by (auto simp: dropWhile_eq_Nil_conv)
    have dw: "dropWhile delim (str @ [NL]) = dropWhile delim str @ [NL]" using c by (metis dropWhile_append1)
    have tw: "takeWhile (\<lambda>c. \<not> delim c) (dropWhile delim str @ [NL]) = takeWhile (\<lambda>c. \<not> delim c) (dropWhile delim str)"
      using d by (intro takeWhile_end) simp
    have dn: "dropWhile (\<lambda>c. \<not> delim c) (dropWhile delim str @ [NL]) = dropWhile (\<lambda>c. \<not> delim c) (dropWhile delim str) @ [NL]"
      using d by (intro dropWhile_end) simp
    show ?thesis
      unfolding tokens.simps [of "str @ [NL]"] tokens.simps [of str] Let_def dw tw dn 1 [OF refl False] using False by simp
  qed
qed

lemma parse_chomp: "chomp line = Inr c \<Longrightarrow> parse c = parse line"
proof (cases "line \<noteq> [] \<and> last line = NL")
  case True
  then have "butlast line @ [NL] = line" by (metis append_butlast_last_id)
  then have "tokens (butlast line) = tokens line" using tokens_NL [of "butlast line"] by simp
  moreover assume "chomp line = Inr c"
  ultimately show ?thesis using True by (simp add: chomp_def parse_def)
next
  case False
  moreover assume "chomp line = Inr c"
  ultimately show ?thesis by (auto simp: chomp_def split: if_splits)
qed

text \<open>The command can be run from the history without another look at the history.\<close>

definition runs_itself :: "string \<Rightarrow> bool" where
  "runs_itself c \<longleftrightarrow> NL \<notin> set c \<and> (case parse c of
      Inl _ \<Rightarrow> False
    | Inr p \<Rightarrow> (case words p of [] \<Rightarrow> False | w # _ \<Rightarrow> w = [] \<or> hd w \<noteq> CHR ''#'' \<and> hd w \<noteq> CHR ''!''))"

definition plain_history :: "'w shell_state \<Rightarrow> bool" where
  "plain_history s \<longleftrightarrow> (\<forall>e \<in> set (history s). runs_itself (command e))"

section \<open>What the operations do to the history\<close>

lemma history_simps [simp]:
  "history (say e s) = history s" "history (ps_entry os p name s) = history s" "history (ps_command os p s) = history s"
  "history (print_history s) = history s"
proof -
  show s: "history (say e s) = history s" for e and s :: "'a shell_state" by (simp add: say_def)
  show p: "history (ps_entry os p name s) = history s" for name and s :: "'a shell_state" by (simp add: ps_entry_def Let_def s split: option.split)
  have "history (fold (ps_entry os p) names s) = history s" for names s by (induction names arbitrary: s) (simp_all add: p)
  then show "history (ps_command os p s) = history s" by (simp add: ps_command_def Let_def s split: option.split)
  have "history (fold (\<lambda>i. say (f i)) ns s) = history s" for f ns and s :: "'a shell_state"
    by (induction ns arbitrary: s) (simp_all add: s)
  then show "history (print_history s) = history s" by (simp add: print_history_def)
qed

lemma external_run_history: "external_run os ws z s = Inr (r, s') \<Longrightarrow> history s' = history s"
  by (auto simp: external_run_def Let_def split: prod.splits if_splits)

lemma run_cmd_history: "run_cmd os ws z s = Inr (r, s') \<Longrightarrow> history s' = history s"
  using external_run_history by (fastforce simp: run_cmd_def Let_def split: list.splits if_splits prod.splits)

lemma redirect_history: "redirect os ws f m s = Inr (r, s') \<Longrightarrow> history s' = history s"
  by (auto simp: redirect_def Let_def split: prod.splits if_splits option.splits)

lemma signal_process_history: "signal_process os sg ev ws s = Inr (r, s') \<Longrightarrow> history s' = history s"
  by (cases "kill os (atoi (hd (tl ws))) sg (world s)")
    (auto simp: signal_process_def Let_def rbind_eq_Inr split: list.splits option.splits if_splits)

lemma modify_first_commands: "map command (modify_first c p h) = map command h"
  by (induction h) auto

text \<open>The operations that leave the commands alone, and their compositions.\<close>

definition keeps :: "('w shell_state \<Rightarrow> ('r \<times> 'w shell_state) outcome) \<Rightarrow> bool" where
  "keeps f \<longleftrightarrow> (\<forall>s r s'. f s = Inr (r, s') \<longrightarrow> map command (history s') = map command (history s))"

lemma keeps_bind: "keeps f \<Longrightarrow> (\<And>r. keeps (g r)) \<Longrightarrow> keeps (\<lambda>s. rbind (f s) (\<lambda>(r, s). g r s))"
  unfolding keeps_def by (fastforce simp: rbind_eq_Inr)

lemma keeps_if: "keeps f \<Longrightarrow> keeps g \<Longrightarrow> keeps (\<lambda>s. if b then f s else g s)"
  by (simp add: keeps_def)

lemma keeps_basic:
  "keeps (\<lambda>s. Inr (r, s))" "keeps (\<lambda>s. Inr (r, modify_pid c q s))" "keeps (run_cmd os ws z)" "keeps (redirect os ws f m)"
  by (auto simp: keeps_def modify_pid_def modify_first_commands dest: run_cmd_history redirect_history)

lemmas keeps_intros = keeps_bind keeps_if keeps_basic

lemma run_external_history:
  assumes "run_external os input p s = Inr (r, s')"
  shows "map command (history s') = map command (history s) @ [input]"
proof -
  define after where "after = (\<lambda>s. if mode p = 0 then
       rbind (run_cmd os (words p) (zombie p) s) (\<lambda>(r, s).
       if r = -1 then Inr (-1, s) else Inr (0, modify_pid input r s))
     else if mode p = 1 then
       rbind (run_cmd os (words p) (zombie p) s) (\<lambda>(_, s).
       rbind (run_cmd os (words1 p) (zombie p) s) (\<lambda>(r, s).
       Inr (0, modify_pid input r s)))
     else if mode p = 2 then
       rbind (run_cmd os (words p) (zombie p) s) (\<lambda>(r, s).
       if r = -1 then Inr (-1, s)
       else rbind (run_cmd os (words1 p) (zombie p) s) (\<lambda>(r, s).
         if r = -1 then Inr (-1, s) else Inr (0, modify_pid input (getpid os) s)))
     else if mode p = 3 then
       rbind (run_cmd os (words p) (zombie p) s) (\<lambda>(r, s).
       if r = -1 then
         rbind (run_cmd os (words1 p) (zombie p) s) (\<lambda>(r, s).
         if r = -1 then Inr (-1, s) else Inr (0, modify_pid input (getpid os) s))
       else Inr (0, modify_pid input (getpid os) s))
     else
       rbind (redirect os (words p) (case words1 p of [] \<Rightarrow> None | f # _ \<Rightarrow> Some f) (mode p) s) (\<lambda>(r, s).
       Inr (0 :: int, modify_pid input r s)))"
  have "keeps after" unfolding after_def by (intro keeps_intros)
  moreover obtain s1 where s1: "store_process input (getpid os) s = Inr s1" "after s1 = Inr (r, s')"
    using assms unfolding run_external_def after_def by (elim rbind_InrE)
  ultimately have "map command (history s') = map command (history s1)" unfolding keeps_def by blast
  then show ?thesis using s1(1) by (auto simp: store_process_def split: if_splits)
qed

text \<open>What a line does, when it is not handed on to a line of the history.\<close>

lemma dispatch_eq:
  assumes "chomp line = Inr c" "parse line = Inr p" "words p = w # ws"
  shows "dispatch os line s =
    (if w = ''!history'' then Inr (Done 0 (print_history s))
     else if w \<noteq> [] \<and> hd w = CHR ''#'' then
       let num = atoi (tl w) in
       if num > int (length (history s)) then Inr (Done (-1) (say Print_invalid_index s))
       else if num < 0 \<or> num = int (length (history s)) then Inl Out_of_bounds
       else Inr (Rerun (nat num) (say (Print_command (command (history s ! nat num))) s))
     else if w \<noteq> [] \<and> hd w = CHR ''!'' then
       (case last_match (tl c) (history s) of
          None \<Rightarrow> Inr (Done 0 (say Print_no_history_match s))
        | Some i \<Rightarrow> Inr (Rerun i (say (Print_command (command (history s ! i))) s)))
     else if w = ''kill'' then rbind (signal_process os SIGKILL Print_killed_process (words p) s) (\<lambda>(r, s). Inr (Done r s))
     else if w = ''stop'' then rbind (signal_process os SIGSTOP Print_stopped_process (words p) s) (\<lambda>(r, s). Inr (Done r s))
     else if w = ''cont'' then rbind (signal_process os SIGCONT Print_continued_process (words p) s) (\<lambda>(r, s). Inr (Done r s))
     else rbind (run_external os c p s) (\<lambda>(r, s). Inr (Done r s)))"
  using assms by (simp add: dispatch_def)

lemma dispatch_Inr:
  assumes "dispatch os line s = Inr d"
  obtains c p w ws where "chomp line = Inr c" "parse line = Inr p" "words p = w # ws"
proof -
  from assms obtain c p where c: "chomp line = Inr c" "parse line = Inr p" unfolding dispatch_def by (elim rbind_InrE) blast
  then have "words p \<noteq> []" using assms by (auto simp: dispatch_def)
  then show thesis using c that by (cases "words p") simp_all
qed

lemma signal_done:
  assumes "rbind (signal_process os sg ev ws s) (\<lambda>(r, s). Inr (Done r s)) = Inr (Done r s')" shows "history s' = history s"
  using assms signal_process_history by (auto simp: rbind_eq_Inr)

lemma dispatch_done:
  assumes d: "dispatch os line s = Inr (Done r s')"
  shows "history s' = history s \<or>
    (\<exists>c. chomp line = Inr c \<and> map command (history s') = map command (history s) @ [c] \<and> (NL \<notin> set c \<longrightarrow> runs_itself c))"
proof -
  obtain c p w ws where c: "chomp line = Inr c" "parse line = Inr p" "words p = w # ws" using dispatch_Inr [OF d] .
  note eq = d [unfolded dispatch_eq [OF c] Let_def]
  have pc: "parse c = Inr p" using parse_chomp [OF c(1)] c(2) by simp
  show ?thesis
  proof (cases "w = ''!history'' \<or> w \<noteq> [] \<and> (hd w = CHR ''#'' \<or> hd w = CHR ''!'')")
    case True
    then show ?thesis using eq by (auto split: if_splits option.splits)
  next
    case False
    note nf = this
    show ?thesis
    proof (cases "w = ''kill'' \<or> w = ''stop'' \<or> w = ''cont''")
      case True
      then have "history s' = history s" using eq by (auto dest: signal_done)
      then show ?thesis by simp
    next
      case False
      then have "run_external os c p s = Inr (r, s')" using eq nf by (auto simp: rbind_eq_Inr split: if_splits)
      then have "map command (history s') = map command (history s) @ [c]" by (rule run_external_history)
      moreover have "NL \<notin> set c \<longrightarrow> runs_itself c" using nf pc c(3) by (auto simp: runs_itself_def)
      ultimately show ?thesis using c(1) by blast
    qed
  qed
qed

lemma not_rerun: "rbind m (\<lambda>(r, s). Inr (Done r s)) \<noteq> Inr (Rerun i s')"
  by (auto simp: rbind_eq_Inr)

lemma dispatch_rerun:
  assumes d: "dispatch os line s = Inr (Rerun i s')"
  shows "i < length (history s) \<and> history s' = history s"
proof -
  obtain c p w ws where c: "chomp line = Inr c" "parse line = Inr p" "words p = w # ws" using dispatch_Inr [OF d] .
  note eq = d [unfolded dispatch_eq [OF c] Let_def]
  have lm: "j < length (history s)" if "last_match q (history s) = Some j" for q j
  proof -
    have "j \<in> set (rev [0..<length (history s)])" using that unfolding last_match_def find_Some_iff by (metis nth_mem)
    then show ?thesis by simp
  qed
  show ?thesis using eq lm by (auto simp: not_rerun split: if_splits option.splits)
qed

lemma dispatch_runs_itself:
  assumes "runs_itself line" shows "dispatch os line s \<noteq> Inr (Rerun i s')"
proof
  assume d: "dispatch os line s = Inr (Rerun i s')"
  obtain c p w ws where c: "chomp line = Inr c" "parse line = Inr p" "words p = w # ws" using dispatch_Inr [OF d] .
  have "w = [] \<or> hd w \<noteq> CHR ''#'' \<and> hd w \<noteq> CHR ''!''" using assms c by (simp add: runs_itself_def)
  then show False using d [unfolded dispatch_eq [OF c] Let_def] by (auto simp: not_rerun split: if_splits)
qed

section \<open>Sessions\<close>

lemma chomp_plain: "NL \<notin> set c \<Longrightarrow> chomp c = (if c = [] then Inl Out_of_bounds else Inr c)"
  by (auto simp: chomp_def dest: last_in_set)

lemma plain_history_commands: "plain_history s \<longleftrightarrow> (\<forall>c \<in> set (map command (history s)). runs_itself c)"
  by (simp add: plain_history_def)

definition extends :: "'w shell_state \<Rightarrow> 'w shell_state \<Rightarrow> bool" where
  "extends s s' \<longleftrightarrow> (\<exists>cs. map command (history s') = map command (history s) @ cs \<and> length cs \<le> 1 \<and> (\<forall>c \<in> set cs. runs_itself c))"

lemma done_extends:
  assumes "dispatch os line s = Inr (Done r s')" "NL \<notin> set (butlast line)"
  shows "extends s s'"
proof -
  have nl: "NL \<notin> set c" if "chomp line = Inr c" for c
  proof (cases "line \<noteq> [] \<and> last line = NL")
    case True
    then show ?thesis using that assms(2) by (simp add: chomp_def)
  next
    case False
    then have "c = line" "line \<noteq> []" "last line \<noteq> NL" using that by (auto simp: chomp_def split: if_splits)
    moreover have "set line = insert (last line) (set (butlast line))"
      using \<open>line \<noteq> []\<close> by (metis append_butlast_last_id list.simps(15) rotate1.simps(2) set_rotate1)
    ultimately show ?thesis using assms(2) by simp
  qed
  from dispatch_done [OF assms(1)] show ?thesis
  proof
    assume "history s' = history s"
    then show ?thesis unfolding extends_def by (intro exI [of _ "[]"]) simp
  next
    assume "\<exists>c. chomp line = Inr c \<and> map command (history s') = map command (history s) @ [c] \<and> (NL \<notin> set c \<longrightarrow> runs_itself c)"
    then obtain c where "chomp line = Inr c" "map command (history s') = map command (history s) @ [c]" "NL \<notin> set c \<longrightarrow> runs_itself c"
      by blast
    then show ?thesis unfolding extends_def using nl by (intro exI [of _ "[c]"]) simp
  qed
qed

lemma run_returns:
  assumes h: "plain_history s" and line: "NL \<notin> set (butlast line)"
  shows "\<exists>y. run os line s = Some y \<and> (\<forall>r s'. y = Inr (r, s') \<longrightarrow> extends s s')"
proof (cases "dispatch os line s")
  case (Inl e)
  then show ?thesis by (subst run.simps) simp
next
  case (Inr d)
  show ?thesis
  proof (cases d)
    case (Done r s')
    then show ?thesis using Inr done_extends [OF _ line] by (subst run.simps) simp
  next
    case (Rerun i s1)
    note d = Inr [unfolded Rerun]
    have i: "i < length (history s)" "history s1 = history s" using dispatch_rerun [OF d] by blast+
    have ri: "runs_itself (command (history s ! i))" using h i(1) by (simp add: plain_history_def)
    then have nl: "NL \<notin> set (command (history s ! i))" by (simp add: runs_itself_def)
    show ?thesis
    proof (cases "command (history s ! i) = []")
      case True
      then show ?thesis using d i(2) by (subst run.simps) (simp add: chomp_history_def chomp_def)
    next
      case False
      then have ch: "chomp_history i s1 = Inr s1"
        using chomp_plain [OF nl] i(2) by (simp add: chomp_history_def)
      have "\<exists>y. run os (command (history s ! i)) s1 = Some y \<and> (\<forall>r s'. y = Inr (r, s') \<longrightarrow> extends s1 s')"
      proof (cases "dispatch os (command (history s ! i)) s1")
        case (Inl e)
        then show ?thesis by (subst run.simps) simp
      next
        case (Inr d')
        then obtain r s' where "d' = Done r s'" using dispatch_runs_itself [OF ri] by (cases d') auto
        then show ?thesis using Inr done_extends [of os _ s1 r s'] nl by (subst run.simps) (auto dest: in_set_butlastD)
      qed
      then obtain y where y: "run os (command (history s ! i)) s1 = Some y" "\<forall>r s'. y = Inr (r, s') \<longrightarrow> extends s1 s'" by blast
      have "run os line s = Some (rbind y (\<lambda>(_, s). Inr (0, s)))" using d ch y(1) i(2) by (subst run.simps) simp
      moreover have "extends s s'" if "rbind y (\<lambda>(_, s). Inr (0, s)) = Inr (r, s')" for r s'
        using that y(2) i(2) by (auto simp: rbind_eq_Inr extends_def)
      ultimately show ?thesis by blast
    qed
  qed
qed

lemma extends_plain:
  assumes "plain_history s" "extends s s'" shows "plain_history s'"
proof -
  obtain cs where cs: "map command (history s') = map command (history s) @ cs" "\<forall>c \<in> set cs. runs_itself c"
    using assms(2) unfolding extends_def by blast
  then have "set (map command (history s')) = set (map command (history s)) \<union> set cs" by simp
  then show ?thesis using assms(1) cs(2) unfolding plain_history_commands by blast
qed

text \<open>So a shell whose history holds only commands that run themselves, as one started without a history file does,
  gets an answer or a fault from every line, and the history stays so.\<close>

theorem shell_line_returns:
  assumes "plain_history s" "NL \<notin> set (butlast line)"
  shows "\<exists>y. run os line s = Some y \<and> (\<forall>r s'. y = Inr (r, s') \<longrightarrow> plain_history s')"
  using run_returns [OF assms, of os] extends_plain [OF assms(1)] by blast

text \<open>A line of the history that runs itself for ever.\<close>

lemma run_loops:
  assumes "run os line s = Some y"
  shows "\<not> (line \<in> {''#0'', ''#0'' @ [NL]} \<and> (\<exists>e h. history s = e # h \<and> command e = ''#0''))"
proof (rule run.raw_induct [OF _ assms])
  fix run :: "'a os \<Rightarrow> string \<Rightarrow> 'a shell_state \<Rightarrow> (int \<times> 'a shell_state) outcome option" and os line s y
  assume IH: "\<And>os line s y. run os line s = Some y \<Longrightarrow>
      \<not> (line \<in> {''#0'', ''#0'' @ [NL]} \<and> (\<exists>e h. history s = e # h \<and> command e = ''#0''))"
    and r: "(case dispatch os line s of
        Inl e \<Rightarrow> Some (Inl e)
      | Inr (Done r s) \<Rightarrow> Some (Inr (r, s))
      | Inr (Rerun i s) \<Rightarrow>
          (case chomp_history i s of
             Inl e \<Rightarrow> Some (Inl e)
           | Inr s' \<Rightarrow> Option.bind (run os (command (history s ! i)) s') (\<lambda>r. Some (rbind r (\<lambda>(_, s). Inr (0, s)))))) = Some y"
  show "\<not> (line \<in> {''#0'', ''#0'' @ [NL]} \<and> (\<exists>e h. history s = e # h \<and> command e = ''#0''))"
  proof
    assume h: "line \<in> {''#0'', ''#0'' @ [NL]} \<and> (\<exists>e h. history s = e # h \<and> command e = ''#0'')"
    then obtain e hs where e: "history s = e # hs" "command e = ''#0''" by blast
    have "tokens ''#0'' = [''#0'']" by (simp add: tokens.simps delim_def NL_def)
    then have t: "tokens line = [''#0'']" using h tokens_NL [of "''#0''"] by auto
    then have p: "parse line = Inr \<lparr>words = [''#0''], words1 = [], zombie = False, mode = 0\<rparr>"
      by (simp add: parse_def parse_word_def push_word_def end_words_def MAX_WORDS_def)
    have c: "chomp line = Inr ''#0''" using h by (auto simp: chomp_def NL_def)
    have a: "atoi ''0'' = 0" by (simp add: atoi_def is_space_def is_digit_def digits_value_def)
    have "dispatch os line s = Inr (Rerun 0 (say (Print_command ''#0'') s))"
      by (simp add: dispatch_eq [OF c p, of "''#0''" "[]"] e a)
    moreover have "chomp_history 0 (say (Print_command ''#0'') s) = Inr (say (Print_command ''#0'') s)"
      using e by (simp add: chomp_history_def chomp_def NL_def say_def)
    ultimately have "\<exists>z. run os ''#0'' (say (Print_command ''#0'') s) = Some z" using r e by (auto simp: Option.bind_eq_Some_conv)
    then show False using IH [of os "''#0''" "say (Print_command ''#0'') s"] e by auto
  qed
qed

text \<open>C38: with a history file a line may not come back. When the file holds the line \<open>#0\<close> and the first line of the
  standard input is \<open>#0\<close>, that runs the first line of the history, which is itself: the shell never comes back,
  whatever comes after it.\<close>

theorem shell_history_loop:
  assumes "length f < MAX_NAME" "f \<noteq> ''-f''" "read_file os w f = Some (''#0'' @ [NL])"
    and "next_line os Stdin w = (Some (''#0'' @ [NL]), w')"
  shows "shell os [prog, ''-h'', f] w = None"
proof -
  let ?s = "\<lparr>history = [], printed = [], world = w\<rparr>"
  let ?s1 = "\<lparr>history = [\<lparr>command = ''#0'', pid = getpid os\<rparr>], printed = [], world = w\<rparr>"
  let ?s2 = "(say Print_prompt ?s1)\<lparr>world := w'\<rparr>"
  have il: "input_lines n (''#0'' @ [NL] @ cs) = (''#0'' @ [NL]) # input_lines n cs" if "4 \<le> n" for n cs
    using that by (subst input_lines.simps) (simp add: Let_def NL_def)
  have nil: "input_lines n [] = []" for n by (subst input_lines.simps) simp
  have "load_history os (''#0'' @ [NL]) ?s = Inr ?s1"
    using il [of "length (''#0'' @ [NL]) + 2" "[]"]
    by (simp add: load_history_def nil store_process_def MAX_HISTORY_def MAX_COMMAND_def)
  then have a: "read_args os [prog, ''-h'', f] 1 [] ?s = Inr (Some [], ?s1)"
    using assms by (simp add: read_args.simps script_arg.simps)
  have "run os (''#0'' @ [NL]) ?s2 = None"
    using run_loops [of os "''#0'' @ [NL]" ?s2] by (cases "run os (''#0'' @ [NL]) ?s2") (auto simp: say_def)
  moreover have "next_line os Stdin (world (say Print_prompt ?s1)) = (Some (''#0'' @ [NL]), w')"
    using assms(4) by (simp add: say_def)
  ultimately have "session os Stdin (say Print_prompt ?s1) = None"
    by (subst session.simps) (simp add: NL_def)
  then show ?thesis using a by (simp add: shell_def)
qed

text \<open>An operating system for the witnesses: \<open>fork\<close> counts, the file \<open>h\<close> holds \<open>#0\<close>, and so does each line of the
  standard input.\<close>

definition small_os :: "nat os" where
  "small_os = \<lparr>getpid = 1, fork = (\<lambda>_ w. (int w + 100, w + 1)), waitpid = (\<lambda>p w. (p, 0, w)), wait = (\<lambda>w. w), chdir = (\<lambda>_ w. (0, w)),
     kill = (\<lambda>_ _ w. (0, w)), proc_dir = (\<lambda>_. None), proc_status = (\<lambda>_ _. None), proc_cmdline = (\<lambda>_ _. None),
     read_file = (\<lambda>_ f. if f = ''h'' then Some (''#0'' @ [NL]) else None), open_script = (\<lambda>_ _. None),
     next_line = (\<lambda>_ w. (Some (''#0'' @ [NL]), w + 1)), write_file = (\<lambda>_ _ w. Some w), uninit = []\<rparr>"

theorem shell_history_loop_witness: "shell small_os [''shell'', ''-h'', ''h''] 0 = None"
  by (rule shell_history_loop) (simp_all add: small_os_def MAX_NAME_def)

lemma modify_first_at:
  "i < length h \<Longrightarrow> command (h ! i) = c \<Longrightarrow> \<forall>j < i. command (h ! j) \<noteq> c \<Longrightarrow>
   modify_first c q (h @ t) = h[i := (h ! i)\<lparr>pid := q\<rparr>] @ t"
proof (induction h arbitrary: i)
  case (Cons e h)
  show ?case
  proof (cases i)
    case (Suc k)
    have "\<forall>j < k. command (h ! j) \<noteq> c" "command e \<noteq> c"
      using Cons.prems(3) Suc by (metis Suc_less_eq nth_Cons_Suc) (use Cons.prems(3) Suc in fastforce)
    then show ?thesis using Cons Suc by simp
  qed (use Cons.prems in simp)
qed simp

text \<open>The pid of a repeated command goes to the wrong entry. When the history holds the command of a line
  already, starting it in the background puts the new pid into the earlier entry, over the pid that
  was there, and the new entry keeps the pid of the shell: at the end of the shell, which kills the
  processes of the history, the earlier process is no longer among them.\<close>

theorem shell_repeated_command:
  assumes "chomp line = Inr c" "parse line = Inr p" "mode p = 0" "zombie p" "words p = w0 # ws"
    and "w0 \<notin> {''cd'', ''ps'', ''kill'', ''stop'', ''cont''}" "w0 = [] \<or> hd w0 \<noteq> CHR ''#'' \<and> hd w0 \<noteq> CHR ''!''"
    and "fork os [Setpgid, Execvp (words p) True] (world s) = (q, w)" "0 < q"
    and "length (history s) < MAX_HISTORY" "length c < MAX_COMMAND"
    and "i < length (history s)" "command (history s ! i) = c" "\<forall>j < i. command (history s ! j) \<noteq> c"
  shows "\<exists>s'. run os line s = Some (Inr (0, s')) \<and>
    history s' = (history s)[i := (history s ! i)\<lparr>pid := q\<rparr>] @ [\<lparr>command = c, pid = getpid os\<rparr>]"
proof -
  let ?s1 = "s\<lparr>history := history s @ [\<lparr>command = c, pid = getpid os\<rparr>]\<rparr>"
  let ?s2 = "say (Print_command_executed q) (?s1\<lparr>world := w\<rparr>)"
  have "w0 \<noteq> ''!history''" using assms(7) by auto
  then have "dispatch os line s = rbind (run_external os c p s) (\<lambda>(r, s). Inr (Done r s))"
    using assms(6,7) unfolding dispatch_eq [OF assms(1,2,5)] by auto
  moreover have "run_cmd os (words p) (zombie p) ?s1 = Inr (q, ?s2)"
    using assms(4,6,8,9) unfolding assms(5) by (simp add: run_cmd_def external_run_def)
  then have "run_external os c p s = Inr (0, modify_pid c q ?s2)"
    using assms(3,9,10,11) by (simp add: run_external_def store_process_def)
  ultimately have "run os line s = Some (Inr (0, modify_pid c q ?s2))" by (subst run.simps) simp
  moreover have "history (modify_pid c q ?s2) = (history s)[i := (history s ! i)\<lparr>pid := q\<rparr>] @ [\<lparr>command = c, pid = getpid os\<rparr>]"
    using modify_first_at [OF assms(12,13,14)] by (simp add: modify_pid_def say_def)
  ultimately show ?thesis by blast
qed

theorem shell_repeated_command_witness:
  "\<exists>s'. run small_os (''a &'' @ [NL]) \<lparr>history = [\<lparr>command = ''a &'', pid = 50\<rparr>], printed = [], world = 7\<rparr> = Some (Inr (0, s')) \<and>
     map pid (history s') = [107, 1]"
proof -
  let ?s = "\<lparr>history = [\<lparr>command = ''a &'', pid = 50\<rparr>], printed = [], world = 7\<rparr> :: nat shell_state"
  let ?p = "\<lparr>words = [''a''], words1 = [], zombie = True, mode = 0\<rparr>"
  have "tokens ''a &'' = [''a'', ''&'']" by (simp add: tokens.simps delim_def NL_def)
  then have "parse (''a &'' @ [NL]) = Inr ?p"
    unfolding parse_def tokens_NL by (simp add: parse_word_def push_word_def end_words_def MAX_WORDS_def)
  moreover have "chomp (''a &'' @ [NL]) = Inr ''a &''" by (simp add: chomp_def NL_def)
  ultimately have "\<exists>s'. run small_os (''a &'' @ [NL]) ?s = Some (Inr (0, s')) \<and>
      history s' = (history ?s)[0 := (history ?s ! 0)\<lparr>pid := 107\<rparr>] @ [\<lparr>command = ''a &'', pid = getpid small_os\<rparr>]"
    by (intro shell_repeated_command [of _ _ ?p "''a''" "[]" _ _ _ 8]) (simp_all add: small_os_def MAX_HISTORY_def MAX_COMMAND_def)
  then show ?thesis by (auto simp: small_os_def)
qed

end
