(* ===== verification/Parmake.thy ===== *)
theory Parmake
  imports Interfaces
begin

text \<open>
  \<open>parallel_make/parmake.c\<close>: from the dependency graph of a makefile to threads that run its rules.

  The graph and the sets are libraries that are not in the repository: the parameter \<open>lib\<close>, a record of
  their functions, of which \<open>make_laws\<close> says what they promise. A vertex is the name of its rule; the empty
  name is the vertex that leads to the goals. The sets are shallow, they compare pointers: the library hands
  out one pointer for one vertex. The depth-first searches have fuel, one unit per level of the recursion.
\<close>

record ('g, 's) make_lib =
  graph_neighbors :: "'g \<Rightarrow> string \<Rightarrow> string list"
  graph_remove_edge :: "'g \<Rightarrow> string \<Rightarrow> string \<Rightarrow> 'g"
  shallow_set_create :: 's
  set_add :: "string \<Rightarrow> 's \<Rightarrow> 's"
  set_remove :: "string \<Rightarrow> 's \<Rightarrow> 's"
  set_contains :: "'s \<Rightarrow> string \<Rightarrow> bool"

section \<open>Cycles\<close>

function graph_has_cycle_util_make :: "('g, 's) make_lib \<Rightarrow> nat \<Rightarrow> 'g \<Rightarrow> string \<Rightarrow> 's \<times> 's \<Rightarrow> (bool \<times> 's \<times> 's) outcome"
  and cycle_scan :: "('g, 's) make_lib \<Rightarrow> nat \<Rightarrow> 'g \<Rightarrow> string list \<Rightarrow> 's \<times> 's \<Rightarrow> (bool \<times> 's \<times> 's) outcome" where
  "graph_has_cycle_util_make lib 0 g vertex st = Inl Diverges"
| "graph_has_cycle_util_make lib (Suc n) g vertex (vis, stack) =
     rbind (cycle_scan lib n g (graph_neighbors lib g vertex) (set_add lib vertex vis, set_add lib vertex stack)) (\<lambda>(b, vis, stack).
     if b then Inr (True, vis, stack) else Inr (False, vis, set_remove lib vertex stack))"
| "cycle_scan lib n g [] st = Inr (False, st)"
| "cycle_scan lib n g (a # as) (vis, stack) =
     (if set_contains lib stack a then Inr (True, vis, stack)
      else if \<not> set_contains lib vis a then
        rbind (graph_has_cycle_util_make lib n g a (vis, stack)) (\<lambda>(b, st).
        if b then Inr (True, st) else cycle_scan lib n g as st)
      else cycle_scan lib n g as (vis, stack))"
  by pat_completeness auto

termination
  by (relation "inv_image (less_than <*lex*> less_than)
        (\<lambda>x. case x of Inl (lib, n, g, v, st) \<Rightarrow> (n, 0) | Inr (lib, n, g, as, st) \<Rightarrow> (n, Suc (length as)))") auto

text \<open>The loop over the goals: the graph without the goals that lead to a cycle, and these in order.\<close>

fun check_goals ::
  "('g, 's) make_lib \<Rightarrow> nat \<Rightarrow> string list \<Rightarrow> 'g \<Rightarrow> 's \<times> 's \<Rightarrow> string list \<Rightarrow> ('g \<times> string list) outcome" where
  "check_goals lib n [] g st failed = Inr (g, failed)"
| "check_goals lib n (vertex # vertices) g (visited, stack) failed =
     (if \<not> set_contains lib visited vertex then
        rbind (graph_has_cycle_util_make lib n g vertex (visited, stack)) (\<lambda>(b, st).
        if b then check_goals lib n vertices (graph_remove_edge lib g [] vertex) st (failed @ [vertex])
        else check_goals lib n vertices g st failed)
      else if set_contains lib stack vertex then
        check_goals lib n vertices (graph_remove_edge lib g [] vertex) (visited, stack) (failed @ [vertex])
      else check_goals lib n vertices g (visited, stack) failed)"

definition check_cycle :: "('g, 's) make_lib \<Rightarrow> nat \<Rightarrow> 'g \<Rightarrow> ('g \<times> string list) outcome" where
  "check_cycle lib n g =
     check_goals lib n (graph_neighbors lib g []) g (shallow_set_create lib, shallow_set_create lib) []"

section \<open>The order of the rules\<close>

function topological_sort_util ::
  "('g, 's) make_lib \<Rightarrow> nat \<Rightarrow> 'g \<Rightarrow> string \<Rightarrow> 's \<times> 's \<times> string list \<Rightarrow> ('s \<times> 's \<times> string list) outcome"
  and sort_scan ::
  "('g, 's) make_lib \<Rightarrow> nat \<Rightarrow> 'g \<Rightarrow> string list \<Rightarrow> 's \<times> 's \<times> string list \<Rightarrow> ('s \<times> 's \<times> string list) outcome" where
  "topological_sort_util lib 0 g target st = Inl Diverges"
| "topological_sort_util lib (Suc n) g target (visited, stack, order) =
     rbind (sort_scan lib n g (graph_neighbors lib g target) (set_add lib target visited, set_add lib target stack, order))
       (\<lambda>(visited, stack, order). Inr (visited, stack, order @ [target]))"
| "sort_scan lib n g [] st = Inr st"
| "sort_scan lib n g (v # vs) (visited, stack, order) =
     (if \<not> set_contains lib visited v
      then rbind (topological_sort_util lib n g v (visited, stack, order)) (sort_scan lib n g vs)
      else sort_scan lib n g vs (visited, stack, order))"
  by pat_completeness auto

termination
  by (relation "inv_image (less_than <*lex*> less_than)
        (\<lambda>x. case x of Inl (lib, n, g, v, st) \<Rightarrow> (n, 0) | Inr (lib, n, g, as, st) \<Rightarrow> (n, Suc (length as)))") auto

text \<open>The loop over the targets is that over the neighbours.\<close>

definition topological_sort :: "('g, 's) make_lib \<Rightarrow> nat \<Rightarrow> string list \<Rightarrow> 'g \<Rightarrow> string list outcome" where
  "topological_sort lib n targets g =
     rbind (sort_scan lib n g targets (shallow_set_create lib, shallow_set_create lib, [])) (\<lambda>(_, _, order). Inr order)"

section \<open>The jobs\<close>

text \<open>The threads share the job queue and, under the lock, the states of the rules: 0 for not yet, 1 for done,
  2 for queued, -1 for failed. A thread is at a call of \<open>queue_pull\<close>, about to put the empty name back, at the
  dependency to check, at the look at its own rule, at the next command, before the update, or has ended.
  \<open>ran\<close> records the rules in the order in which their commands were started.\<close>

datatype make_pc =
    Pull
  | Put_back
  | Check string "string list"
  | Look string int
  | Run string "string list"
  | Update string int
  | Ended

record make_sys =
  jobs :: "string list"
  rstate :: "string \<Rightarrow> int"
  mpcs :: "make_pc list"
  ran :: "string list"

text \<open>One round of the loop over the sorted rules; \<open>made\<close> says for which names there is a file.\<close>

fun dep_flag :: "(string \<Rightarrow> int) \<Rightarrow> string list \<Rightarrow> int" where
  "dep_flag st [] = 1"
| "dep_flag st (d # ds) = (if st d = -1 then -1 else if st d \<noteq> 1 then 0 else dep_flag st ds)"

definition update_rule ::
  "(string \<Rightarrow> string list) \<Rightarrow> (string \<Rightarrow> bool) \<Rightarrow> string \<Rightarrow> (string \<Rightarrow> int) \<times> string list \<Rightarrow> (string \<Rightarrow> int) \<times> string list" where
  "update_rule deps made v = (\<lambda>(st, q).
     let st = (if made v then st(v := 1) else st) in
     if st v \<noteq> 0 then (st, q)
     else
       let flag = dep_flag st (deps v) in
       if flag = -1 then (st(v := -1), q)
       else if flag = 0 then (st, q)
       else (st(v := 2), q @ [v]))"

definition update_rules ::
  "(string \<Rightarrow> string list) \<Rightarrow> (string \<Rightarrow> bool) \<Rightarrow> string list \<Rightarrow> string list \<Rightarrow> (string \<Rightarrow> int) \<Rightarrow> string list \<Rightarrow>
   (string \<Rightarrow> int) \<times> string list" where
  "update_rules deps made order goals st q =
     (let (st, q) = fold (update_rule deps made) order (st, q) in
      (st, if \<forall>g \<in> set goals. st g \<noteq> 0 then q @ [[]] else q))"

text \<open>\<open>parmake\<close> before the threads: rules whose file exists are done, and the rules all of whose dependencies
  are done are queued.\<close>

definition first_states :: "(string \<Rightarrow> bool) \<Rightarrow> string list \<Rightarrow> string \<Rightarrow> int" where
  "first_states made order = fold (\<lambda>v st. if made v then st(v := 1) else st) order (\<lambda>_. 0)"

definition first_job :: "(string \<Rightarrow> string list) \<Rightarrow> string \<Rightarrow> (string \<Rightarrow> int) \<times> string list \<Rightarrow> (string \<Rightarrow> int) \<times> string list" where
  "first_job deps v = (\<lambda>(st, q). if \<forall>d \<in> set (deps v). st d = 1 then (st(v := 2), q @ [v]) else (st, q))"

definition parmake_start :: "(string \<Rightarrow> string list) \<Rightarrow> (string \<Rightarrow> bool) \<Rightarrow> string list \<Rightarrow> nat \<Rightarrow> make_sys" where
  "parmake_start deps made order num_threads =
     (let (st, q) = fold (first_job deps) order (first_states made order, []) in
      \<lparr>jobs = (if order = [] then q @ [[]] else q), rstate = st, mpcs = replicate num_threads Pull, ran = []\<rparr>)"

text \<open>The steps of a thread. A command may succeed or fail, and with it any file may come or go.\<close>

inductive make_step ::
  "(string \<Rightarrow> string list) \<Rightarrow> (string \<Rightarrow> string list) \<Rightarrow> string list \<Rightarrow> string list \<Rightarrow> make_sys \<Rightarrow> make_sys \<Rightarrow> bool"
  for deps :: "string \<Rightarrow> string list" and commands :: "string \<Rightarrow> string list" and order goals :: "string list" where
  pull_end: "i < length (mpcs s) \<Longrightarrow> mpcs s ! i = Pull \<Longrightarrow> jobs s = [] # q \<Longrightarrow>
    make_step deps commands order goals s (s\<lparr>jobs := q, mpcs := (mpcs s)[i := Put_back]\<rparr>)"
| put_back: "i < length (mpcs s) \<Longrightarrow> mpcs s ! i = Put_back \<Longrightarrow>
    make_step deps commands order goals s (s\<lparr>jobs := jobs s @ [[]], mpcs := (mpcs s)[i := Ended]\<rparr>)"
| pull: "i < length (mpcs s) \<Longrightarrow> mpcs s ! i = Pull \<Longrightarrow> jobs s = t # q \<Longrightarrow> t \<noteq> [] \<Longrightarrow>
    make_step deps commands order goals s (s\<lparr>jobs := q, mpcs := (mpcs s)[i := Check t (deps t)]\<rparr>)"
| check_failed: "i < length (mpcs s) \<Longrightarrow> mpcs s ! i = Check t (d # ds) \<Longrightarrow> rstate s d = -1 \<Longrightarrow>
    make_step deps commands order goals s (s\<lparr>mpcs := (mpcs s)[i := Look t (-1)]\<rparr>)"
| check: "i < length (mpcs s) \<Longrightarrow> mpcs s ! i = Check t (d # ds) \<Longrightarrow> rstate s d \<noteq> -1 \<Longrightarrow>
    make_step deps commands order goals s (s\<lparr>mpcs := (mpcs s)[i := Check t ds]\<rparr>)"
| checked: "i < length (mpcs s) \<Longrightarrow> mpcs s ! i = Check t [] \<Longrightarrow>
    make_step deps commands order goals s (s\<lparr>mpcs := (mpcs s)[i := Look t 0]\<rparr>)"
| look_done: "i < length (mpcs s) \<Longrightarrow> mpcs s ! i = Look t flag \<Longrightarrow> rstate s t = 1 \<Longrightarrow>
    make_step deps commands order goals s (s\<lparr>mpcs := (mpcs s)[i := Pull]\<rparr>)"
| look_run: "i < length (mpcs s) \<Longrightarrow> mpcs s ! i = Look t 0 \<Longrightarrow> rstate s t \<noteq> 1 \<Longrightarrow>
    make_step deps commands order goals s (s\<lparr>mpcs := (mpcs s)[i := Run t (commands t)], ran := ran s @ [t]\<rparr>)"
| look_failed: "i < length (mpcs s) \<Longrightarrow> mpcs s ! i = Look t flag \<Longrightarrow> flag \<noteq> 0 \<Longrightarrow> rstate s t \<noteq> 1 \<Longrightarrow>
    make_step deps commands order goals s (s\<lparr>mpcs := (mpcs s)[i := Update t (-1)]\<rparr>)"
| command: "i < length (mpcs s) \<Longrightarrow> mpcs s ! i = Run t (c # cs) \<Longrightarrow>
    make_step deps commands order goals s (s\<lparr>mpcs := (mpcs s)[i := Run t cs]\<rparr>)"
| command_failed: "i < length (mpcs s) \<Longrightarrow> mpcs s ! i = Run t (c # cs) \<Longrightarrow>
    make_step deps commands order goals s (s\<lparr>mpcs := (mpcs s)[i := Update t (-1)]\<rparr>)"
| commands_end: "i < length (mpcs s) \<Longrightarrow> mpcs s ! i = Run t [] \<Longrightarrow>
    make_step deps commands order goals s (s\<lparr>mpcs := (mpcs s)[i := Update t 1]\<rparr>)"
| update: "i < length (mpcs s) \<Longrightarrow> mpcs s ! i = Update t v \<Longrightarrow>
    update_rules deps made order goals ((rstate s)(t := v)) (jobs s) = (st, q) \<Longrightarrow>
    make_step deps commands order goals s (s\<lparr>rstate := st, jobs := q, mpcs := (mpcs s)[i := Pull]\<rparr>)"

text \<open>\<open>parmake\<close> up to the start of the threads.\<close>

definition parmake ::
  "('g, 's) make_lib \<Rightarrow> nat \<Rightarrow> 'g \<Rightarrow> (string \<Rightarrow> bool) \<Rightarrow> nat \<Rightarrow> (string list \<times> string list \<times> string list \<times> make_sys) outcome" where
  "parmake lib n dependency_graph made num_threads =
     rbind (check_cycle lib n dependency_graph) (\<lambda>(g, failed).
     let goals = graph_neighbors lib g [] in
     rbind (topological_sort lib n goals g) (\<lambda>order.
     Inr (failed, goals, order, parmake_start (graph_neighbors lib g) made order num_threads)))"

end
