(* ===== verification/Parmake_Graph.thy ===== *)
theory Parmake_Graph
  imports Parmake
begin

text \<open>
  The two depth-first searches of \<open>parallel_make/parmake.c\<close>: \<open>check_cycle\<close> removes exactly the goals that
  lead to a cycle, although it never empties its stack, and what is left is sorted dependencies first.
\<close>

section \<open>What the libraries promise\<close>

text \<open>\<open>elems\<close> is what a set holds. \<open>V\<close> are the rules of the makefile; none of them has the empty name.\<close>

definition set_laws :: "('g, 's) make_lib \<Rightarrow> ('s \<Rightarrow> string set) \<Rightarrow> bool" where
  "set_laws lib elems \<longleftrightarrow> elems (shallow_set_create lib) = {} \<and>
     (\<forall>v S. elems (set_add lib v S) = insert v (elems S)) \<and> (\<forall>v S. elems (set_remove lib v S) = elems S - {v}) \<and>
     (\<forall>v S. set_contains lib S v \<longleftrightarrow> v \<in> elems S)"

definition graph_laws :: "('g, 's) make_lib \<Rightarrow> string set \<Rightarrow> 'g \<Rightarrow> bool" where
  "graph_laws lib V g \<longleftrightarrow> finite V \<and> [] \<notin> V \<and> set (graph_neighbors lib g []) \<subseteq> V \<and> (\<forall>v \<in> V. set (graph_neighbors lib g v) \<subseteq> V)"

definition remove_laws :: "('g, 's) make_lib \<Rightarrow> bool" where
  "remove_laws lib \<longleftrightarrow> (\<forall>g a b. set (graph_neighbors lib (graph_remove_edge lib g a b) a) = set (graph_neighbors lib g a) - {b} \<and>
     (\<forall>v. v \<noteq> a \<longrightarrow> graph_neighbors lib (graph_remove_edge lib g a b) v = graph_neighbors lib g v))"

lemma setD:
  assumes "set_laws lib elems"
  shows "elems (shallow_set_create lib) = {}" "elems (set_add lib v S) = insert v (elems S)"
    "elems (set_remove lib v S) = elems S - {v}" "set_contains lib S v \<longleftrightarrow> v \<in> elems S"
  using assms by (simp_all add: set_laws_def)

section \<open>Cycles\<close>

definition edge :: "('g, 's) make_lib \<Rightarrow> 'g \<Rightarrow> string \<Rightarrow> string \<Rightarrow> bool" where
  "edge lib g u v \<longleftrightarrow> v \<in> set (graph_neighbors lib g u)"

definition cyclic :: "('g, 's) make_lib \<Rightarrow> 'g \<Rightarrow> string \<Rightarrow> bool" where
  "cyclic lib g v \<longleftrightarrow> (\<exists>u. (edge lib g)\<^sup>*\<^sup>* v u \<and> (edge lib g)\<^sup>+\<^sup>+ u u)"

lemma cyclic_edge: "edge lib g u v \<Longrightarrow> cyclic lib g v \<Longrightarrow> cyclic lib g u"
  unfolding cyclic_def by (meson converse_rtranclp_into_rtranclp)

lemma cyclic_path: "(edge lib g)\<^sup>*\<^sup>* u v \<Longrightarrow> cyclic lib g v \<Longrightarrow> cyclic lib g u"
  by (induction rule: converse_rtranclp_induct) (auto intro: cyclic_edge)

text \<open>The rules whose search has ended are closed and lead to no cycle; those left on the stack lead to one
  or are on the way to the vertex \<open>v\<close>.\<close>

definition dfs_inv :: "('g, 's) make_lib \<Rightarrow> 'g \<Rightarrow> string set \<Rightarrow> string set \<Rightarrow> bool" where
  "dfs_inv lib g vis stk \<longleftrightarrow> stk \<subseteq> vis \<and>
     (\<forall>v \<in> vis - stk. \<not> cyclic lib g v \<and> (\<forall>u. edge lib g v u \<longrightarrow> u \<in> vis - stk))"

lemma dfs_invD:
  assumes "dfs_inv lib g vis stk"
  shows "stk \<subseteq> vis" "v \<in> vis \<Longrightarrow> v \<notin> stk \<Longrightarrow> \<not> cyclic lib g v"
    "v \<in> vis \<Longrightarrow> v \<notin> stk \<Longrightarrow> edge lib g v u \<Longrightarrow> u \<in> vis \<and> u \<notin> stk"
  using assms unfolding dfs_inv_def by blast+

lemma dfs_inv_enter: "dfs_inv lib g vis stk \<Longrightarrow> v \<notin> vis \<Longrightarrow> dfs_inv lib g (insert v vis) (insert v stk)"
  unfolding dfs_inv_def by blast

text \<open>A vertex with only ended neighbours has ended.\<close>

lemma dfs_inv_leave:
  assumes i: "dfs_inv lib g vis stk" and v: "v \<in> stk" and n: "\<And>u. edge lib g v u \<Longrightarrow> u \<in> vis \<and> u \<notin> stk"
  shows "dfs_inv lib g vis (stk - {v})"
proof -
  note d = dfs_invD [OF i]
  have stay: "(edge lib g)\<^sup>*\<^sup>* a b \<Longrightarrow> a \<in> vis \<and> a \<notin> stk \<Longrightarrow> b \<in> vis \<and> b \<notin> stk" for a b
    by (induction rule: rtranclp_induct) (use d(3) in blast)+
  have "\<not> cyclic lib g v"
  proof
    assume "cyclic lib g v"
    then obtain u where u: "(edge lib g)\<^sup>*\<^sup>* v u" "(edge lib g)\<^sup>+\<^sup>+ u u" unfolding cyclic_def by blast
    from u(1) show False
    proof (cases rule: converse_rtranclpE)
      case base
      then obtain w where w: "edge lib g v w" "(edge lib g)\<^sup>*\<^sup>* w v" using u(2) by (metis tranclpD)
      then show False using stay [OF w(2)] n [OF w(1)] v by blast
    next
      case (step w)
      then have "cyclic lib g w" using u(2) unfolding cyclic_def by blast
      then show False using d(2) n [OF step(1)] by blast
    qed
  qed
  then show ?thesis using i n v unfolding dfs_inv_def by blast
qed

text \<open>Before and after a call of the search, and of its loop, that are on their way at \<open>v\<close>.\<close>

definition search_pre :: "('g, 's) make_lib \<Rightarrow> ('s \<Rightarrow> string set) \<Rightarrow> string set \<Rightarrow> nat \<Rightarrow> 'g \<Rightarrow> string \<Rightarrow> 's \<times> 's \<Rightarrow> bool" where
  "search_pre lib elems V n g v st \<longleftrightarrow> v \<in> V \<and> elems (fst st) \<subseteq> V \<and> card (V - elems (fst st)) \<le> n \<and>
     dfs_inv lib g (elems (fst st)) (elems (snd st)) \<and> (\<forall>u \<in> elems (snd st). cyclic lib g u \<or> (edge lib g)\<^sup>*\<^sup>* u v)"

definition search_post ::
  "('g, 's) make_lib \<Rightarrow> ('s \<Rightarrow> string set) \<Rightarrow> string set \<Rightarrow> 'g \<Rightarrow> string \<Rightarrow> string set \<Rightarrow> 's \<times> 's \<Rightarrow>
   (bool \<times> 's \<times> 's) outcome \<Rightarrow> bool" where
  "search_post lib elems V g v ended st r \<longleftrightarrow> (\<exists>b vis stk. r = Inr (b, vis, stk) \<and> elems (fst st) \<subseteq> elems vis \<and> elems vis \<subseteq> V \<and>
     dfs_inv lib g (elems vis) (elems stk) \<and>
     (if b then cyclic lib g v \<and> elems (snd st) \<subseteq> elems stk \<and> (\<forall>u \<in> elems stk. cyclic lib g u)
      else elems stk = elems (snd st) \<and> ended \<subseteq> elems vis - elems stk))"

lemma search_postI:
  assumes "elems (fst st) \<subseteq> elems vis" "elems vis \<subseteq> V" "dfs_inv lib g (elems vis) (elems stk)"
    and "b \<Longrightarrow> cyclic lib g v \<and> elems (snd st) \<subseteq> elems stk \<and> (\<forall>u \<in> elems stk. cyclic lib g u)"
    and "\<not> b \<Longrightarrow> elems stk = elems (snd st) \<and> ended \<subseteq> elems vis - elems stk"
  shows "search_post lib elems V g v ended st (Inr (b, vis, stk))"
  unfolding search_post_def
proof (rule exI [of _ b], rule exI [of _ vis], rule exI [of _ stk], intro conjI)
  show "if b then cyclic lib g v \<and> elems (snd st) \<subseteq> elems stk \<and> (\<forall>u \<in> elems stk. cyclic lib g u)
      else elems stk = elems (snd st) \<and> ended \<subseteq> elems vis - elems stk"
    using assms(4,5) by auto
qed (use assms(1-3) in simp_all)

lemma search_result:
  assumes "r = Inr (b, vis, stk)" "search_post lib elems V g x {x} st (Inr (b, vis, stk))" "x \<in> elems vis" "b \<Longrightarrow> x \<in> elems stk"
  shows "search_post lib elems V g x {x} st r \<and>
    (\<forall>b vis stk. r = Inr (b, vis, stk) \<longrightarrow> x \<in> elems vis \<and> (b \<longrightarrow> x \<in> elems stk))"
  using assms by simp

lemma search_ok:
  assumes S: "set_laws lib elems" and fin: "finite V" and G: "\<forall>v \<in> V. set (graph_neighbors lib g v) \<subseteq> V"
  shows "search_pre lib elems V n g x st \<Longrightarrow> x \<notin> elems (fst st) \<Longrightarrow>
           search_post lib elems V g x {x} st (graph_has_cycle_util_make lib n g x st) \<and>
           (\<forall>b vis stk. graph_has_cycle_util_make lib n g x st = Inr (b, vis, stk) \<longrightarrow> x \<in> elems vis \<and> (b \<longrightarrow> x \<in> elems stk))"
    and "search_pre lib elems V n g v st \<Longrightarrow> v \<in> elems (snd st) \<Longrightarrow> set as \<subseteq> set (graph_neighbors lib g v) \<Longrightarrow>
           search_post lib elems V g v (set as) st (cycle_scan lib n g as st)"
  using S G
proof (induction lib n g x st and lib n g as st arbitrary: and v rule: graph_has_cycle_util_make_cycle_scan.induct)
  case (1 lib g x st)
  then have "card (V - elems (fst st)) = 0" "x \<in> V - elems (fst st)" by (simp_all add: search_pre_def)
  then show ?case using fin by auto
next
  case (2 lib n g x vis stk)
  note e = setD [OF 2(4)]
  note p = "2.prems"(1) [unfolded search_pre_def fst_conv snd_conv]
  have "V - insert x (elems vis) = (V - elems vis) - {x}" by auto
  moreover have "x \<in> V - elems vis" using p "2.prems"(2) by simp
  ultimately have c: "card (V - insert x (elems vis)) \<le> n" using p fin by (auto simp: card_Diff_singleton)
  have pre: "search_pre lib elems V n g x (set_add lib x vis, set_add lib x stk)"
    using p c dfs_inv_enter "2.prems"(2) by (auto simp: search_pre_def e)
  have "search_post lib elems V g x (set (graph_neighbors lib g x)) (set_add lib x vis, set_add lib x stk)
      (cycle_scan lib n g (graph_neighbors lib g x) (set_add lib x vis, set_add lib x stk))"
    using 2(1) [OF pre _ subset_refl] 2(4,5) by (simp add: e)
  then obtain b vis' stk' where r: "cycle_scan lib n g (graph_neighbors lib g x) (set_add lib x vis, set_add lib x stk) = Inr (b, vis', stk')"
      "insert x (elems vis) \<subseteq> elems vis'" "elems vis' \<subseteq> V" "dfs_inv lib g (elems vis') (elems stk')"
      "if b then cyclic lib g x \<and> insert x (elems stk) \<subseteq> elems stk' \<and> (\<forall>u \<in> elems stk'. cyclic lib g u)
       else elems stk' = insert x (elems stk) \<and> set (graph_neighbors lib g x) \<subseteq> elems vis' - elems stk'"
    unfolding search_post_def fst_conv snd_conv e by (auto simp del: if_split)
  show ?case
  proof (cases b)
    case True
    then have eq: "graph_has_cycle_util_make lib (Suc n) g x (vis, stk) = Inr (True, vis', stk')" using r(1) by simp
    have c: "cyclic lib g x \<and> insert x (elems stk) \<subseteq> elems stk' \<and> (\<forall>u \<in> elems stk'. cyclic lib g u)" using r(5) True by simp
    have "search_post lib elems V g x {x} (vis, stk) (Inr (True, vis', stk'))" by (rule search_postI) (use r(2-4) c in simp_all)
    moreover have "x \<in> elems vis'" "x \<in> elems stk'" using c r(2) by blast+
    ultimately show ?thesis by (intro search_result [OF eq])
  next
    case False
    have "dfs_inv lib g (elems vis) (elems stk)" using p by (elim conjE)
    from dfs_invD(1) [OF this] have "elems stk \<subseteq> elems vis" .
    then have xs: "x \<notin> elems stk" using "2.prems"(2) by auto
    then have "elems stk' - {x} = elems stk" using r(5) False by auto
    moreover have "dfs_inv lib g (elems vis') (elems stk' - {x})"
      using r(5) False by (intro dfs_inv_leave [OF r(4)]) (auto simp: edge_def)
    moreover have eq: "graph_has_cycle_util_make lib (Suc n) g x (vis, stk) = Inr (False, vis', set_remove lib x stk')" using r(1) False by simp
    moreover have "x \<in> elems vis'" using r(2) by simp
    ultimately have "search_post lib elems V g x {x} (vis, stk) (Inr (False, vis', set_remove lib x stk'))"
      by (intro search_postI) (use r(2-4) xs in \<open>auto simp: e\<close>)
    then show ?thesis using \<open>x \<in> elems vis'\<close> by (intro search_result [OF eq]) simp_all
  qed
next
  case (3 lib n g st)
  then show ?case by (cases st) (auto simp: search_post_def search_pre_def)
next
  case (4 lib n g a as vis stk)
  note e = setD [OF 4(7)]
  note p = "4.prems"(1) [unfolded search_pre_def fst_conv snd_conv]
  have av: "edge lib g v a" using "4.prems"(3) by (simp add: edge_def)
  show ?case
  proof (cases "a \<in> elems stk")
    case True
    have cyc: "cyclic lib g v"
    proof (cases "cyclic lib g a")
      case True
      then show ?thesis using cyclic_edge [OF av] by simp
    next
      case False
      then have "(edge lib g)\<^sup>*\<^sup>* a v" using p True by blast
      then have "(edge lib g)\<^sup>+\<^sup>+ v v" using av by simp
      then show ?thesis unfolding cyclic_def by blast
    qed
    moreover have "\<forall>u \<in> elems stk. cyclic lib g u" using p cyclic_path [OF _ cyc] by blast
    moreover have eq: "cycle_scan lib n g (a # as) (vis, stk) = Inr (True, vis, stk)" using True by (simp add: e)
    ultimately show ?thesis unfolding eq using p by (intro search_postI) auto
  next
    case nstk: False
    have sub: "set as \<subseteq> set (graph_neighbors lib g v)" using "4.prems"(3) by simp
    show ?thesis
    proof (cases "a \<in> elems vis")
      case True
      then have "search_post lib elems V g v (set as) (vis, stk) (cycle_scan lib n g as (vis, stk))"
        using 4(3) [of v] nstk "4.prems" sub by (simp add: e)
      then obtain b2 vis2 stk2 where q: "cycle_scan lib n g as (vis, stk) = Inr (b2, vis2, stk2)" "elems vis \<subseteq> elems vis2" "elems vis2 \<subseteq> V"
          "dfs_inv lib g (elems vis2) (elems stk2)"
          "if b2 then cyclic lib g v \<and> elems stk \<subseteq> elems stk2 \<and> (\<forall>u \<in> elems stk2. cyclic lib g u)
           else elems stk2 = elems stk \<and> set as \<subseteq> elems vis2 - elems stk2"
        unfolding search_post_def fst_conv snd_conv by (auto simp del: if_split)
      have eq: "cycle_scan lib n g (a # as) (vis, stk) = Inr (b2, vis2, stk2)" using q(1) nstk True by (simp add: e)
      show ?thesis unfolding eq using q(2-5) True nstk by (intro search_postI) auto
    next
      case nvis: False
      have pre: "search_pre lib elems V n g a (vis, stk)"
        using p av 4(8) by (auto simp: search_pre_def edge_def intro: rtranclp.rtrancl_into_rtrancl)
      have "search_post lib elems V g a {a} (vis, stk) (graph_has_cycle_util_make lib n g a (vis, stk)) \<and>
          (\<forall>b vis' stk'. graph_has_cycle_util_make lib n g a (vis, stk) = Inr (b, vis', stk') \<longrightarrow> a \<in> elems vis' \<and> (b \<longrightarrow> a \<in> elems stk'))"
        using 4(1) [OF _ _ pre] nstk nvis 4(7,8) by (simp add: e)
      then obtain b vis' stk' where r: "graph_has_cycle_util_make lib n g a (vis, stk) = Inr (b, vis', stk')"
          "elems vis \<subseteq> elems vis'" "elems vis' \<subseteq> V" "dfs_inv lib g (elems vis') (elems stk')"
          "if b then cyclic lib g a \<and> elems stk \<subseteq> elems stk' \<and> (\<forall>u \<in> elems stk'. cyclic lib g u)
           else elems stk' = elems stk \<and> {a} \<subseteq> elems vis' - elems stk'"
        unfolding search_post_def fst_conv snd_conv by (auto simp del: if_split)
      show ?thesis
      proof (cases b)
        case True
        then have eq: "cycle_scan lib n g (a # as) (vis, stk) = Inr (True, vis', stk')" using r(1) nstk nvis by (simp add: e)
        show ?thesis unfolding eq using r(2-5) True cyclic_edge [OF av] by (intro search_postI) auto
      next
        case False
        have "card (V - elems vis') \<le> card (V - elems vis)" using r(2) fin by (intro card_mono) auto
        then have pre': "search_pre lib elems V n g v (vis', stk')" using p r False by (auto simp: search_pre_def)
        have "search_post lib elems V g v (set as) (vis', stk') (cycle_scan lib n g as (vis', stk'))"
          using 4(2) [OF _ _ r(1) _ _ pre' _ sub] nstk nvis False "4.prems" r(5) by (simp add: e)
        then obtain b2 vis2 stk2 where q: "cycle_scan lib n g as (vis', stk') = Inr (b2, vis2, stk2)" "elems vis' \<subseteq> elems vis2" "elems vis2 \<subseteq> V"
            "dfs_inv lib g (elems vis2) (elems stk2)"
            "if b2 then cyclic lib g v \<and> elems stk' \<subseteq> elems stk2 \<and> (\<forall>u \<in> elems stk2. cyclic lib g u)
             else elems stk2 = elems stk' \<and> set as \<subseteq> elems vis2 - elems stk2"
          unfolding search_post_def fst_conv snd_conv by (auto simp del: if_split)
        have eq: "cycle_scan lib n g (a # as) (vis, stk) = Inr (b2, vis2, stk2)" using r(1) q(1) nstk nvis False by (simp add: e)
        show ?thesis unfolding eq using r(2-5) q(2-5) False by (intro search_postI) auto
      qed
    qed
  qed
qed

text \<open>Removing goals does not change the search among the rules.\<close>

lemma search_cong:
  assumes "\<forall>v \<in> V. graph_neighbors lib g' v = graph_neighbors lib g v" "\<forall>v \<in> V. set (graph_neighbors lib g v) \<subseteq> V"
  shows "x \<in> V \<Longrightarrow> graph_has_cycle_util_make lib n g' x st = graph_has_cycle_util_make lib n g x st"
    and "set as \<subseteq> V \<Longrightarrow> cycle_scan lib n g' as st = cycle_scan lib n g as st"
  using assms
proof (induction lib n g x st and lib n g as st rule: graph_has_cycle_util_make_cycle_scan.induct)
  case (4 lib n g a as vis stk)
  have "graph_has_cycle_util_make lib n g' a (vis, stk) = graph_has_cycle_util_make lib n g a (vis, stk)"
    if "\<not> set_contains lib stk a" "\<not> set_contains lib vis a"
    using 4(1) [OF that _ 4(5,6)] 4(4) by simp
  moreover have "cycle_scan lib n g' as st = cycle_scan lib n g as st"
    if "\<not> set_contains lib stk a" "\<not> set_contains lib vis a" "graph_has_cycle_util_make lib n g a (vis, stk) = Inr (b, st)" "\<not> b" for b st
    using 4(2) [OF that(1,2,3) refl that(4) _ 4(5,6)] 4(4) by simp
  moreover have "cycle_scan lib n g' as (vis, stk) = cycle_scan lib n g as (vis, stk)"
    if "\<not> set_contains lib stk a" "set_contains lib vis a"
    using 4(3) [OF that(1) _ _ 4(5,6)] 4(4) that by simp
  ultimately show ?case
    by (cases "graph_has_cycle_util_make lib n g a (vis, stk)") (auto split: prod.split)
qed simp_all

lemma search_start:
  assumes "dfs_inv lib g (elems (fst st)) (elems (snd st))" "elems (fst st) \<subseteq> V" "finite V" "card V \<le> n" "v \<in> V"
    and "\<forall>u \<in> elems (snd st). cyclic lib g u"
  shows "search_pre lib elems V n g v st"
proof -
  have "card (V - elems (fst st)) \<le> card V" using assms(3) by (intro card_mono) auto
  then show ?thesis using assms unfolding search_pre_def by auto
qed

definition same_rules :: "('g, 's) make_lib \<Rightarrow> 'g \<Rightarrow> 'g \<Rightarrow> bool" where
  "same_rules lib g g' \<longleftrightarrow> (\<forall>v. v \<noteq> [] \<longrightarrow> graph_neighbors lib g' v = graph_neighbors lib g v)"

lemma check_goals_ok:
  assumes S: "set_laws lib elems" and R: "remove_laws lib" and G: "graph_laws lib V g" and n: "card V \<le> n"
  shows "\<lbrakk>set goals \<subseteq> V; dfs_inv lib g (elems (fst st)) (elems (snd st)); elems (fst st) \<subseteq> V; \<forall>u \<in> elems (snd st). cyclic lib g u;
      same_rules lib g h\<rbrakk> \<Longrightarrow>
    \<exists>h'. check_goals lib n goals h st failed = Inr (h', failed @ filter (cyclic lib g) goals) \<and> same_rules lib g h' \<and>
      set (graph_neighbors lib h' []) = set (graph_neighbors lib h []) - {v \<in> set goals. cyclic lib g v}"
proof (induction goals arbitrary: h st failed)
  case Nil
  then show ?case by (cases st) auto
next
  case (Cons v goals)
  obtain vis stk where st: "st = (vis, stk)" by (cases st)
  note e = setD [OF S]
  have V: "finite V" "[] \<notin> V" "\<forall>v \<in> V. set (graph_neighbors lib g v) \<subseteq> V" using G by (auto simp: graph_laws_def)
  have i: "dfs_inv lib g (elems vis) (elems stk)" "elems vis \<subseteq> V" "\<forall>u \<in> elems stk. cyclic lib g u" "v \<in> V" "set goals \<subseteq> V"
    using Cons.prems by (auto simp: st)
  have rm: "same_rules lib g (graph_remove_edge lib h [] v)"
      "set (graph_neighbors lib (graph_remove_edge lib h [] v) []) = set (graph_neighbors lib h []) - {v}"
    using R Cons.prems(5) by (simp_all add: remove_laws_def same_rules_def)
  have eqV: "\<forall>v \<in> V. graph_neighbors lib h v = graph_neighbors lib g v" using Cons.prems(5) V(2) unfolding same_rules_def by metis
  show ?case
  proof (cases "v \<in> elems vis")
    case True
    show ?thesis
    proof (cases "v \<in> elems stk")
      case stk: True
      then have c: "cyclic lib g v" using i(3) by blast
      show ?thesis
        using Cons.IH [of "(vis, stk)" "graph_remove_edge lib h [] v" "failed @ [v]"] i rm c True stk
        by (auto simp: st e)
    next
      case stk: False
      then have "\<not> cyclic lib g v" using dfs_invD(2) [OF i(1) True] by blast
      then show ?thesis using Cons.IH [of "(vis, stk)" h failed] i True stk Cons.prems(5) by (auto simp: st e)
    qed
  next
    case False
    have "search_post lib elems V g v {v} (vis, stk) (graph_has_cycle_util_make lib n g v (vis, stk))"
      using search_ok(1) [OF S V(1,3) search_start [of lib g elems "(vis, stk)" V n v]] i V(1) n False by simp
    then obtain b vis' stk' where r: "graph_has_cycle_util_make lib n g v (vis, stk) = Inr (b, vis', stk')"
        "elems vis' \<subseteq> V" "dfs_inv lib g (elems vis') (elems stk')"
        "if b then cyclic lib g v \<and> elems stk \<subseteq> elems stk' \<and> (\<forall>u \<in> elems stk'. cyclic lib g u)
         else elems stk' = elems stk \<and> {v} \<subseteq> elems vis' - elems stk'"
      unfolding search_post_def fst_conv snd_conv by (auto simp del: if_split)
    have rh: "graph_has_cycle_util_make lib n h v (vis, stk) = Inr (b, vis', stk')"
      using search_cong(1) [OF eqV V(3) i(4)] r(1) by simp
    show ?thesis
    proof (cases b)
      case True
      then have c: "cyclic lib g v" "\<forall>u \<in> elems stk'. cyclic lib g u" using r(4) by simp_all
      show ?thesis
        using Cons.IH [of "(vis', stk')" "graph_remove_edge lib h [] v" "failed @ [v]"] i(5) r(2,3) rm c False rh True
        by (auto simp: st e)
    next
      case nb: False
      then have k: "elems stk' = elems stk" "v \<in> elems vis'" "v \<notin> elems stk'" using r(4) by auto
      then have "\<not> cyclic lib g v" using dfs_invD(2) [OF r(3)] by blast
      then show ?thesis
        using Cons.IH [of "(vis', stk')" h failed] i(3,5) r(2,3) k(1) False rh nb Cons.prems(5) by (auto simp: st e)
    qed
  qed
qed

lemma check_cycle_ok:
  assumes S: "set_laws lib elems" and R: "remove_laws lib" and G: "graph_laws lib V g" and n: "card V \<le> n"
  shows "\<exists>g'. check_cycle lib n g = Inr (g', filter (cyclic lib g) (graph_neighbors lib g [])) \<and> same_rules lib g g' \<and>
    set (graph_neighbors lib g' []) = {v \<in> set (graph_neighbors lib g []). \<not> cyclic lib g v}"
proof -
  let ?c = "shallow_set_create lib"
  have "dfs_inv lib g (elems ?c) (elems ?c)" "elems ?c = {}" by (simp_all add: setD [OF S] dfs_inv_def)
  then obtain g' where "check_cycle lib n g = Inr (g', [] @ filter (cyclic lib g) (graph_neighbors lib g []))" "same_rules lib g g'"
      "set (graph_neighbors lib g' []) = set (graph_neighbors lib g []) - {v \<in> set (graph_neighbors lib g []). cyclic lib g v}"
    using check_goals_ok [OF assms, of "graph_neighbors lib g []" "(?c, ?c)" g "[]"] G
    by (auto simp: check_cycle_def graph_laws_def same_rules_def)
  then show ?thesis by auto
qed

section \<open>The order\<close>

definition deps_first :: "('a \<Rightarrow> 'a list) \<Rightarrow> 'a list \<Rightarrow> bool" where
  "deps_first deps order \<longleftrightarrow> (\<forall>i < length order. set (deps (order ! i)) \<subseteq> set (take i order))"

lemma deps_first_snoc: "deps_first deps (order @ [v]) \<longleftrightarrow> deps_first deps order \<and> set (deps v) \<subseteq> set order"
  by (auto simp: deps_first_def less_Suc_eq nth_append)

lemma deps_first_closed: "deps_first deps order \<Longrightarrow> v \<in> set order \<Longrightarrow> set (deps v) \<subseteq> set order"
  unfolding deps_first_def in_set_conv_nth by (metis dual_order.trans set_take_subset)

text \<open>The vertices on the way are those visited and not yet in the order; a path leads from them to what is
  searched next.\<close>

definition sort_pre :: "('g, 's) make_lib \<Rightarrow> ('s \<Rightarrow> string set) \<Rightarrow> string set \<Rightarrow> nat \<Rightarrow> 'g \<Rightarrow> string set \<Rightarrow> 's \<times> 's \<times> string list \<Rightarrow> bool" where
  "sort_pre lib elems V n g as st \<longleftrightarrow> (case st of (vis, stk, order) \<Rightarrow>
     as \<subseteq> V \<and> elems vis \<subseteq> V \<and> card (V - elems vis) \<le> n \<and> (\<forall>a \<in> as. \<not> cyclic lib g a) \<and> set order \<subseteq> elems vis \<and>
     distinct order \<and> deps_first (graph_neighbors lib g) order \<and> (\<forall>u \<in> elems vis - set order. \<forall>a \<in> as. (edge lib g)\<^sup>+\<^sup>+ u a))"

definition sort_post ::
  "('g, 's) make_lib \<Rightarrow> ('s \<Rightarrow> string set) \<Rightarrow> string set \<Rightarrow> 'g \<Rightarrow> string set \<Rightarrow> 's \<times> 's \<times> string list \<Rightarrow> ('s \<times> 's \<times> string list) outcome \<Rightarrow> bool" where
  "sort_post lib elems V g as st r \<longleftrightarrow> (case st of (vis, stk, order) \<Rightarrow> \<exists>vis' stk' order'. r = Inr (vis', stk', order') \<and>
     elems vis \<subseteq> elems vis' \<and> elems vis' \<subseteq> V \<and> set order' \<subseteq> elems vis' \<and> elems vis' - set order' = elems vis - set order \<and>
     set order \<subseteq> set order' \<and> distinct order' \<and> deps_first (graph_neighbors lib g) order' \<and> as \<subseteq> set order' \<and>
     (\<forall>u \<in> set order' - set order. \<exists>a \<in> as. (edge lib g)\<^sup>*\<^sup>* a u))"

lemma sort_postE:
  assumes "sort_post lib elems V g as (vis, stk, order) r"
  obtains vis' stk' order' where "r = Inr (vis', stk', order')" "elems vis \<subseteq> elems vis'" "elems vis' \<subseteq> V"
    "set order' \<subseteq> elems vis'" "elems vis' - set order' = elems vis - set order" "set order \<subseteq> set order'" "distinct order'"
    "deps_first (graph_neighbors lib g) order'" "as \<subseteq> set order'"
    "\<forall>u \<in> set order' - set order. \<exists>a \<in> as. (edge lib g)\<^sup>*\<^sup>* a u"
  using assms unfolding sort_post_def prod.case by (elim exE conjE) (rule that)

lemma sort_ok:
  assumes S: "set_laws lib elems" and fin: "finite V" and G: "\<forall>v \<in> V. set (graph_neighbors lib g v) \<subseteq> V"
  shows "sort_pre lib elems V n g {x} st \<Longrightarrow> x \<notin> elems (fst st) \<Longrightarrow>
           sort_post lib elems V g {x} st (topological_sort_util lib n g x st)"
    and "sort_pre lib elems V n g (set as) st \<Longrightarrow> sort_post lib elems V g (set as) st (sort_scan lib n g as st)"
  using S G
proof (induction lib n g x st and lib n g as st rule: topological_sort_util_sort_scan.induct)
  case (1 lib g x st)
  obtain vis stk order where st: "st = (vis, stk, order)" by (cases st)
  then have "card (V - elems vis) = 0" "x \<in> V - elems vis" using 1 by (simp_all add: sort_pre_def)
  then show ?case using fin by auto
next
  case (2 lib n g x vis stk order)
  note e = setD [OF 2(4)]
  have p: "x \<in> V" "elems vis \<subseteq> V" "card (V - elems vis) \<le> Suc n" "\<not> cyclic lib g x" "set order \<subseteq> elems vis" "distinct order"
      "deps_first (graph_neighbors lib g) order" "\<forall>u \<in> elems vis - set order. (edge lib g)\<^sup>+\<^sup>+ u x" "x \<notin> elems vis"
    using "2.prems"(1,2) by (auto simp: sort_pre_def)
  have "V - insert x (elems vis) = (V - elems vis) - {x}" "x \<in> V - elems vis" using p(1,9) by auto
  then have c: "card (V - insert x (elems vis)) \<le> n" using p(3) fin by (simp add: card_Diff_singleton)
  have nc: "\<not> cyclic lib g a" if "a \<in> set (graph_neighbors lib g x)" for a
    using that p(4) cyclic_edge [of lib g x a] by (auto simp: edge_def)
  have path: "(edge lib g)\<^sup>+\<^sup>+ u a" if "u \<in> insert x (elems vis) - set order" "a \<in> set (graph_neighbors lib g x)" for u a
  proof -
    have xa: "edge lib g x a" using that(2) by (simp add: edge_def)
    then show ?thesis using that(1) p(8) by (cases "u = x") (auto intro: tranclp.trancl_into_trancl)
  qed
  have nb: "set (graph_neighbors lib g x) \<subseteq> V" using 2(5) p(1) by blast
  have "sort_pre lib elems V n g (set (graph_neighbors lib g x)) (set_add lib x vis, set_add lib x stk, order)"
    unfolding sort_pre_def prod.case e(2) using nb p c nc path by (intro conjI) auto
  then have "sort_post lib elems V g (set (graph_neighbors lib g x)) (set_add lib x vis, set_add lib x stk, order)
      (sort_scan lib n g (graph_neighbors lib g x) (set_add lib x vis, set_add lib x stk, order))"
    using 2(1,4,5) by blast
  then obtain vis' stk' order' where r:
      "sort_scan lib n g (graph_neighbors lib g x) (set_add lib x vis, set_add lib x stk, order) = Inr (vis', stk', order')"
      "insert x (elems vis) \<subseteq> elems vis'" "elems vis' \<subseteq> V" "set order' \<subseteq> elems vis'" "elems vis' - set order' = insert x (elems vis) - set order"
      "set order \<subseteq> set order'" "distinct order'" "deps_first (graph_neighbors lib g) order'" "set (graph_neighbors lib g x) \<subseteq> set order'"
      "\<forall>u \<in> set order' - set order. \<exists>a \<in> set (graph_neighbors lib g x). (edge lib g)\<^sup>*\<^sup>* a u"
    unfolding sort_post_def prod.case e(2) by blast
  have eq: "topological_sort_util lib (Suc n) g x (vis, stk, order) = Inr (vis', stk', order' @ [x])" using r(1) by simp
  have xn: "x \<notin> set order'" using r(5) p(5,9) by blast
  have "(edge lib g)\<^sup>*\<^sup>* x u" if u: "u \<in> set order' - set order" for u
  proof -
    obtain a where "edge lib g x a" "(edge lib g)\<^sup>*\<^sup>* a u" using r(10) u by (auto simp: edge_def)
    then show ?thesis by (rule converse_rtranclp_into_rtranclp)
  qed
  moreover have "elems vis' - set (order' @ [x]) = elems vis - set order" using r(5) p(5,9) xn by auto
  ultimately show ?case
    unfolding sort_post_def prod.case eq using r xn
    by (intro exI [where x = vis'] exI [where x = stk'] exI [where x = "order' @ [x]"]) (auto simp: deps_first_snoc)
next
  case (3 lib n g st)
  then show ?case by (cases st) (auto simp: sort_pre_def sort_post_def)
next
  case (4 lib n g a as vis stk order)
  note e = setD [OF 4(5)]
  have p: "a \<in> V" "set as \<subseteq> V" "elems vis \<subseteq> V" "card (V - elems vis) \<le> n" "\<not> cyclic lib g a" "\<forall>b \<in> set as. \<not> cyclic lib g b"
      "set order \<subseteq> elems vis" "distinct order" "deps_first (graph_neighbors lib g) order"
      "\<forall>u \<in> elems vis - set order. \<forall>b \<in> insert a (set as). (edge lib g)\<^sup>+\<^sup>+ u b"
    using "4.prems"(1) by (auto simp: sort_pre_def)
  show ?case
  proof (cases "a \<in> elems vis")
    case True
    have "a \<in> set order"
    proof (rule ccontr)
      assume "a \<notin> set order"
      then have "(edge lib g)\<^sup>+\<^sup>+ a a" using True p(10) by blast
      then show False using p(5) unfolding cyclic_def by blast
    qed
    moreover have "sort_post lib elems V g (set as) (vis, stk, order) (sort_scan lib n g as (vis, stk, order))"
      using 4(3) [OF _ _ 4(5,6)] True p by (simp add: e sort_pre_def)
    moreover have "sort_scan lib n g (a # as) (vis, stk, order) = sort_scan lib n g as (vis, stk, order)" using True by (simp add: e)
    ultimately show ?thesis unfolding sort_post_def prod.case by auto
  next
    case False
    have "sort_pre lib elems V n g {a} (vis, stk, order)" using p by (auto simp: sort_pre_def)
    then have "sort_post lib elems V g {a} (vis, stk, order) (topological_sort_util lib n g a (vis, stk, order))"
      using 4(1) 4(5,6) False by (simp add: e)
    from sort_postE [OF this] obtain vis' stk' order' where r: "topological_sort_util lib n g a (vis, stk, order) = Inr (vis', stk', order')"
        "elems vis \<subseteq> elems vis'" "elems vis' \<subseteq> V" "set order' \<subseteq> elems vis'" "elems vis' - set order' = elems vis - set order"
        "set order \<subseteq> set order'" "distinct order'" "deps_first (graph_neighbors lib g) order'" "{a} \<subseteq> set order'"
        "\<forall>u \<in> set order' - set order. \<exists>b \<in> {a}. (edge lib g)\<^sup>*\<^sup>* b u"
      .
    have "card (V - elems vis') \<le> card (V - elems vis)" using r(2) fin by (intro card_mono) auto
    then have "sort_pre lib elems V n g (set as) (vis', stk', order')"
      unfolding sort_pre_def prod.case r(5) using p(2-4,6,10) r(3,4,7,8) by (intro conjI) auto
    then have "sort_post lib elems V g (set as) (vis', stk', order') (sort_scan lib n g as (vis', stk', order'))"
      using 4(2) 4(5,6) False r(1) by (simp add: e)
    from sort_postE [OF this] obtain vis2 stk2 order2 where q: "sort_scan lib n g as (vis', stk', order') = Inr (vis2, stk2, order2)"
        "elems vis' \<subseteq> elems vis2" "elems vis2 \<subseteq> V" "set order2 \<subseteq> elems vis2" "elems vis2 - set order2 = elems vis' - set order'"
        "set order' \<subseteq> set order2" "distinct order2" "deps_first (graph_neighbors lib g) order2" "set as \<subseteq> set order2"
        "\<forall>u \<in> set order2 - set order'. \<exists>b \<in> set as. (edge lib g)\<^sup>*\<^sup>* b u"
      .
    have eq: "sort_scan lib n g (a # as) (vis, stk, order) = Inr (vis2, stk2, order2)" using r(1) q(1) False by (simp add: e)
    have "\<exists>b \<in> set (a # as). (edge lib g)\<^sup>*\<^sup>* b u" if "u \<in> set order2 - set order" for u
      using that r(10) q(10) by (cases "u \<in> set order'") auto
    moreover have "elems vis \<subseteq> elems vis2" "set order \<subseteq> set order2" "set (a # as) \<subseteq> set order2" "elems vis2 - set order2 = elems vis - set order"
      using r(2,5,6,9) q(2,5,6,9) by auto
    ultimately have "Inr (vis2, stk2, order2) = Inr (vis2, stk2, order2) \<and> elems vis \<subseteq> elems vis2 \<and> elems vis2 \<subseteq> V \<and>
        set order2 \<subseteq> elems vis2 \<and> elems vis2 - set order2 = elems vis - set order \<and> set order \<subseteq> set order2 \<and> distinct order2 \<and>
        deps_first (graph_neighbors lib g) order2 \<and> set (a # as) \<subseteq> set order2 \<and>
        (\<forall>u \<in> set order2 - set order. \<exists>b \<in> set (a # as). (edge lib g)\<^sup>*\<^sup>* b u)"
      using q(3,4,7,8) by (intro conjI refl ballI)
    then show ?thesis unfolding sort_post_def prod.case eq by (intro exI)
  qed
qed

text \<open>Paths among the rules.\<close>

lemma path_cong:
  assumes "\<forall>v \<in> V. graph_neighbors lib h v = graph_neighbors lib g v" "\<forall>v \<in> V. set (graph_neighbors lib g v) \<subseteq> V"
  shows "(edge lib h)\<^sup>*\<^sup>* v u \<Longrightarrow> v \<in> V \<Longrightarrow> u \<in> V \<and> (edge lib g)\<^sup>*\<^sup>* v u"
proof (induction rule: rtranclp_induct)
  case (step y z)
  then have y: "y \<in> V" "(edge lib g)\<^sup>*\<^sup>* v y" by blast+
  moreover have "edge lib g y z" using step(2) assms(1) y(1) by (simp add: edge_def)
  moreover from this have "z \<in> V" using assms(2) y(1) by (auto simp: edge_def)
  ultimately show ?case by (blast intro: rtranclp.rtrancl_into_rtrancl)
qed simp

lemma cyclic_cong:
  assumes "\<forall>v \<in> V. graph_neighbors lib h v = graph_neighbors lib g v" "\<forall>v \<in> V. set (graph_neighbors lib g v) \<subseteq> V"
    and "v \<in> V" "cyclic lib h v"
  shows "cyclic lib g v"
proof -
  obtain u w where u: "(edge lib h)\<^sup>*\<^sup>* v u" "edge lib h u w" "(edge lib h)\<^sup>*\<^sup>* w u"
    using assms(4) unfolding cyclic_def by (metis tranclpD)
  have uv: "u \<in> V" "(edge lib g)\<^sup>*\<^sup>* v u" using path_cong [OF assms(1,2) u(1) assms(3)] by blast+
  then have uw: "edge lib g u w" "w \<in> V" using u(2) assms(1,2) by (auto simp: edge_def)
  then have "(edge lib g)\<^sup>+\<^sup>+ u u" using path_cong [OF assms(1,2) u(3)] by (meson rtranclp_into_tranclp2)
  then show ?thesis using uv(2) unfolding cyclic_def by blast
qed

lemma topological_sort_ok:
  assumes S: "set_laws lib elems" and V: "finite V" "\<forall>v \<in> V. set (graph_neighbors lib g v) \<subseteq> V" and n: "card V \<le> n"
    and as: "set as \<subseteq> V" "\<forall>a \<in> set as. \<not> cyclic lib g a"
  shows "\<exists>order. topological_sort lib n as g = Inr order \<and> distinct order \<and> deps_first (graph_neighbors lib g) order \<and>
    set order = {u. \<exists>a \<in> set as. (edge lib g)\<^sup>*\<^sup>* a u}"
proof -
  let ?c = "shallow_set_create lib"
  have "sort_pre lib elems V n g (set as) (?c, ?c, [])"
    using as n by (simp add: sort_pre_def setD(1) [OF S] deps_first_def)
  from sort_ok(2) [OF S V this] have "sort_post lib elems V g (set as) (?c, ?c, []) (sort_scan lib n g as (?c, ?c, []))" .
  from sort_postE [OF this] obtain vis stk order where r: "sort_scan lib n g as (?c, ?c, []) = Inr (vis, stk, order)"
      "distinct order" "deps_first (graph_neighbors lib g) order" "set as \<subseteq> set order"
      "\<forall>u \<in> set order - set []. \<exists>a \<in> set as. (edge lib g)\<^sup>*\<^sup>* a u" .
  have "(edge lib g)\<^sup>*\<^sup>* a u \<Longrightarrow> a \<in> set order \<Longrightarrow> u \<in> set order" for a u
    by (induction rule: rtranclp_induct) (use deps_first_closed [OF r(3)] in \<open>auto simp: edge_def\<close>)
  then have "set order = {u. \<exists>a \<in> set as. (edge lib g)\<^sup>*\<^sup>* a u}" using r(4,5) by auto
  then show ?thesis using r(1-3) by (simp add: topological_sort_def)
qed

text \<open>C16: what \<open>parmake\<close> does before its threads. It reports exactly the goals that lead to a cycle, keeps
  exactly the others, and puts the rules they need, and only those, into an order in which every rule
  comes once and after its dependencies. The searches end, in levels as many as there are rules.\<close>

theorem parmake_prepares:
  assumes "set_laws lib elems" "remove_laws lib" "graph_laws lib V g" "card V \<le> n"
  shows "\<exists>goals order s. parmake lib n g made num_threads = Inr (filter (cyclic lib g) (graph_neighbors lib g []), goals, order, s) \<and>
    set goals = {v \<in> set (graph_neighbors lib g []). \<not> cyclic lib g v} \<and> distinct order \<and>
    deps_first (graph_neighbors lib g) order \<and> set order = {u. \<exists>v \<in> set goals. (edge lib g)\<^sup>*\<^sup>* v u}"
proof -
  have V: "finite V" "[] \<notin> V" "set (graph_neighbors lib g []) \<subseteq> V" "\<forall>v \<in> V. set (graph_neighbors lib g v) \<subseteq> V"
    using assms(3) by (simp_all add: graph_laws_def)
  obtain h where h: "check_cycle lib n g = Inr (h, filter (cyclic lib g) (graph_neighbors lib g []))" "same_rules lib g h"
      "set (graph_neighbors lib h []) = {v \<in> set (graph_neighbors lib g []). \<not> cyclic lib g v}"
    using check_cycle_ok [OF assms] by blast
  have gh: "\<forall>v \<in> V. graph_neighbors lib h v = graph_neighbors lib g v" using h(2) V(2) unfolding same_rules_def by metis
  then have hg: "\<forall>v \<in> V. graph_neighbors lib g v = graph_neighbors lib h v" "\<forall>v \<in> V. set (graph_neighbors lib h v) \<subseteq> V"
    using V(4) by simp_all
  let ?goals = "graph_neighbors lib h []"
  have goals: "set ?goals \<subseteq> V" "\<forall>a \<in> set ?goals. \<not> cyclic lib h a"
    using h(3) V(3) cyclic_cong [OF gh V(4)] by auto
  obtain order where o: "topological_sort lib n ?goals h = Inr order" "distinct order" "deps_first (graph_neighbors lib h) order"
      "set order = {u. \<exists>a \<in> set ?goals. (edge lib h)\<^sup>*\<^sup>* a u}"
    using topological_sort_ok [OF assms(1) V(1) hg(2) assms(4) goals] by blast
  have "(edge lib h)\<^sup>*\<^sup>* a u \<longleftrightarrow> (edge lib g)\<^sup>*\<^sup>* a u" if "a \<in> set ?goals" for a u
    using that goals(1) path_cong [OF gh V(4)] path_cong [OF hg] by blast
  then have so: "set order = {u. \<exists>a \<in> set ?goals. (edge lib g)\<^sup>*\<^sup>* a u}" using o(4) by auto
  have "set order \<subseteq> V" using o(4) goals(1) path_cong [OF gh V(4)] by blast
  then have "graph_neighbors lib h (order ! i) = graph_neighbors lib g (order ! i)" if "i < length order" for i
    using that gh nth_mem by blast
  then have "deps_first (graph_neighbors lib g) order" using o(3) by (simp add: deps_first_def)
  then show ?thesis using h(1,3) o(1,2) so by (intro exI [of _ ?goals] exI [of _ order]) (simp add: parmake_def)
qed

text \<open>A graph as an association list and sets as lists.\<close>

definition list_lib :: "((string \<times> string list) list, string list) make_lib" where
  "list_lib = \<lparr>graph_neighbors = (\<lambda>g v. case map_of g v of None \<Rightarrow> [] | Some vs \<Rightarrow> vs),
     graph_remove_edge = (\<lambda>g a b. map (\<lambda>(v, vs). (v, if v = a then removeAll b vs else vs)) g),
     shallow_set_create = [], set_add = (\<lambda>v S. v # S), set_remove = removeAll, set_contains = (\<lambda>S v. v \<in> set S)\<rparr>"

definition small_makefile :: "(string \<times> string list) list" where
  "small_makefile = [('''', [''a'', ''c'']), (''a'', [''b'']), (''c'', [''d'']), (''d'', [''c'', ''b''])]"

lemma list_lib_laws: "set_laws list_lib set" "remove_laws list_lib"
  "graph_laws list_lib {''a'', ''b'', ''c'', ''d''} small_makefile"
proof -
  show "set_laws list_lib set" by (simp add: set_laws_def list_lib_def)
  have "map_of (map (\<lambda>(v, vs). (v, if v = a then removeAll b vs else vs)) g) v =
      map_option (\<lambda>vs. if v = a then removeAll b vs else vs) (map_of g v)" for g :: "(string \<times> string list) list" and a b v
    by (induction g) auto
  then show "remove_laws list_lib" by (auto simp: remove_laws_def list_lib_def split: option.split)
  show "graph_laws list_lib {''a'', ''b'', ''c'', ''d''} small_makefile"
    by (auto simp: graph_laws_def list_lib_def small_makefile_def)
qed

theorem parmake_prepares_witness:
  "\<exists>goals order s. parmake list_lib 4 small_makefile (\<lambda>_. False) 2 =
     Inr (filter (cyclic list_lib small_makefile) [''a'', ''c''], goals, order, s) \<and>
     distinct order \<and> deps_first (graph_neighbors list_lib small_makefile) order"
proof -
  have "graph_neighbors list_lib small_makefile [] = [''a'', ''c'']" by (simp add: list_lib_def small_makefile_def)
  then show ?thesis using parmake_prepares [OF list_lib_laws, of 4 "\<lambda>_. False" 2] by auto
qed

end
