(* ===== verification/Parmake_Runs.thy ===== *)
theory Parmake_Runs
  imports Parmake_Graph "HOL-Library.Multiset"
begin

text \<open>
  The threads of \<open>parallel_make/parmake.c\<close>, in any interleaving: no rule is run twice or before its
  dependencies, and the threads never all wait for a job that does not come.
\<close>

section \<open>The invariant\<close>

text \<open>The rule a thread holds and has not looked at yet, and the rule it holds at all.\<close>

fun waiting_job :: "make_pc \<Rightarrow> string list" where
  "waiting_job (Check t ds) = [t]"
| "waiting_job (Look t f) = [t]"
| "waiting_job _ = []"

fun held_job :: "make_pc \<Rightarrow> string option" where
  "held_job (Check t ds) = Some t"
| "held_job (Look t f) = Some t"
| "held_job (Run t cs) = Some t"
| "held_job (Update t v) = Some t"
| "held_job _ = None"

fun busy :: "make_pc \<Rightarrow> bool" where
  "busy (Run t cs) \<longleftrightarrow> True"
| "busy (Update t v) \<longleftrightarrow> True"
| "busy Put_back \<longleftrightarrow> True"
| "busy _ \<longleftrightarrow> False"

definition started :: "make_sys \<Rightarrow> string list" where
  "started s = concat (map waiting_job (mpcs s)) @ ran s"

definition held :: "make_pc list \<Rightarrow> string set" where
  "held ps = {t. \<exists>p \<in> set ps. held_job p = Some t}"

text \<open>The queue and the states, \<open>R\<close> being the rules taken from the queue and \<open>L\<close> those in the hands of threads.\<close>

definition job_inv ::
  "(string \<Rightarrow> string list) \<Rightarrow> string list \<Rightarrow> string list \<Rightarrow> string set \<Rightarrow> (string \<Rightarrow> int) \<Rightarrow> string list \<Rightarrow> bool" where
  "job_inv deps order R L st q \<longleftrightarrow>
     distinct (filter (\<lambda>t. t \<noteq> []) q @ R) \<and> set q \<subseteq> insert [] (set order) \<and>
     (\<forall>t \<in> set (filter (\<lambda>t. t \<noteq> []) q @ R). st t \<noteq> 0 \<and> (\<forall>d \<in> set (deps t). st d = 1 \<or> st d = -1)) \<and>
     (\<forall>v. st v = 0 \<or> st v = 1 \<or> st v = 2 \<or> st v = -1) \<and> (\<forall>v. st v = 2 \<longrightarrow> v \<noteq> [] \<and> v \<in> set q \<union> L)"

definition make_inv :: "(string \<Rightarrow> string list) \<Rightarrow> string list \<Rightarrow> make_sys \<Rightarrow> bool" where
  "make_inv deps order s \<longleftrightarrow> job_inv deps order (started s) (held (mpcs s)) (rstate s) (jobs s) \<and>
     set (started s) \<union> held (mpcs s) \<subseteq> set order \<and>
     (\<forall>t v. Update t v \<in> set (mpcs s) \<longrightarrow> v = 1 \<or> v = -1) \<and>
     ([] \<in> set (jobs s) \<or> (\<exists>p \<in> set (mpcs s). busy p) \<or> (\<exists>t. rstate s t = 2))"

definition make_order :: "(string \<Rightarrow> string list) \<Rightarrow> string list \<Rightarrow> string list \<Rightarrow> bool" where
  "make_order deps order goals \<longleftrightarrow> distinct order \<and> deps_first deps order \<and> [] \<notin> set order \<and> set goals \<subseteq> set order"

lemma job_invD:
  assumes "job_inv deps order R L st q"
  shows "distinct (filter (\<lambda>t. t \<noteq> []) q @ R)" "set q \<subseteq> insert [] (set order)"
    "\<And>t. t \<in> set (filter (\<lambda>t. t \<noteq> []) q @ R) \<Longrightarrow> st t \<noteq> 0 \<and> (\<forall>d \<in> set (deps t). st d = 1 \<or> st d = -1)"
    "\<And>v. st v = 0 \<or> st v = 1 \<or> st v = 2 \<or> st v = -1" "\<And>v. st v = 2 \<Longrightarrow> v \<noteq> [] \<and> v \<in> set q \<union> L"
  using assms unfolding job_inv_def by blast+

section \<open>The update\<close>

lemma dep_flag_cases: "dep_flag st ds = 1 \<and> (\<forall>d \<in> set ds. st d = 1) \<or> dep_flag st ds = -1 \<or>
    dep_flag st ds = 0 \<and> (\<exists>d \<in> set ds. st d \<noteq> 1 \<and> st d \<noteq> -1)"
  by (induction ds) auto

text \<open>Settling a rule keeps the invariant: nothing that was queued or taken looks at a rule that is not settled.\<close>

lemma job_inv_settle:
  assumes "job_inv deps order R L st q" "x = 1 \<or> x = -1"
  shows "job_inv deps order R (L - {v}) (st(v := x)) q"
  using assms unfolding job_inv_def by auto

lemma job_inv_weaken: "job_inv deps order R L st q \<Longrightarrow> L \<subseteq> L' \<Longrightarrow> job_inv deps order R L' st q"
  unfolding job_inv_def by blast

lemma update_rule_inv:
  assumes i: "job_inv deps order R L st q" and v: "v \<in> set order" "v \<noteq> []"
    and u: "update_rule deps made v (st, q) = (st', q')"
  shows "job_inv deps order R L st' q'"
proof -
  define st1 where "st1 = (if made v then st(v := 1) else st)"
  have i1: "job_inv deps order R L st1 q"
    using i job_inv_weaken [OF job_inv_settle [OF i, of 1 v]] by (auto simp: st1_def)
  have u: "(st', q') = (if st1 v \<noteq> 0 then (st1, q) else if dep_flag st1 (deps v) = -1 then (st1(v := -1), q)
      else if dep_flag st1 (deps v) = 0 then (st1, q) else (st1(v := 2), q @ [v]))"
    using u unfolding update_rule_def st1_def [symmetric] Let_def prod.case by (rule sym)
  show ?thesis
  proof (cases "st1 v \<noteq> 0 \<or> dep_flag st1 (deps v) = 0")
    case True
    then show ?thesis using u i1 by (auto split: if_splits)
  next
    case False
    show ?thesis
    proof (cases "dep_flag st1 (deps v) = -1")
      case True
      then show ?thesis using u False job_inv_weaken [OF job_inv_settle [OF i1, of "-1" v]] by auto
    next
      case nf: False
      then have d: "\<forall>d \<in> set (deps v). st1 d = 1" using False dep_flag_cases [of st1 "deps v"] by auto
      have e: "st' = st1(v := 2)" "q' = q @ [v]" using u False nf by auto
      note j = job_invD [OF i1]
      have new: "v \<notin> set (filter (\<lambda>t. t \<noteq> []) q @ R)" using j(3) [of v] False by blast
      have settled: "d \<noteq> v" if "st1 d = 1 \<or> st1 d = -1" for d using that False by auto
      show ?thesis
        unfolding job_inv_def e
      proof (intro conjI)
        show "distinct (filter (\<lambda>t. t \<noteq> []) (q @ [v]) @ R)" using j(1) new by auto
        show "set (q @ [v]) \<subseteq> insert [] (set order)" using j(2) v(1) by auto
        show "\<forall>t \<in> set (filter (\<lambda>t. t \<noteq> []) (q @ [v]) @ R). (st1(v := 2)) t \<noteq> 0 \<and>
            (\<forall>d \<in> set (deps t). (st1(v := 2)) d = 1 \<or> (st1(v := 2)) d = -1)"
        proof
          fix t assume t: "t \<in> set (filter (\<lambda>t. t \<noteq> []) (q @ [v]) @ R)"
          have "st1 d = 1 \<or> st1 d = -1" if "d \<in> set (deps t)" for d
            using t that d j(3) [of t] by (cases "t = v") (auto split: if_splits)
          then show "(st1(v := 2)) t \<noteq> 0 \<and> (\<forall>d \<in> set (deps t). (st1(v := 2)) d = 1 \<or> (st1(v := 2)) d = -1)"
            using t settled j(3) [of t] by (auto split: if_splits)
        qed
        show "\<forall>a. (st1(v := 2)) a = 0 \<or> (st1(v := 2)) a = 1 \<or> (st1(v := 2)) a = 2 \<or> (st1(v := 2)) a = -1" using j(4) by simp
        show "\<forall>a. (st1(v := 2)) a = 2 \<longrightarrow> a \<noteq> [] \<and> a \<in> set (q @ [v]) \<union> L" using j(5) v(2) by auto
      qed
    qed
  qed
qed

lemma fold_update_inv:
  "job_inv deps order R L st q \<Longrightarrow> set vs \<subseteq> set order \<Longrightarrow> [] \<notin> set vs \<Longrightarrow>
   fold (update_rule deps made) vs (st, q) = (st', q') \<Longrightarrow> job_inv deps order R L st' q'"
proof (induction vs arbitrary: st q)
  case (Cons v vs)
  obtain st1 q1 where u: "update_rule deps made v (st, q) = (st1, q1)" by fastforce
  have "job_inv deps order R L st1 q1" using update_rule_inv [OF Cons.prems(1) _ _ u] Cons.prems(2,3) by auto
  then show ?case using Cons.IH Cons.prems u by auto
qed simp

text \<open>After the update a rule that is still to do waits for a rule that is queued.\<close>

lemma update_rule_other: "update_rule deps made v (st, q) = (st', q') \<Longrightarrow> a \<noteq> v \<Longrightarrow> st' a = st a"
  by (auto simp: update_rule_def Let_def split: if_splits)

lemma fold_update_other: "fold (update_rule deps made) vs (st, q) = (st', q') \<Longrightarrow> a \<notin> set vs \<Longrightarrow> st' a = st a"
proof (induction vs arbitrary: st q)
  case (Cons v vs)
  obtain st1 q1 where u: "update_rule deps made v (st, q) = (st1, q1)" by fastforce
  then show ?case using Cons update_rule_other [OF u, of a] by auto
qed simp

lemma update_rule_zero:
  assumes "update_rule deps made v (st, q) = (st', q')" "st' v = 0" "v \<notin> set (deps v)"
  shows "\<exists>d \<in> set (deps v). st' d \<noteq> 1 \<and> st' d \<noteq> -1"
proof -
  have "\<not> made v" "st v = 0" "st' = st" "dep_flag st (deps v) = 0"
    using assms(1,2) by (auto simp: update_rule_def Let_def split: if_splits)
  then show ?thesis using dep_flag_cases [of st "deps v"] by auto
qed

lemma fold_update_zero:
  assumes "make_order deps order goals" "fold (update_rule deps made) order (st, q) = (st', q')" "i < length order" "st' (order ! i) = 0"
  shows "\<exists>j < i. st' (order ! j) \<noteq> 1 \<and> st' (order ! j) \<noteq> -1"
proof -
  let ?v = "order ! i"
  have o: "distinct order" "set (deps ?v) \<subseteq> set (take i order)" using assms(1,3) by (auto simp: make_order_def deps_first_def)
  have split: "order = take i order @ ?v # drop (Suc i) order" using assms(3) by (rule id_take_nth_drop)
  obtain st1 q1 st2 q2 where f: "fold (update_rule deps made) (take i order) (st, q) = (st1, q1)"
      "update_rule deps made ?v (st1, q1) = (st2, q2)" "fold (update_rule deps made) (drop (Suc i) order) (st2, q2) = (st', q')"
  proof -
    obtain st1 q1 where 1: "fold (update_rule deps made) (take i order) (st, q) = (st1, q1)" by fastforce
    obtain st2 q2 where 2: "update_rule deps made ?v (st1, q1) = (st2, q2)" by fastforce
    have "fold (update_rule deps made) (take i order @ ?v # drop (Suc i) order) (st, q) = (st', q')" using assms(2) split by simp
    then show thesis using that 1 2 by simp
  qed
  have dist: "distinct (take i order @ ?v # drop (Suc i) order)" using o(1) split by simp
  have dn: "a \<notin> set (drop (Suc i) order) \<and> (a \<noteq> ?v \<longrightarrow> a \<in> set (take i order))" if "a = ?v \<or> a \<in> set (take i order)" for a
    using that dist by auto
  then have same: "st' a = st2 a" if "a = ?v \<or> a \<in> set (take i order)" for a
    using fold_update_other [OF f(3)] that by blast
  have "?v \<notin> set (deps ?v)" using o(2) dist by auto
  then obtain d where d: "d \<in> set (deps ?v)" "st2 d \<noteq> 1 \<and> st2 d \<noteq> -1"
    using update_rule_zero [OF f(2)] assms(4) same by auto
  then have "d \<in> set (take i order)" using o(2) by blast
  then obtain j where "j < i" "order ! j = d" "j < length order" by (auto simp: in_set_conv_nth)
  then show ?thesis using d(2) same \<open>d \<in> set (take i order)\<close> by (intro exI [of _ j]) auto
qed

lemma update_progress:
  assumes "make_order deps order goals" "job_inv deps order R L st' q'" "fold (update_rule deps made) order (st, q) = (st', q')"
    and "g \<in> set order" "st' g = 0"
  shows "\<exists>t. st' t = 2"
proof -
  have "\<exists>t. st' t = 2" if "i < length order" "st' (order ! i) = 0" for i
    using that
  proof (induction i rule: less_induct)
    case (less i)
    obtain j where j: "j < i" "st' (order ! j) \<noteq> 1" "st' (order ! j) \<noteq> -1"
      using fold_update_zero [OF assms(1,3) less.prems] by blast
    then have "st' (order ! j) = 0 \<or> st' (order ! j) = 2" using job_invD(4) [OF assms(2)] by metis
    then show ?case using less.IH [OF j(1)] j(1) less.prems(1) by auto
  qed
  then show ?thesis using assms(4,5) by (metis in_set_conv_nth)
qed

section \<open>The steps\<close>

lemma waiting_at:
  assumes "i < length ps"
  obtains A B where "\<And>x. concat (map waiting_job (ps[i := x])) = A @ waiting_job x @ B"
    "concat (map waiting_job ps) = A @ waiting_job (ps ! i) @ B"
proof
  let ?A = "concat (map waiting_job (take i ps))" and ?B = "concat (map waiting_job (drop (Suc i) ps))"
  show u: "concat (map waiting_job (ps[i := x])) = ?A @ waiting_job x @ ?B" for x
    using assms by (simp add: upd_conv_take_nth_drop)
  show "concat (map waiting_job ps) = ?A @ waiting_job (ps ! i) @ ?B" using u [of "ps ! i"] by simp
qed

lemma held_update: "i < length ps \<Longrightarrow> v \<in> held ps \<Longrightarrow> held_job (ps ! i) \<noteq> Some v \<Longrightarrow> v \<in> held (ps[i := x])"
  using set_update_at [of i ps] by (fastforce simp: held_def)

lemma held_new: "i < length ps \<Longrightarrow> held_job x = Some v \<Longrightarrow> v \<in> held (ps[i := x])"
  by (auto simp: held_def intro!: bexI [of _ x] set_update_memI)

lemma held_bound: "v \<in> held (ps[i := x]) \<Longrightarrow> v \<in> held ps \<or> held_job x = Some v"
  using set_update_subset_insert [of ps i x] by (auto simp: held_def)

lemma job_inv_move:
  assumes "job_inv deps order R L st q" "mset (filter (\<lambda>t. t \<noteq> []) q') + mset R' \<subseteq># mset (filter (\<lambda>t. t \<noteq> []) q) + mset R"
    and "set q' \<subseteq> insert [] (set q)" "\<And>v. st v = 2 \<Longrightarrow> v \<noteq> [] \<Longrightarrow> v \<in> set q \<union> L \<Longrightarrow> v \<in> set q' \<union> L'"
  shows "job_inv deps order R' L' st q'"
proof -
  note j = job_invD [OF assms(1)]
  have m: "mset (filter (\<lambda>t. t \<noteq> []) q' @ R') \<subseteq># mset (filter (\<lambda>t. t \<noteq> []) q @ R)" using assms(2) by simp
  obtain M where "mset (filter (\<lambda>t. t \<noteq> []) q @ R) = mset (filter (\<lambda>t. t \<noteq> []) q' @ R') + M"
    using m by (auto simp: mset_subset_eq_exists_conv)
  moreover obtain ys where "M = mset ys" using ex_mset [of M] by blast
  ultimately have "mset (filter (\<lambda>t. t \<noteq> []) q @ R) = mset ((filter (\<lambda>t. t \<noteq> []) q' @ R') @ ys)" by simp
  then have "distinct ((filter (\<lambda>t. t \<noteq> []) q' @ R') @ ys)" using j(1) mset_eq_imp_distinct_iff by blast
  then have "distinct (filter (\<lambda>t. t \<noteq> []) q' @ R')" by (simp only: distinct_append)
  moreover have "set (filter (\<lambda>t. t \<noteq> []) q' @ R') \<subseteq> set (filter (\<lambda>t. t \<noteq> []) q @ R)"
    using set_mset_mono [OF m] by simp
  ultimately show ?thesis using j(2-5) assms(3,4) unfolding job_inv_def by (blast)
qed

lemma make_inv_move:
  assumes inv: "make_inv deps order s" and i: "i < length (mpcs s)" "mpcs s ! i = p"
    and m: "mset (filter (\<lambda>t. t \<noteq> []) q) + mset (waiting_job p') + mset r
      \<subseteq># mset (filter (\<lambda>t. t \<noteq> []) (jobs s)) + mset (waiting_job p)"
    and q: "set q \<subseteq> insert [] (set (jobs s))"
    and h: "\<And>v. rstate s v = 2 \<Longrightarrow> v \<noteq> [] \<Longrightarrow> v \<in> set (jobs s) \<or> held_job p = Some v \<Longrightarrow> v \<in> set q \<or> held_job p' = Some v"
    and o: "set (waiting_job p') \<union> set r \<union> set_option (held_job p') \<subseteq> set order"
    and u: "\<And>t v. p' = Update t v \<Longrightarrow> v = 1 \<or> v = -1"
    and b: "busy p' \<or> [] \<in> set q \<or> [] \<notin> set (jobs s) \<and> \<not> busy p"
  shows "make_inv deps order (s\<lparr>jobs := q, mpcs := (mpcs s)[i := p'], ran := ran s @ r\<rparr>)"
proof -
  let ?s = "s\<lparr>jobs := q, mpcs := (mpcs s)[i := p'], ran := ran s @ r\<rparr>"
  obtain A B where w: "\<And>x. concat (map waiting_job ((mpcs s)[i := x])) = A @ waiting_job x @ B"
      "concat (map waiting_job (mpcs s)) = A @ waiting_job p @ B"
    using waiting_at [OF i(1)] i(2) by metis
  have st: "started s = (A @ waiting_job p @ B) @ ran s" "started ?s = (A @ waiting_job p' @ B) @ ran s @ r"
    by (simp_all add: started_def w)
  have j: "job_inv deps order (started s) (held (mpcs s)) (rstate s) (jobs s)" and
    sub: "set (started s) \<union> held (mpcs s) \<subseteq> set order" and up: "\<forall>t v. Update t v \<in> set (mpcs s) \<longrightarrow> v = 1 \<or> v = -1" and
    bz: "[] \<in> set (jobs s) \<or> (\<exists>p \<in> set (mpcs s). busy p) \<or> (\<exists>t. rstate s t = 2)"
    using inv unfolding make_inv_def by blast+
  have "mset (filter (\<lambda>t. t \<noteq> []) q) + mset (started ?s) \<subseteq># mset (filter (\<lambda>t. t \<noteq> []) (jobs s)) + mset (started s)"
  proof -
    have "mset (filter (\<lambda>t. t \<noteq> []) q) + mset (started ?s) =
        (mset (filter (\<lambda>t. t \<noteq> []) q) + mset (waiting_job p') + mset r) + (mset A + mset B + mset (ran s))"
      by (simp add: st)
    moreover have "mset (filter (\<lambda>t. t \<noteq> []) (jobs s)) + mset (started s) =
        (mset (filter (\<lambda>t. t \<noteq> []) (jobs s)) + mset (waiting_job p)) + (mset A + mset B + mset (ran s))"
      by (simp add: st)
    ultimately show ?thesis using m by (simp only: subset_mset.add_right_mono)
  qed
  moreover have "v \<in> set q \<union> held ((mpcs s)[i := p'])" if "rstate s v = 2" "v \<noteq> []" "v \<in> set (jobs s) \<union> held (mpcs s)" for v
    using h [of v] that held_update [OF i(1)] held_new [OF i(1)] i(2) by blast
  ultimately have "job_inv deps order (started ?s) (held (mpcs ?s)) (rstate ?s) (jobs ?s)"
    using job_inv_move [OF j _ q] by simp
  moreover have "set (started ?s) \<union> held (mpcs ?s) \<subseteq> set order"
  proof -
    have "held (mpcs ?s) \<subseteq> set order"
    proof
      fix v assume "v \<in> held (mpcs ?s)"
      then have "v \<in> held (mpcs s) \<or> held_job p' = Some v" using held_bound by simp
      then show "v \<in> set order" using sub o by auto
    qed
    then show ?thesis using sub o by (simp add: st)
  qed
  moreover have "\<forall>t v. Update t v \<in> set (mpcs ?s) \<longrightarrow> v = 1 \<or> v = -1"
    using up u set_update_subset_insert [of "mpcs s" i p'] by (simp, blast)
  moreover have "[] \<in> set (jobs ?s) \<or> (\<exists>p \<in> set (mpcs ?s). busy p) \<or> (\<exists>t. rstate ?s t = 2)"
  proof (cases "busy p' \<or> [] \<in> set q \<or> (\<exists>t. rstate s t = 2)")
    case True
    then show ?thesis using set_update_memI [OF i(1)] by fastforce
  next
    case False
    then obtain p2 where "p2 \<in> set (mpcs s)" "busy p2" "p2 \<noteq> p" using bz b by auto
    then show ?thesis using set_update_at [OF i(1)] i(2) by fastforce
  qed
  ultimately show ?thesis unfolding make_inv_def by blast
qed

lemma make_inv_update:
  assumes inv: "make_inv deps order s" and ok: "make_order deps order goals" and i: "i < length (mpcs s)" "mpcs s ! i = Update t v"
    and u: "update_rules deps made order goals ((rstate s)(t := v)) (jobs s) = (st, q)"
  shows "make_inv deps order (s\<lparr>rstate := st, jobs := q, mpcs := (mpcs s)[i := Pull]\<rparr>)"
proof -
  let ?s = "s\<lparr>rstate := st, jobs := q, mpcs := (mpcs s)[i := Pull]\<rparr>"
  obtain A B where w: "\<And>x. concat (map waiting_job ((mpcs s)[i := x])) = A @ waiting_job x @ B"
      "concat (map waiting_job (mpcs s)) = A @ waiting_job (Update t v) @ B"
    using waiting_at [OF i(1)] i(2) by metis
  have st: "started ?s = started s" by (simp add: started_def w)
  have j: "job_inv deps order (started s) (held (mpcs s)) (rstate s) (jobs s)" and
    sub: "set (started s) \<union> held (mpcs s) \<subseteq> set order" and up: "\<forall>t v. Update t v \<in> set (mpcs s) \<longrightarrow> v = 1 \<or> v = -1"
    using inv unfolding make_inv_def by blast+
  have v: "v = 1 \<or> v = -1" using up i by (metis nth_mem)
  obtain q1 where f: "fold (update_rule deps made) order ((rstate s)(t := v), jobs s) = (st, q1)"
      "q = (if \<forall>g \<in> set goals. st g \<noteq> 0 then q1 @ [[]] else q1)"
    using u by (auto simp: update_rules_def split: prod.splits)
  have "held (mpcs s) - {t} \<subseteq> held (mpcs ?s)" using held_update [OF i(1)] i(2) by fastforce
  then have "job_inv deps order (started s) (held (mpcs ?s)) ((rstate s)(t := v)) (jobs s)"
    using job_inv_settle [OF j v, of t] job_inv_weaken by blast
  then have q1: "job_inv deps order (started s) (held (mpcs ?s)) st q1"
    using fold_update_inv [OF _ _ _ f(1)] ok by (simp add: make_order_def)
  then have "job_inv deps order (started s) (held (mpcs ?s)) st q"
    using job_inv_move [OF q1, of q] f(2) by (auto split: if_splits)
  moreover have "[] \<in> set q \<or> (\<exists>t. st t = 2)"
    using update_progress [OF ok q1 f(1)] ok f(2) by (auto simp: make_order_def)
  moreover have "held (mpcs ?s) \<subseteq> held (mpcs s)" using held_bound [of _ "mpcs s" i Pull] by fastforce
  moreover have "\<forall>t v. Update t v \<in> set (mpcs ?s) \<longrightarrow> v = 1 \<or> v = -1"
    using up set_update_subset_insert [of "mpcs s" i Pull] by (simp, blast)
  ultimately show ?thesis using sub st unfolding make_inv_def by auto
qed

lemma held_at: "i < length ps \<Longrightarrow> held_job (ps ! i) = Some t \<Longrightarrow> t \<in> held ps"
  unfolding held_def by (blast intro: nth_mem)

text \<open>The steps that leave the queue alone, and those that only take from the hand.\<close>

lemma make_inv_pc:
  assumes "make_inv deps order s" "i < length (mpcs s)" "mpcs s ! i = p"
    and "waiting_job p' = waiting_job p" "held_job p' = held_job p" "busy p' \<or> \<not> busy p" "\<And>t v. p' = Update t v \<Longrightarrow> v = 1 \<or> v = -1"
  shows "make_inv deps order (s\<lparr>mpcs := (mpcs s)[i := p']\<rparr>)"
proof -
  have e: "s\<lparr>mpcs := (mpcs s)[i := p']\<rparr> = s\<lparr>jobs := jobs s, mpcs := (mpcs s)[i := p'], ran := ran s @ []\<rparr>" by (cases s) simp
  have "t \<in> set (waiting_job p) \<Longrightarrow> held_job p = Some t" for t by (cases p) auto
  moreover have "held_job p = Some t \<Longrightarrow> t \<in> set order" for t
    using assms(1-3) nth_mem [OF assms(2)] unfolding make_inv_def held_def by blast
  ultimately show ?thesis unfolding e
    by (intro make_inv_move [OF assms(1-3)]) (use assms(4-7) in auto)
qed

lemma make_inv_step:
  assumes ok: "make_order deps order goals" and inv: "make_inv deps order s" and step: "make_step deps commands order goals s s'"
  shows "make_inv deps order s'"
  using step
proof cases
  case (pull_end i q)
  have e: "s' = s\<lparr>jobs := q, mpcs := (mpcs s)[i := Put_back], ran := ran s @ []\<rparr>" using pull_end by (cases s) simp
  show ?thesis unfolding e by (rule make_inv_move [OF inv pull_end(2,3)]) (use pull_end in auto)
next
  case (put_back i)
  have e: "s' = s\<lparr>jobs := jobs s @ [[]], mpcs := (mpcs s)[i := Ended], ran := ran s @ []\<rparr>" using put_back by (cases s) simp
  show ?thesis unfolding e by (rule make_inv_move [OF inv put_back(2,3)]) (use put_back in auto)
next
  case (pull i t q)
  have e: "s' = s\<lparr>jobs := q, mpcs := (mpcs s)[i := Check t (deps t)], ran := ran s @ []\<rparr>" using pull by (cases s) simp
  have "set (jobs s) \<subseteq> insert [] (set order)" using inv unfolding make_inv_def job_inv_def by blast
  then have "t \<in> set order" using pull by auto
  then show ?thesis unfolding e by (intro make_inv_move [OF inv pull(2,3)]) (use pull in auto)
next
  case (look_done i t flag)
  have e: "s' = s\<lparr>jobs := jobs s, mpcs := (mpcs s)[i := Pull], ran := ran s @ []\<rparr>" using look_done by (cases s) simp
  show ?thesis unfolding e by (rule make_inv_move [OF inv look_done(2,3)]) (use look_done in auto)
next
  case (look_run i t)
  have e: "s' = s\<lparr>jobs := jobs s, mpcs := (mpcs s)[i := Run t (commands t)], ran := ran s @ [t]\<rparr>" using look_run by (cases s) simp
  have "t \<in> held (mpcs s)" using held_at [OF look_run(2)] look_run(3) by simp
  then have "t \<in> set order" using inv unfolding make_inv_def by blast
  then show ?thesis unfolding e by (intro make_inv_move [OF inv look_run(2,3)]) (use look_run in auto)
next
  case (look_failed i t flag)
  have e: "s' = s\<lparr>jobs := jobs s, mpcs := (mpcs s)[i := Update t (-1)], ran := ran s @ []\<rparr>" using look_failed by (cases s) simp
  have "t \<in> held (mpcs s)" using held_at [OF look_failed(2)] look_failed(3) by simp
  then have "t \<in> set order" using inv unfolding make_inv_def by blast
  then show ?thesis unfolding e by (intro make_inv_move [OF inv look_failed(2,3)]) (use look_failed in auto)
next
  case (update i t v made st q)
  then show ?thesis using make_inv_update [OF inv ok] by simp
next
  case (check_failed i t d ds)
  show ?thesis unfolding check_failed(1) by (rule make_inv_pc [OF inv check_failed(2,3)]) simp_all
next
  case (check i t d ds)
  show ?thesis unfolding check(1) by (rule make_inv_pc [OF inv check(2,3)]) simp_all
next
  case (checked i t)
  show ?thesis unfolding checked(1) by (rule make_inv_pc [OF inv checked(2,3)]) simp_all
next
  case (command i t c cs)
  show ?thesis unfolding command(1) by (rule make_inv_pc [OF inv command(2,3)]) simp_all
next
  case (command_failed i t c cs)
  show ?thesis unfolding command_failed(1) by (rule make_inv_pc [OF inv command_failed(2,3)]) simp_all
next
  case (commands_end i t)
  show ?thesis unfolding commands_end(1) by (rule make_inv_pc [OF inv commands_end(2,3)]) simp_all
qed

section \<open>The start\<close>

lemma first_states_cases: "first_states made order v = 0 \<or> first_states made order v = 1"
proof -
  have "st v = 0 \<or> st v = 1 \<Longrightarrow> fold (\<lambda>v st. if made v then st(v := 1) else st) order st v = 0 \<or>
      fold (\<lambda>v st. if made v then st(v := 1) else st) order st v = 1" for st :: "string \<Rightarrow> int"
    by (induction order arbitrary: st) auto
  then show ?thesis by (simp add: first_states_def)
qed

lemma fold_first_job:
  assumes "fold (first_job deps) vs (st0, []) = (st, q)" "distinct vs" "\<And>v. st0 v = 0 \<or> st0 v = 1" "deps_first deps vs"
  shows "set q \<subseteq> set vs \<and> distinct q \<and> (\<forall>v. st v = 2 \<longleftrightarrow> v \<in> set q) \<and> (\<forall>v. v \<notin> set q \<longrightarrow> st v = st0 v) \<and>
    (\<forall>v \<in> set q. \<forall>d \<in> set (deps v). st d = 1)"
  using assms(1,2,4)
proof (induction vs arbitrary: st q rule: rev_induct)
  case Nil
  have "st0 v \<noteq> 2" for v using assms(3) [of v] by auto
  then show ?case using Nil by auto
next
  case (snoc v vs)
  obtain st1 q1 where f: "fold (first_job deps) vs (st0, []) = (st1, q1)" by fastforce
  have df: "deps_first deps vs" "set (deps v) \<subseteq> set vs"
    using snoc.prems(3) by (simp_all add: deps_first_snoc)
  have dv: "distinct vs" "v \<notin> set vs" using snoc.prems(2) by auto
  have i: "set q1 \<subseteq> set vs" "distinct q1" "\<forall>v. st1 v = 2 \<longleftrightarrow> v \<in> set q1" "\<forall>v. v \<notin> set q1 \<longrightarrow> st1 v = st0 v"
      "\<forall>v \<in> set q1. \<forall>d \<in> set (deps v). st1 d = 1"
    using snoc.IH [OF f dv(1) df(1)] by blast+
  have r: "(st, q) = first_job deps v (st1, q1)" using snoc.prems(1) f by simp
  show ?case
  proof (cases "\<forall>d \<in> set (deps v). st1 d = 1")
    case True
    have e: "st = st1(v := 2)" "q = q1 @ [v]" using r True by (simp_all add: first_job_def)
    have nv: "d \<noteq> v" if "u \<in> set vs \<or> u = v" "d \<in> set (deps u)" for u d
      using that deps_first_closed [OF df(1), of u] df(2) dv(2) by auto
    have "st d = 1" if "u \<in> set q" "d \<in> set (deps u)" for u d
      using that True i(1,5) nv [of u d] by (auto simp: e)
    moreover have "set q \<subseteq> set (vs @ [v])" "distinct q" using i(1,2) dv(2) by (auto simp: e)
    moreover have "\<forall>a. st a = 2 \<longleftrightarrow> a \<in> set q" "\<forall>a. a \<notin> set q \<longrightarrow> st a = st0 a" using i(3,4) by (auto simp: e)
    ultimately show ?thesis by blast
  next
    case False
    then have "first_job deps v (st1, q1) = (st1, q1)" by (simp only: first_job_def prod.case if_False)
    then have "st = st1" "q = q1" using r by simp_all
    then show ?thesis using i by auto
  qed
qed


lemma parmake_start_inv:
  assumes "make_order deps order goals"
  shows "make_inv deps order (parmake_start deps made order n)"
proof -
  obtain st q where f: "fold (first_job deps) order (first_states made order, []) = (st, q)" by fastforce
  have o: "distinct order" "deps_first deps order" "[] \<notin> set order" using assms by (auto simp: make_order_def)
  have i: "set q \<subseteq> set order" "distinct q" "\<forall>v. st v = 2 \<longleftrightarrow> v \<in> set q" "\<forall>v. v \<notin> set q \<longrightarrow> st v = first_states made order v"
      "\<forall>v \<in> set q. \<forall>d \<in> set (deps v). st d = 1"
    using fold_first_job [OF f o(1) first_states_cases o(2)] by blast+
  let ?q = "if order = [] then q @ [[]] else q"
  have s: "parmake_start deps made order n = \<lparr>jobs = ?q, rstate = st, mpcs = replicate n Pull, ran = []\<rparr>"
    by (simp add: parmake_start_def f)
  have p: "concat (map waiting_job (replicate n Pull)) = []" "held (replicate n Pull) = {}"
    by (auto simp: held_def)
  have j: "job_inv deps order [] {} st q"
    unfolding job_inv_def
  proof (intro conjI)
    show "distinct (filter (\<lambda>t. t \<noteq> []) q @ [])" "set q \<subseteq> insert [] (set order)" using i(1,2) by auto
    show "\<forall>t \<in> set (filter (\<lambda>t. t \<noteq> []) q @ []). st t \<noteq> 0 \<and> (\<forall>d \<in> set (deps t). st d = 1 \<or> st d = -1)"
    proof
      fix t assume "t \<in> set (filter (\<lambda>t. t \<noteq> []) q @ [])"
      then have "t \<in> set q" "st t = 2" using i(3) by simp_all
      then show "st t \<noteq> 0 \<and> (\<forall>d \<in> set (deps t). st d = 1 \<or> st d = -1)" using i(5) by simp
    qed
    show "\<forall>v. st v = 0 \<or> st v = 1 \<or> st v = 2 \<or> st v = -1" using i(3,4) first_states_cases by metis
    show "\<forall>v. st v = 2 \<longrightarrow> v \<noteq> [] \<and> v \<in> set q \<union> {}" using i(1,3) o(3) by auto
  qed
  have "job_inv deps order [] {} st ?q" using j job_inv_move [OF j, of ?q "[]" "{}"] by auto
  moreover have "[] \<in> set ?q \<or> (\<exists>t. st t = 2)"
  proof (cases order)
    case (Cons v vs)
    have "deps v = []" using o(2) Cons by (auto simp: deps_first_def dest: spec [of _ 0])
    then have "fold (first_job deps) order (first_states made order, []) = fold (first_job deps) vs ((first_states made order)(v := 2), [v])"
      using Cons by (simp add: first_job_def)
    moreover have "x \<in> set (snd (fold (first_job deps) ws (st', q')))" if "x \<in> set q'" for x ws st' q'
      using that by (induction ws arbitrary: st' q') (auto simp: first_job_def)
    ultimately have "v \<in> set q" using f by (metis list.set_intros(1) snd_conv)
    then show ?thesis using i(3) by blast
  qed simp
  ultimately show ?thesis unfolding make_inv_def s by (simp add: started_def p)
qed


section \<open>Reachable states\<close>


definition ended :: "make_sys \<Rightarrow> bool" where
  "ended s \<longleftrightarrow> (\<forall>p \<in> set (mpcs s). p = Ended)"

text \<open>A thread can step unless it has ended or waits at an empty queue.\<close>

lemma thread_steps:
  assumes "i < length (mpcs s)" "mpcs s ! i \<noteq> Ended" "mpcs s ! i = Pull \<longrightarrow> jobs s \<noteq> []"
  shows "\<exists>s'. make_step deps commands order goals s s'"
proof (cases "mpcs s ! i")
  case Pull
  then obtain t q where "jobs s = t # q" using assms(3) by (cases "jobs s") auto
  then show ?thesis using Pull assms(1) make_step.pull make_step.pull_end by (cases "t = []") blast+
next
  case (Check t ds)
  show ?thesis
  proof (cases ds)
    case Nil
    then show ?thesis using Check assms(1) make_step.checked by blast
  next
    case (Cons d ds')
    then show ?thesis using Check assms(1) make_step.check make_step.check_failed by (cases "rstate s d = -1") blast+
  qed
next
  case (Look t f)
  then show ?thesis using assms(1) make_step.look_done make_step.look_run make_step.look_failed by metis
next
  case (Run t cs)
  then show ?thesis using assms(1) make_step.command make_step.commands_end by (cases cs) blast+
next
  case (Update t v)
  obtain st q where "update_rules deps (\<lambda>_. False) order goals ((rstate s)(t := v)) (jobs s) = (st, q)" by fastforce
  then show ?thesis using make_step.update [OF assms(1) Update] by blast
qed (use assms(1,2) make_step.put_back in blast)+

lemma make_steps_left:
  assumes "make_inv deps order s" "\<not> ended s"
  shows "\<exists>s'. make_step deps commands order goals s s'"
proof (rule ccontr)
  assume stuck: "\<not> ?thesis"
  have p: "p = Ended \<or> p = Pull \<and> jobs s = []" if "p \<in> set (mpcs s)" for p
    using that stuck thread_steps [of _ s] by (metis in_set_conv_nth)
  then have "jobs s = []" "held (mpcs s) = {}" "\<not> (\<exists>p \<in> set (mpcs s). busy p)"
    using assms(2) by (fastforce simp: ended_def held_def)+
  then show False using assms(1) unfolding make_inv_def job_inv_def by auto
qed

section \<open>The work left\<close>

text \<open>An upper bound of the steps that are left: for a rule that is not settled those of its dependencies and
  commands, for a thread those of the rule it holds.\<close>

definition rule_work :: "(string \<Rightarrow> string list) \<Rightarrow> (string \<Rightarrow> string list) \<Rightarrow> string \<Rightarrow> nat" where
  "rule_work deps commands v = length (deps v) + length (commands v) + 6"

fun pc_work :: "(string \<Rightarrow> string list) \<Rightarrow> make_pc \<Rightarrow> nat" where
  "pc_work commands Pull = 2"
| "pc_work commands Put_back = 1"
| "pc_work commands (Check t ds) = length ds + length (commands t) + 6"
| "pc_work commands (Look t f) = length (commands t) + 5"
| "pc_work commands (Run t cs) = length cs + 4"
| "pc_work commands (Update t v) = 3"
| "pc_work commands Ended = 0"

definition queue_work :: "(string \<Rightarrow> string list) \<Rightarrow> (string \<Rightarrow> string list) \<Rightarrow> string list \<Rightarrow> (string \<Rightarrow> int) \<Rightarrow> string list \<Rightarrow> nat" where
  "queue_work deps commands order st q = (\<Sum>v \<in> {v \<in> set order. st v = 0}. rule_work deps commands v) +
     (\<Sum>t\<leftarrow>filter (\<lambda>t. t \<noteq> []) q. rule_work deps commands t)"

definition make_work :: "(string \<Rightarrow> string list) \<Rightarrow> (string \<Rightarrow> string list) \<Rightarrow> string list \<Rightarrow> make_sys \<Rightarrow> nat" where
  "make_work deps commands order s = queue_work deps commands order (rstate s) (jobs s) + (\<Sum>p\<leftarrow>mpcs s. pc_work commands p)"

lemma pending_settle: "x \<noteq> 0 \<Longrightarrow> {v \<in> set order. (st(a := x)) v = (0::int)} = {v \<in> set order. st v = 0} - {a}"
  by auto

lemma queue_work_settle:
  assumes "x \<noteq> 0"
  shows "queue_work deps commands order (st(v := x)) q \<le> queue_work deps commands order st q"
proof -
  have "(\<Sum>v \<in> {a \<in> set order. st a = 0} - {v}. rule_work deps commands v) \<le>
      (\<Sum>v \<in> {v \<in> set order. st v = 0}. rule_work deps commands v)" by (rule sum_mono2) auto
  then show ?thesis by (simp only: queue_work_def pending_settle [OF assms])
qed

lemma queue_work_queued:
  assumes "st v = 0" "v \<in> set order" "v \<noteq> []"
  shows "queue_work deps commands order (st(v := 2)) (q @ [v]) = queue_work deps commands order st q"
proof -
  have "(\<Sum>v \<in> {v \<in> set order. st v = 0}. rule_work deps commands v) =
      rule_work deps commands v + (\<Sum>v \<in> {a \<in> set order. st a = 0} - {v}. rule_work deps commands v)"
    by (rule sum.remove) (use assms(1,2) in auto)
  then show ?thesis using assms(3) pending_settle [of 2 order st v] by (simp add: queue_work_def)
qed

lemma update_rule_cases:
  assumes "update_rule deps made v (st, q) = (st', q')"
  obtains (same) "st' = st" "q' = q"
  | (settle) x where "x \<noteq> 0" "st' = st(v := x)" "q' = q"
  | (queue) "st v = 0" "st' = st(v := 2)" "q' = q @ [v]"
proof (cases "made v")
  case True
  then have "st' = st(v := 1)" "q' = q" using assms by (simp_all add: update_rule_def)
  then show thesis using settle [of 1] by simp
next
  case False
  consider "st v \<noteq> 0 \<or> dep_flag st (deps v) = 0" | "st v = 0" "dep_flag st (deps v) = -1" | "st v = 0" "dep_flag st (deps v) = 1"
    using dep_flag_cases [of st "deps v"] by blast
  then show thesis
  proof cases
    case 1
    then show thesis using same assms False by (cases "st v = 0") (simp_all add: update_rule_def)
  next
    case 2
    then show thesis using settle [of "-1"] assms False by (simp add: update_rule_def)
  next
    case 3
    then show thesis using queue assms False by (simp add: update_rule_def)
  qed
qed

lemma update_rule_work:
  assumes "update_rule deps made v (st, q) = (st', q')" "v \<in> set order" "v \<noteq> []"
  shows "queue_work deps commands order st' q' \<le> queue_work deps commands order st q"
  using assms(1) by (cases rule: update_rule_cases) (simp_all add: queue_work_settle queue_work_queued assms(2,3))

lemma fold_update_work:
  "fold (update_rule deps made) vs (st, q) = (st', q') \<Longrightarrow> set vs \<subseteq> set order \<Longrightarrow> [] \<notin> set vs \<Longrightarrow>
   queue_work deps commands order st' q' \<le> queue_work deps commands order st q"
proof (induction vs arbitrary: st q)
  case (Cons v vs)
  obtain st1 q1 where u: "update_rule deps made v (st, q) = (st1, q1)" by fastforce
  have "queue_work deps commands order st1 q1 \<le> queue_work deps commands order st q"
    using update_rule_work [OF u] Cons.prems(2,3) by auto
  moreover have "queue_work deps commands order st' q' \<le> queue_work deps commands order st1 q1"
    using Cons.IH [of st1 q1] Cons.prems u by simp
  ultimately show ?case by simp
qed simp

lemma update_rules_work:
  assumes "update_rules deps made order goals st q = (st', q')" "[] \<notin> set order"
  shows "queue_work deps commands order st' q' \<le> queue_work deps commands order st q"
proof -
  obtain q1 where f: "fold (update_rule deps made) order (st, q) = (st', q1)"
      "q' = (if \<forall>g \<in> set goals. st' g \<noteq> 0 then q1 @ [[]] else q1)"
    using assms(1) by (auto simp: update_rules_def split: prod.splits)
  have "queue_work deps commands order st' q' = queue_work deps commands order st' q1" using f(2) by (simp add: queue_work_def)
  then show ?thesis using fold_update_work [OF f(1) _ assms(2)] by simp
qed

lemma make_step_work:
  assumes inv: "make_inv deps order s" and o: "[] \<notin> set order" and step: "make_step deps commands order goals s s'"
  shows "make_work deps commands order s' < make_work deps commands order s"
  using step
proof cases
  case (update i t v made st q)
  have "\<forall>t v. Update t v \<in> set (mpcs s) \<longrightarrow> v = 1 \<or> v = -1" using inv unfolding make_inv_def by blast
  then have "v = 1 \<or> v = -1" using nth_mem [OF update(2)] update(3) by metis
  then have v: "v \<noteq> 0" by auto
  have "queue_work deps commands order st q \<le> queue_work deps commands order (rstate s) (jobs s)"
    using update_rules_work [OF update(4) o] queue_work_settle [OF v] le_trans by blast
  then show ?thesis using update(1-3) sum_list_at [OF update(2), where f = "pc_work commands" and y = Pull]
    by (simp add: make_work_def)
next
  case (pull_end i q)
  then show ?thesis using sum_list_at [OF pull_end(2), where f = "pc_work commands" and y = Put_back]
    by (simp add: make_work_def queue_work_def)
next
  case (put_back i)
  then show ?thesis using sum_list_at [OF put_back(2), where f = "pc_work commands" and y = Ended]
    by (simp add: make_work_def queue_work_def)
next
  case (pull i t q)
  then show ?thesis using sum_list_at [OF pull(2), where f = "pc_work commands" and y = "Check t (deps t)"]
    by (simp add: make_work_def queue_work_def rule_work_def)
next
  case (check_failed i t d ds)
  then show ?thesis using sum_list_at [OF check_failed(2), where f = "pc_work commands" and y = "Look t (-1)"] by (simp add: make_work_def)
next
  case (check i t d ds)
  then show ?thesis using sum_list_at [OF check(2), where f = "pc_work commands" and y = "Check t ds"] by (simp add: make_work_def)
next
  case (checked i t)
  then show ?thesis using sum_list_at [OF checked(2), where f = "pc_work commands" and y = "Look t 0"] by (simp add: make_work_def)
next
  case (look_done i t flag)
  then show ?thesis using sum_list_at [OF look_done(2), where f = "pc_work commands" and y = Pull] by (simp add: make_work_def)
next
  case (look_run i t)
  then show ?thesis using sum_list_at [OF look_run(2), where f = "pc_work commands" and y = "Run t (commands t)"] by (simp add: make_work_def)
next
  case (look_failed i t flag)
  then show ?thesis using sum_list_at [OF look_failed(2), where f = "pc_work commands" and y = "Update t (-1)"] by (simp add: make_work_def)
next
  case (command i t c cs)
  then show ?thesis using sum_list_at [OF command(2), where f = "pc_work commands" and y = "Run t cs"] by (simp add: make_work_def)
next
  case (command_failed i t c cs)
  then show ?thesis using sum_list_at [OF command_failed(2), where f = "pc_work commands" and y = "Update t (-1)"] by (simp add: make_work_def)
next
  case (commands_end i t)
  then show ?thesis using sum_list_at [OF commands_end(2), where f = "pc_work commands" and y = "Update t 1"] by (simp add: make_work_def)
qed

lemma make_steps_work:
  assumes ok: "make_order deps order goals" and steps: "(make_step deps commands order goals ^^ k) s t" and inv: "make_inv deps order s"
  shows "k + make_work deps commands order t \<le> make_work deps commands order s \<and> make_inv deps order t"
  using steps
proof (induction k arbitrary: t)
  case (Suc k)
  then obtain u where u: "(make_step deps commands order goals ^^ k) s u" "make_step deps commands order goals u t" by auto
  then show ?case using Suc.IH [OF u(1)] make_step_work [OF _ _ u(2)] make_inv_step [OF ok _ u(2)] ok
    by (fastforce simp: make_order_def)
qed (use inv in simp)

section \<open>The goals\<close>

text \<open>The empty name is queued only when no goal is left to queue: no goal is behind it in the queue, and no
  thread ends before the goals have left the queue.\<close>

fun leaving :: "make_pc \<Rightarrow> bool" where
  "leaving Put_back \<longleftrightarrow> True"
| "leaving Ended \<longleftrightarrow> True"
| "leaving _ \<longleftrightarrow> False"

definition behind_end :: "string list \<Rightarrow> string list" where
  "behind_end q = dropWhile (\<lambda>t. t \<noteq> []) q"

lemma behind_end_simps [simp]:
  "behind_end [] = []" "behind_end (t # q) = (if t = [] then t # q else behind_end q)"
  "behind_end (q @ q') = (if [] \<in> set q then behind_end q @ q' else behind_end q')"
  by (auto simp: behind_end_def dropWhile_append)

lemma behind_end_subset: "set (behind_end q) \<subseteq> set q"
  by (auto simp: behind_end_def dest: set_dropWhileD)

lemma behind_end_empty: "[] \<notin> set q \<Longrightarrow> behind_end q = []"
  by (auto simp: behind_end_def dropWhile_eq_Nil_conv)

definition goals_inv :: "string list \<Rightarrow> make_sys \<Rightarrow> bool" where
  "goals_inv goals s \<longleftrightarrow>
     ([] \<in> set (jobs s) \<or> (\<exists>p \<in> set (mpcs s). leaving p) \<longrightarrow> (\<forall>g \<in> set goals. rstate s g \<noteq> 0)) \<and>
     set (behind_end (jobs s)) \<inter> set goals = {} \<and>
     ((\<exists>p \<in> set (mpcs s). leaving p) \<longrightarrow> set (jobs s) \<inter> set goals = {})"

lemma goals_invD:
  assumes "goals_inv goals s"
  shows "[] \<in> set (jobs s) \<or> (\<exists>p \<in> set (mpcs s). leaving p) \<Longrightarrow> g \<in> set goals \<Longrightarrow> rstate s g \<noteq> 0"
    "set (behind_end (jobs s)) \<inter> set goals = {}"
    "\<exists>p \<in> set (mpcs s). leaving p \<Longrightarrow> set (jobs s) \<inter> set goals = {}"
  using assms unfolding goals_inv_def by blast+

lemma leaving_update:
  "\<exists>p \<in> set (ps[i := x]). leaving p \<Longrightarrow> (\<exists>p \<in> set ps. leaving p) \<or> leaving x"
  using set_update_subset_insert [of ps i x] by blast

lemma goals_inv_pc:
  assumes "goals_inv goals s" "\<not> leaving x"
  shows "goals_inv goals (s\<lparr>mpcs := (mpcs s)[i := x], ran := r\<rparr>)"
  using assms(1) leaving_update [of "mpcs s" i x] assms(2) unfolding goals_inv_def by (auto; blast)

lemma update_rule_goals:
  assumes "update_rule deps made v (st, q) = (st', q')"
  shows "st a \<noteq> 0 \<Longrightarrow> st' a \<noteq> 0" "\<exists>B. q' = q @ B \<and> set B \<subseteq> {v} \<and> (\<forall>t \<in> set B. st t = 0)"
  using assms by (auto elim!: update_rule_cases split: if_split_asm)

lemma fold_update_goals:
  "fold (update_rule deps made) vs (st, q) = (st', q') \<Longrightarrow>
   (\<forall>a. st a \<noteq> 0 \<longrightarrow> st' a \<noteq> 0) \<and> (\<exists>B. q' = q @ B \<and> set B \<subseteq> set vs \<and> (\<forall>t \<in> set B. st t = 0))"
proof (induction vs arbitrary: st q)
  case (Cons v vs)
  obtain st1 q1 where u: "update_rule deps made v (st, q) = (st1, q1)" by fastforce
  note r = update_rule_goals [OF u]
  have i: "\<forall>a. st1 a \<noteq> 0 \<longrightarrow> st' a \<noteq> 0" "\<exists>B. q' = q1 @ B \<and> set B \<subseteq> set vs \<and> (\<forall>t \<in> set B. st1 t = 0)"
    using Cons.IH [of st1 q1] Cons.prems u by simp_all
  obtain B B' where "q1 = q @ B" "set B \<subseteq> {v}" "\<forall>t \<in> set B. st t = 0" "q' = q1 @ B'" "set B' \<subseteq> set vs" "\<forall>t \<in> set B'. st1 t = 0" using r(2) i(2) by blast
  then have "q' = q @ (B @ B') \<and> set (B @ B') \<subseteq> set (v # vs) \<and> (\<forall>t \<in> set (B @ B'). st t = 0)" using r(1) by (auto, metis)
  then show ?case using r(1) i(1) by blast
qed simp

lemma goals_inv_queue:
  assumes inv: "goals_inv goals s" and B: "\<forall>t \<in> set B. t \<noteq> [] \<and> rstate s t = 0" and g: "[] \<notin> set goals"
    and st: "\<forall>a. rstate s a \<noteq> 0 \<longrightarrow> st a \<noteq> 0"
    and q: "q = jobs s @ B \<or> q = jobs s @ B @ [[]] \<and> (\<forall>g \<in> set goals. st g \<noteq> 0)" and x: "\<not> leaving x"
  shows "goals_inv goals (s\<lparr>rstate := st, jobs := q, mpcs := (mpcs s)[i := x]\<rparr>)"
proof -
  note i = goals_invD [OF inv]
  let ?E = "[] \<in> set (jobs s) \<or> (\<exists>p \<in> set (mpcs s). leaving p)"
  have new: "set B \<inter> set goals = {}" if ?E using i(1) [OF that] B by auto
  have nB: "[] \<notin> set B" using B by auto
  have "set (behind_end q) \<inter> set goals = {}"
  proof (cases "[] \<in> set (jobs s)")
    case True
    then show ?thesis using i(2) new g q by auto
  next
    case False
    then show ?thesis using behind_end_empty [OF nB] g q nB by auto
  qed
  moreover have "rstate s g \<noteq> 0 \<or> st g \<noteq> 0" if "[] \<in> set q \<or> (\<exists>p \<in> set ((mpcs s)[i := x]). leaving p)" "g \<in> set goals" for g
    using that q nB i(1) leaving_update x by (metis Un_iff set_append)
  moreover have "set q \<inter> set goals = {}" if "\<exists>p \<in> set ((mpcs s)[i := x]). leaving p"
  proof -
    have l: "\<exists>p \<in> set (mpcs s). leaving p" using leaving_update [OF that] x by blast
    show ?thesis using i(3) [OF l] new l g q by auto
  qed
  ultimately show ?thesis using st unfolding goals_inv_def by auto
qed


lemma goals_inv_step:
  assumes ok: "make_order deps order goals" and inv: "make_inv deps order s" and g: "goals_inv goals s"
    and step: "make_step deps commands order goals s s'"
  shows "goals_inv goals s'"
proof -
  have pc: "goals_inv goals (s\<lparr>mpcs := (mpcs s)[i := x]\<rparr>)" if "\<not> leaving x" for i x
    using goals_inv_pc [OF g that, of "ran s" i] by simp
  have gn: "[] \<notin> set goals" "[] \<notin> set order" using ok by (auto simp: make_order_def)
  note d = goals_invD [OF g]
  show ?thesis
    using step
  proof cases
    case (pull_end i q)
    have "set q \<inter> set goals = {}" "\<forall>g \<in> set goals. rstate s g \<noteq> 0" using d(1,2) pull_end(4) by auto
    then show ?thesis using pull_end(1) behind_end_subset [of q] unfolding goals_inv_def by auto
  next
    case (put_back i)
    have l: "\<exists>p \<in> set (mpcs s). leaving p" using nth_mem [OF put_back(2)] put_back(3) by (metis leaving.simps(1))
    have "set (jobs s) \<inter> set goals = {}" "\<forall>g \<in> set goals. rstate s g \<noteq> 0" using d(3) [OF l] d(1) l by blast+
    then show ?thesis using put_back(1) gn(1) behind_end_subset [of "jobs s"] unfolding goals_inv_def by auto
  next
    case (pull i t q)
    have "goals_inv goals (s\<lparr>jobs := q\<rparr>)" using g pull(4,5) unfolding goals_inv_def by auto
    from goals_inv_pc [OF this, of "Check t (deps t)" "ran s" i] show ?thesis using pull(1) by simp
  next
    case (look_run i t)
    then show ?thesis using goals_inv_pc [OF g, of "Run t (commands t)" "ran s @ [t]" i] by simp
  next
    case (update i t v made st q)
    have "\<forall>t v. Update t v \<in> set (mpcs s) \<longrightarrow> v = 1 \<or> v = -1" using inv unfolding make_inv_def by blast
    then have "v = 1 \<or> v = -1" using nth_mem [OF update(2)] update(3) by metis
    then have v: "v \<noteq> 0" by auto
    obtain q1 where f: "fold (update_rule deps made) order ((rstate s)(t := v), jobs s) = (st, q1)"
        "q = (if \<forall>g \<in> set goals. st g \<noteq> 0 then q1 @ [[]] else q1)"
      using update(4) by (auto simp: update_rules_def split: prod.splits)
    obtain B where B: "q1 = jobs s @ B" "set B \<subseteq> set order" "\<forall>u \<in> set B. ((rstate s)(t := v)) u = 0"
        "\<forall>a. ((rstate s)(t := v)) a \<noteq> 0 \<longrightarrow> st a \<noteq> 0"
      using fold_update_goals [OF f(1)] by blast
    have "\<forall>u \<in> set B. u \<noteq> [] \<and> rstate s u = 0" "\<forall>a. rstate s a \<noteq> 0 \<longrightarrow> st a \<noteq> 0"
      using B(2-4) gn(2) v by (auto split: if_split_asm)
    then have "goals_inv goals (s\<lparr>rstate := st, jobs := q, mpcs := (mpcs s)[i := Pull]\<rparr>)"
      using f(2) B(1) by (intro goals_inv_queue [OF g _ gn(1)]) (auto split: if_split_asm)
    then show ?thesis using update(1) by simp
  qed (simp_all add: pc)
qed

lemma parmake_start_goals: "make_order deps order goals \<Longrightarrow> goals_inv goals (parmake_start deps made order n)"
proof -
  assume ok: "make_order deps order goals"
  obtain st q where f: "fold (first_job deps) order (first_states made order, []) = (st, q)" by fastforce
  have "set q \<subseteq> set order" using fold_first_job [OF f _ first_states_cases] ok by (simp add: make_order_def)
  then have "[] \<notin> set q" using ok by (auto simp: make_order_def)
  moreover have "\<not> (\<exists>p \<in> set (replicate n Pull). leaving p)" by auto
  moreover have "order = [] \<longrightarrow> set goals = {}" using ok by (auto simp: make_order_def)
  ultimately show ?thesis by (auto simp: parmake_start_def f goals_inv_def behind_end_empty)
qed

interpretation goals: state_machine "\<lambda>s. \<exists>n. s = parmake_start deps made order n \<and> make_order deps order goals"
    "make_step deps commands order goals" "\<lambda>s. make_inv deps order s \<and> make_order deps order goals \<and> goals_inv goals s"
  for deps made order goals commands
  by unfold_locales (auto intro: parmake_start_inv make_inv_step goals_inv_step parmake_start_goals)

lemma make_step_threads: "make_step deps commands order goals s s' \<Longrightarrow> length (mpcs s') = length (mpcs s)"
  by (cases rule: make_step.cases) auto

lemma make_steps_threads: "(make_step deps commands order goals)\<^sup>*\<^sup>* s s' \<Longrightarrow> length (mpcs s') = length (mpcs s)"
  by (induction rule: rtranclp_induct) (simp_all add: make_step_threads)

lemma ended_goals:
  assumes "make_inv deps order s" "goals_inv goals s" "ended s" "mpcs s \<noteq> []" "g \<in> set goals"
  shows "rstate s g = 1 \<or> rstate s g = -1"
proof -
  have l: "\<exists>p \<in> set (mpcs s). leaving p" using assms(3,4) by (cases "mpcs s") (auto simp: ended_def)
  have "rstate s g \<noteq> 0" "g \<notin> set (jobs s)" using goals_invD(1,3) [OF assms(2)] l assms(5) by blast+
  moreover have "held (mpcs s) = {}" using assms(3) by (force simp: held_def ended_def)
  moreover have j: "job_inv deps order (started s) (held (mpcs s)) (rstate s) (jobs s)" using assms(1) unfolding make_inv_def by blast
  ultimately show ?thesis using job_invD(4) [OF j, of g] job_invD(5) [OF j, of g] by auto
qed

section \<open>What the threads promise\<close>


text \<open>C5: \<open>parmake\<close> returns. No run of the threads has more steps than there is work at the start; a run can
  only stop when every thread has ended, so no thread is left waiting at the queue; and then every goal has
  been done or has failed.\<close>

theorem parmake_returns:
  assumes "make_order deps order goals" "(make_step deps commands order goals ^^ k) (parmake_start deps made order n) s" "0 < n"
  shows "k \<le> make_work deps commands order (parmake_start deps made order n) \<and>
    ((\<exists>s'. make_step deps commands order goals s s') \<or> ended s \<and> (\<forall>g \<in> set goals. rstate s g = 1 \<or> rstate s g = -1))"
proof -
  have inv: "make_inv deps order s" and k: "k \<le> make_work deps commands order (parmake_start deps made order n)"
    using make_steps_work [OF assms(1,2) parmake_start_inv [OF assms(1)]] by auto
  have steps: "(make_step deps commands order goals)\<^sup>*\<^sup>* (parmake_start deps made order n) s"
    using assms(2) by (rule relpowp_imp_rtranclp)
  have "goals_inv goals s"
    using goals.reachable_inv [of "parmake_start deps made order n" deps made order goals commands s] steps assms(1) by blast
  moreover have "mpcs s \<noteq> []" using make_steps_threads [OF steps] assms(3) by (auto simp: parmake_start_def split: prod.splits)
  ultimately show ?thesis using k make_steps_left [OF inv] ended_goals [OF inv] by blast
qed

text \<open>Two rules, the first needing the second.\<close>

definition two_rules :: "string \<Rightarrow> string list" where
  "two_rules v = (if v = ''a'' then [''b''] else [])"

lemma two_rules_order: "make_order two_rules [''b'', ''a''] [''a'']"
  by (auto simp: make_order_def deps_first_def two_rules_def less_Suc_eq)

lemma two_rules_start: "parmake_start two_rules (\<lambda>_. False) [''b'', ''a''] 1 =
    \<lparr>jobs = [''b''], rstate = (\<lambda>_. 0)(''b'' := 2), mpcs = [Pull], ran = []\<rparr>"
  by (simp add: parmake_start_def first_job_def first_states_def two_rules_def)

lemma three_steps: "R a b \<Longrightarrow> R b c \<Longrightarrow> R c d \<Longrightarrow> (R ^^ 3) a d"
  by (auto simp: numeral_3_eq_3)

lemma two_rules_steps:
  "(make_step two_rules (\<lambda>_. []) [''b'', ''a''] [''a''] ^^ 3) (parmake_start two_rules (\<lambda>_. False) [''b'', ''a''] 1)
     \<lparr>jobs = [], rstate = (\<lambda>_. 0)(''b'' := 2), mpcs = [Run ''b'' []], ran = [''b'']\<rparr>"
proof -
  let ?step = "make_step two_rules (\<lambda>_. []) [''b'', ''a''] [''a'']"
  let ?s = "\<lambda>q p r. \<lparr>jobs = q, rstate = (\<lambda>_. 0)(''b'' := 2 :: int), mpcs = [p], ran = r\<rparr>"
  have 1: "?step (?s [''b''] Pull []) (?s [] (Check ''b'' []) [])"
    using make_step.pull [of 0 "?s [''b''] Pull []" "''b''" "[]" two_rules] by (simp add: two_rules_def)
  have 2: "?step (?s [] (Check ''b'' []) []) (?s [] (Look ''b'' 0) [])"
    using make_step.checked [of 0 "?s [] (Check ''b'' []) []" "''b''"] by simp
  have 3: "?step (?s [] (Look ''b'' 0) []) (?s [] (Run ''b'' []) [''b''])"
    using make_step.look_run [of 0 "?s [] (Look ''b'' 0) []" "''b''" two_rules "\<lambda>_. []"] by simp
  show ?thesis unfolding two_rules_start by (rule three_steps [of ?step, OF 1 2 3])
qed


theorem parmake_returns_witness:
  "3 \<le> make_work two_rules (\<lambda>_. []) [''b'', ''a''] (parmake_start two_rules (\<lambda>_. False) [''b'', ''a''] 1)"
  using parmake_returns [OF two_rules_order two_rules_steps] by simp

end
