(* ===== verification/Chat.thy ===== *)
theory Chat
  imports CString Interfaces
begin

text \<open>
  \<open>charming_chatroom\<close>: the framing of messages in \<open>utils.c\<close>, the two loops of \<open>client.c\<close> and the server of
  \<open>server.c\<close> with one thread for each client.

  A connected socket is what the peer makes of it: \<open>incoming\<close> is what \<open>recv\<close> will find, blocks of bytes each
  handed out in one or more calls, interruptions (\<open>EINTR\<close>), other failures, and at its end the end of the
  stream; \<open>outgoing\<close> is what \<open>send\<close> has taken, and \<open>sends_left\<close> how the next calls of \<open>send\<close> turn out: a number
  of bytes taken, an interruption or a failure; when it is used up a call takes all it is offered.
\<close>

datatype chat_event = Bytes "char list" | Recv_eintr | Recv_error
datatype chat_result = Takes nat | Send_eintr | Send_error

record chat_sock =
  incoming :: "chat_event list"
  outgoing :: "char list"
  sends_left :: "chat_result list"

section \<open>\<open>utils.c\<close>\<close>

text \<open>\<open>count\<close> is what is still to be read; the result, the bytes put into the buffer, what is left of the input.\<close>

function read_all_loop :: "nat \<Rightarrow> char list \<Rightarrow> chat_event list \<Rightarrow> int \<times> char list \<times> chat_event list" where
  "read_all_loop count buffer es =
     (if length buffer < count then
        (case es of
           [] \<Rightarrow> (int (length buffer), buffer, [])
         | Recv_error # es \<Rightarrow> (-1, buffer, es)
         | Recv_eintr # es \<Rightarrow> read_all_loop count buffer es
         | Bytes bs # es \<Rightarrow>
             let room = count - length buffer in
             if bs = [] then (int (length buffer), buffer, es)
             else read_all_loop count (buffer @ take room bs) (if length bs \<le> room then es else Bytes (drop room bs) # es))
      else (int (length buffer), buffer, es))"
  by pat_completeness auto
termination
  by (relation "measures [\<lambda>(count, buffer, es). count - length buffer, \<lambda>(count, buffer, es). length es]")
    (auto simp: min_def neq_Nil_conv)

declare read_all_loop.simps [simp del]

definition read_all_from_socket :: "nat \<Rightarrow> chat_event list \<Rightarrow> int \<times> char list \<times> chat_event list" where
  "read_all_from_socket count es = read_all_loop count [] es"

function write_all_loop :: "char list \<Rightarrow> nat \<Rightarrow> nat \<Rightarrow> chat_sock \<Rightarrow> int \<times> chat_sock" where
  "write_all_loop buffer count bytes_written s =
     (if bytes_written < count then
        (case sends_left s of
           [] \<Rightarrow> (int count, s\<lparr>outgoing := outgoing s @ take (count - bytes_written) (drop bytes_written buffer)\<rparr>)
         | Send_error # rs \<Rightarrow> (-1, s\<lparr>sends_left := rs\<rparr>)
         | Send_eintr # rs \<Rightarrow> write_all_loop buffer count bytes_written (s\<lparr>sends_left := rs\<rparr>)
         | Takes k # rs \<Rightarrow>
             let n = min k (count - bytes_written);
                 s = s\<lparr>outgoing := outgoing s @ take n (drop bytes_written buffer), sends_left := rs\<rparr> in
             if n = 0 then (int bytes_written, s)
             else write_all_loop buffer count (bytes_written + n) s)
      else (int bytes_written, s))"
  by pat_completeness auto
termination by (relation "measure (\<lambda>(buffer, count, written, s). length (sends_left s))") auto

declare write_all_loop.simps [simp del]

definition write_all_to_socket :: "char list \<Rightarrow> nat \<Rightarrow> chat_sock \<Rightarrow> int \<times> chat_sock" where
  "write_all_to_socket buffer count s = write_all_loop buffer count 0 s"

text \<open>The size travels as four bytes, highest first.\<close>

definition htonl_bytes :: "nat \<Rightarrow> char list" where
  "htonl_bytes n = [char_of (n div 2 ^ 24), char_of (n div 2 ^ 16), char_of (n div 2 ^ 8), char_of n]"

definition ntohl_bytes :: "char list \<Rightarrow> nat" where
  "ntohl_bytes bs = foldl (\<lambda>a b. 256 * a + of_char b) 0 bs"

definition write_message_size :: "nat \<Rightarrow> chat_sock \<Rightarrow> int \<times> chat_sock" where
  "write_message_size len s = write_all_to_socket (htonl_bytes len) 4 s"

text \<open>\<open>junk\<close> is what was in the four bytes of the local variable: a stream that ends after one, two or three
  bytes leaves the others as they were.\<close>

definition get_message_size :: "char list \<Rightarrow> chat_event list \<Rightarrow> int \<times> chat_event list" where
  "get_message_size junk es =
     (let (read_bytes, bs, es) = read_all_from_socket 4 es in
      if read_bytes = 0 \<or> read_bytes = -1 then (read_bytes, es)
      else (int (ntohl_bytes (take 4 (bs @ drop (length bs) junk))), es))"

text \<open>The two lengths and their sum are of type \<open>int\<close>. A negative sum is a request no \<open>calloc\<close> serves, and
  \<open>sprintf\<close> writes through the null it returns; a positive one may have lost its high bits, and be too small for
  the text, the two characters between and the zero.\<close>

definition create_message :: "char list \<Rightarrow> char list \<Rightarrow> char list outcome" where
  "create_message name message =
     (let name_len = c_int (length name); msg_len = c_int (length message) in
      rbind (int_add msg_len name_len) (\<lambda>n. rbind (int_add n 4) (\<lambda>n.
        if n < 0 then Inl Null_deref
        else if n < int (length name + length message + 3) then Inl Out_of_bounds
        else Inr (name @ '': '' @ message))))"

lemma create_message_fits:
  "length name + length message + 4 < 2147483648 \<Longrightarrow> create_message name message = Inr (name @ '': '' @ message)"
  by (simp add: create_message_def Let_def c_int_small)

section \<open>\<open>client.c\<close>\<close>

text \<open>\<open>screen\<close> is what the user enters until the window closes; the text printed is the buffer up to its first
  zero byte. A message without one is printed from beyond its block.\<close>

fun write_to_server :: "char list \<Rightarrow> char list list \<Rightarrow> chat_sock \<Rightarrow> chat_sock outcome" where
  "write_to_server name [] s = Inr s"
| "write_to_server name (buffer # screen) s =
     rbind (create_message name buffer) (\<lambda>msg.
      let len = length msg + 1;
          (retval, s) = write_message_size len s;
          (retval, s) = (if retval > 0 then write_all_to_socket (msg @ [NUL]) len s else (retval, s)) in
      if retval > 0 then write_to_server name screen s else Inr s)"

definition print_buffer :: "char list \<Rightarrow> char list outcome" where
  "print_buffer buffer = (if NUL \<in> set buffer then Inr (takeWhile (\<lambda>c. c \<noteq> NUL) buffer) else Inl Out_of_bounds)"

definition calloc_read :: "nat \<Rightarrow> chat_event list \<Rightarrow> int \<times> char list \<times> chat_event list" where
  "calloc_read len es =
     (let (retval, bs, es) = read_all_from_socket len es in (retval, bs @ replicate (len - length bs) NUL, es))"

text \<open>The bytes and events left to receive: what a round that reads anything makes smaller.\<close>

fun left_to_receive :: "chat_event list \<Rightarrow> nat" where
  "left_to_receive [] = 0"
| "left_to_receive (Bytes bs # es) = Suc (length bs) + left_to_receive es"
| "left_to_receive (e # es) = Suc (left_to_receive es)"

lemma read_all_left: "left_to_receive (snd (snd (read_all_loop count buffer es))) + length (fst (snd (read_all_loop count buffer es)))
    \<le> left_to_receive es + length buffer"
proof (induction count buffer es rule: read_all_loop.induct)
  case (1 count buffer es)
  show ?case
  proof (cases "length buffer < count")
    case True
    show ?thesis
    proof (cases es)
      case Nil
      then show ?thesis using True by (simp add: read_all_loop.simps)
    next
      case (Cons e rest)
      show ?thesis
      proof (cases e)
        case (Bytes bs)
        show ?thesis
        proof (cases "bs = []")
          case True
          then show ?thesis using \<open>length buffer < count\<close> Cons Bytes
            by (subst (1 2) read_all_loop.simps) simp
        next
          case False
          then show ?thesis using 1(1) [OF True Cons Bytes refl False] True Cons Bytes
            by (subst (1 2) read_all_loop.simps) (auto simp: Let_def min_def split: if_splits)
        qed
      next
        case Recv_eintr
        then show ?thesis using 1(2) [OF True Cons Recv_eintr] True Cons
          by (subst (1 2) read_all_loop.simps) simp
      next
        case Recv_error
        then show ?thesis using True Cons by (subst (1 2) read_all_loop.simps) simp
      qed
    qed
  qed (subst (1 2) read_all_loop.simps, simp)
qed

lemma read_all_result: "fst (read_all_loop count buffer es) = -1 \<or> fst (read_all_loop count buffer es) = int (length (fst (snd (read_all_loop count buffer es))))"
proof (induction count buffer es rule: read_all_loop.induct)
  case (1 count buffer es)
  show ?case
  proof (cases "length buffer < count \<and> es \<noteq> []")
    case True
    then obtain e rest where es: "es = e # rest" "length buffer < count" by (cases es) auto
    show ?thesis
    proof (cases e)
      case (Bytes bs)
      then show ?thesis using 1(1) [OF es(2,1) Bytes refl] es
        by (cases "bs = []") (subst (1 2 3) read_all_loop.simps, simp add: Let_def)+
    next
      case Recv_eintr
      then show ?thesis using 1(2) [OF es(2,1) Recv_eintr] es by (subst (1 2 3) read_all_loop.simps) simp
    next
      case Recv_error
      then show ?thesis using es by (subst (1 2 3) read_all_loop.simps) simp
    qed
  next
    case False
    then show ?thesis by (subst (1 2 3) read_all_loop.simps) (auto split: list.split)
  qed
qed

lemma get_message_size_left:
  assumes "get_message_size junk es = (r, es')"
  shows "left_to_receive es' \<le> left_to_receive es"
  using assms read_all_left [of 4 "[]" es]
  by (auto simp: get_message_size_def read_all_from_socket_def split: prod.splits if_splits)

lemma calloc_read_left:
  assumes "calloc_read len es = (r, buffer, es')" "0 < r"
  shows "left_to_receive es' < left_to_receive es"
  using assms read_all_left [of len "[]" es] read_all_result [of len "[]" es]
  by (auto simp: calloc_read_def read_all_from_socket_def simp flip: length_greater_0_conv split: prod.splits)

text \<open>The lines printed. The loop ends with the stream.\<close>

function read_from_server :: "char list \<Rightarrow> chat_event list \<Rightarrow> char list list outcome" where
  "read_from_server junk es =
     (case get_message_size junk es of (retval, es) \<Rightarrow>
        if retval > 0 then
          (case calloc_read (nat retval) es of (retval, buffer, es) \<Rightarrow>
             if retval > 0 then
               rbind (print_buffer buffer) (\<lambda>line. rbind (read_from_server junk es) (\<lambda>lines. Inr (line # lines)))
             else Inr [])
        else Inr [])"
  by pat_completeness auto
termination
  by (relation "measure (\<lambda>(junk, es). left_to_receive es)")
    (simp, clarsimp, metis get_message_size_left calloc_read_left less_le_trans)

declare read_from_server.simps [simp del]

section \<open>\<open>server.c\<close>\<close>

text \<open>
  A slot of \<open>clients\<close> holds a descriptor or none; \<open>wires\<close> are the sockets of the descriptors and \<open>opened\<close> says
  which are open. A thread is at the head of its loop, about to receive the size of a message, about to receive
  that many bytes, in \<open>write_to_clients\<close> with a message, about to close its socket, about to free its slot, or
  gone. The main thread is at the head of its loop, in \<open>accept\<close>, about to find a slot for the descriptor it was given,
  or past the loop. \<open>broadcaster\<close> is the thread that holds the mutex in \<open>write_to_clients\<close>, with its message
  and the slot its loop has come to; finding and freeing a slot are done under the mutex in one step, when no thread holds
  it. \<open>said\<close> records what has been broadcast, and \<open>joined\<close> how much of it before a descriptor got its slot.
\<close>

definition MAX_CLIENTS :: nat where "MAX_CLIENTS = 8"

datatype chat_pc = Chat_head | Chat_size | Chat_body nat | Chat_send "char list" | Chat_close | Chat_leave | Chat_gone
datatype chat_main = Main_head | Main_accept | Main_seat nat | Main_over

record chat_server =
  clients :: "nat option list"
  clientsCount :: int
  wires :: "nat \<Rightarrow> chat_sock"
  opened :: "nat \<Rightarrow> bool"
  chatters :: "(nat \<times> chat_pc) list"
  main_at :: chat_main
  broadcaster :: "(nat \<times> char list \<times> nat) option"
  endSession :: bool
  said :: "char list list"
  joined :: "nat \<Rightarrow> nat"

text \<open>One round of the loop in \<open>write_to_clients\<close>.\<close>

definition write_to_client :: "char list \<Rightarrow> nat option \<Rightarrow> chat_server \<Rightarrow> chat_server" where
  "write_to_client message slot s =
     (case slot of
        None \<Rightarrow> s
      | Some fd \<Rightarrow>
          if \<not> opened s fd then s
          else
            let (retval, w) = write_message_size (length message) (wires s fd);
                (retval, w) = (if retval > 0 then write_all_to_socket message (length message) w else (retval, w)) in
            s\<lparr>wires := (wires s)(fd := w)\<rparr>)"

text \<open>The two receptions of a round in \<open>process_client\<close>, as the thread goes on after each.\<close>

definition chat_read_size :: "char list \<Rightarrow> chat_event list \<Rightarrow> chat_pc \<times> chat_event list" where
  "chat_read_size junk es =
     (let (retval, es) = get_message_size junk es in (if retval > 0 then Chat_body (nat retval) else Chat_close, es))"

definition chat_read_body :: "nat \<Rightarrow> chat_event list \<Rightarrow> chat_pc \<times> chat_event list" where
  "chat_read_body len es =
     (let (retval, buffer, es) = calloc_read len es in
      (if retval > 0 then Chat_send (take (nat retval) buffer) else Chat_close, es))"

definition free_slot :: "nat option list \<Rightarrow> nat option" where
  "free_slot cs = find (\<lambda>i. cs ! i = None) [0..<length cs]"

definition cleanup :: "chat_server \<Rightarrow> chat_server" where
  "cleanup s = s\<lparr>opened := (\<lambda>fd. opened s fd \<and> Some fd \<notin> set (clients s))\<rparr>"

definition server_start :: chat_server where
  "server_start = \<lparr>clients = replicate MAX_CLIENTS None, clientsCount = 0, wires = (\<lambda>_. \<lparr>incoming = [], outgoing = [], sends_left = []\<rparr>),
     opened = (\<lambda>_. False), chatters = [], main_at = Main_head, broadcaster = None, endSession = False, said = [], joined = (\<lambda>_. 0)\<rparr>"

text \<open>\<open>peers s fd w\<close> says which sockets \<open>accept\<close> may deliver, always on a descriptor that is not open. The
  session ends when the handler of \<open>SIGINT\<close> runs in one of the threads.\<close>

inductive chat_step :: "(chat_server \<Rightarrow> nat \<Rightarrow> chat_sock \<Rightarrow> bool) \<Rightarrow> chat_server \<Rightarrow> chat_server \<Rightarrow> bool"
  for peers :: "chat_server \<Rightarrow> nat \<Rightarrow> chat_sock \<Rightarrow> bool" where
  room: "main_at s = Main_head \<Longrightarrow> \<not> endSession s \<Longrightarrow> clientsCount s < int MAX_CLIENTS \<Longrightarrow>
    chat_step peers s (s\<lparr>main_at := Main_accept\<rparr>)"
| accept: "main_at s = Main_accept \<Longrightarrow> \<not> opened s fd \<Longrightarrow> peers s fd w \<Longrightarrow> outgoing w = [] \<Longrightarrow>
    chat_step peers s (s\<lparr>wires := (wires s)(fd := w), opened := (opened s)(fd := True), main_at := Main_seat fd\<rparr>)"
| seat: "main_at s = Main_seat fd \<Longrightarrow> broadcaster s = None \<Longrightarrow> free_slot (clients s) = Some i \<Longrightarrow>
    chat_step peers s (s\<lparr>clients := (clients s)[i := Some fd], clientsCount := clientsCount s + 1,
      chatters := chatters s @ [(i, Chat_head)], main_at := Main_head, joined := (joined s)(fd := length (said s))\<rparr>)"
| seat_none: "main_at s = Main_seat fd \<Longrightarrow> broadcaster s = None \<Longrightarrow> free_slot (clients s) = None \<Longrightarrow>
    chat_step peers s (s\<lparr>main_at := Main_head\<rparr>)"
| go_on: "k < length (chatters s) \<Longrightarrow> chatters s ! k = (i, Chat_head) \<Longrightarrow> \<not> endSession s \<Longrightarrow>
    chat_step peers s (s\<lparr>chatters := (chatters s)[k := (i, Chat_size)]\<rparr>)"
| ended: "k < length (chatters s) \<Longrightarrow> chatters s ! k = (i, Chat_head) \<Longrightarrow> endSession s \<Longrightarrow>
    chat_step peers s (s\<lparr>chatters := (chatters s)[k := (i, Chat_close)]\<rparr>)"
| receive_size: "k < length (chatters s) \<Longrightarrow> chatters s ! k = (i, Chat_size) \<Longrightarrow> clients s ! i = Some fd \<Longrightarrow> opened s fd \<Longrightarrow>
    chat_read_size junk (incoming (wires s fd)) = (pc, es) \<Longrightarrow>
    chat_step peers s (s\<lparr>wires := (wires s)(fd := (wires s fd)\<lparr>incoming := es\<rparr>), chatters := (chatters s)[k := (i, pc)]\<rparr>)"
| receive_body: "k < length (chatters s) \<Longrightarrow> chatters s ! k = (i, Chat_body len) \<Longrightarrow> clients s ! i = Some fd \<Longrightarrow> opened s fd \<Longrightarrow>
    chat_read_body len (incoming (wires s fd)) = (pc, es) \<Longrightarrow>
    chat_step peers s (s\<lparr>wires := (wires s)(fd := (wires s fd)\<lparr>incoming := es\<rparr>), chatters := (chatters s)[k := (i, pc)]\<rparr>)"
| receive_closed: "k < length (chatters s) \<Longrightarrow> chatters s ! k = (i, pc) \<Longrightarrow> pc = Chat_size \<or> pc = Chat_body len \<Longrightarrow>
    clients s ! i = Some fd \<Longrightarrow> \<not> opened s fd \<Longrightarrow>
    chat_step peers s (s\<lparr>chatters := (chatters s)[k := (i, Chat_close)]\<rparr>)"
| lock_clients: "k < length (chatters s) \<Longrightarrow> chatters s ! k = (i, Chat_send msg) \<Longrightarrow> broadcaster s = None \<Longrightarrow>
    chat_step peers s (s\<lparr>broadcaster := Some (k, msg, 0)\<rparr>)"
| send_one: "broadcaster s = Some (k, msg, j) \<Longrightarrow> j < MAX_CLIENTS \<Longrightarrow>
    chat_step peers s ((write_to_client msg (clients s ! j) s)\<lparr>broadcaster := Some (k, msg, Suc j)\<rparr>)"
| unlock_clients: "broadcaster s = Some (k, msg, j) \<Longrightarrow> j = MAX_CLIENTS \<Longrightarrow> k < length (chatters s) \<Longrightarrow> chatters s ! k = (i, Chat_send msg) \<Longrightarrow>
    chat_step peers s (s\<lparr>broadcaster := None, chatters := (chatters s)[k := (i, Chat_head)], said := said s @ [msg]\<rparr>)"
| close_own: "k < length (chatters s) \<Longrightarrow> chatters s ! k = (i, Chat_close) \<Longrightarrow> clients s ! i = Some fd \<Longrightarrow>
    chat_step peers s (s\<lparr>opened := (opened s)(fd := False), chatters := (chatters s)[k := (i, Chat_leave)]\<rparr>)"
| leave: "k < length (chatters s) \<Longrightarrow> chatters s ! k = (i, Chat_leave) \<Longrightarrow> broadcaster s = None \<Longrightarrow>
    chat_step peers s (s\<lparr>clients := (clients s)[i := None], clientsCount := clientsCount s - 1, chatters := (chatters s)[k := (i, Chat_gone)]\<rparr>)"
| interrupt: "chat_step peers s (s\<lparr>endSession := True\<rparr>)"
| finish: "main_at s = Main_head \<Longrightarrow> endSession s \<Longrightarrow> chat_step peers s ((cleanup s)\<lparr>main_at := Main_over\<rparr>)"

end
