(* ===== verification/Chat_Runs.thy ===== *)
theory Chat_Runs
  imports Chat
begin

text \<open>
  What the chat room promises: a message arrives as it was written however the stream is cut, every client
  hears the same messages in the same order, and what happens when a descriptor is reused too early.
\<close>

section \<open>Framing\<close>

fun bytes_of :: "chat_event list \<Rightarrow> char list" where
  "bytes_of [] = []"
| "bytes_of (Bytes bs # es) = bs @ bytes_of es"
| "bytes_of (e # es) = bytes_of es"

definition calm :: "chat_event list \<Rightarrow> bool" where
  "calm es \<longleftrightarrow> Recv_error \<notin> set es \<and> Bytes [] \<notin> set es"

lemma calm_simps [simp]: "calm []" "calm (Bytes bs # es) \<longleftrightarrow> bs \<noteq> [] \<and> calm es" "calm (Recv_eintr # es) \<longleftrightarrow> calm es" "\<not> calm (Recv_error # es)"
  by (auto simp: calm_def)

text \<open>Sockets that never fail and take something whenever they are offered something.\<close>

definition willing :: "chat_sock \<Rightarrow> bool" where
  "willing w \<longleftrightarrow> Send_error \<notin> set (sends_left w) \<and> Takes 0 \<notin> set (sends_left w)"

definition frame :: "char list \<Rightarrow> char list" where
  "frame msg = htonl_bytes (length msg) @ msg"

lemma read_all_calm:
  "calm es \<Longrightarrow> length buffer + length xs = count \<Longrightarrow> bytes_of es = xs @ ys \<Longrightarrow>
   \<exists>es'. read_all_loop count buffer es = (int count, buffer @ xs, es') \<and> calm es' \<and> bytes_of es' = ys"
proof (induction count buffer es arbitrary: xs rule: read_all_loop.induct)
  case (1 count buffer es)
  show ?case
  proof (cases "xs = []")
    case True
    then show ?thesis using 1(3-5) by (subst read_all_loop.simps) simp
  next
    case False
    then have less: "length buffer < count" using 1(4) by (cases xs) auto
    obtain e rest where es: "es = e # rest" using False 1(5) by (cases es) auto
    show ?thesis
    proof (cases e)
      case (Bytes bs)
      let ?room = "count - length buffer"
      have bs: "bs \<noteq> []" "calm rest" "bs @ bytes_of rest = xs @ ys" "length xs = ?room" using 1(3-5) es Bytes by auto
      define xs' where "xs' = drop (length bs) xs"
      have xs: "xs = take ?room bs @ xs'" "length (buffer @ take ?room bs) + length xs' = count"
      proof -
        have "take ?room (bs @ bytes_of rest) = xs" using bs(3,4) by simp
        then show "xs = take ?room bs @ xs'" unfolding xs'_def using bs(4)
          by (cases "length bs \<le> ?room") (auto)
        then show "length (buffer @ take ?room bs) + length xs' = count" using bs(4) less by (metis (no_types) add.assoc le_add_diff_inverse length_append less_imp_le)
      qed
      have "calm (if length bs \<le> ?room then rest else Bytes (drop ?room bs) # rest)" using bs(2) by auto
      moreover have "bytes_of (if length bs \<le> ?room then rest else Bytes (drop ?room bs) # rest) = xs' @ ys"
      proof (cases "length bs \<le> ?room")
        case True
        then have "bs @ bytes_of rest = bs @ (xs' @ ys)" using bs(3) xs(1) by simp
        then show ?thesis using True by simp
      next
        case False
        then have "xs' = []" using bs(4) by (simp add: xs'_def)
        then have "take ?room bs @ (drop ?room bs @ bytes_of rest) = take ?room bs @ ys" using bs(3) xs(1) by (simp add: append_assoc [symmetric] del: append_assoc)
        then show ?thesis using False \<open>xs' = []\<close> by simp
      qed
      ultimately show ?thesis using 1(1) [OF less es Bytes refl bs(1) _ xs(2)] less es Bytes bs(1) xs(1)
        by (subst read_all_loop.simps) (simp add: Let_def)
    next
      case Recv_eintr
      then show ?thesis using 1(2) [OF less es Recv_eintr, of xs] 1(3-5) less es by (subst read_all_loop.simps) simp
    next
      case Recv_error
      then show ?thesis using 1(3) es by simp
    qed
  qed
qed

lemma length_htonl [simp]: "length (htonl_bytes n) = 4"
  by (simp add: htonl_bytes_def)

lemma ntohl_htonl: "n < 2 ^ 32 \<Longrightarrow> ntohl_bytes (htonl_bytes n) = n"
proof -
  assume n: "n < 2 ^ 32"
  have "of_char (char_of (n div 2 ^ k) :: char) = n div 2 ^ k mod 256" for k by (simp add: of_char_of)
  then have "ntohl_bytes (htonl_bytes n) = 256 * (256 * (256 * (n div 2 ^ 24 mod 256) + n div 2 ^ 16 mod 256) + n div 2 ^ 8 mod 256) + n mod 256"
    by (simp add: ntohl_bytes_def htonl_bytes_def)
  also have "n div 2 ^ 24 mod 256 = n div 256 div 256 div 256" using n by (simp add: div_mult2_eq)
  also have "n div 2 ^ 16 = n div 256 div 256" by (simp add: div_mult2_eq)
  finally show ?thesis by simp
qed

lemma get_message_size_frame:
  assumes "calm es" "bytes_of es = frame msg @ rest" "length msg < 2 ^ 32"
  shows "\<exists>es'. get_message_size junk es = (int (length msg), es') \<and> calm es' \<and> bytes_of es' = msg @ rest"
  using read_all_calm [of es "[]" "htonl_bytes (length msg)" 4 "msg @ rest"] assms
  by (auto simp: get_message_size_def read_all_from_socket_def frame_def ntohl_htonl)

lemma calloc_read_frame:
  assumes "calm es" "bytes_of es = msg @ rest"
  shows "\<exists>es'. calloc_read (length msg) es = (int (length msg), msg, es') \<and> calm es' \<and> bytes_of es' = rest"
  using read_all_calm [of es "[]" msg "length msg" rest] assms by (auto simp: calloc_read_def read_all_from_socket_def)

lemma write_all_willing:
  "willing w \<Longrightarrow> k \<le> count \<Longrightarrow> length buffer = count \<Longrightarrow>
   \<exists>w'. write_all_loop buffer count k w = (int count, w') \<and> willing w' \<and> outgoing w' = outgoing w @ drop k buffer \<and> incoming w' = incoming w"
proof (induction buffer count k w rule: write_all_loop.induct)
  case (1 buffer count k w)
  show ?case
  proof (cases "k < count")
    case True
    show ?thesis
    proof (cases "sends_left w")
      case Nil
      then show ?thesis using True 1(3-5) by (subst write_all_loop.simps) (simp add: willing_def)
    next
      case (Cons r rs)
      show ?thesis
      proof (cases r)
        case (Takes j)
        let ?n = "min j (count - k)"
        have n: "?n \<noteq> 0" "k + ?n \<le> count" using 1(3) Cons Takes True by (auto simp: willing_def)
        let ?w = "w\<lparr>outgoing := outgoing w @ take ?n (drop k buffer), sends_left := rs\<rparr>"
        have w: "willing ?w" using 1(3) Cons by (simp add: willing_def)
        obtain w' where "write_all_loop buffer count (k + ?n) ?w = (int count, w')" "willing w'"
            "outgoing w' = outgoing ?w @ drop (k + ?n) buffer" "incoming w' = incoming ?w"
          using 1(1) [OF True Cons Takes refl refl n(1) w n(2) 1(5)] by blast
        moreover have "take ?n (drop k buffer) @ drop (k + ?n) buffer = drop k buffer"
          using append_take_drop_id [of ?n "drop k buffer"] by (simp only: drop_drop add.commute)
        ultimately show ?thesis using True Cons Takes n(1)
          by (subst write_all_loop.simps) (simp add: Let_def)
      next
        case Send_eintr
        then show ?thesis using 1(2) [OF True Cons Send_eintr] 1(3-5) True Cons
          by (subst write_all_loop.simps) (auto simp: willing_def)
      next
        case Send_error
        then show ?thesis using 1(3) Cons by (simp add: willing_def)
      qed
    qed
  next
    case False
    then show ?thesis using 1(3-5) by (subst write_all_loop.simps) simp
  qed
qed

section \<open>A conversation\<close>

definition send_frame :: "char list \<Rightarrow> chat_sock \<Rightarrow> int \<times> chat_sock" where
  "send_frame msg w = (let (retval, w) = write_message_size (length msg) w in
     if retval > 0 then write_all_to_socket msg (length msg) w else (retval, w))"

lemma send_frame_willing:
  assumes "willing w"
  shows "\<exists>w'. send_frame msg w = (int (length msg), w') \<and> willing w' \<and> outgoing w' = outgoing w @ frame msg \<and> incoming w' = incoming w"
proof -
  obtain w1 where w1: "write_message_size (length msg) w = (4, w1)" "willing w1"
      "outgoing w1 = outgoing w @ htonl_bytes (length msg)" "incoming w1 = incoming w"
    using write_all_willing [OF assms, of 0 4 "htonl_bytes (length msg)"] by (auto simp: write_message_size_def write_all_to_socket_def)
  then show ?thesis using write_all_willing [OF w1(2), of 0 "length msg" msg]
    by (auto simp: send_frame_def write_all_to_socket_def frame_def)
qed

lemma write_to_server_frame: "create_message name buffer = Inr msg \<Longrightarrow> write_to_server name (buffer # screen) s =
    (let (retval, s) = send_frame (msg @ [NUL]) s in
     if retval > 0 then write_to_server name screen s else Inr s)"
  by (simp add: send_frame_def Let_def split: prod.split)

abbreviation chat_line :: "char list \<Rightarrow> char list \<Rightarrow> char list" where
  "chat_line name l \<equiv> name @ '': '' @ l"

lemma write_to_server_willing:
  "willing w \<Longrightarrow> (\<And>l. l \<in> set screen \<Longrightarrow> length name + length l + 4 < 2147483648) \<Longrightarrow>
   \<exists>w'. write_to_server name screen w = Inr w' \<and>
     outgoing w' = outgoing w @ concat (map (\<lambda>l. frame (chat_line name l @ [NUL])) screen)"
proof (induction screen arbitrary: w)
  case (Cons l screen)
  let ?msg = "chat_line name l"
  have msg: "create_message name l = Inr ?msg" using Cons.prems(2) [of l] by (intro create_message_fits) simp
  obtain w' where w': "send_frame (?msg @ [NUL]) w = (int (length (?msg @ [NUL])), w')"
      "willing w'" "outgoing w' = outgoing w @ frame (?msg @ [NUL])"
    using send_frame_willing [OF Cons.prems(1), of "?msg @ [NUL]"] by blast
  obtain w'' where "write_to_server name screen w' = Inr w''"
      "outgoing w'' = outgoing w' @ concat (map (\<lambda>l. frame (chat_line name l @ [NUL])) screen)"
    using Cons.IH [OF w'(2)] Cons.prems(2) by auto
  then show ?case using w' by (simp add: write_to_server_frame [OF msg] del: write_to_server.simps)
qed simp

lemma read_all_end: "calm es \<Longrightarrow> bytes_of es = [] \<Longrightarrow> 0 < count \<Longrightarrow> read_all_loop count [] es = (0, [], [])"
proof (induction es)
  case (Cons e es)
  then show ?case by (cases e) (subst read_all_loop.simps, simp)+
qed (subst read_all_loop.simps, simp)

lemma read_from_server_frames:
  "calm es \<Longrightarrow> bytes_of es = concat (map (\<lambda>l. frame (l @ [NUL])) ls) \<Longrightarrow>
   \<forall>l \<in> set ls. NUL \<notin> set l \<and> length l + 1 < 2 ^ 32 \<Longrightarrow> read_from_server junk es = Inr ls"
proof (induction ls arbitrary: es)
  case Nil
  then have "get_message_size junk es = (0, [])" using read_all_end [of es 4]
    by (simp add: get_message_size_def read_all_from_socket_def)
  then show ?case by (simp add: read_from_server.simps)
next
  case (Cons l ls)
  let ?rest = "concat (map (\<lambda>l. frame (l @ [NUL])) ls)"
  obtain es1 where 1: "get_message_size junk es = (int (length (l @ [NUL])), es1)" "calm es1" "bytes_of es1 = (l @ [NUL]) @ ?rest"
    using get_message_size_frame [of es "l @ [NUL]" ?rest junk] Cons.prems by auto
  obtain es2 where 2: "calloc_read (length (l @ [NUL])) es1 = (int (length (l @ [NUL])), l @ [NUL], es2)" "calm es2" "bytes_of es2 = ?rest"
    using calloc_read_frame [OF 1(2,3)] by blast
  have "takeWhile (\<lambda>c. c \<noteq> NUL) (l @ [NUL]) = l @ takeWhile (\<lambda>c. c \<noteq> NUL) [NUL]"
    by (rule takeWhile_append2) (use Cons.prems(3) in auto)
  then have p: "print_buffer (l @ [NUL]) = Inr l" by (simp add: print_buffer_def)
  have pos: "0 < int (length (l @ [NUL]))" by simp
  have "read_from_server junk es2 = Inr ls" using Cons.IH [OF 2(2,3)] Cons.prems(3) by simp
  then show ?case by (simp only: read_from_server.simps [of junk es] 1(1) 2(1) prod.case nat_int pos if_True rbind_simps p)
qed

text \<open>C10: what a user types arrives as it was typed, for lines that with the name stay below the 2147483648 bytes
  an \<open>int\<close> can count. \<open>write_to_server\<close> sends them without a fault over a socket that may take them in any pieces
  and be interrupted, but does not fail; when what it sent reaches \<open>read_from_server\<close>, again in any pieces and with
  interruptions, that prints exactly the user's lines with his name before each, and then stops.\<close>

theorem chat_roundtrip:
  assumes "willing w" "outgoing w = []"
    and "NUL \<notin> set name" "\<forall>l \<in> set screen. NUL \<notin> set l \<and> length name + length l + 4 < 2 ^ 31"
  shows "\<exists>w'. write_to_server name screen w = Inr w' \<and>
    (\<forall>es junk. calm es \<longrightarrow> bytes_of es = outgoing w' \<longrightarrow> read_from_server junk es = Inr (map (\<lambda>l. name @ '': '' @ l) screen))"
proof -
  obtain w' where w': "write_to_server name screen w = Inr w'"
      "outgoing w' = concat (map (\<lambda>l. frame (l @ [NUL])) (map (chat_line name) screen))"
    using write_to_server_willing [OF assms(1), of screen name] assms(2,4) by (auto simp: comp_def)
  have "\<forall>l \<in> set (map (chat_line name) screen). NUL \<notin> set l \<and> length l + 1 < 2 ^ 32"
    using assms(3,4) by (auto simp: NUL_def)
  then show ?thesis using read_from_server_frames w' by auto
qed

theorem chat_roundtrip_witness:
  "read_from_server [] [Bytes [CHR 0x00, CHR 0x00], Recv_eintr, Bytes [CHR 0x00, CHR 0x06, CHR ''a'', CHR '':'', CHR '' ''], Bytes [CHR ''h'', CHR ''i'', CHR 0x00]] = Inr [''a: hi'']"
proof -
  let ?w = "\<lparr>incoming = [], outgoing = [], sends_left = [Takes 3, Send_eintr]\<rparr>"
  let ?es = "[Bytes [CHR 0x00, CHR 0x00], Recv_eintr, Bytes [CHR 0x00, CHR 0x06, CHR ''a'', CHR '':'', CHR '' ''], Bytes [CHR ''h'', CHR ''i'', CHR 0x00]]"
  have w: "willing ?w" "outgoing ?w = []" by (simp_all add: willing_def)
  have "htonl_bytes 6 = [CHR 0x00, CHR 0x00, CHR 0x00, CHR 0x06]" by (simp add: htonl_bytes_def char_of_def bit_simps)
  then have h: "htonl_bytes (Suc (Suc (Suc (Suc (Suc (Suc 0)))))) = [CHR 0x00, CHR 0x00, CHR 0x00, CHR 0x06]"
    by (simp add: eval_nat_numeral)
  obtain w' where w': "write_to_server ''a'' [''hi''] ?w = Inr w'"
      "\<forall>es junk. calm es \<longrightarrow> bytes_of es = outgoing w' \<longrightarrow> read_from_server junk es = Inr (map (\<lambda>l. ''a'' @ '': '' @ l) [''hi''])"
    using chat_roundtrip [OF w, of "''a''" "[''hi'']"] by (auto simp: NUL_def)
  have "bytes_of ?es = outgoing w'"
    using write_to_server_willing [OF w(1), of "[''hi'']" "''a''"] w'(1) h by (simp add: frame_def NUL_def del: write_to_server.simps)
  then have "read_from_server [] ?es = Inr (map (\<lambda>l. ''a'' @ '': '' @ l) [''hi''])" using w'(2) by (simp add: calm_def)
  then show ?thesis by simp
qed

section \<open>One order for all\<close>

lemma write_to_client_some: "opened s fd \<Longrightarrow>
    write_to_client msg (Some fd) s = s\<lparr>wires := (wires s)(fd := snd (send_frame msg (wires s fd)))\<rparr>"
  by (auto simp: write_to_client_def send_frame_def Let_def split: prod.split)

text \<open>No descriptor in two slots.\<close>

definition one_each :: "nat option list \<Rightarrow> bool" where
  "one_each cs \<longleftrightarrow> (\<forall>i < length cs. \<forall>j < length cs. \<forall>fd. cs ! i = Some fd \<longrightarrow> cs ! j = Some fd \<longrightarrow> i = j)"

lemma nth_update_slot: "j < length cs \<Longrightarrow> cs[i := x] ! j = (if i = j then x else cs ! j)"
  by simp

lemma one_each_take: "one_each cs \<Longrightarrow> Some fd \<notin> set cs \<Longrightarrow> one_each (cs[i := Some fd])"
  by (auto simp: one_each_def nth_update_slot in_set_conv_nth split: if_splits)

lemma one_each_leave: "one_each cs \<Longrightarrow> one_each (cs[i := None])"
  by (auto simp: one_each_def nth_update_slot split: if_splits)

text \<open>A descriptor is not given to a new client while a slot still holds it, and every peer takes what it is sent.\<close>

definition orderly :: "(chat_server \<Rightarrow> nat \<Rightarrow> chat_sock \<Rightarrow> bool) \<Rightarrow> bool" where
  "orderly peers \<longleftrightarrow> (\<forall>s fd w. peers s fd w \<longrightarrow> willing w \<and> Some fd \<notin> set (clients s))"

text \<open>What a broadcast under way has sent to the client in slot \<open>i\<close>.\<close>

definition under_way :: "chat_server \<Rightarrow> nat \<Rightarrow> char list" where
  "under_way s i = (case broadcaster s of None \<Rightarrow> [] | Some (k, msg, j) \<Rightarrow> if i < j then frame msg else [])"

definition order_inv :: "chat_server \<Rightarrow> bool" where
  "order_inv s \<longleftrightarrow> length (clients s) = MAX_CLIENTS \<and> one_each (clients s) \<and> (\<forall>fd. opened s fd \<longrightarrow> willing (wires s fd)) \<and>
     (\<forall>i fd. i < MAX_CLIENTS \<longrightarrow> clients s ! i = Some fd \<longrightarrow> opened s fd \<longrightarrow>
        joined s fd \<le> length (said s) \<and> outgoing (wires s fd) = concat (map frame (drop (joined s fd) (said s))) @ under_way s i) \<and>
     (\<forall>fd. main_at s = Main_seat fd \<longrightarrow> Some fd \<notin> set (clients s) \<and> (opened s fd \<longrightarrow> outgoing (wires s fd) = []))"

lemma order_invD:
  assumes "order_inv s"
  shows "length (clients s) = MAX_CLIENTS" "one_each (clients s)" "\<And>fd. opened s fd \<Longrightarrow> willing (wires s fd)"
    "\<And>i fd. i < MAX_CLIENTS \<Longrightarrow> clients s ! i = Some fd \<Longrightarrow> opened s fd \<Longrightarrow> joined s fd \<le> length (said s)"
    "\<And>i fd. i < MAX_CLIENTS \<Longrightarrow> clients s ! i = Some fd \<Longrightarrow> opened s fd \<Longrightarrow>
       outgoing (wires s fd) = concat (map frame (drop (joined s fd) (said s))) @ under_way s i"
    "\<And>fd. main_at s = Main_seat fd \<Longrightarrow> Some fd \<notin> set (clients s)"
    "\<And>fd. main_at s = Main_seat fd \<Longrightarrow> opened s fd \<Longrightarrow> outgoing (wires s fd) = []"
  using assms unfolding order_inv_def by blast+

lemma free_slotD: "free_slot cs = Some i \<Longrightarrow> i < length cs \<and> cs ! i = None"
  by (auto simp: free_slot_def find_Some_iff)

text \<open>One round of the broadcast: the client in slot \<open>j\<close> gets the frame, if it has not been closed.\<close>

lemma order_inv_send:
  assumes inv: "order_inv s" and b: "broadcaster s = Some (k, msg, j)" "j < MAX_CLIENTS"
  shows "order_inv ((write_to_client msg (clients s ! j) s)\<lparr>broadcaster := Some (k, msg, Suc j)\<rparr>)"
proof (cases "\<exists>fd. clients s ! j = Some fd \<and> opened s fd")
  case False
  have w: "write_to_client msg (clients s ! j) s = s" using False by (auto simp: write_to_client_def split: option.split)
  have "under_way (s\<lparr>broadcaster := Some (k, msg, Suc j)\<rparr>) i = under_way s i"
    if "clients s ! i = Some fd" "opened s fd" for i fd
    using that False b(1) by (cases "i = j") (auto simp: under_way_def)
  then show ?thesis using order_invD [OF inv] unfolding w by (simp add: order_inv_def)
next
  case True
  then obtain fd where fd: "clients s ! j = Some fd" "opened s fd" by blast
  note o = order_invD [OF inv]
  obtain w' where w': "send_frame msg (wires s fd) = (int (length msg), w')" "willing w'" "outgoing w' = outgoing (wires s fd) @ frame msg"
    using send_frame_willing [OF o(3) [OF fd(2)], of msg] by blast
  let ?s = "s\<lparr>wires := (wires s)(fd := w'), broadcaster := Some (k, msg, Suc j)\<rparr>"
  have s: "(write_to_client msg (clients s ! j) s)\<lparr>broadcaster := Some (k, msg, Suc j)\<rparr> = ?s"
    using write_to_client_some [OF fd(2)] fd(1) w'(1) by simp
  have out: "outgoing (wires ?s a) = concat (map frame (drop (joined s a) (said s))) @ under_way ?s i"
    if "i < MAX_CLIENTS" "clients s ! i = Some a" "opened s a" for i a
  proof (cases "i = j")
    case True
    then show ?thesis using that fd b o(5) [OF that] w'(3) by (simp add: under_way_def)
  next
    case False
    then have "a \<noteq> fd" using o(1,2) that fd(1) b(2) by (auto simp: one_each_def)
    then show ?thesis using False b o(5) [OF that] by (auto simp: under_way_def)
  qed
  have "Some fd \<in> set (clients s)" using fd(1) b(2) o(1) by (metis nth_mem)
  then have "main_at s \<noteq> Main_seat fd" using o(6) by blast
  then show ?thesis unfolding s order_inv_def using o w'(2) out by auto
qed

lemma order_inv_step:
  assumes peers: "orderly peers" and inv: "order_inv s" and step: "chat_step peers s s'"
  shows "order_inv s'"
  using step
proof cases
  case room
  then show ?thesis using order_invD [OF inv] by (simp add: order_inv_def under_way_def)
next
  case (accept fd w)
  note o = order_invD [OF inv]
  have w: "willing w" "Some fd \<notin> set (clients s)" using peers accept(4) by (auto simp: orderly_def)
  have "a \<noteq> fd" if "i < MAX_CLIENTS" "clients s ! i = Some a" for i a using w(2) that o(1) by (metis nth_mem)
  then show ?thesis unfolding accept(1) order_inv_def using o w accept(5) by (auto simp: under_way_def)
next
  case (seat fd i)
  note o = order_invD [OF inv] and i = free_slotD [OF seat(4)]
  have fd: "Some fd \<notin> set (clients s)" by (rule o(6) [OF seat(2)])
  have "a \<noteq> fd" if "j < MAX_CLIENTS" "clients s ! j = Some a" for j a using fd that o(1) by (metis nth_mem)
  then show ?thesis unfolding seat(1) order_inv_def
    using o one_each_take [OF o(2) fd] o(7) [OF seat(2)] seat(3) fd
    by (auto simp: under_way_def nth_update_slot split: if_splits)
next
  case (send_one k msg j)
  show ?thesis unfolding send_one(1) by (rule order_inv_send [OF inv send_one(2,3)])
next
  case (unlock_clients k msg j i)
  note o = order_invD [OF inv]
  have "joined s fd \<le> length (said s @ [msg]) \<and>
      outgoing (wires s fd) = concat (map frame (drop (joined s fd) (said s @ [msg])))"
    if "i < MAX_CLIENTS" "clients s ! i = Some fd" "opened s fd" for i fd
    using o(4,5) [OF that] that(1) unlock_clients(2,3) by (simp add: under_way_def)
  then show ?thesis unfolding unlock_clients(1) order_inv_def using o by (simp add: under_way_def)
next
  case (leave k i)
  note o = order_invD [OF inv]
  have "Some a \<in> set (clients s)" if "Some a \<in> set ((clients s)[i := None])" for a
    using that set_update_subset_insert [of "clients s" i None] by auto
  then show ?thesis unfolding leave(1) order_inv_def using o one_each_leave [OF o(2)]
    by (auto simp: under_way_def nth_update_slot split: if_splits)
next
  case finish
  then show ?thesis using order_invD [OF inv] by (auto simp: order_inv_def cleanup_def under_way_def)
qed (use order_invD [OF inv] in \<open>auto simp: order_inv_def under_way_def willing_def\<close>)

lemma server_start_order: "order_inv server_start"
  by (simp add: order_inv_def server_start_def one_each_def)

interpretation chat: state_machine "\<lambda>s. s = server_start" "chat_step peers" "\<lambda>s. orderly peers \<longrightarrow> order_inv s" for peers
  by unfold_locales (auto simp: server_start_order intro: order_inv_step)

section \<open>The slots\<close>

definition present :: "chat_server \<Rightarrow> nat list" where
  "present s = map fst (filter (\<lambda>p. snd p \<noteq> Chat_gone) (chatters s))"

definition slots_inv :: "chat_server \<Rightarrow> bool" where
  "slots_inv s \<longleftrightarrow> length (clients s) = MAX_CLIENTS \<and> distinct (present s) \<and>
     set (present s) = {i. i < MAX_CLIENTS \<and> clients s ! i \<noteq> None} \<and> clientsCount s = int (length (present s))"

lemma present_update:
  assumes "k < length (chatters s)" "chatters s ! k = (i, p)" "p \<noteq> Chat_gone" "p' \<noteq> Chat_gone"
  shows "map fst (filter (\<lambda>p. snd p \<noteq> Chat_gone) ((chatters s)[k := (i, p')])) = present s"
proof -
  have "present s = map fst (filter (\<lambda>p. snd p \<noteq> Chat_gone) (take k (chatters s) @ (i, p) # drop (Suc k) (chatters s)))"
    using assms(1,2) id_take_nth_drop [of k "chatters s"] by (simp add: present_def)
  then show ?thesis using assms by (simp add: upd_conv_take_nth_drop)
qed

lemma present_leave:
  assumes "k < length (chatters s)" "chatters s ! k = (i, p)" "p \<noteq> Chat_gone"
  obtains A B where "present s = A @ i # B" "map fst (filter (\<lambda>p. snd p \<noteq> Chat_gone) ((chatters s)[k := (i, Chat_gone)])) = A @ B"
proof
  let ?f = "\<lambda>xs. map fst (filter (\<lambda>p. snd p \<noteq> Chat_gone) xs)"
  have "present s = ?f (take k (chatters s) @ (i, p) # drop (Suc k) (chatters s))"
    using assms(1,2) id_take_nth_drop [of k "chatters s"] by (simp add: present_def)
  then show "present s = ?f (take k (chatters s)) @ i # ?f (drop (Suc k) (chatters s))" using assms(3) by simp
  show "?f ((chatters s)[k := (i, Chat_gone)]) = ?f (take k (chatters s)) @ ?f (drop (Suc k) (chatters s))"
    using assms(1) by (simp add: upd_conv_take_nth_drop)
qed

lemma write_to_client_rest: "\<exists>ws. write_to_client msg c s = s\<lparr>wires := ws\<rparr>"
proof (cases "\<exists>fd. c = Some fd \<and> opened s fd")
  case True
  then show ?thesis using write_to_client_some by blast
next
  case False
  then have "write_to_client msg c s = s\<lparr>wires := wires s\<rparr>" by (auto simp: write_to_client_def split: option.split)
  then show ?thesis by blast
qed

lemma read_pc: "chat_read_size junk es = (pc, es') \<Longrightarrow> pc \<noteq> Chat_gone" "chat_read_body len es = (pc, es') \<Longrightarrow> pc \<noteq> Chat_gone"
  by (auto simp: chat_read_size_def chat_read_body_def split: prod.splits if_splits)

lemma slots_inv_pc:
  assumes "slots_inv s" "k < length (chatters s)" "chatters s ! k = (i, p)" "p \<noteq> Chat_gone" "p' \<noteq> Chat_gone"
    and "clients t = clients s" "clientsCount t = clientsCount s" "chatters t = (chatters s)[k := (i, p')]"
  shows "slots_inv t"
  using assms(1,6-8) present_update [OF assms(2-5)] by (simp add: slots_inv_def present_def)

lemma slots_inv_same:
  "slots_inv s \<Longrightarrow> clients t = clients s \<Longrightarrow> clientsCount t = clientsCount s \<Longrightarrow> chatters t = chatters s \<Longrightarrow> slots_inv t"
  by (simp add: slots_inv_def present_def)

lemma slots_inv_step:
  assumes inv: "slots_inv s" and step: "chat_step peers s s'"
  shows "slots_inv s'"
  using step
proof cases
  case (seat fd i)
  have i: "i < MAX_CLIENTS" "clients s ! i = None" using free_slotD [OF seat(4)] inv by (auto simp: slots_inv_def)
  have "present s' = present s @ [i]" by (simp add: seat(1) present_def)
  moreover have "length (clients s) = MAX_CLIENTS" using inv by (simp add: slots_inv_def)
  moreover from this have "{j. j < MAX_CLIENTS \<and> (clients s)[i := Some fd] ! j \<noteq> None} = insert i {j. j < MAX_CLIENTS \<and> clients s ! j \<noteq> None}"
    using i(1) by (auto simp: nth_list_update)
  ultimately show ?thesis using inv i by (auto simp: slots_inv_def seat(1))
next
  case (go_on k i)
  then show ?thesis by (intro slots_inv_pc [OF inv go_on(2,3)]) auto
next
  case (ended k i)
  then show ?thesis by (intro slots_inv_pc [OF inv ended(2,3)]) auto
next
  case (receive_size k i fd junk pc es)
  then show ?thesis using read_pc(1) by (intro slots_inv_pc [OF inv receive_size(2,3)]) auto
next
  case (receive_body k i len fd pc es)
  then show ?thesis using read_pc(2) by (intro slots_inv_pc [OF inv receive_body(2,3)]) auto
next
  case (receive_closed k i pc len fd)
  then show ?thesis by (intro slots_inv_pc [OF inv receive_closed(2,3)]) auto
next
  case (send_one k msg j)
  obtain ws where "write_to_client msg (clients s ! j) s = s\<lparr>wires := ws\<rparr>" using write_to_client_rest by blast
  then show ?thesis using send_one(1) by (intro slots_inv_same [OF inv]) simp_all
next
  case (unlock_clients k msg j i)
  then show ?thesis by (intro slots_inv_pc [OF inv unlock_clients(4,5)]) auto
next
  case (close_own k i fd)
  then show ?thesis by (intro slots_inv_pc [OF inv close_own(2,3)]) auto
next
  case (leave k i)
  obtain A B where p: "present s = A @ i # B" "map fst (filter (\<lambda>p. snd p \<noteq> Chat_gone) ((chatters s)[k := (i, Chat_gone)])) = A @ B"
    by (rule present_leave [OF leave(2,3)]) simp_all
  have "length (clients s) = MAX_CLIENTS" using inv by (simp add: slots_inv_def)
  then have "(clients s)[i := None] ! j \<noteq> None \<longleftrightarrow> j \<noteq> i \<and> clients s ! j \<noteq> None" if "j < MAX_CLIENTS" for j
    using that by (cases "j = i") auto
  then have "{j. j < MAX_CLIENTS \<and> (clients s)[i := None] ! j \<noteq> None} = {j. j < MAX_CLIENTS \<and> clients s ! j \<noteq> None} - {i}"
    by blast
  moreover have "present s' = A @ B" using p(2) by (simp add: leave(1) present_def)
  moreover have "set (A @ B) = set (present s) - {i}" "distinct (A @ B)" using inv p(1) by (auto simp: slots_inv_def)
  moreover have "clientsCount s' = int (length (A @ B))" using inv p(1) by (simp add: slots_inv_def leave(1))
  ultimately show ?thesis using inv by (simp add: slots_inv_def leave(1))
next
  case finish
  then show ?thesis by (intro slots_inv_same [OF inv]) (simp_all add: cleanup_def)
qed (use slots_inv_same [OF inv] in auto)

lemma server_start_slots: "slots_inv server_start"
  by (auto simp: slots_inv_def server_start_def present_def)

interpretation seats: state_machine "\<lambda>s. s = server_start" "chat_step peers" slots_inv for peers
  by unfold_locales (simp add: server_start_slots, rule slots_inv_step)

text \<open>C7: every client hears the same. On two conditions, that \<open>accept\<close> does not give a new client a descriptor a
  slot still holds and that no peer makes a \<open>send\<close> fail, in every reachable state each open client that has its
  slot has been sent exactly the frames of the messages broadcast since it got the slot, in the one order in which
  they were broadcast, and, while a broadcast is under way that has passed its slot, the frame of that message.\<close>

theorem chat_total_order:
  assumes "orderly peers" "(chat_step peers)\<^sup>*\<^sup>* server_start s" "i < 8" "clients s ! i = Some fd" "opened s fd"
  shows "outgoing (wires s fd) = concat (map frame (drop (joined s fd) (said s))) @ under_way s i"
  using chat.reachable_inv [OF refl assms(2)] assms(1,3-5) order_invD(5) [of s i fd] by (simp add: MAX_CLIENTS_def)

text \<open>C39: whatever the clients, the clock of events and the signals, \<open>clientsCount\<close> is the number of threads that
  have not left, at most eight, and these serve the occupied slots, one each.\<close>

theorem chat_slots:
  assumes "(chat_step peers)\<^sup>*\<^sup>* server_start s"
  shows "clientsCount s = int (length (present s)) \<and> clientsCount s \<le> 8 \<and> distinct (present s) \<and>
    set (present s) = {i. i < 8 \<and> clients s ! i \<noteq> None}"
proof -
  have inv: "slots_inv s" by (rule seats.reachable_inv [OF refl assms])
  then have "length (present s) = card {i. i < MAX_CLIENTS \<and> clients s ! i \<noteq> None}"
    by (metis distinct_card slots_inv_def)
  also have "\<dots> \<le> card {0..<MAX_CLIENTS}" by (rule card_mono) auto
  finally show ?thesis using inv by (simp add: slots_inv_def MAX_CLIENTS_def)
qed

section \<open>Runs\<close>

definition says :: "char list list \<Rightarrow> chat_sock" where
  "says ms = \<lparr>incoming = map (\<lambda>m. Bytes (frame m)) ms, outgoing = [], sends_left = []\<rparr>"

text \<open>A server: its slots and count, the socket of descriptor 4, whether that is open, the threads, where the main
  thread is, the broadcast under way, what was said.\<close>

definition room_at :: "nat option list \<Rightarrow> int \<Rightarrow> chat_sock \<Rightarrow> bool \<Rightarrow> (nat \<times> chat_pc) list \<Rightarrow> chat_main \<Rightarrow>
    (nat \<times> char list \<times> nat) option \<Rightarrow> char list list \<Rightarrow> chat_server" where
  "room_at cs n w open4 ts m b msgs = \<lparr>clients = cs, clientsCount = n, wires = (\<lambda>_. says [])(4 := w),
     opened = (\<lambda>_. False)(4 := open4), chatters = ts, main_at = m, broadcaster = b, endSession = False, said = msgs, joined = (\<lambda>_. 0)\<rparr>"

lemma room_at_sel [simp]:
  "clients (room_at cs n w o4 ts m b msgs) = cs" "clientsCount (room_at cs n w o4 ts m b msgs) = n"
  "wires (room_at cs n w o4 ts m b msgs) = (\<lambda>_. says [])(4 := w)" "opened (room_at cs n w o4 ts m b msgs) 4 = o4"
  "chatters (room_at cs n w o4 ts m b msgs) = ts" "main_at (room_at cs n w o4 ts m b msgs) = m"
  "broadcaster (room_at cs n w o4 ts m b msgs) = b" "endSession (room_at cs n w o4 ts m b msgs) = False"
  "said (room_at cs n w o4 ts m b msgs) = msgs" "joined (room_at cs n w o4 ts m b msgs) = (\<lambda>_. 0)"
  by (simp_all add: room_at_def)

abbreviation slots_0 :: "nat option list" where "slots_0 \<equiv> [None, None, None, None, None, None, None, None]"
abbreviation slots_1 :: "nat option list" where "slots_1 \<equiv> [Some 4, None, None, None, None, None, None, None]"
abbreviation slots_2 :: "nat option list" where "slots_2 \<equiv> [Some 4, Some 4, None, None, None, None, None, None]"

lemma free_slots: "free_slot slots_0 = Some 0" "free_slot slots_1 = Some 1"
  by (simp_all add: free_slot_def upt_rec)

lemma start_at: "server_start = room_at slots_0 0 (says []) False [] Main_head None []"
  by (simp add: server_start_def room_at_def MAX_CLIENTS_def says_def fun_eq_iff numeral_eq_Suc)

lemma send_frame_plain: "sends_left w = [] \<Longrightarrow> send_frame msg w = (int (length msg), w\<lparr>outgoing := outgoing w @ frame msg\<rparr>)"
  by (simp add: send_frame_def write_message_size_def write_all_to_socket_def write_all_loop.simps frame_def)

lemma join_at:
  assumes "peers (room_at cs n w False ts Main_accept None []) 4 w'" "outgoing w' = []" "n < 8" "free_slot cs = Some i"
  shows "(chat_step peers)\<^sup>*\<^sup>* (room_at cs n w False ts Main_head None [])
    (room_at (cs[i := Some 4]) (n + 1) w' True (ts @ [(i, Chat_head)]) Main_head None [])"
proof -
  let ?s = "room_at cs n w False ts Main_head None []"
  let ?s1 = "room_at cs n w False ts Main_accept None []" and ?s2 = "room_at cs n w' True ts (Main_seat 4) None []"
  have 1: "chat_step peers ?s ?s1"
    using chat_step.room [of ?s peers] assms(3) by (simp add: room_at_def MAX_CLIENTS_def)
  have 2: "chat_step peers ?s1 ?s2"
    using chat_step.accept [of ?s1 4 peers w'] assms(1,2) by (simp add: room_at_def)
  have 3: "chat_step peers ?s2 (room_at (cs[i := Some 4]) (n + 1) w' True (ts @ [(i, Chat_head)]) Main_head None [])"
    using chat_step.seat [of ?s2 4 i peers] assms(4) by (simp add: room_at_def fun_upd_idem)
  show ?thesis using 1 2 3 by (meson converse_rtranclp_into_rtranclp rtranclp.rtrancl_refl)
qed

lemma head_at:
  "k < length ts \<Longrightarrow> ts ! k = (i, Chat_head) \<Longrightarrow>
   chat_step peers (room_at cs n w o4 ts m b msgs) (room_at cs n w o4 (ts[k := (i, Chat_size)]) m b msgs)"
  using chat_step.go_on [of k "room_at cs n w o4 ts m b msgs" i peers] by (simp add: room_at_def)

lemma size_at:
  "k < length ts \<Longrightarrow> ts ! k = (i, Chat_size) \<Longrightarrow> cs ! i = Some 4 \<Longrightarrow> chat_read_size [] (incoming w) = (pc, es) \<Longrightarrow>
   chat_step peers (room_at cs n w True ts m b msgs) (room_at cs n (w\<lparr>incoming := es\<rparr>) True (ts[k := (i, pc)]) m b msgs)"
  using chat_step.receive_size [of k "room_at cs n w True ts m b msgs" i 4 "[]" pc es peers] by (simp add: room_at_def)

lemma body_at:
  "k < length ts \<Longrightarrow> ts ! k = (i, Chat_body len) \<Longrightarrow> cs ! i = Some 4 \<Longrightarrow> chat_read_body len (incoming w) = (pc, es) \<Longrightarrow>
   chat_step peers (room_at cs n w True ts m b msgs) (room_at cs n (w\<lparr>incoming := es\<rparr>) True (ts[k := (i, pc)]) m b msgs)"
  using chat_step.receive_body [of k "room_at cs n w True ts m b msgs" i len 4 pc es peers] by (simp add: room_at_def)

lemma lock_at:
  "k < length ts \<Longrightarrow> ts ! k = (i, Chat_send msg) \<Longrightarrow>
   chat_step peers (room_at cs n w o4 ts m None msgs) (room_at cs n w o4 ts m (Some (k, msg, 0)) msgs)"
  using chat_step.lock_clients [of k "room_at cs n w o4 ts m None msgs" i msg peers] by (simp add: room_at_def)

lemma unlock_at:
  "k < length ts \<Longrightarrow> ts ! k = (i, Chat_send msg) \<Longrightarrow>
   chat_step peers (room_at cs n w o4 ts m (Some (k, msg, MAX_CLIENTS)) msgs) (room_at cs n w o4 (ts[k := (i, Chat_head)]) m None (msgs @ [msg]))"
  using chat_step.unlock_clients [of "room_at cs n w o4 ts m (Some (k, msg, MAX_CLIENTS)) msgs" k msg MAX_CLIENTS i peers]
  by (simp add: room_at_def)

text \<open>The loop of the broadcast, where every slot is free or leads to descriptor 4: the frame goes out once for each
  slot that does.\<close>

definition copies :: "nat option list \<Rightarrow> 'b list \<Rightarrow> 'b list" where
  "copies cs bs = concat (replicate (length (filter (\<lambda>c. c = Some 4) cs)) bs)"

lemma copies_snoc: "copies (cs @ [c]) bs = copies cs bs @ (if c = Some 4 then bs else [])"
proof -
  have "concat (replicate (Suc n) bs) = concat (replicate n bs) @ bs" for n
    by (induction n) simp_all
  then show ?thesis by (simp add: copies_def)
qed

lemma send_at:
  assumes "set cs \<subseteq> {None, Some 4}" "length cs = MAX_CLIENTS" "sends_left w = []" "j \<le> MAX_CLIENTS"
  shows "(chat_step peers)\<^sup>*\<^sup>* (room_at cs n w True ts m (Some (k, msg, 0)) msgs)
    (room_at cs n (w\<lparr>outgoing := outgoing w @ copies (take j cs) (frame msg)\<rparr>) True ts m (Some (k, msg, j)) msgs)"
  using assms(4)
proof (induction j)
  case 0
  then show ?case by (simp add: copies_def)
next
  case (Suc j)
  let ?w = "\<lambda>j. w\<lparr>outgoing := outgoing w @ copies (take j cs) (frame msg)\<rparr>"
  let ?s = "room_at cs n (?w j) True ts m (Some (k, msg, j)) msgs"
  have j: "j < length cs" using Suc.prems assms(2) by simp
  then have c: "cs ! j = None \<or> cs ! j = Some 4" using assms(1) nth_mem [OF j] by blast
  have t: "copies (take (Suc j) cs) (frame msg) = copies (take j cs) (frame msg) @ (if cs ! j = Some 4 then frame msg else [])"
    using j by (simp add: take_Suc_conv_app_nth copies_snoc)
  have "(write_to_client msg (cs ! j) ?s)\<lparr>broadcaster := Some (k, msg, Suc j)\<rparr>
      = room_at cs n (?w (Suc j)) True ts m (Some (k, msg, Suc j)) msgs"
  proof (cases "cs ! j = None")
    case True
    then show ?thesis by (simp add: t write_to_client_def room_at_def)
  next
    case False
    then have "cs ! j = Some 4" using c by metis
    then show ?thesis using write_to_client_some [of ?s 4 msg] assms(3) by (simp add: t send_frame_plain room_at_def)
  qed
  then have "chat_step peers ?s (room_at cs n (?w (Suc j)) True ts m (Some (k, msg, Suc j)) msgs)"
    using chat_step.send_one [of ?s k msg j peers] Suc.prems by simp
  then show ?case using Suc by (meson Suc_leD rtranclp.rtrancl_into_rtrancl)
qed

text \<open>A thread whose client sends the messages \<open>ms\<close> broadcasts them one after another.\<close>

definition sendable :: "char list \<Rightarrow> bool" where
  "sendable m \<longleftrightarrow> m \<noteq> [] \<and> length m < 2 ^ 32"

lemma chat_read_size_frame:
  assumes "calm es" "bytes_of es = frame m @ rest" "sendable m"
  shows "\<exists>es'. chat_read_size [] es = (Chat_body (length m), es') \<and> calm es' \<and> bytes_of es' = m @ rest"
  using get_message_size_frame [OF assms(1,2), of "[]"] assms(3) by (auto simp: chat_read_size_def sendable_def)

lemma chat_read_body_frame:
  assumes "calm es" "bytes_of es = m @ rest" "sendable m"
  shows "\<exists>es'. chat_read_body (length m) es = (Chat_send m, es') \<and> calm es' \<and> bytes_of es' = rest"
  using calloc_read_frame [OF assms(1,2)] assms(3) by (auto simp: chat_read_body_def sendable_def)

lemma talk_once:
  assumes cs: "set cs \<subseteq> {None, Some 4}" "length cs = MAX_CLIENTS" "cs ! i = Some 4"
    and k: "k < length ts" "ts ! k = (i, Chat_head)"
    and w: "sends_left w = []" "calm (incoming w)" "bytes_of (incoming w) = frame m @ rest" "sendable m"
  shows "\<exists>es. (chat_step peers)\<^sup>*\<^sup>* (room_at cs n w True ts Main_head None msgs)
      (room_at cs n \<lparr>incoming = es, outgoing = outgoing w @ copies cs (frame m), sends_left = []\<rparr> True ts Main_head None (msgs @ [m]))
    \<and> calm es \<and> bytes_of es = rest"
proof -
  obtain es1 where 1: "chat_read_size [] (incoming w) = (Chat_body (length m), es1)" "calm es1" "bytes_of es1 = m @ rest"
    using chat_read_size_frame [OF w(2-4)] by blast
  obtain es2 where 2: "chat_read_body (length m) es1 = (Chat_send m, es2)" "calm es2" "bytes_of es2 = rest"
    using chat_read_body_frame [OF 1(2,3) w(4)] by blast
  let ?w1 = "w\<lparr>incoming := es1\<rparr>" and ?w2 = "w\<lparr>incoming := es2\<rparr>"
  let ?w3 = "?w2\<lparr>outgoing := outgoing ?w2 @ copies (take MAX_CLIENTS cs) (frame m)\<rparr>"
  let ?s = "\<lambda>w pc b msgs. room_at cs n w True (ts[k := (i, pc)]) Main_head b msgs"
  have a: "chat_step peers (room_at cs n w True ts Main_head None msgs) (?s w Chat_size None msgs)" by (rule head_at [OF k])
  have b: "chat_step peers (?s w Chat_size None msgs) (?s ?w1 (Chat_body (length m)) None msgs)"
    using size_at [of k "ts[k := (i, Chat_size)]" i cs w "Chat_body (length m)" es1] k(1) cs(3) 1(1) by simp
  have c: "chat_step peers (?s ?w1 (Chat_body (length m)) None msgs) (?s ?w2 (Chat_send m) None msgs)"
    using body_at [of k "ts[k := (i, Chat_body (length m))]" i "length m" cs ?w1 "Chat_send m" es2] k(1) cs(3) 2(1) by simp
  have d: "chat_step peers (?s ?w2 (Chat_send m) None msgs) (?s ?w2 (Chat_send m) (Some (k, m, 0)) msgs)"
    by (rule lock_at) (use k in simp_all)
  have e: "(chat_step peers)\<^sup>*\<^sup>* (?s ?w2 (Chat_send m) (Some (k, m, 0)) msgs) (?s ?w3 (Chat_send m) (Some (k, m, MAX_CLIENTS)) msgs)"
    by (rule send_at [OF cs(1,2)]) (use w(1) in simp_all)
  have f: "chat_step peers (?s ?w3 (Chat_send m) (Some (k, m, MAX_CLIENTS)) msgs) (room_at cs n ?w3 True ts Main_head None (msgs @ [m]))"
    using unlock_at [of k "ts[k := (i, Chat_send m)]" i m peers cs n ?w3 True Main_head msgs] k list_update_id [of ts k] by simp
  have w3: "?w3 = \<lparr>incoming = es2, outgoing = outgoing w @ copies cs (frame m), sends_left = []\<rparr>" using cs(2) w(1) by simp
  have "(chat_step peers)\<^sup>*\<^sup>* (room_at cs n w True ts Main_head None msgs) (room_at cs n ?w3 True ts Main_head None (msgs @ [m]))"
    using a b c d e f by (meson converse_rtranclp_into_rtranclp rtranclp.rtrancl_into_rtrancl)
  then show ?thesis using 2(2,3) unfolding w3 by blast
qed

lemma talk:
  assumes cs: "set cs \<subseteq> {None, Some 4}" "length cs = MAX_CLIENTS" "cs ! i = Some 4"
    and k: "k < length ts" "ts ! k = (i, Chat_head)"
  shows "sends_left w = [] \<Longrightarrow> calm (incoming w) \<Longrightarrow> bytes_of (incoming w) = concat (map frame ms) \<Longrightarrow> \<forall>m \<in> set ms. sendable m \<Longrightarrow>
    \<exists>es. (chat_step peers)\<^sup>*\<^sup>* (room_at cs n w True ts Main_head None msgs)
      (room_at cs n \<lparr>incoming = es, outgoing = outgoing w @ concat (map (\<lambda>m. copies cs (frame m)) ms), sends_left = []\<rparr> True ts Main_head None (msgs @ ms))"
proof (induction ms arbitrary: w msgs)
  case Nil
  then have "w = \<lparr>incoming = incoming w, outgoing = outgoing w @ concat (map (\<lambda>m. copies cs (frame m)) []), sends_left = []\<rparr>" by simp
  then show ?case by (metis append_Nil2 rtranclp.rtrancl_refl)
next
  case (Cons m ms)
  obtain es where 1: "(chat_step peers)\<^sup>*\<^sup>* (room_at cs n w True ts Main_head None msgs)
      (room_at cs n \<lparr>incoming = es, outgoing = outgoing w @ copies cs (frame m), sends_left = []\<rparr> True ts Main_head None (msgs @ [m]))"
      "calm es" "bytes_of es = concat (map frame ms)"
    using talk_once [OF cs k Cons.prems(1,2), of m "concat (map frame ms)" peers n msgs] Cons.prems(3,4) by auto
  let ?w = "\<lparr>incoming = es, outgoing = outgoing w @ copies cs (frame m), sends_left = []\<rparr>"
  obtain es' where "(chat_step peers)\<^sup>*\<^sup>* (room_at cs n ?w True ts Main_head None (msgs @ [m]))
      (room_at cs n \<lparr>incoming = es', outgoing = outgoing ?w @ concat (map (\<lambda>m. copies cs (frame m)) ms), sends_left = []\<rparr> True ts Main_head None ((msgs @ [m]) @ ms))"
    using Cons.IH [of ?w "msgs @ [m]"] 1(2,3) Cons.prems(4) by auto
  then have "(chat_step peers)\<^sup>*\<^sup>* (room_at cs n ?w True ts Main_head None (msgs @ [m]))
      (room_at cs n \<lparr>incoming = es', outgoing = outgoing w @ concat (map (\<lambda>m. copies cs (frame m)) (m # ms)), sends_left = []\<rparr> True ts Main_head None (msgs @ m # ms))"
    by simp
  then show ?case using 1(1) by (meson rtranclp_trans)
qed

lemma says_calm: "calm (incoming (says ms))" "bytes_of (incoming (says ms)) = concat (map frame ms)"
  by (induction ms) (auto simp: says_def calm_def frame_def htonl_bytes_def)

definition polite :: "chat_server \<Rightarrow> nat \<Rightarrow> chat_sock \<Rightarrow> bool" where
  "polite s fd w \<longleftrightarrow> willing w \<and> Some fd \<notin> set (clients s)"

lemma one_client_run:
  assumes "peers (room_at slots_0 0 (says []) False [] Main_accept None []) 4 (says [''x''])"
  shows "\<exists>es. (chat_step peers)\<^sup>*\<^sup>* server_start
    (room_at slots_1 1 \<lparr>incoming = es, outgoing = frame ''x'', sends_left = []\<rparr> True [(0, Chat_head)] Main_head None [''x''])"
proof -
  have 1: "(chat_step peers)\<^sup>*\<^sup>* server_start (room_at slots_1 1 (says [''x'']) True [(0, Chat_head)] Main_head None [])"
    using join_at [of peers slots_0 0 "says []" "[]" "says [''x'']" 0] assms free_slots(1) by (simp add: start_at says_def)
  have "sendable ''x''" by (simp add: sendable_def)
  then show ?thesis using 1 talk [of slots_1 0 0 "[(0, Chat_head)]" "says [''x'']" "[''x'']" peers 1 "[]"] says_calm [of "[''x'']"]
    by (force simp: MAX_CLIENTS_def copies_def says_def intro: rtranclp_trans)
qed

theorem chat_total_order_witness:
  "\<exists>s. (chat_step polite)\<^sup>*\<^sup>* server_start s \<and> said s = [''x''] \<and> outgoing (wires s 4) = frame ''x'' @ []"
proof -
  have p: "orderly polite" by (simp add: orderly_def polite_def)
  obtain es where r: "(chat_step polite)\<^sup>*\<^sup>* server_start
      (room_at slots_1 1 \<lparr>incoming = es, outgoing = frame ''x'', sends_left = []\<rparr> True [(0, Chat_head)] Main_head None [''x''])"
    (is "?step\<^sup>*\<^sup>* _ ?s") using one_client_run [of polite] by (auto simp: polite_def willing_def says_def)
  have "outgoing (wires ?s 4) = concat (map frame (drop (joined ?s 4) (said ?s))) @ under_way ?s 0"
    by (rule chat_total_order [OF p r]) simp_all
  then show ?thesis using r by (intro exI [of _ ?s]) (simp add: under_way_def)
qed

theorem chat_slots_witness: "\<exists>s. (chat_step polite)\<^sup>*\<^sup>* server_start s \<and> clientsCount s = 1 \<and> set (present s) = {i. i < 8 \<and> clients s ! i \<noteq> None}"
proof -
  obtain es where r: "(chat_step polite)\<^sup>*\<^sup>* server_start
      (room_at slots_1 1 \<lparr>incoming = es, outgoing = frame ''x'', sends_left = []\<rparr> True [(0, Chat_head)] Main_head None [''x''])"
    (is "?step\<^sup>*\<^sup>* _ ?s") using one_client_run [of polite] by (auto simp: polite_def willing_def says_def)
  then show ?thesis using chat_slots [OF r] by (intro exI [of _ ?s]) simp
qed

text \<open>C40: without that care a client hears twice. A client leaves: its thread has closed descriptor 4, but not yet
  freed its slot, when the server accepts the next client on the same descriptor. Now two slots lead to this client.
  There are runs, whatever the messages it sends (none of them empty, each short enough for its four-byte size), in
  which the leaving thread stays where it is until all of them are broadcast, and each has then been sent twice to
  the one client in the room.\<close>

theorem chat_reused_descriptor:
  assumes "\<forall>m \<in> set ms. sendable m"
  shows "\<exists>s. (chat_step (\<lambda>_ _ _. True))\<^sup>*\<^sup>* server_start s \<and> clients s ! 0 = Some 4 \<and> clients s ! 1 = Some 4 \<and> opened s 4 \<and>
     chatters s ! 0 = (0, Chat_leave) \<and> said s = ms \<and> outgoing (wires s 4) = concat (map (\<lambda>m. frame m @ frame m) ms)"
proof -
  let ?step = "chat_step (\<lambda>_ _ _. True)" and ?w = "says []\<lparr>incoming := []\<rparr>"
  let ?ts = "[(0, Chat_leave), (1, Chat_head)]"
  have 1: "?step\<^sup>*\<^sup>* server_start (room_at slots_1 1 (says []) True [(0, Chat_head)] Main_head None [])"
    using join_at [of "\<lambda>_ _ _. True" slots_0 0 "says []" "[]" "says []" 0] free_slots(1) by (simp add: start_at says_def)
  have 2: "?step (room_at slots_1 1 (says []) True [(0, Chat_head)] Main_head None []) (room_at slots_1 1 (says []) True [(0, Chat_size)] Main_head None [])"
    using head_at [of 0 "[(0, Chat_head)]" 0] by simp
  have "chat_read_size [] [] = (Chat_close, [])"
    by (simp add: chat_read_size_def get_message_size_def read_all_from_socket_def read_all_loop.simps)
  then have 3: "?step (room_at slots_1 1 (says []) True [(0, Chat_size)] Main_head None []) (room_at slots_1 1 (says []) True [(0, Chat_close)] Main_head None [])"
    using size_at [of 0 "[(0, Chat_size)]" 0 slots_1 "says []" Chat_close "[]"] by (simp add: says_def)
  have 4: "?step (room_at slots_1 1 (says []) True [(0, Chat_close)] Main_head None []) (room_at slots_1 1 (says []) False [(0, Chat_leave)] Main_head None [])"
    using chat_step.close_own [of 0 "room_at slots_1 1 (says []) True [(0, Chat_close)] Main_head None []" 0 4] by (simp add: room_at_def)
  have 5: "?step\<^sup>*\<^sup>* (room_at slots_1 1 (says []) False [(0, Chat_leave)] Main_head None []) (room_at slots_2 2 (says ms) True ?ts Main_head None [])"
    using join_at [of "\<lambda>_ _ _. True" slots_1 1 "says []" "[(0, Chat_leave)]" "says ms" 1] free_slots(2) by (simp add: says_def)
  have r: "?step\<^sup>*\<^sup>* server_start (room_at slots_2 2 (says ms) True ?ts Main_head None [])"
    using 1 2 3 4 5 by (meson rtranclp.rtrancl_into_rtrancl rtranclp_trans)
  obtain es where "?step\<^sup>*\<^sup>* (room_at slots_2 2 (says ms) True ?ts Main_head None [])
      (room_at slots_2 2 \<lparr>incoming = es, outgoing = outgoing (says ms) @ concat (map (\<lambda>m. copies slots_2 (frame m)) ms), sends_left = []\<rparr>
        True ?ts Main_head None ([] @ ms))" (is "?step\<^sup>*\<^sup>* _ ?t")
    using talk [of slots_2 1 1 ?ts "says ms" ms "\<lambda>_ _ _. True" 2 "[]"] says_calm [of ms] assms
    by (auto simp: MAX_CLIENTS_def says_def)
  then have "?step\<^sup>*\<^sup>* server_start ?t" by (rule rtranclp_trans [OF r])
  then show ?thesis by (intro exI [of _ ?t] conjI) (simp_all add: copies_def says_def)
qed

theorem chat_reused_descriptor_witness:
  "\<exists>s. (chat_step (\<lambda>_ _ _. True))\<^sup>*\<^sup>* server_start s \<and> said s = [''x'', ''yz''] \<and>
     outgoing (wires s 4) = frame ''x'' @ frame ''x'' @ frame ''yz'' @ frame ''yz''"
  using chat_reused_descriptor [of "[''x'', ''yz'']"] by (auto simp: sendable_def)

end
