(* ===== verification/Lookup.thy ===== *)
theory Lookup
  imports CString "HOL-Library.Tree" "HOL-Library.List_Lexorder"
begin

text \<open>
  \<open>mad_mad_access_patterns\<close>: looking up words in a binary search tree that lies in a file, with \<open>fseek\<close> and
  \<open>fread\<close> (\<open>lookup1.c\<close>) and through a mapping (\<open>lookup2.c\<close>).

  The layout of a node is declared in \<open>tree.h\<close>, which is not in the repository: the parameter \<open>fmt\<close> gives the
  size of its fixed part, how its fields are read from its bytes, and the offset of the root. The word follows
  the fixed part. \<open>fuel\<close> bounds the descents of the loop, which runs for ever in a file whose nodes form a cycle.
\<close>

record 'p tree_fmt =
  node_size :: nat
  left_child :: "char list \<Rightarrow> nat"
  right_child :: "char list \<Rightarrow> nat"
  node_count :: "char list \<Rightarrow> nat"
  node_price :: "char list \<Rightarrow> 'p"
  root_offset :: nat

text \<open>\<open>strcmp\<close> on what lies at two addresses: it stops at the first difference or common zero byte.\<close>

fun strcmp_at :: "char list \<Rightarrow> char list \<Rightarrow> int outcome" where
  "strcmp_at (a # as) (b # bs) =
     (if a \<noteq> b then Inr (int (code a) - int (code b)) else if a = NUL then Inr 0 else strcmp_at as bs)"
| "strcmp_at _ _ = Inl Out_of_bounds"

section \<open>\<open>lookup1.c\<close>\<close>

text \<open>A node is copied to a block of its own without the zero byte that ends its word. \<open>fgetc\<close> returns \<open>EOF\<close>,
  which is not zero, at the end of the file for ever. The length of the word is an \<open>int\<close>.\<close>

definition readNode :: "'p tree_fmt \<Rightarrow> char list \<Rightarrow> nat \<Rightarrow> char list outcome" where
  "readNode fmt file offset =
     (let word = drop (offset + node_size fmt) file in
      if NUL \<in> set word \<and> 2147483647 < length (takeWhile (\<lambda>c. c \<noteq> NUL) word) then Inl Int_overflow
      else if NUL \<in> set word
      then Inr (take (node_size fmt + length (takeWhile (\<lambda>c. c \<noteq> NUL) word)) (drop offset file))
      else Inl Diverges)"

text \<open>\<open>beyond\<close> is what lies in memory behind the block of the node.\<close>

fun findWord_loop :: "'p tree_fmt \<Rightarrow> char list \<Rightarrow> nat \<Rightarrow> char list \<Rightarrow> string \<Rightarrow> nat \<Rightarrow> nat outcome" where
  "findWord_loop fmt beyond 0 file word cur = Inl Diverges"
| "findWord_loop fmt beyond (Suc fuel) file word cur =
     (if cur = 0 then Inr 0
      else
        rbind (readNode fmt file cur) (\<lambda>node.
        rbind (strcmp_at (word @ [NUL]) (drop (node_size fmt) node @ beyond)) (\<lambda>cmp.
        if cmp = 0 then Inr cur
        else if cmp < 0 \<and> left_child fmt node \<noteq> 0 then findWord_loop fmt beyond fuel file word (left_child fmt node)
        else if right_child fmt node \<noteq> 0 then findWord_loop fmt beyond fuel file word (right_child fmt node)
        else Inr 0)))"

definition findWord :: "'p tree_fmt \<Rightarrow> char list \<Rightarrow> nat \<Rightarrow> char list \<Rightarrow> string \<Rightarrow> nat outcome" where
  "findWord fmt beyond fuel file word = findWord_loop fmt beyond fuel file word (root_offset fmt)"

datatype 'p found = Not_found string | Found string nat 'p

text \<open>The exit status and what is printed for the words; \<open>junk\<close> is what the four bytes on the stack held.\<close>

fun lookup_words :: "'p tree_fmt \<Rightarrow> char list \<Rightarrow> nat \<Rightarrow> char list \<Rightarrow> string list \<Rightarrow> 'p found list outcome" where
  "lookup_words fmt beyond fuel file [] = Inr []"
| "lookup_words fmt beyond fuel file (word # words) =
     rbind (findWord fmt beyond fuel file word) (\<lambda>offset.
     rbind (if offset = 0 then Inr (Not_found word)
            else rbind (readNode fmt file offset) (\<lambda>node. Inr (Found word (node_count fmt node) (node_price fmt node)))) (\<lambda>line.
     rbind (lookup_words fmt beyond fuel file words) (\<lambda>lines. Inr (line # lines))))"

definition lookup1 :: "'p tree_fmt \<Rightarrow> char list \<Rightarrow> char list \<Rightarrow> nat \<Rightarrow> char list option \<Rightarrow> string list \<Rightarrow> (int \<times> 'p found list) outcome" where
  "lookup1 fmt beyond junk fuel data_file words =
     (if words = [] then Inr (1, [])
      else
        case data_file of
          None \<Rightarrow> Inr (2, [])
        | Some file \<Rightarrow>
            if take 4 (take 4 file @ drop (length file) junk) \<noteq> ''BTRE'' then Inr (2, [])
            else rbind (lookup_words fmt beyond fuel file words) (\<lambda>lines. Inr (0, lines)))"

section \<open>\<open>lookup2.c\<close>\<close>

text \<open>The file is mapped in pages; the rest of its last page reads as zeros. The word printed for a hit is that
  of the copied node, again up to the first zero byte in memory.\<close>

definition mapped :: "nat \<Rightarrow> char list \<Rightarrow> char list" where
  "mapped page file = file @ replicate ((page - length file mod page) mod page) NUL"

definition readNode_map :: "'p tree_fmt \<Rightarrow> char list \<Rightarrow> nat \<Rightarrow> char list outcome" where
  "readNode_map fmt fd offset =
     (let word = drop (offset + node_size fmt) fd in
      if NUL \<in> set word \<and> 2147483647 < length (takeWhile (\<lambda>c. c \<noteq> NUL) word) then Inl Int_overflow
      else if NUL \<in> set word
      then Inr (take (node_size fmt + length (takeWhile (\<lambda>c. c \<noteq> NUL) word)) (drop offset fd))
      else Inl Out_of_bounds)"

fun findWord_map_loop :: "'p tree_fmt \<Rightarrow> char list \<Rightarrow> nat \<Rightarrow> char list \<Rightarrow> string \<Rightarrow> nat \<Rightarrow> nat outcome" where
  "findWord_map_loop fmt beyond 0 fd word cur = Inl Diverges"
| "findWord_map_loop fmt beyond (Suc fuel) fd word cur =
     (if cur = 0 then Inr 0
      else
        rbind (readNode_map fmt fd cur) (\<lambda>node.
        rbind (strcmp_at (word @ [NUL]) (drop (node_size fmt) node @ beyond)) (\<lambda>cmp.
        if cmp = 0 then Inr cur
        else if cmp < 0 \<and> left_child fmt node \<noteq> 0 then findWord_map_loop fmt beyond fuel fd word (left_child fmt node)
        else if right_child fmt node \<noteq> 0 then findWord_map_loop fmt beyond fuel fd word (right_child fmt node)
        else Inr 0)))"

definition findWord_map :: "'p tree_fmt \<Rightarrow> char list \<Rightarrow> nat \<Rightarrow> char list \<Rightarrow> string \<Rightarrow> nat outcome" where
  "findWord_map fmt beyond fuel fd word = findWord_map_loop fmt beyond fuel fd word (root_offset fmt)"

fun lookup_map_words :: "'p tree_fmt \<Rightarrow> char list \<Rightarrow> nat \<Rightarrow> char list \<Rightarrow> string list \<Rightarrow> 'p found list outcome" where
  "lookup_map_words fmt beyond fuel fd [] = Inr []"
| "lookup_map_words fmt beyond fuel fd (word # words) =
     rbind (findWord_map fmt beyond fuel fd word) (\<lambda>cur.
     rbind (if cur = 0 then Inr (Not_found word)
            else rbind (readNode_map fmt fd cur) (\<lambda>node.
                 rbind (cstr (drop (node_size fmt) node @ beyond) 0) (\<lambda>name.
                 Inr (Found name (node_count fmt node) (node_price fmt node))))) (\<lambda>line.
     rbind (lookup_map_words fmt beyond fuel fd words) (\<lambda>lines. Inr (line # lines))))"

definition lookup2 :: "'p tree_fmt \<Rightarrow> char list \<Rightarrow> nat \<Rightarrow> nat \<Rightarrow> char list option \<Rightarrow> string list \<Rightarrow> (int \<times> 'p found list) outcome" where
  "lookup2 fmt beyond page fuel data_file words =
     (if words = [] then Inr (1, [])
      else
        case data_file of
          None \<Rightarrow> Inr (2, [])
        | Some file \<Rightarrow>
            if file = [] then Inr (3, [])
            else if take 4 (mapped page file) \<noteq> ''BTRE'' then Inr (2, [])
            else rbind (lookup_map_words fmt beyond fuel (mapped page file) words) (\<lambda>lines. Inr (0, lines)))"

section \<open>Trees in files\<close>

text \<open>A tree of pairs of offset and word lies in the file: every node is where its parent says, its word ends
  with a zero byte, and its fields can be read from the part of it that is copied.\<close>

fun tree_root :: "(nat \<times> string) tree \<Rightarrow> nat" where
  "tree_root Leaf = 0"
| "tree_root (Node l (offset, w) r) = offset"

definition node_bytes :: "'p tree_fmt \<Rightarrow> char list \<Rightarrow> nat \<Rightarrow> string \<Rightarrow> char list" where
  "node_bytes fmt file offset w = take (node_size fmt + length w) (drop offset file)"

fun stored :: "'p tree_fmt \<Rightarrow> char list \<Rightarrow> (nat \<times> string) tree \<Rightarrow> bool" where
  "stored fmt file Leaf \<longleftrightarrow> True"
| "stored fmt file (Node l (offset, w) r) \<longleftrightarrow>
     offset \<noteq> 0 \<and> NUL \<notin> set w \<and> length w < 2147483648 \<and> offset + node_size fmt + length w < length file \<and>
     take (length w + 1) (drop (offset + node_size fmt) file) = w @ [NUL] \<and>
     left_child fmt (node_bytes fmt file offset w) = tree_root l \<and>
     right_child fmt (node_bytes fmt file offset w) = tree_root r \<and> stored fmt file l \<and> stored fmt file r"

text \<open>The order of \<open>strcmp\<close>, and search trees of it.\<close>

definition word_less :: "string \<Rightarrow> string \<Rightarrow> bool" where
  "word_less v w \<longleftrightarrow> map code v < map code w"

fun words_of :: "(nat \<times> string) tree \<Rightarrow> string set" where
  "words_of t = snd ` set_tree t"

fun search_tree :: "(nat \<times> string) tree \<Rightarrow> bool" where
  "search_tree Leaf \<longleftrightarrow> True"
| "search_tree (Node l (offset, w) r) \<longleftrightarrow>
     (\<forall>v \<in> words_of l. word_less v w) \<and> (\<forall>v \<in> words_of r. word_less w v) \<and> search_tree l \<and> search_tree r"

fun lookup_tree :: "(nat \<times> string) tree \<Rightarrow> string \<Rightarrow> nat" where
  "lookup_tree Leaf v = 0"
| "lookup_tree (Node l (offset, w) r) v = (if v = w then offset else if word_less v w then lookup_tree l v else lookup_tree r v)"

lemma code_inject: "code a = code b \<longleftrightarrow> a = b"
  by (simp add: code_def)

lemma word_less_linear: "word_less v w \<or> v = w \<or> word_less w v"
proof -
  have "inj code" by (simp add: inj_def code_inject)
  then have "map code v = map code w \<longleftrightarrow> v = w" by simp
  then show ?thesis unfolding word_less_def by (metis linorder_less_linear)
qed

lemma word_less_trans: "word_less u v \<Longrightarrow> word_less v w \<Longrightarrow> word_less u w"
  unfolding word_less_def by (rule less_trans)

lemma word_less_irrefl: "\<not> word_less w w"
  unfolding word_less_def by simp

lemma code_NUL [simp]: "code NUL = 0"
  by (simp add: code_def NUL_def)

lemma word_less_asym: "word_less u v \<Longrightarrow> \<not> word_less v u \<and> u \<noteq> v"
  unfolding word_less_def by auto

lemma code_zero: "code a = 0 \<longleftrightarrow> a = NUL"
  using code_inject [of a NUL] by simp

lemma code_pos: "a \<noteq> NUL \<Longrightarrow> 0 < code a"
  using code_inject [of a NUL] by simp

lemma strcmp_words:
  "NUL \<notin> set v \<Longrightarrow> NUL \<notin> set w \<Longrightarrow>
   \<exists>c. strcmp_at (v @ [NUL]) (w @ NUL # rest) = Inr c \<and> (c = 0 \<longleftrightarrow> v = w) \<and> (c < 0 \<longleftrightarrow> word_less v w)"
proof (induction v arbitrary: w)
  case Nil
  then show ?case by (cases w) (auto simp: word_less_def code_pos)
next
  case (Cons a v)
  show ?case
  proof (cases w)
    case Nil
    then show ?thesis using Cons.prems by (auto simp: word_less_def code_pos)
  next
    case w: (Cons b w')
    show ?thesis
    proof (cases "a = b")
      case True
      then show ?thesis using Cons.IH [of w'] Cons.prems w by (auto simp: word_less_def)
    next
      case False
      then show ?thesis using w code_inject [of a b] by (auto simp: word_less_def)
    qed
  qed
qed


section \<open>What the searches find\<close>

lemma stored_read:
  assumes "stored fmt file (Node l (offset, w) r)"
  shows "readNode fmt file offset = Inr (node_bytes fmt file offset w)"
    "drop (node_size fmt) (node_bytes fmt file offset w) = w"
proof -
  let ?rest = "drop (offset + node_size fmt) file"
  have a: "NUL \<notin> set w" "take (length w + 1) ?rest = w @ [NUL]" "offset + node_size fmt + length w < length file" using assms by auto
  then have "?rest = (w @ [NUL]) @ drop (length w + 1) ?rest" by (metis append_take_drop_id)
  then obtain tl where r: "?rest = w @ NUL # tl" by (metis append.assoc append_Cons append_Nil)
  have "takeWhile (\<lambda>c. c \<noteq> NUL) ?rest = w" using a(1) by (simp add: r)
  moreover have "NUL \<in> set ?rest" by (simp add: r)
  ultimately show "readNode fmt file offset = Inr (node_bytes fmt file offset w)"
    using assms by (simp add: readNode_def node_bytes_def)
  have "take (length w) ?rest = w" by (simp add: r)
  then show "drop (node_size fmt) (node_bytes fmt file offset w) = w"
    by (simp only: node_bytes_def drop_take drop_drop add_diff_cancel_left' add.commute [of "node_size fmt" offset])
qed

lemma lookup_tree_less: "\<forall>v \<in> words_of t. word_less w v \<Longrightarrow> word_less v w \<or> v = w \<Longrightarrow> lookup_tree t v = 0"
proof (induction t arbitrary: w)
  case (Node l x r)
  obtain offset u where x: "x = (offset, u)" by fastforce
  have "word_less w u" using Node.prems(1) x by simp
  then have "word_less v u" "v \<noteq> u" using Node.prems(2) word_less_trans word_less_irrefl by blast+
  then show ?case using Node.IH(1) [of w] Node.prems x by auto
qed simp

lemma findWord_loop_tree:
  assumes "NUL \<notin> set v"
  shows "stored fmt file t \<Longrightarrow> search_tree t \<Longrightarrow> height t < fuel \<Longrightarrow>
    findWord_loop fmt (NUL # rest) fuel file v (tree_root t) = Inr (lookup_tree t v)"
proof (induction t arbitrary: fuel)
  case Leaf
  then show ?case by (cases fuel) auto
next
  case (Node l x r)
  obtain offset w where x: "x = (offset, w)" by fastforce
  obtain n where fuel: "fuel = Suc n" "height l < n" "height r < n" using Node.prems(3) by (cases fuel) auto
  have st: "stored fmt file (Node l (offset, w) r)" using Node.prems(1) x by simp
  note rd = stored_read [OF st]
  have NUL: "NUL \<notin> set w" and off: "offset \<noteq> 0" and l: "left_child fmt (node_bytes fmt file offset w) = tree_root l"
    and r: "right_child fmt (node_bytes fmt file offset w) = tree_root r" using st by auto
  obtain c where c: "strcmp_at (v @ [NUL]) (w @ NUL # rest) = Inr c" "c = 0 \<longleftrightarrow> v = w" "c < 0 \<longleftrightarrow> word_less v w"
    using strcmp_words [OF assms NUL] by blast
  have il: "findWord_loop fmt (NUL # rest) n file v (tree_root l) = Inr (lookup_tree l v)" using Node.IH(1) Node.prems fuel x by simp
  have ir: "findWord_loop fmt (NUL # rest) n file v (tree_root r) = Inr (lookup_tree r v)" using Node.IH(2) Node.prems fuel x by simp
  have run: "findWord_loop fmt (NUL # rest) fuel file v (tree_root (Node l x r)) =
      (if c = 0 then Inr offset else if c < 0 \<and> tree_root l \<noteq> 0 then Inr (lookup_tree l v)
       else if tree_root r \<noteq> 0 then Inr (lookup_tree r v) else Inr 0)"
    using fuel x off rd c(1) l r il ir by simp
  have leaf: "tree_root t = 0 \<Longrightarrow> stored fmt file t \<Longrightarrow> t = Leaf" for t by (cases t) auto
  have zl: "tree_root l = 0 \<Longrightarrow> l = Leaf" and zr: "tree_root r = 0 \<Longrightarrow> r = Leaf" using leaf st by auto
  show ?case
  proof (cases "v = w")
    case True
    then show ?thesis using run c(2) x by simp
  next
    case False
    show ?thesis
    proof (cases "word_less v w")
      case True
      have "lookup_tree r v = 0" using lookup_tree_less [of r w v] Node.prems(2) x True by simp
      then show ?thesis using run c False True x zl zr by auto
    next
      case nl: False
      then show ?thesis using run c False x zr by auto
    qed
  qed
qed

section \<open>The two programs agree\<close>

lemma readNode_mapped:
  assumes "readNode fmt file offset = Inr node"
  shows "readNode_map fmt (mapped page file) offset = Inr node"
proof -
  let ?w = "drop (offset + node_size fmt) file"
  have w: "NUL \<in> set ?w" "\<not> 2147483647 < length (takeWhile (\<lambda>c. c \<noteq> NUL) ?w)" "node = take (node_size fmt + length (takeWhile (\<lambda>c. c \<noteq> NUL) ?w)) (drop offset file)"
    using assms by (auto simp: readNode_def Let_def split: if_splits)
  then have in_file: "offset + node_size fmt \<le> length file" by (metis drop_all empty_iff empty_set nle_le)
  obtain z where z: "mapped page file = file @ z" by (simp add: mapped_def)
  have d: "drop (offset + node_size fmt) (mapped page file) = ?w @ z" "drop offset (mapped page file) = drop offset file @ z"
    using in_file by (simp_all add: z)
  have t: "takeWhile (\<lambda>c. c \<noteq> NUL) (?w @ z) = takeWhile (\<lambda>c. c \<noteq> NUL) ?w" by (rule takeWhile_append1 [OF w(1)]) simp
  have "length (takeWhile (\<lambda>c. c \<noteq> NUL) ?w) \<le> length ?w" by (rule length_takeWhile_le)
  then have "node_size fmt + length (takeWhile (\<lambda>c. c \<noteq> NUL) ?w) \<le> length (drop offset file)" using in_file by simp
  then show ?thesis using w unfolding readNode_map_def Let_def d t by simp
qed

lemma findWord_mapped:
  "findWord_loop fmt beyond fuel file word cur = Inr r \<Longrightarrow>
   findWord_map_loop fmt beyond fuel (mapped page file) word cur = Inr r"
proof (induction fuel arbitrary: cur)
  case (Suc fuel)
  show ?case
  proof (cases "cur = 0")
    case False
    then obtain node cmp where n: "readNode fmt file cur = Inr node" "strcmp_at (word @ [NUL]) (drop (node_size fmt) node @ beyond) = Inr cmp"
      using Suc.prems by (auto simp: rbind_eq_Inr)
    then show ?thesis using Suc False readNode_mapped [OF n(1), of page] by (auto split: if_split_asm)
  qed (use Suc.prems in simp)
qed simp

lemma strcmp_zero: "strcmp_at (v @ [NUL]) mem = Inr 0 \<Longrightarrow> NUL \<notin> set v \<Longrightarrow> \<exists>tl. mem = v @ NUL # tl"
proof (induction v arbitrary: mem)
  case Nil
  then show ?case by (cases mem) (auto simp: code_inject code_zero split: if_split_asm)
next
  case (Cons a v)
  then show ?case by (cases mem) (auto simp: code_inject code_zero split: if_split_asm)
qed

lemma findWord_hit:
  "findWord_loop fmt beyond fuel file word cur = Inr r \<Longrightarrow> r \<noteq> 0 \<Longrightarrow>
   \<exists>node. readNode fmt file r = Inr node \<and> strcmp_at (word @ [NUL]) (drop (node_size fmt) node @ beyond) = Inr 0"
proof (induction fuel arbitrary: cur)
  case (Suc fuel)
  have "cur \<noteq> 0" using Suc.prems by (cases "cur = 0") auto
  then obtain node cmp where n: "readNode fmt file cur = Inr node" "strcmp_at (word @ [NUL]) (drop (node_size fmt) node @ beyond) = Inr cmp"
    using Suc.prems(1) by (auto simp: rbind_eq_Inr)
  show ?case
  proof (cases "cmp = 0")
    case True
    then show ?thesis using Suc.prems \<open>cur \<noteq> 0\<close> n by auto
  next
    case False
    then show ?thesis using Suc \<open>cur \<noteq> 0\<close> n by (auto split: if_split_asm)
  qed
qed simp

lemma lookup_map_words_same:
  "lookup_words fmt beyond fuel file words = Inr lines \<Longrightarrow> \<forall>w \<in> set words. NUL \<notin> set w \<Longrightarrow>
   lookup_map_words fmt beyond fuel (mapped page file) words = Inr lines"
proof (induction words arbitrary: lines)
  case (Cons v words)
  obtain r line ls where r: "findWord fmt beyond fuel file v = Inr r"
      "(if r = 0 then Inr (Not_found v) else rbind (readNode fmt file r) (\<lambda>node. Inr (Found v (node_count fmt node) (node_price fmt node)))) = Inr line"
      "lookup_words fmt beyond fuel file words = Inr ls" "lines = line # ls"
    using Cons.prems(1) by (auto simp: rbind_eq_Inr simp del: if_split)
  have m: "findWord_map fmt beyond fuel (mapped page file) v = Inr r"
    using r(1) findWord_mapped by (simp add: findWord_def findWord_map_def)
  have ls: "lookup_map_words fmt beyond fuel (mapped page file) words = Inr ls" using Cons.IH [OF r(3)] Cons.prems(2) by simp
  show ?case
  proof (cases "r = 0")
    case True
    then show ?thesis using m r ls by simp
  next
    case False
    obtain node where n: "readNode fmt file r = Inr node" "strcmp_at (v @ [NUL]) (drop (node_size fmt) node @ beyond) = Inr 0"
      using findWord_hit [OF r(1) [unfolded findWord_def] False] by blast
    then obtain vs where "drop (node_size fmt) node @ beyond = v @ NUL # vs" using strcmp_zero Cons.prems(2) by fastforce
    then have "cstr (drop (node_size fmt) node @ beyond) 0 = Inr v" using Cons.prems(2) by simp
    then show ?thesis using m r ls False n readNode_mapped [OF n(1)] by simp
  qed
qed simp

text \<open>What a lookup of one word in the stored tree prints.\<close>

definition answer :: "'p tree_fmt \<Rightarrow> char list \<Rightarrow> (nat \<times> string) tree \<Rightarrow> string \<Rightarrow> 'p found" where
  "answer fmt file t v =
     (let offset = lookup_tree t v; node = node_bytes fmt file offset v in
      if v \<in> words_of t then Found v (node_count fmt node) (node_price fmt node) else Not_found v)"

lemma lookup_tree_in: "stored fmt file t \<Longrightarrow> search_tree t \<Longrightarrow> v \<in> words_of t \<Longrightarrow> lookup_tree t v \<noteq> 0 \<and> readNode fmt file (lookup_tree t v) = Inr (node_bytes fmt file (lookup_tree t v) v)"
proof (induction t)
  case (Node l x r)
  obtain offset w where x: "x = (offset, w)" by fastforce
  have st: "stored fmt file (Node l (offset, w) r)" using Node.prems(1) x by simp
  have "v = w \<or> v \<in> words_of l \<or> v \<in> words_of r" using Node.prems(3) x by auto
  moreover have "v \<in> words_of l \<Longrightarrow> word_less v w \<and> v \<noteq> w" "v \<in> words_of r \<Longrightarrow> \<not> word_less v w \<and> v \<noteq> w"
    using Node.prems(2) x word_less_asym [of v w] word_less_asym [of w v] by auto
  ultimately show ?case using Node.IH Node.prems x st stored_read(1) [OF st] by auto
qed simp

lemma lookup_tree_out: "v \<notin> words_of t \<Longrightarrow> lookup_tree t v = 0"
  by (induction t v rule: lookup_tree.induct) auto

text \<open>C28: on a search tree that is stored in the file, its words shorter than an \<open>int\<close> can count, and when the byte
  behind each copied node is zero,
  both programs end with status 0 and print the same, for every word the count and price of its node when the
  tree has the word, and that it is not found otherwise. The height of the tree bounds the descents.\<close>

theorem lookup_correct:
  assumes "stored fmt file t" "search_tree t" "root_offset fmt = tree_root t" "height t < fuel"
    and "take 4 file = ''BTRE''" "words \<noteq> []" "\<forall>w \<in> set words. NUL \<notin> set w"
  shows "lookup1 fmt (NUL # rest) junk fuel (Some file) words = Inr (0, map (answer fmt file t) words) \<and>
    lookup2 fmt (NUL # rest) page fuel (Some file) words = Inr (0, map (answer fmt file t) words)"
proof -
  have one: "findWord fmt (NUL # rest) fuel file v = Inr (lookup_tree t v)" if "v \<in> set words" for v
    using findWord_loop_tree [OF _ assms(1,2,4)] assms(3,7) that by (simp add: findWord_def)
  have all: "set ws \<subseteq> set words \<Longrightarrow> lookup_words fmt (NUL # rest) fuel file ws = Inr (map (answer fmt file t) ws)" for ws
  proof (induction ws)
    case (Cons v ws)
    show ?case
    proof (cases "v \<in> words_of t")
      case True
      then show ?thesis using Cons one [of v] lookup_tree_in [OF assms(1,2) True] by (simp add: answer_def Let_def)
    next
      case False
      then show ?thesis using Cons one [of v] lookup_tree_out [OF False] by (simp add: answer_def Let_def)
    qed
  qed simp
  have "length (take 4 file) = 4" unfolding assms(5) by simp
  then have l: "4 \<le> length file" by simp
  then have m: "take 4 (mapped page file) = ''BTRE''" "file \<noteq> []" using assms(5) by (auto simp: mapped_def)
  have w: "lookup_words fmt (NUL # rest) fuel file words = Inr (map (answer fmt file t) words)" by (rule all) simp
  have "take 4 (take 4 file @ drop (length file) junk) = ''BTRE''" using assms(5) l by simp
  then show ?thesis using w lookup_map_words_same [OF w assms(7), of page] m assms(6) by (simp add: lookup1_def lookup2_def)
qed

text \<open>A file with two nodes, whose fixed part is one byte for each child.\<close>

definition byte_fmt :: "unit tree_fmt" where
  "byte_fmt = \<lparr>node_size = 2, left_child = (\<lambda>bs. code (bs ! 0)), right_child = (\<lambda>bs. code (bs ! 1)),
     node_count = length, node_price = (\<lambda>_. ()), root_offset = 4\<rparr>"

definition two_nodes :: "char list" where
  "two_nodes = ''BTRE'' @ [CHR 0x08, NUL, CHR ''m'', NUL, NUL, NUL, CHR ''a'', NUL]"

definition two_tree :: "(nat \<times> string) tree" where
  "two_tree = Node (Node Leaf (8, ''a'') Leaf) (4, ''m'') Leaf"

lemma two_nodes_stored: "stored byte_fmt two_nodes two_tree" "search_tree two_tree" "root_offset byte_fmt = tree_root two_tree"
    "height two_tree < 3" "take 4 two_nodes = ''BTRE''"
  by (simp_all add: byte_fmt_def two_nodes_def two_tree_def node_bytes_def NUL_def code_def word_less_def)

theorem lookup_correct_witness:
  "lookup1 byte_fmt [NUL] [] 3 (Some two_nodes) [''a'', ''x''] = Inr (0, [Found ''a'' 3 (), Not_found ''x'']) \<and>
   lookup2 byte_fmt [NUL] 16 3 (Some two_nodes) [''a'', ''x''] = Inr (0, [Found ''a'' 3 (), Not_found ''x''])"
proof -
  have w: "\<forall>w \<in> set [''a'', ''x'']. NUL \<notin> set w" by (simp add: NUL_def)
  have a: "map (answer byte_fmt two_nodes two_tree) [''a'', ''x''] = [Found ''a'' 3 (), Not_found ''x'']"
    by (simp add: answer_def two_tree_def node_bytes_def byte_fmt_def two_nodes_def word_less_def code_def Let_def)
  show ?thesis using lookup_correct [OF two_nodes_stored _ w, of "[]" "[]" 16] unfolding a by simp
qed

end
