(* ===== verification/Par_Reduce.thy ===== *)
theory Par_Reduce
  imports Prelude "HOL-Library.Multiset"
begin

text \<open>
  \<open>teaching_threads/par_reduce.c\<close>: a list is cut into as many pieces as there are threads, each thread
  reduces its piece, and the results are reduced again.

  The reducer and the sequential \<open>reduce\<close> are not in the repository: the parameters \<open>f\<close> and \<open>red\<close>. The threads
  write only to their own task and all are joined before a result is read; \<open>runs\<close> is the order in which they
  finish, which may be any.
\<close>

record task_t =
  tstart :: nat
  list_len :: nat
  tresult :: int

text \<open>The loop that fills the tasks: \<open>i\<close> counts them, \<open>pos\<close> is the start of the next piece. \<open>junk\<close> is what a
  result holds before its thread has run.\<close>

fun make_tasks :: "nat \<Rightarrow> nat \<Rightarrow> int \<Rightarrow> nat \<Rightarrow> nat \<Rightarrow> nat \<Rightarrow> task_t list" where
  "make_tasks chunk remain junk i 0 pos = []"
| "make_tasks chunk remain junk i (Suc n) pos =
     (let len = chunk + (if i < remain then 1 else 0) in
      \<lparr>tstart = pos, list_len = len, tresult = junk\<rparr> # make_tasks chunk remain junk (Suc i) n (pos + len))"

definition handler :: "(int list \<Rightarrow> (int \<Rightarrow> int \<Rightarrow> int) \<Rightarrow> int \<Rightarrow> int) \<Rightarrow> (int \<Rightarrow> int \<Rightarrow> int) \<Rightarrow> int \<Rightarrow> int list \<Rightarrow> nat \<Rightarrow> task_t list \<Rightarrow> task_t list" where
  "handler red f base_case xs i tasks =
     tasks[i := (tasks ! i)\<lparr>tresult := red (take (list_len (tasks ! i)) (drop (tstart (tasks ! i)) xs)) f base_case\<rparr>]"

definition par_reduce ::
  "(int list \<Rightarrow> (int \<Rightarrow> int \<Rightarrow> int) \<Rightarrow> int \<Rightarrow> int) \<Rightarrow> nat list \<Rightarrow> int \<Rightarrow> int list \<Rightarrow> (int \<Rightarrow> int \<Rightarrow> int) \<Rightarrow> int \<Rightarrow> nat \<Rightarrow> int outcome" where
  "par_reduce red runs junk xs f base_case num_threads =
     (let n_threads = (if num_threads < length xs then num_threads else length xs) in
      if n_threads = 0 then Inl Div_by_zero
      else
        let tasks = make_tasks (length xs div n_threads) (length xs mod n_threads) junk 0 n_threads 0;
            tasks = fold (handler red f base_case xs) runs tasks in
        Inr (foldl (\<lambda>r t. f r (tresult t)) base_case tasks))"

section \<open>The pieces\<close>

lemma length_make_tasks [simp]: "length (make_tasks c m junk i n pos) = n"
  by (induction n arbitrary: i pos) (simp_all add: Let_def)

text \<open>The pieces of the tasks from \<open>pos\<close> on make up the list from there as far as they go.\<close>

lemma make_tasks_pieces:
  "concat (map (\<lambda>t. take (list_len t) (drop (tstart t) xs)) (make_tasks c m junk i n pos)) =
     take (n * c + (min (i + n) m - min i m)) (drop pos xs)"
proof (induction n arbitrary: i pos)
  case (Suc n)
  let ?len = "c + (if i < m then 1 else 0)"
  have "n * c + (min (Suc i + n) m - min (Suc i) m) + ?len = Suc n * c + (min (i + Suc n) m - min i m)"
    by (auto simp: min_def)
  then show ?case using Suc [of "Suc i" "pos + ?len"] take_add [of ?len "n * c + (min (Suc i + n) m - min (Suc i) m)" "drop pos xs"]
    by (simp add: Let_def add.commute)
qed simp

lemma all_pieces:
  assumes "0 < n"
  shows "concat (map (\<lambda>t. take (list_len t) (drop (tstart t) xs)) (make_tasks (length xs div n) (length xs mod n) junk 0 n 0)) = xs"
proof -
  have "length xs mod n < n" using assms by simp
  then have "n * (length xs div n) + (min (0 + n) (length xs mod n) - min 0 (length xs mod n)) = length xs" by (simp add: min_def)
  then show ?thesis by (simp add: make_tasks_pieces)
qed

section \<open>The threads\<close>

text \<open>Whatever the order in which they finish, each task ends with the reduction of its piece.\<close>

lemma run_handlers:
  "distinct runs \<Longrightarrow> set runs \<subseteq> {0..<length tasks} \<Longrightarrow>
   fold (handler red f b xs) runs tasks = map (\<lambda>i. if i \<in> set runs
     then (tasks ! i)\<lparr>tresult := red (take (list_len (tasks ! i)) (drop (tstart (tasks ! i)) xs)) f b\<rparr> else tasks ! i) [0..<length tasks]"
proof (induction runs rule: rev_induct)
  case Nil
  then show ?case by (simp add: map_nth)
next
  case (snoc i runs)
  then show ?case by (intro nth_equalityI) (auto simp: handler_def nth_list_update)
qed

lemma foldl_pieces:
  assumes "\<And>x y z. f (f x y) z = f x (f y z)" "\<And>x. f x b = x" "\<And>x. f b x = x"
  shows "foldl (\<lambda>r p. f r (foldl f b p)) b ps = foldl f b (concat ps)"
proof (induction ps rule: rev_induct)
  case (snoc p ps)
  have "f r (foldl f b p) = foldl f r p" for r
  proof (induction p rule: rev_induct)
    case (snoc x p)
    then show ?case by (simp only: foldl_append foldl.simps assms(1) [symmetric])
  qed (simp add: assms(2))
  then show ?case using snoc by simp
qed simp

text \<open>The parallel reduction is the sequential one: for a reducer that is associative with the base case as
  its unit, a list that is not empty and at least one thread, the result is that of folding the whole list,
  in whatever order the threads finish.\<close>

theorem par_reduce_sequential:
  assumes "\<And>ys. red ys f b = foldl f b ys" "\<And>x y z. f (f x y) z = f x (f y z)" "\<And>x. f x b = x" "\<And>x. f b x = x"
    and "xs \<noteq> []" "0 < num_threads" "mset runs = mset [0..<min num_threads (length xs)]"
  shows "par_reduce red runs junk xs f b num_threads = Inr (foldl f b xs)"
proof -
  let ?n = "min num_threads (length xs)"
  let ?tasks = "make_tasks (length xs div ?n) (length xs mod ?n) junk 0 ?n 0"
  let ?piece = "\<lambda>t. take (list_len t) (drop (tstart t) xs)"
  have n: "0 < ?n" using assms(5,6) by simp
  have r: "distinct runs" "set runs = {0..<?n}"
    using assms(7) mset_eq_imp_distinct_iff [of runs "[0..<?n]"] mset_eq_setD [of runs "[0..<?n]"] by auto
  have "fold (handler red f b xs) runs ?tasks = map (\<lambda>i. (?tasks ! i)\<lparr>tresult := red (?piece (?tasks ! i)) f b\<rparr>) [0..<?n]"
    using run_handlers [OF r(1), of ?tasks red f b xs] r(2) by (auto intro!: map_cong)
  also have "\<dots> = map (\<lambda>t. t\<lparr>tresult := red (?piece t) f b\<rparr>) (map ((!) ?tasks) [0..<?n])" by simp
  also have "map ((!) ?tasks) [0..<?n] = ?tasks" using map_nth [of ?tasks] by simp
  finally have "foldl (\<lambda>r t. f r (tresult t)) b (fold (handler red f b xs) runs ?tasks) = foldl (\<lambda>r p. f r (foldl f b p)) b (map ?piece ?tasks)"
    by (simp add: foldl_map assms(1))
  also have "\<dots> = foldl f b (concat (map ?piece ?tasks))" by (rule foldl_pieces [OF assms(2,3,4)])
  also have "\<dots> = foldl f b xs" by (simp only: all_pieces [OF n])
  finally have r: "foldl (\<lambda>r t. f r (tresult t)) b (fold (handler red f b xs) runs ?tasks) = foldl f b xs" .
  have "(if num_threads < length xs then num_threads else length xs) = ?n" by simp
  moreover have "(?n = 0) = False" using n by simp
  ultimately show ?thesis by (simp only: par_reduce_def Let_def r if_False)
qed

theorem par_reduce_sequential_witness:
  "par_reduce (\<lambda>ys f b. foldl f b ys) [1, 0] 7 [1, 2, 3, 4, 5] (+) 0 2 = Inr 15"
proof -
  have "mset [1, 0] = mset [0..<min 2 (length [1, 2, 3, 4, 5 :: int])]" by (simp add: upt_rec)
  from par_reduce_sequential [OF _ _ _ _ _ _ this, of "\<lambda>ys f b. foldl f b ys" "(+)" 0 7] show ?thesis by simp
qed

text \<open>Without a thread or without an element the number of threads is zero, and the length of the pieces is a
  division by it.\<close>

lemma par_reduce_nothing: "xs = [] \<or> num_threads = 0 \<Longrightarrow> par_reduce red runs junk xs f b num_threads = Inl Div_by_zero"
  by (auto simp: par_reduce_def)

end
