(* ===== verification/Rendezvous.thy ===== *)
theory Rendezvous
  imports CString Interfaces
begin

text \<open>
  \<open>critical_concurrency/rendezvous_sol.c\<close> and \<open>rendezvous.c\<close>: two threads each decode one quote, by taking
  one from every byte, and print the quote that the other thread decodes. In the solution each posts a semaphore
  when it has finished its quote and waits for that of the other; the skeleton has no semaphores.

  A thread is named after the quote it modifies. It is at the test of its loop for the byte \<open>i\<close>, before the
  post, before the wait, before the print, or has ended.
\<close>

datatype quote = Quote_A | Quote_B
datatype meet_pc = Shift nat | Post | Wait | Show | Over

record meeting =
  quote_text :: "quote \<Rightarrow> char list"
  sems :: "quote \<Rightarrow> nat"
  meet_pcs :: "quote \<Rightarrow> meet_pc"
  shown :: "(quote \<times> string) list"

fun other :: "quote \<Rightarrow> quote" where
  "other Quote_A = Quote_B"
| "other Quote_B = Quote_A"

definition minus_one :: "char \<Rightarrow> char" where
  "minus_one c = char_of (code c + 255)"

text \<open>\<open>printf\<close> prints the block up to its first zero byte.\<close>

definition printed :: "char list \<Rightarrow> string" where
  "printed block = takeWhile (\<lambda>c. c \<noteq> NUL) block"

definition meet_start :: "(quote \<Rightarrow> string) \<Rightarrow> meeting" where
  "meet_start q = \<lparr>quote_text = (\<lambda>t. q t @ [NUL]), sems = (\<lambda>_. 0), meet_pcs = (\<lambda>_. Shift 0), shown = []\<rparr>"

section \<open>\<open>rendezvous_sol.c\<close>\<close>

inductive meet_step :: "meeting \<Rightarrow> meeting \<Rightarrow> bool" where
  shift: "meet_pcs s t = Shift i \<Longrightarrow> i < length (quote_text s t) \<Longrightarrow> quote_text s t ! i \<noteq> NUL \<Longrightarrow>
    meet_step s (s\<lparr>quote_text := (quote_text s)(t := (quote_text s t)[i := minus_one (quote_text s t ! i)]),
      meet_pcs := (meet_pcs s)(t := Shift (Suc i))\<rparr>)"
| shifted: "meet_pcs s t = Shift i \<Longrightarrow> i < length (quote_text s t) \<Longrightarrow> quote_text s t ! i = NUL \<Longrightarrow>
    meet_step s (s\<lparr>meet_pcs := (meet_pcs s)(t := Post)\<rparr>)"
| post: "meet_pcs s t = Post \<Longrightarrow>
    meet_step s (s\<lparr>sems := (sems s)(t := Suc (sems s t)), meet_pcs := (meet_pcs s)(t := Wait)\<rparr>)"
| wait: "meet_pcs s t = Wait \<Longrightarrow> 0 < sems s (other t) \<Longrightarrow>
    meet_step s (s\<lparr>sems := (sems s)(other t := sems s (other t) - 1), meet_pcs := (meet_pcs s)(t := Show)\<rparr>)"
| show_other: "meet_pcs s t = Show \<Longrightarrow>
    meet_step s (s\<lparr>shown := shown s @ [(other t, printed (quote_text s (other t)))], meet_pcs := (meet_pcs s)(t := Over)\<rparr>)"

section \<open>\<open>rendezvous.c\<close>\<close>

inductive skeleton_step :: "meeting \<Rightarrow> meeting \<Rightarrow> bool" where
  skeleton_shift: "meet_pcs s t = Shift i \<Longrightarrow> i < length (quote_text s t) \<Longrightarrow> quote_text s t ! i \<noteq> NUL \<Longrightarrow>
    skeleton_step s (s\<lparr>quote_text := (quote_text s)(t := (quote_text s t)[i := minus_one (quote_text s t ! i)]),
      meet_pcs := (meet_pcs s)(t := Shift (Suc i))\<rparr>)"
| skeleton_shifted: "meet_pcs s t = Shift i \<Longrightarrow> i < length (quote_text s t) \<Longrightarrow> quote_text s t ! i = NUL \<Longrightarrow>
    skeleton_step s (s\<lparr>meet_pcs := (meet_pcs s)(t := Show)\<rparr>)"
| skeleton_show: "meet_pcs s t = Show \<Longrightarrow>
    skeleton_step s (s\<lparr>shown := shown s @ [(other t, printed (quote_text s (other t)))], meet_pcs := (meet_pcs s)(t := Over)\<rparr>)"

section \<open>The invariant\<close>

lemma other_other [simp]: "other (other t) = t" "other t \<noteq> t" "t \<noteq> other t"
  by (cases t; simp)+

lemma other_cases: "u = t \<or> u = other t"
  by (cases t; cases u) simp_all

fun posted :: "meet_pc \<Rightarrow> bool" where
  "posted Wait \<longleftrightarrow> True" | "posted Show \<longleftrightarrow> True" | "posted Over \<longleftrightarrow> True" | "posted _ \<longleftrightarrow> False"

fun passed :: "meet_pc \<Rightarrow> bool" where
  "passed Show \<longleftrightarrow> True" | "passed Over \<longleftrightarrow> True" | "passed _ \<longleftrightarrow> False"

text \<open>What the block of a quote holds while its thread is at \<open>p\<close>.\<close>

fun decoded_at :: "string \<Rightarrow> meet_pc \<Rightarrow> char list" where
  "decoded_at q (Shift i) = map minus_one (take i q) @ drop i q @ [NUL]"
| "decoded_at q p = map minus_one q @ [NUL]"

definition decoded :: "string \<Rightarrow> string" where
  "decoded q = printed (map minus_one q @ [NUL])"

definition meet_inv :: "(quote \<Rightarrow> string) \<Rightarrow> meeting \<Rightarrow> bool" where
  "meet_inv q s \<longleftrightarrow> (\<forall>t.
     quote_text s t = decoded_at (q t) (meet_pcs s t) \<and> (\<forall>i. meet_pcs s t = Shift i \<longrightarrow> i \<le> length (q t)) \<and>
     sems s t = (if posted (meet_pcs s t) \<and> \<not> passed (meet_pcs s (other t)) then 1 else 0) \<and>
     (passed (meet_pcs s (other t)) \<longrightarrow> posted (meet_pcs s t)) \<and>
     (meet_pcs s t = Over \<longrightarrow> (other t, decoded (q (other t))) \<in> set (shown s))) \<and>
   (\<forall>(t, x) \<in> set (shown s). x = decoded (q t))"

lemma meet_invD:
  assumes "meet_inv q s"
  shows "quote_text s t = decoded_at (q t) (meet_pcs s t)" "meet_pcs s t = Shift i \<Longrightarrow> i \<le> length (q t)"
    "sems s t = (if posted (meet_pcs s t) \<and> \<not> passed (meet_pcs s (other t)) then 1 else 0)"
    "passed (meet_pcs s (other t)) \<Longrightarrow> posted (meet_pcs s t)"
    "meet_pcs s t = Over \<Longrightarrow> (other t, decoded (q (other t))) \<in> set (shown s)"
    "(t, x) \<in> set (shown s) \<Longrightarrow> x = decoded (q t)"
  using assms unfolding meet_inv_def by blast+

text \<open>It is enough to look at the two threads of a step.\<close>

lemma meet_invI:
  assumes "\<And>u. u = t \<or> u = other t \<Longrightarrow> quote_text s u = decoded_at (q u) (meet_pcs s u) \<and> (\<forall>i. meet_pcs s u = Shift i \<longrightarrow> i \<le> length (q u)) \<and>
     sems s u = (if posted (meet_pcs s u) \<and> \<not> passed (meet_pcs s (other u)) then 1 else 0) \<and>
     (passed (meet_pcs s (other u)) \<longrightarrow> posted (meet_pcs s u)) \<and>
     (meet_pcs s u = Over \<longrightarrow> (other u, decoded (q (other u))) \<in> set (shown s))"
    "\<And>u x. (u, x) \<in> set (shown s) \<Longrightarrow> x = decoded (q u)"
  shows "meet_inv q s"
proof -
  have "\<forall>(t, x) \<in> set (shown s). x = decoded (q t)" using assms(2) by auto
  then show ?thesis unfolding meet_inv_def by (intro conjI allI assms(1) [OF other_cases, THEN conjunct1]
    assms(1) [OF other_cases, THEN conjunct2, THEN conjunct1] assms(1) [OF other_cases, THEN conjunct2, THEN conjunct2])
qed

lemma decoded_shift:
  assumes "i < length q"
  shows "(decoded_at q (Shift i))[i := minus_one (decoded_at q (Shift i) ! i)] = decoded_at q (Shift (Suc i))"
proof -
  have "drop i q = q ! i # drop (Suc i) q" using assms by (simp add: Cons_nth_drop_Suc)
  then show ?thesis using assms by (simp add: list_update_append nth_append take_Suc_conv_app_nth)
qed

lemma decoded_end: "i \<le> length q \<Longrightarrow> NUL \<notin> set q \<Longrightarrow> decoded_at q (Shift i) ! i = NUL \<longleftrightarrow> i = length q"
proof (cases "i = length q")
  case False
  assume a: "i \<le> length q" "NUL \<notin> set q"
  then have "drop i q = q ! i # drop (Suc i) q" "q ! i \<in> set q" using False by (simp_all add: Cons_nth_drop_Suc)
  moreover from this have "q ! i \<noteq> NUL" using a(2) by metis
  ultimately show ?thesis using a False by (auto simp: nth_append)
qed (simp add: nth_append)

lemma meet_inv_step:
  assumes inv: "meet_inv q s" and q: "\<And>t. NUL \<notin> set (q t)" and step: "meet_step s s'"
  shows "meet_inv q s'"
  using step
proof cases
  case (shift t i)
  note i = meet_invD [OF inv]
  have "i < length (q t)" using decoded_end [OF i(2) [OF shift(2)] q [of t]] i(1,2) [of t] shift by fastforce
  then show ?thesis unfolding shift(1)
    by (intro meet_invI [of t]) (use shift(2) i i(4) [of t] decoded_shift [of i "q t"] in \<open>auto simp del: decoded_at.simps\<close>)
next
  case (shifted t i)
  note i = meet_invD [OF inv]
  have e: "i = length (q t)" using decoded_end [OF i(2) [OF shifted(2)] q [of t]] i(1) [of t] shifted by simp
  have "decoded_at (q t) (Shift (length (q t))) = decoded_at (q t) Post" by simp
  then show ?thesis unfolding shifted(1) using e
    by (intro meet_invI [of t]) (use shifted(2) i i(4) [of t] in \<open>auto simp del: decoded_at.simps\<close>)
next
  case (post t)
  note i = meet_invD [OF inv]
  show ?thesis unfolding post(1) by (intro meet_invI [of t]) (use post(2) i i(4) [of t] in auto)
next
  case (wait t)
  note i = meet_invD [OF inv]
  show ?thesis unfolding wait(1) by (intro meet_invI [of t]) (use wait(2,3) i i(3) [of "other t"] in \<open>auto split: if_splits\<close>)
next
  case (show_other t)
  note i = meet_invD [OF inv]
  have "posted (meet_pcs s (other t))" using i(4) [of "other t"] show_other(2) by simp
  then have "quote_text s (other t) = map minus_one (q (other t)) @ [NUL]" using i(1) [of "other t"] by (cases "meet_pcs s (other t)") auto
  then have p: "printed (quote_text s (other t)) = decoded (q (other t))" by (simp add: decoded_def)
  show ?thesis unfolding show_other(1) by (intro meet_invI [of t]) (use show_other(2) i p in auto)
qed

section \<open>The meeting\<close>

fun meet_work :: "string \<Rightarrow> meet_pc \<Rightarrow> nat" where
  "meet_work q (Shift i) = length q - i + 4"
| "meet_work q Post = 3"
| "meet_work q Wait = 2"
| "meet_work q Show = 1"
| "meet_work q Over = 0"

definition work_left :: "(quote \<Rightarrow> string) \<Rightarrow> meeting \<Rightarrow> nat" where
  "work_left q s = meet_work (q Quote_A) (meet_pcs s Quote_A) + meet_work (q Quote_B) (meet_pcs s Quote_B)"

lemma work_left_at: "work_left q s = meet_work (q t) (meet_pcs s t) + meet_work (q (other t)) (meet_pcs s (other t))"
  by (cases t) (simp_all add: work_left_def)

lemma meet_step_work:
  assumes inv: "meet_inv q s" and q: "\<And>t. NUL \<notin> set (q t)" and step: "meet_step s s'"
  shows "work_left q s' < work_left q s"
  using step
proof cases
  case (shift t i)
  note i = meet_invD [OF inv]
  have "i < length (q t)" using decoded_end [OF i(2) [OF shift(2)] q [of t]] i(1,2) [of t] shift by fastforce
  then show ?thesis using shift(1,2) by (simp add: work_left_at [of _ _ t])
next
  case (shifted t i)
  then show ?thesis by (simp add: work_left_at [of _ _ t])
next
  case (post t)
  then show ?thesis by (simp add: work_left_at [of _ _ t])
next
  case (wait t)
  then show ?thesis by (simp add: work_left_at [of _ _ t])
next
  case (show_other t)
  then show ?thesis by (simp add: work_left_at [of _ _ t])
qed

lemma meet_start_inv: "meet_inv q (meet_start q)"
  by (simp add: meet_inv_def meet_start_def)

interpretation meeting: state_machine "\<lambda>s. s = meet_start q" meet_step "\<lambda>s. (\<forall>t. NUL \<notin> set (q t)) \<longrightarrow> meet_inv q s" for q
  by unfold_locales (auto simp: meet_start_inv intro: meet_inv_step)

lemma meet_steps_left:
  assumes inv: "meet_inv q s" and left: "meet_pcs s t \<noteq> Over"
  shows "\<exists>s'. meet_step s s'"
proof (rule ccontr)
  assume stuck: "\<not> ?thesis"
  note i = meet_invD [OF inv]
  have p: "meet_pcs s u = Over \<or> meet_pcs s u = Wait \<and> sems s (other u) = 0" for u
  proof (cases "meet_pcs s u")
    case (Shift k)
    then have "k < length (quote_text s u)" using i(1,2) [of u] by simp
    then show ?thesis using stuck Shift meet_step.shift meet_step.shifted by blast
  qed (use stuck meet_step.post meet_step.wait meet_step.show_other in blast)+
  have w: "meet_pcs s t = Wait" "sems s (other t) = 0" using p [of t] left by auto
  have "posted (meet_pcs s (other t))" using p [of "other t"] by auto
  then have "sems s (other t) = 1" using i(3) [of "other t"] w(1) by simp
  then show False using w(2) by simp
qed

text \<open>The two threads meet. Whatever their interleaving, a quote is only ever printed decoded; a run has at
  most as many steps as the quotes have bytes and eight more; and it can only stop when both threads have
  ended, with both quotes printed.\<close>

theorem rendezvous_meets:
  assumes "\<And>t. NUL \<notin> set (q t)" "(meet_step ^^ k) (meet_start q) s"
  shows "k \<le> length (q Quote_A) + length (q Quote_B) + 8 \<and> (\<forall>(t, x) \<in> set (shown s). x = decoded (q t)) \<and>
    ((\<exists>s'. meet_step s s') \<or> (\<forall>t. meet_pcs s t = Over \<and> (t, decoded (q t)) \<in> set (shown s)))"
proof -
  have "k + work_left q s \<le> work_left q (meet_start q) \<and> meet_inv q s"
    using assms(2)
  proof (induction k arbitrary: s)
    case (Suc k)
    then obtain u where u: "(meet_step ^^ k) (meet_start q) u" "meet_step u s" by auto
    then show ?case using Suc.IH [OF u(1)] meet_step_work [OF _ assms(1) u(2)] meet_inv_step [OF _ assms(1) u(2)] by fastforce
  qed (simp add: meet_start_inv)
  then have inv: "meet_inv q s" and k: "k \<le> length (q Quote_A) + length (q Quote_B) + 8"
    by (auto simp: work_left_def meet_start_def)
  have "(t, decoded (q t)) \<in> set (shown s)" if "\<forall>t. meet_pcs s t = Over" for t
    using meet_invD(5) [OF inv, of "other t"] that by simp
  then show ?thesis using k meet_steps_left [OF inv] meet_invD(6) [OF inv] by blast
qed

theorem rendezvous_meets_witness:
  "\<exists>s. (meet_step ^^ 1) (meet_start (\<lambda>_. ''b'')) s \<and> (1 :: nat) \<le> length ''b'' + length ''b'' + 8"
proof -
  let ?q = "\<lambda>_. ''b''"
  let ?s = "meet_start ?q"
  have "meet_step ?s (?s\<lparr>quote_text := (quote_text ?s)(Quote_A := (quote_text ?s Quote_A)[0 := minus_one (quote_text ?s Quote_A ! 0)]),
      meet_pcs := (meet_pcs ?s)(Quote_A := Shift (Suc 0))\<rparr>)"
    by (rule meet_step.shift) (simp_all add: meet_start_def NUL_def)
  then have r: "(meet_step ^^ 1) ?s (?s\<lparr>quote_text := (quote_text ?s)(Quote_A := (quote_text ?s Quote_A)[0 := minus_one (quote_text ?s Quote_A ! 0)]),
      meet_pcs := (meet_pcs ?s)(Quote_A := Shift (Suc 0))\<rparr>)" by (simp only: relpowp_1)
  have q: "\<And>t. NUL \<notin> set (?q t)" by (simp add: NUL_def)
  show ?thesis using rendezvous_meets [OF q r] r by blast
qed

text \<open>The skeleton does not meet: whatever the quotes, the thread that decodes the first can print the
  second before a byte of it is decoded.\<close>

theorem skeleton_prints_undecoded:
  assumes "\<And>t. NUL \<notin> set (q t)"
  shows "\<exists>s. skeleton_step\<^sup>*\<^sup>* (meet_start q) s \<and> shown s = [(Quote_B, q Quote_B)]"
proof -
  let ?at = "\<lambda>p out. \<lparr>quote_text = (\<lambda>t. q t @ [NUL])(Quote_A := decoded_at (q Quote_A) p), sems = (\<lambda>_. 0),
      meet_pcs = (\<lambda>_. Shift 0)(Quote_A := p), shown = out\<rparr>"
  have shift: "skeleton_step\<^sup>*\<^sup>* (meet_start q) (?at (Shift i) [])" if "i \<le> length (q Quote_A)" for i
    using that
  proof (induction i)
    case 0
    have "meet_start q = ?at (Shift 0) []" by (simp add: meet_start_def fun_upd_idem)
    then show ?case by (simp only: rtranclp.rtrancl_refl)
  next
    case (Suc i)
    let ?s = "?at (Shift i) []"
    have n: "decoded_at (q Quote_A) (Shift i) ! i \<noteq> NUL" using decoded_end [of i "q Quote_A"] Suc.prems assms by simp
    have "skeleton_step ?s (?s\<lparr>quote_text := (quote_text ?s)(Quote_A := (quote_text ?s Quote_A)[i := minus_one (quote_text ?s Quote_A ! i)]),
        meet_pcs := (meet_pcs ?s)(Quote_A := Shift (Suc i))\<rparr>)"
      by (rule skeleton_shift) (use n Suc.prems in \<open>simp_all del: decoded_at.simps\<close>, simp)
    moreover have "\<dots> = ?at (Shift (Suc i)) []" using decoded_shift [of i "q Quote_A"] Suc.prems by (simp del: decoded_at.simps)
    ultimately show ?case using Suc by (metis (no_types, lifting) Suc_leD rtranclp.rtrancl_into_rtrancl)
  qed
  let ?n = "length (q Quote_A)" and ?q = "decoded_at (q Quote_A) Show"
  have e: "decoded_at (q Quote_A) (Shift ?n) = ?q" by simp
  have 1: "skeleton_step (?at (Shift ?n) []) (?at Show [])"
    using skeleton_shifted [of "?at (Shift ?n) []" Quote_A ?n] by (simp add: nth_append)
  have 2: "skeleton_step (?at Show []) (?at Over [(Quote_B, printed (q Quote_B @ [NUL]))])"
    using skeleton_show [of "?at Show []" Quote_A] by simp
  have "printed (q Quote_B @ [NUL]) = q Quote_B" using assms by (simp add: printed_def)
  then show ?thesis using shift [of ?n] 1 2
    by (intro exI [of _ "?at Over [(Quote_B, q Quote_B)]"]) (auto intro: rtranclp.rtrancl_into_rtrancl)
qed

theorem skeleton_prints_undecoded_witness:
  "\<exists>s. skeleton_step\<^sup>*\<^sup>* (meet_start (\<lambda>_. ''b'')) s \<and> shown s = [(Quote_B, ''b'')]"
  using skeleton_prints_undecoded [of "\<lambda>_. ''b''"] by (simp add: NUL_def)

end
