(* ===== verification/Dd.thy ===== *)
theory Dd
  imports Prelude
begin

text \<open>
  \<open>deepfried_dd/dd.c\<close>: copying a file in blocks.

  \<open>getopt\<close> hands out the options with their arguments, here already split; \<open>fopen\<close> is the parameter \<open>opens\<close>, the
  content of a file that can be opened. A stream is its bytes with a position; one that is not seekable ignores
  \<open>fseek\<close>. \<open>fread\<close> returns a full block unless the input ends; the output takes what it has \<open>room\<close> for. The
  elapsed time is left out.
\<close>

datatype dd_option = Opt_i string | Opt_o string | Opt_b int | Opt_c int | Opt_p int | Opt_k int | Opt_bad

record dd_setup =
  dd_in :: "char list"
  in_seekable :: bool
  dd_out :: "string option"
  out_seekable :: bool
  block_bytes :: int
  total_blocks :: int
  skip_input :: int
  skip_output :: int

record dd_report =
  full_blocks_in :: nat
  partial_blocks_in :: nat
  full_blocks_out :: nat
  partial_blocks_out :: nat
  total_bytes_copied :: nat

text \<open>The defaults: standard input, standard output, 512 bytes, every block, nothing skipped.\<close>

definition dd_defaults :: "char list \<Rightarrow> dd_setup" where
  "dd_defaults stdin = \<lparr>dd_in = stdin, in_seekable = False, dd_out = None, out_seekable = False, block_bytes = 512,
     total_blocks = -1, skip_input = 0, skip_output = 0\<rparr>"

fun dd_options :: "(string \<Rightarrow> char list option) \<Rightarrow> (string \<Rightarrow> bool) \<Rightarrow> dd_option list \<Rightarrow> dd_setup \<Rightarrow> dd_setup option" where
  "dd_options opens creates [] s = Some s"
| "dd_options opens creates (Opt_i f # os) s =
     (case opens f of None \<Rightarrow> None | Some bytes \<Rightarrow> dd_options opens creates os (s\<lparr>dd_in := bytes, in_seekable := True\<rparr>))"
| "dd_options opens creates (Opt_o f # os) s =
     (if creates f then dd_options opens creates os (s\<lparr>dd_out := Some f, out_seekable := True\<rparr>) else None)"
| "dd_options opens creates (Opt_b n # os) s = dd_options opens creates os (s\<lparr>block_bytes := n\<rparr>)"
| "dd_options opens creates (Opt_c n # os) s = dd_options opens creates os (s\<lparr>total_blocks := n\<rparr>)"
| "dd_options opens creates (Opt_p n # os) s = dd_options opens creates os (s\<lparr>skip_input := n\<rparr>)"
| "dd_options opens creates (Opt_k n # os) s = dd_options opens creates os (s\<lparr>skip_output := n\<rparr>)"
| "dd_options opens creates (Opt_bad # os) s = None"

text \<open>The loop, with the input still to be read, the bytes written and the room left. \<open>n\<close> is \<open>total_blocks\<close>.\<close>

function dd_copy :: "nat \<Rightarrow> int \<Rightarrow> char list \<Rightarrow> char list \<Rightarrow> nat \<Rightarrow> dd_report \<Rightarrow> char list \<times> dd_report" where
  "dd_copy bs n input output room rep =
     (if n = 0 then (output, rep)
      else
        let buffer = take bs input; byte_read = length buffer in
        if byte_read = 0 then (output, rep)
        else
          let n = (if n > 0 then n - 1 else n);
              rep = (if byte_read = bs then rep\<lparr>full_blocks_in := full_blocks_in rep + 1\<rparr>
                     else rep\<lparr>partial_blocks_in := partial_blocks_in rep + 1\<rparr>);
              byte_written = min byte_read room;
              rep = (if byte_written = bs then rep\<lparr>full_blocks_out := full_blocks_out rep + 1\<rparr>
                     else rep\<lparr>partial_blocks_out := partial_blocks_out rep + 1\<rparr>);
              rep = rep\<lparr>total_bytes_copied := total_bytes_copied rep + byte_written\<rparr> in
          dd_copy bs n (drop bs input) (output @ take byte_written buffer) (room - byte_written) rep)"
  by pat_completeness auto
termination by (relation "measure (\<lambda>(bs, n, input, output, room, rep). length input)") auto

declare dd_copy.simps [simp del]

text \<open>The file that results: a hole of zeros up to the place of the first write. The exit status, the bytes of
  the output, the report. A negative size makes \<open>malloc\<close> fail, and \<open>fread\<close> stores through the null pointer.\<close>

definition dd_main :: "(string \<Rightarrow> char list option) \<Rightarrow> (string \<Rightarrow> bool) \<Rightarrow> char list \<Rightarrow> nat \<Rightarrow> dd_option list \<Rightarrow>
    (int \<times> char list \<times> dd_report) outcome" where
  "dd_main opens creates stdin room options =
     (let none = \<lparr>full_blocks_in = 0, partial_blocks_in = 0, full_blocks_out = 0, partial_blocks_out = 0, total_bytes_copied = 0\<rparr> in
      case dd_options opens creates options (dd_defaults stdin) of
        None \<Rightarrow> Inr (1, [], none)
      | Some s \<Rightarrow>
          let bs = nat (block_bytes s);
              input = (if skip_input s > 0 \<and> in_seekable s then drop (nat (skip_input s) * bs) (dd_in s) else dd_in s);
              hole = (if skip_output s > 0 \<and> out_seekable s then nat (skip_output s) * bs else 0) in
          if block_bytes s < 0 then (if total_blocks s = 0 \<or> dd_in s = [] then Inr (0, [], none) else Inl Null_deref)
          else
            let (written, rep) = dd_copy bs (total_blocks s) input [] room none in
            Inr (0, (if written = [] then [] else replicate hole (CHR 0x00) @ written), rep))"

section \<open>What is copied\<close>

definition dd_data :: "nat \<Rightarrow> int \<Rightarrow> char list \<Rightarrow> char list" where
  "dd_data bs n input = (if n < 0 then input else take (nat n * bs) input)"

lemma dd_data_step:
  assumes "0 < bs" "n \<noteq> 0"
  shows "dd_data bs n input = take bs input @ dd_data bs (if n > 0 then n - 1 else n) (drop bs input)"
proof (cases "n > 0")
  case True
  then obtain m where "nat n = Suc m" by (metis not0_implies_Suc zero_less_nat_eq less_numeral_extra(3))
  then have "nat (n - 1) = m" "take (nat n * bs) input = take bs input @ take (m * bs) (drop bs input)"
    using take_add [of bs "m * bs" input] by (simp_all add: nat_diff_distrib')
  then show ?thesis using True by (simp add: dd_data_def)
qed (use assms in \<open>simp add: dd_data_def\<close>)

text \<open>The blocks of \<open>k\<close> bytes: the full ones, and whether one is left.\<close>

lemma blocks_step:
  assumes "0 < bs" "bs \<le> k"
  shows "k div bs = Suc ((k - bs) div bs)" "k mod bs = (k - bs) mod bs"
  using assms by (simp_all add: le_div_geq le_mod_geq)

lemma dd_copy_ok:
  "0 < bs \<Longrightarrow> length (dd_data bs n input) \<le> room \<Longrightarrow>
   dd_copy bs n input output room rep = (output @ dd_data bs n input,
     let k = length (dd_data bs n input); part = (if k mod bs = 0 then 0 else 1) in
     rep\<lparr>full_blocks_in := full_blocks_in rep + k div bs, partial_blocks_in := partial_blocks_in rep + part,
       full_blocks_out := full_blocks_out rep + k div bs, partial_blocks_out := partial_blocks_out rep + part,
       total_bytes_copied := total_bytes_copied rep + k\<rparr>)"
proof (induction bs n "input" "output" room rep rule: dd_copy.induct)
  case (1 bs n inp out room rep)
  show ?case
  proof (cases "n = 0 \<or> inp = []")
    case True
    then show ?thesis using 1(2) by (subst dd_copy.simps) (auto simp: dd_data_def)
  next
    case False
    define m where "m = (if n > 0 then n - 1 else n)"
    let ?w = "min (length (take bs inp)) room"
    have ne: "n \<noteq> 0" "length (take bs inp) \<noteq> 0" using False 1(2) by auto
    have d: "dd_data bs n inp = take bs inp @ dd_data bs m (drop bs inp)" unfolding m_def by (rule dd_data_step [OF 1(2) ne(1)])
    have w: "?w = length (take bs inp)" "length (dd_data bs m (drop bs inp)) \<le> room - ?w" using 1(3) d by auto
    note IH = 1(1) [OF ne(1) refl refl ne(2) refl refl refl refl refl 1(2), folded m_def, OF w(2)]
    show ?thesis
    proof (cases "length inp < bs")
      case True
      then have "drop bs inp = []" "take bs inp = inp" by simp_all
      moreover have "dd_data bs m [] = []" by (simp add: dd_data_def)
      ultimately show ?thesis using IH d w ne True False
        by (subst dd_copy.simps) (simp add: Let_def m_def [symmetric])
    next
      case False
      then have t: "length (take bs inp) = bs" by simp
      have "length (dd_data bs n inp) = bs + length (dd_data bs m (drop bs inp))" using d t by (metis length_append)
      then have k: "length (dd_data bs n inp) - bs = length (dd_data bs m (drop bs inp))" "bs \<le> length (dd_data bs n inp)" by simp_all
      show ?thesis using IH d w(1) ne(1) t 1(2) blocks_step [OF 1(2) k(2)] k(1)
          \<open>\<not> (n = 0 \<or> inp = [])\<close>
        by (subst dd_copy.simps) (simp add: Let_def m_def [symmetric])
    qed
  qed
qed


text \<open>\<open>dd\<close> copies the part of the input that its options name. With a positive block size and room for the
  result, it ends with status 0, writes the hole of the skipped output blocks and then exactly the input from
  the skipped blocks on, as many blocks as asked for or all of it, and reports the full blocks, a partial last
  block if there is one, and the number of bytes, the same for input and output.\<close>

theorem dd_copies:
  assumes "dd_options opens creates options (dd_defaults stdin) = Some s" "0 < block_bytes s"
    and "bs = nat (block_bytes s)"
    and "data = dd_data bs (total_blocks s) (if skip_input s > 0 \<and> in_seekable s then drop (nat (skip_input s) * bs) (dd_in s) else dd_in s)"
    and "length data \<le> room"
  shows "dd_main opens creates stdin room options = Inr (0,
     (if data = [] then [] else replicate (if skip_output s > 0 \<and> out_seekable s then nat (skip_output s) * bs else 0) (CHR 0x00) @ data),
     let part = (if length data mod bs = 0 then 0 else 1) in
     \<lparr>full_blocks_in = length data div bs, partial_blocks_in = part, full_blocks_out = length data div bs,
       partial_blocks_out = part, total_bytes_copied = length data\<rparr>)"
proof -
  have bs: "0 < bs" "\<not> block_bytes s < 0" using assms(2,3) by auto
  show ?thesis
    using dd_copy_ok [OF bs(1), of "total_blocks s" _ room "[]"] assms(5) bs(2)
    unfolding dd_main_def assms(1) Let_def option.case assms(3) [symmetric] assms(4) by simp
qed

theorem dd_copies_witness:
  "dd_main (\<lambda>f. Some ''abcdefgh'') (\<lambda>f. True) [] 100 [Opt_i ''x'', Opt_b 3, Opt_p 1, Opt_k 1, Opt_o ''y''] =
     Inr (0, [CHR 0x00, CHR 0x00, CHR 0x00] @ ''defgh'', \<lparr>full_blocks_in = 1, partial_blocks_in = 1, full_blocks_out = 1,
       partial_blocks_out = 1, total_bytes_copied = 5\<rparr>)"
proof -
  let ?s = "\<lparr>dd_in = ''abcdefgh'', in_seekable = True, dd_out = Some ''y'', out_seekable = True, block_bytes = 3,
     total_blocks = -1, skip_input = 1, skip_output = 1\<rparr>"
  have o: "dd_options (\<lambda>f. Some ''abcdefgh'') (\<lambda>f. True) [Opt_i ''x'', Opt_b 3, Opt_p 1, Opt_k 1, Opt_o ''y''] (dd_defaults []) = Some ?s"
    by (simp add: dd_defaults_def)
  have r: "replicate 3 (CHR 0x00) = [CHR 0x00, CHR 0x00, CHR 0x00]" by (simp add: numeral_3_eq_3)
  show ?thesis using dd_copies [OF o _ refl refl, where room = 100] r by (simp add: dd_data_def)
qed

end
