(* ===== verification/Cracker1.thy ===== *)
theory Cracker1
  imports Interfaces
begin

text \<open>
  \<open>password_cracker/cracker1.c\<close>: threads that take users from a queue and search for their passwords.

  The helpers on candidate strings and \<open>crypt_r\<close> are not in the repository: the parameter \<open>lib\<close>. A password is
  a known prefix and a tail of unknown letters; \<open>incrementString\<close> gives the next tail, or nothing after the
  last. \<open>fuel\<close> bounds the loop of \<open>crack\<close>, which is over when the tails are.
\<close>

record crack_lib =
  getPrefixLength :: "string \<Rightarrow> nat"
  setStringPosition :: "string \<Rightarrow> nat \<Rightarrow> string"
  incrementString :: "string \<Rightarrow> string option"
  crypt_r :: "string \<Rightarrow> string"

fun crack_loop :: "crack_lib \<Rightarrow> nat \<Rightarrow> string \<Rightarrow> string \<Rightarrow> string \<Rightarrow> nat \<Rightarrow> (string option \<times> nat) outcome" where
  "crack_loop lib 0 hash prefix tmp hash_count = Inl Diverges"
| "crack_loop lib (Suc n) hash prefix tmp hash_count =
     (if crypt_r lib (prefix @ tmp) = hash then Inr (Some (prefix @ tmp), hash_count + 1)
      else
        case incrementString lib tmp of
          None \<Rightarrow> Inr (None, hash_count + 1)
        | Some tmp \<Rightarrow> crack_loop lib n hash prefix tmp (hash_count + 1))"

definition crack :: "crack_lib \<Rightarrow> nat \<Rightarrow> string \<Rightarrow> string \<Rightarrow> (string option \<times> nat) outcome" where
  "crack lib fuel hash password =
     (let k = getPrefixLength lib password in
      crack_loop lib fuel hash (take k password) (setStringPosition lib (drop k password) 0) 0)"

record crack_job =
  username :: string
  user_hash :: string
  user_password :: string

text \<open>A thread waits at the queue, is busy with a user, or has stopped, with its numbers of successes and failures.\<close>

datatype crack_pc = Idle nat nat | Busy crack_job nat nat | Stopped nat nat

record crack_sys =
  crack_queue :: "crack_job option list"
  crackers :: "crack_pc list"

inductive cracker_step :: "crack_lib \<Rightarrow> crack_sys \<Rightarrow> crack_sys \<Rightarrow> bool" for lib :: crack_lib where
  take_job: "i < length (crackers s) \<Longrightarrow> crackers s ! i = Idle ok bad \<Longrightarrow> crack_queue s = Some d # q \<Longrightarrow>
    cracker_step lib s (s\<lparr>crack_queue := q, crackers := (crackers s)[i := Busy d ok bad]\<rparr>)"
| take_stop: "i < length (crackers s) \<Longrightarrow> crackers s ! i = Idle ok bad \<Longrightarrow> crack_queue s = None # q \<Longrightarrow>
    cracker_step lib s (s\<lparr>crack_queue := q, crackers := (crackers s)[i := Stopped ok bad]\<rparr>)"
| cracked: "i < length (crackers s) \<Longrightarrow> crackers s ! i = Busy d ok bad \<Longrightarrow>
    crack lib fuel (user_hash d) (user_password d) = Inr (Some pw, n) \<Longrightarrow>
    cracker_step lib s (s\<lparr>crackers := (crackers s)[i := Idle (ok + 1) bad]\<rparr>)"
| gave_up: "i < length (crackers s) \<Longrightarrow> crackers s ! i = Busy d ok bad \<Longrightarrow>
    crack lib fuel (user_hash d) (user_password d) = Inr (None, n) \<Longrightarrow>
    cracker_step lib s (s\<lparr>crackers := (crackers s)[i := Idle ok (bad + 1)]\<rparr>)"

definition crack_start :: "crack_job list \<Rightarrow> nat \<Rightarrow> crack_sys" where
  "crack_start users thread_count =
     \<lparr>crack_queue = map Some users @ replicate thread_count None, crackers = replicate thread_count (Idle 0 0)\<rparr>"

text \<open>The sums over the threads that \<open>start\<close> prints at the end.\<close>

fun successes :: "crack_pc \<Rightarrow> nat" where
  "successes (Idle ok bad) = ok" | "successes (Busy d ok bad) = ok" | "successes (Stopped ok bad) = ok"

fun failures :: "crack_pc \<Rightarrow> nat" where
  "failures (Idle ok bad) = bad" | "failures (Busy d ok bad) = bad" | "failures (Stopped ok bad) = bad"

definition crack_summary :: "crack_sys \<Rightarrow> nat \<times> nat" where
  "crack_summary s = (sum_list (map successes (crackers s)), sum_list (map failures (crackers s)))"

section \<open>The search\<close>

text \<open>What the helpers promise of a tail: its candidates are \<open>sp 0\<close> to \<open>sp (N - 1)\<close>, in this order.\<close>

definition tails :: "crack_lib \<Rightarrow> string \<Rightarrow> nat \<Rightarrow> (nat \<Rightarrow> string) \<Rightarrow> bool" where
  "tails lib tmp N sp \<longleftrightarrow> 0 < N \<and> (\<forall>k < N. setStringPosition lib tmp k = sp k \<and>
     incrementString lib (sp k) = (if Suc k < N then Some (sp (Suc k)) else None))"

lemma crack_loop_finds:
  assumes "tails lib tmp N sp" "i + m = N" "0 < m" "m \<le> fuel"
  shows "crack_loop lib fuel hash prefix (sp i) c =
    (case find (\<lambda>k. crypt_r lib (prefix @ sp k) = hash) [i..<N] of
       Some k \<Rightarrow> Inr (Some (prefix @ sp k), c + (k - i) + 1) | None \<Rightarrow> Inr (None, c + m))"
  using assms(2-4)
proof (induction m arbitrary: i fuel c)
  case (Suc m)
  obtain n where fuel: "fuel = Suc n" "m \<le> n" using Suc.prems(3) by (cases fuel) auto
  have i: "i < N" using Suc.prems(1) by simp
  have inc: "incrementString lib (sp i) = (if Suc i < N then Some (sp (Suc i)) else None)" using assms(1) i by (simp add: tails_def)
  have u: "[i..<N] = i # [Suc i..<N]" using i by (rule upt_conv_Cons)
  show ?case
  proof (cases "crypt_r lib (prefix @ sp i) = hash \<or> m = 0")
    case True
    then show ?thesis using fuel inc u Suc.prems(1) by auto
  next
    case False
    let ?f = "find (\<lambda>k. crypt_r lib (prefix @ sp k) = hash) [Suc i..<N]"
    have "crack_loop lib n hash prefix (sp (Suc i)) (c + 1) =
        (case ?f of Some k \<Rightarrow> Inr (Some (prefix @ sp k), c + 1 + (k - Suc i) + 1) | None \<Rightarrow> Inr (None, c + 1 + m))"
      using Suc.IH [of "Suc i" n "c + 1"] Suc.prems(1) False fuel(2) by simp
    moreover have "Suc i \<le> k" if "?f = Some k" for k using that by (auto simp: find_Some_iff)
    moreover have "Suc i < N" using False Suc.prems(1) by simp
    ultimately show ?thesis using False fuel inc u by (auto split: option.split)
  qed
qed simp

text \<open>\<open>crack\<close> finds the first candidate with the hash, after as many hashes as there are candidates up to
  it, and gives up exactly when no candidate has it, after all of them.\<close>

theorem crack_finds:
  assumes "k = getPrefixLength lib pw" "tails lib (drop k pw) N sp" "N \<le> fuel"
  shows "crack lib fuel hash pw =
    (case find (\<lambda>i. crypt_r lib (take k pw @ sp i) = hash) [0..<N] of
       Some i \<Rightarrow> Inr (Some (take k pw @ sp i), i + 1) | None \<Rightarrow> Inr (None, N))"
proof -
  have "0 < N" "setStringPosition lib (drop k pw) 0 = sp 0" using assms(2) by (auto simp: tails_def)
  then show ?thesis using crack_loop_finds [OF assms(2), of 0 N fuel hash "take k pw" 0] assms(1,3)
    by (simp add: crack_def Let_def split: option.split)
qed

text \<open>Tails of one letter, and the identity as a hash.\<close>

definition letter_lib :: crack_lib where
  "letter_lib = \<lparr>getPrefixLength = (\<lambda>pw. length (takeWhile (\<lambda>c. c \<noteq> CHR ''.'') pw)), setStringPosition = (\<lambda>tmp k. [''abc'' ! k]),
     incrementString = (\<lambda>tmp. if tmp = ''a'' then Some ''b'' else if tmp = ''b'' then Some ''c'' else None), crypt_r = (\<lambda>pw. pw)\<rparr>"

lemma letter_tails: "tails letter_lib tmp 3 (\<lambda>k. [''abc'' ! k])"
  by (auto simp: tails_def letter_lib_def less_Suc_eq numeral_3_eq_3)

theorem crack_finds_witness:
  "crack letter_lib 3 ''xb'' ''x.'' = Inr (Some ''xb'', 2) \<and> crack letter_lib 3 ''xz'' ''x.'' = Inr (None, 3)"
  using crack_finds [OF refl letter_tails, where pw = "''x.''" and fuel = 3 and hash = "''xb''"]
    crack_finds [OF refl letter_tails, where pw = "''x.''" and fuel = 3 and hash = "''xz''"]
  by (simp add: letter_lib_def upt_rec)

section \<open>The threads\<close>

text \<open>Whether a user can be cracked; \<open>crack\<close> returns the same for all fuel that is enough.\<close>

definition outcome_of :: "crack_lib \<Rightarrow> crack_job \<Rightarrow> string option \<Rightarrow> bool" where
  "outcome_of lib d r \<longleftrightarrow> (\<exists>fuel n. crack lib fuel (user_hash d) (user_password d) = Inr (r, n))"

lemma crack_loop_more: "crack_loop lib n hash prefix tmp c = Inr x \<Longrightarrow> n \<le> m \<Longrightarrow> crack_loop lib m hash prefix tmp c = Inr x"
proof (induction n arbitrary: m tmp c)
  case (Suc n)
  then show ?case by (cases m) (auto split: if_split_asm option.split option.split_asm)
qed simp

lemma outcome_unique: "outcome_of lib d r \<Longrightarrow> outcome_of lib d r' \<Longrightarrow> r = r'"
proof -
  assume "outcome_of lib d r" "outcome_of lib d r'"
  then obtain f n f' n' where "crack lib f (user_hash d) (user_password d) = Inr (r, n)"
      "crack lib f' (user_hash d) (user_password d) = Inr (r', n')" unfolding outcome_of_def by blast
  then have "crack lib (max f f') (user_hash d) (user_password d) = Inr (r, n)" "crack lib (max f f') (user_hash d) (user_password d) = Inr (r', n')"
    unfolding crack_def Let_def using crack_loop_more max.cobounded1 max.cobounded2 by metis+
  then show ?thesis by simp
qed

definition crackable :: "crack_lib \<Rightarrow> crack_job \<Rightarrow> bool" where
  "crackable lib d \<longleftrightarrow> (\<exists>pw. outcome_of lib d (Some pw))"

fun held_jobs :: "crack_pc \<Rightarrow> crack_job list" where
  "held_jobs (Busy d ok bad) = [d]"
| "held_jobs _ = []"

fun stopped :: "crack_pc \<Rightarrow> bool" where
  "stopped (Stopped ok bad) \<longleftrightarrow> True"
| "stopped _ \<longleftrightarrow> False"

definition over :: "('a \<Rightarrow> nat) \<Rightarrow> 'a list \<Rightarrow> nat" where
  "over f ps = (\<Sum>p\<leftarrow>ps. f p)"

definition held_number :: "(crack_job \<Rightarrow> bool) \<Rightarrow> crack_pc \<Rightarrow> nat" where
  "held_number P p = length (filter P (held_jobs p))"

definition running :: "crack_pc \<Rightarrow> nat" where
  "running p = (if stopped p then 0 else 1)"

definition crack_inv :: "crack_lib \<Rightarrow> crack_job list \<Rightarrow> crack_job list \<Rightarrow> crack_job option list \<Rightarrow> crack_pc list \<Rightarrow> bool" where
  "crack_inv lib users js q ps \<longleftrightarrow> q = map Some js @ replicate (over running ps) None \<and>
     over successes ps + length (filter (crackable lib) js) + over (held_number (crackable lib)) ps = length (filter (crackable lib) users) \<and>
     over failures ps + length (filter (\<lambda>d. \<not> crackable lib d) js) + over (held_number (\<lambda>d. \<not> crackable lib d)) ps =
       length (filter (\<lambda>d. \<not> crackable lib d) users) \<and>
     set js \<subseteq> set users \<and> (\<forall>p \<in> set ps. set (held_jobs p) \<subseteq> set users) \<and> (js \<noteq> [] \<longrightarrow> (\<forall>p \<in> set ps. \<not> stopped p))"

lemma over_at: "i < length ps \<Longrightarrow> ps ! i = p \<Longrightarrow> over f (ps[i := p']) + f p = over f ps + f p'"
  using sum_list_at [of i ps f p'] by (simp only: over_def)

lemma crackable_outcome: "crack lib fuel (user_hash d) (user_password d) = Inr (r, n) \<Longrightarrow> crackable lib d \<longleftrightarrow> r \<noteq> None"
proof -
  assume "crack lib fuel (user_hash d) (user_password d) = Inr (r, n)"
  then have r: "outcome_of lib d r" unfolding outcome_of_def by blast
  show ?thesis
  proof (cases r)
    case None
    then show ?thesis using r outcome_unique [of lib d None] unfolding crackable_def by blast
  next
    case (Some pw)
    then show ?thesis using r unfolding crackable_def by blast
  qed
qed

text \<open>A thread goes from \<open>p\<close> to \<open>p'\<close> while the jobs left change from \<open>js\<close> to \<open>js'\<close>.\<close>

lemma crack_inv_move:
  assumes inv: "crack_inv lib users js q ps" and i: "i < length ps" "ps ! i = p"
    and q: "q' = map Some js' @ replicate (over running ps - running p + running p') None" and sub: "set js' \<subseteq> set users" "set (held_jobs p') \<subseteq> set users"
    and ok: "successes p' + length (filter (crackable lib) js') + held_number (crackable lib) p' =
      successes p + length (filter (crackable lib) js) + held_number (crackable lib) p"
    and bad: "failures p' + length (filter (\<lambda>d. \<not> crackable lib d) js') + held_number (\<lambda>d. \<not> crackable lib d) p' =
      failures p + length (filter (\<lambda>d. \<not> crackable lib d) js) + held_number (\<lambda>d. \<not> crackable lib d) p"
    and st: "js' \<noteq> [] \<Longrightarrow> js \<noteq> [] \<and> \<not> stopped p'"
  shows "crack_inv lib users js' q' (ps[i := p'])"
proof -
  have o: "over f (ps[i := p']) + f p = over f ps + f p'" for f by (rule over_at [OF i])
  have r: "over running (ps[i := p']) = over running ps - running p + running p'"
    using o [of running] i elem_le_sum_list [of i "map running ps"] by (simp add: over_def)
  note old = inv [unfolded crack_inv_def]
  have "over successes (ps[i := p']) + length (filter (crackable lib) js') + over (held_number (crackable lib)) (ps[i := p']) = length (filter (crackable lib) users)"
    using o [of successes] o [of "held_number (crackable lib)"] ok old by linarith
  moreover have "over failures (ps[i := p']) + length (filter (\<lambda>d. \<not> crackable lib d) js') + over (held_number (\<lambda>d. \<not> crackable lib d)) (ps[i := p']) =
      length (filter (\<lambda>d. \<not> crackable lib d) users)"
    using o [of failures] o [of "held_number (\<lambda>d. \<not> crackable lib d)"] bad old by linarith
  moreover have "\<forall>p \<in> set (ps[i := p']). set (held_jobs p) \<subseteq> set users"
    using old sub(2) set_update_subset_insert [of ps i p'] by blast
  moreover have "js' \<noteq> [] \<longrightarrow> (\<forall>p \<in> set (ps[i := p']). \<not> stopped p)"
    using old st set_update_subset_insert [of ps i p'] by blast
  ultimately show ?thesis unfolding crack_inv_def r using q sub(1) by blast
qed

lemma crack_inv_step:
  assumes inv: "crack_inv lib users js (crack_queue s) (crackers s)" and step: "cracker_step lib s s'"
  shows "\<exists>js. crack_inv lib users js (crack_queue s') (crackers s')"
proof -
  note old = inv [unfolded crack_inv_def]
  have pos: "0 < over running (crackers s)" if "i < length (crackers s)" "\<not> stopped (crackers s ! i)" for i
  proof -
    have "running (crackers s ! i) \<le> over running (crackers s)"
      using elem_le_sum_list [of i "map running (crackers s)"] that(1) by (simp add: over_def)
    moreover have "running (crackers s ! i) = 1" using that(2) by (simp add: running_def)
    ultimately show ?thesis by simp
  qed
  have held: "d \<in> set users" if "i < length (crackers s)" "crackers s ! i = Busy d ok bad" for i d ok bad
    using old nth_mem [OF that(1)] that(2) by auto
  show ?thesis
    using step
  proof cases
    case (take_job i ok bad d q)
    obtain js' where q: "js = d # js'" "q = map Some js' @ replicate (over running (crackers s)) None"
      using old take_job(4) by (cases js; cases "over running (crackers s)") auto
    have "crack_inv lib users js' q ((crackers s)[i := Busy d ok bad])"
      by (rule crack_inv_move [OF inv take_job(2,3)]) (use q old pos [OF take_job(2)] take_job(3) in \<open>auto simp: held_number_def running_def\<close>)
    then show ?thesis unfolding take_job(1) by auto
  next
    case (take_stop i ok bad q)
    have q: "js = []" "q = replicate (over running (crackers s) - 1) None"
      using old take_stop(4) by (cases js; cases "over running (crackers s)"; simp)+
    have "crack_inv lib users [] q ((crackers s)[i := Stopped ok bad])"
      by (rule crack_inv_move [OF inv take_stop(2,3)]) (use q in \<open>auto simp: held_number_def running_def\<close>)
    then show ?thesis unfolding take_stop(1) by auto
  next
    case (cracked i d ok bad fuel pw n)
    have "crackable lib d" using crackable_outcome [OF cracked(4)] by simp
    then have "crack_inv lib users js (crack_queue s) ((crackers s)[i := Idle (ok + 1) bad])"
      by (intro crack_inv_move [OF inv cracked(2,3)]) (use old pos [OF cracked(2)] cracked(3) in \<open>auto simp: held_number_def running_def\<close>)
    then show ?thesis unfolding cracked(1) by auto
  next
    case (gave_up i d ok bad fuel n)
    have "\<not> crackable lib d" using crackable_outcome [OF gave_up(4)] by simp
    then have "crack_inv lib users js (crack_queue s) ((crackers s)[i := Idle ok (bad + 1)])"
      by (intro crack_inv_move [OF inv gave_up(2,3)]) (use old pos [OF gave_up(2)] gave_up(3) in \<open>auto simp: held_number_def running_def\<close>)
    then show ?thesis unfolding gave_up(1) by auto
  qed
qed


fun thread_work :: "crack_pc \<Rightarrow> nat" where
  "thread_work (Idle ok bad) = 1"
| "thread_work (Busy d ok bad) = 2"
| "thread_work (Stopped ok bad) = 0"

definition crack_work :: "crack_sys \<Rightarrow> nat" where
  "crack_work s = 2 * length (filter (\<lambda>j. j \<noteq> None) (crack_queue s)) + over thread_work (crackers s)"

lemma cracker_step_work: "cracker_step lib s s' \<Longrightarrow> crack_work s' < crack_work s"
proof (induction rule: cracker_step.induct)
  case (take_job i s ok bad d q)
  then show ?case using over_at [OF take_job(1,2), of thread_work "Busy d ok bad"] by (simp add: crack_work_def)
next
  case (take_stop i s ok bad q)
  then show ?case using over_at [OF take_stop(1,2), of thread_work "Stopped ok bad"] by (simp add: crack_work_def)
next
  case (cracked i s d ok bad fuel pw n)
  then show ?case using over_at [OF cracked(1,2), of thread_work "Idle (ok + 1) bad"] by (simp add: crack_work_def)
next
  case (gave_up i s d ok bad fuel n)
  then show ?case using over_at [OF gave_up(1,2), of thread_work "Idle ok (bad + 1)"] by (simp add: crack_work_def)
qed

lemma cracker_steps:
  assumes "(cracker_step lib ^^ k) s t" "crack_inv lib users js (crack_queue s) (crackers s)"
  shows "k + crack_work t \<le> crack_work s \<and> length (crackers t) = length (crackers s) \<and> (\<exists>js. crack_inv lib users js (crack_queue t) (crackers t))"
  using assms(1)
proof (induction k arbitrary: t)
  case (Suc k)
  then obtain u where u: "(cracker_step lib ^^ k) s u" "cracker_step lib u t" by auto
  have "length (crackers t) = length (crackers u)" using u(2) by cases auto
  moreover from Suc.IH [OF u(1)] obtain js' where "crack_inv lib users js' (crack_queue u) (crackers u)" by blast
  then have "\<exists>js. crack_inv lib users js (crack_queue t) (crackers t)" using crack_inv_step u(2) by blast
  ultimately show ?case using Suc.IH [OF u(1)] cracker_step_work [OF u(2)] by auto
qed (use assms(2) in auto)

lemma crack_start_inv: "crack_inv lib users users (crack_queue (crack_start users n)) (crackers (crack_start users n))"
proof -
  have "over running (replicate n (Idle 0 0)) = n" "over (held_number P) (replicate n (Idle 0 0)) = 0"
    "over successes (replicate n (Idle 0 0)) = 0" "over failures (replicate n (Idle 0 0)) = 0" for P
    by (induction n) (simp_all add: over_def running_def held_number_def)
  then show ?thesis by (simp add: crack_inv_def crack_start_def)
qed

text \<open>The summary is right. When the search for every user returns, no run of the threads is longer than
  two steps for each user and one for each thread; it can only stop when every thread has stopped; and then
  the sums printed are the number of users whose password has a candidate with their hash, and of the others,
  whichever thread took which user.\<close>

theorem crack_summary_right:
  assumes "\<forall>d \<in> set users. \<exists>r. outcome_of lib d r" "0 < n" "(cracker_step lib ^^ k) (crack_start users n) s"
  shows "k \<le> 2 * length users + n \<and> ((\<exists>s'. cracker_step lib s s') \<or>
    (\<forall>p \<in> set (crackers s). stopped p) \<and>
    crack_summary s = (length (filter (crackable lib) users), length (filter (\<lambda>d. \<not> crackable lib d) users)))"
proof -
  obtain js where inv: "crack_inv lib users js (crack_queue s) (crackers s)" and len: "length (crackers s) = n"
    and k: "k + crack_work s \<le> crack_work (crack_start users n)"
    using cracker_steps [OF assms(3) crack_start_inv] by (auto simp: crack_start_def)
  have "over thread_work (replicate n (Idle 0 0)) = n" by (induction n) (simp_all add: over_def)
  then have "crack_work (crack_start users n) = 2 * length users + n" by (simp add: crack_work_def crack_start_def filter_map comp_def)
  moreover have "(\<forall>p \<in> set (crackers s). stopped p) \<and>
      crack_summary s = (length (filter (crackable lib) users), length (filter (\<lambda>d. \<not> crackable lib d) users))"
    if stuck: "\<not> (\<exists>s'. cracker_step lib s s')"
  proof -
    note old = inv [unfolded crack_inv_def]
    have st: "stopped (crackers s ! i)" if i: "i < length (crackers s)" for i
    proof (cases "crackers s ! i")
      case (Idle ok bad)
      have "running (crackers s ! i) \<le> over running (crackers s)"
        using elem_le_sum_list [of i "map running (crackers s)"] i by (simp add: over_def)
      then have "0 < over running (crackers s)" using Idle by (simp add: running_def)
      then have "crack_queue s \<noteq> []" using old by simp
      then obtain j q where "crack_queue s = j # q" by (meson list.exhaust)
      then show ?thesis using stuck Idle i cracker_step.take_job cracker_step.take_stop by (cases j) blast+
    next
      case (Busy d ok bad)
      then have "d \<in> set users" using old nth_mem [OF i] by auto
      then obtain fuel r m where "crack lib fuel (user_hash d) (user_password d) = Inr (r, m)"
        using assms(1) unfolding outcome_of_def by blast
      then show ?thesis using stuck Busy i cracker_step.cracked cracker_step.gave_up by (cases r) blast+
    qed simp
    then have all: "\<forall>p \<in> set (crackers s). stopped p" by (metis in_set_conv_nth)
    have "held_jobs p = []" if "stopped p" for p using that by (cases p) auto
    then have "over (held_number P) (crackers s) = 0" for P using all by (simp add: over_def held_number_def)
    moreover have "js = []" using old all len assms(2) by (metis length_greater_0_conv list.set_sel(1))
    ultimately have "over successes (crackers s) = length (filter (crackable lib) users)"
      "over failures (crackers s) = length (filter (\<lambda>d. \<not> crackable lib d) users)" using old by simp_all
    then show ?thesis using all by (simp add: crack_summary_def over_def)
  qed
  ultimately show ?thesis using k by auto
qed

theorem crack_summary_right_witness:
  "\<exists>s. (cracker_step letter_lib ^^ 1) (crack_start [\<lparr>username = ''u'', user_hash = ''xb'', user_password = ''x.''\<rparr>] 1) s \<and> (1 :: nat) \<le> 2 * 1 + 1"
proof -
  let ?d = "\<lparr>username = ''u'', user_hash = ''xb'', user_password = ''x.''\<rparr>"
  let ?s = "crack_start [?d] 1"
  have "crack letter_lib 3 ''xb'' ''x.'' = Inr (Some ''xb'', 2)" by (simp add: crack_def letter_lib_def Let_def numeral_3_eq_3)
  then have o: "\<forall>d \<in> set [?d]. \<exists>r. outcome_of letter_lib d r" unfolding outcome_of_def by auto
  have "cracker_step letter_lib ?s (?s\<lparr>crack_queue := [None], crackers := (crackers ?s)[0 := Busy ?d 0 0]\<rparr>)"
    by (rule take_job) (simp_all add: crack_start_def)
  then have r: "(cracker_step letter_lib ^^ 1) ?s (?s\<lparr>crack_queue := [None], crackers := (crackers ?s)[0 := Busy ?d 0 0]\<rparr>)"
    by (simp only: relpowp_1)
  show ?thesis using crack_summary_right [OF o _ r] r by auto
qed

end
