(* ===== verification/Cracker2.thy ===== *)
theory Cracker2
  imports Cracker1
begin

text \<open>
  \<open>password_cracker/cracker2.c\<close>: all threads search for the password of one user together, each in its own
  part of the candidates, and meet at a barrier before and after the summary for the user.

  \<open>getSubrange\<close>, which cuts the candidates into parts, is not in the repository either: the parameter \<open>part\<close>.
  A thread is at the queue, before the lock that starts a user, at the head of its loop, about to hash a
  candidate, before it reports, at the first barrier, before the lock of the summary, at the second barrier, or
  gone. A barrier lets all threads go in one step. The hashes are counted in variables of type \<open>int\<close>, here words of 32 bits (a
  count that leaves the range of \<open>int\<close>, which C leaves undefined, wraps). The statuses of the threads and the times are
  not recorded.
\<close>

record piece =
  piece_job :: crack_job
  piece_start :: nat
  piece_count :: nat

datatype crack2_pc =
    Take
  | Begin piece
  | Scan crack_job string nat "32 word"      \<comment> \<open>tail, what is left of the count, hashes\<close>
  | Try crack_job string nat "32 word"
  | Report crack_job "32 word" nat           \<comment> \<open>hashes, status\<close>
  | First_barrier crack_job nat
  | Sum_up crack_job
  | Second_barrier
  | Gone

record crack2_sys =
  queue2 :: "piece option list"
  found :: bool
  complete :: bool
  hash_total :: "32 word"
  answer :: string
  pcs2 :: "crack2_pc list"
  started_users :: "string list"
  summaries :: "(string \<times> string \<times> 32 word \<times> bool) list"

definition prefix_of :: "crack_lib \<Rightarrow> crack_job \<Rightarrow> string" where
  "prefix_of lib d = take (getPrefixLength lib (user_password d)) (user_password d)"

definition tail_of :: "crack_lib \<Rightarrow> crack_job \<Rightarrow> string" where
  "tail_of lib d = drop (getPrefixLength lib (user_password d)) (user_password d)"

text \<open>The queue that \<open>start\<close> fills: for each user a part for each thread, then an end for each thread.\<close>

definition pieces :: "crack_lib \<Rightarrow> (nat \<Rightarrow> nat \<Rightarrow> nat \<Rightarrow> nat \<times> nat) \<Rightarrow> nat \<Rightarrow> crack_job \<Rightarrow> piece list" where
  "pieces lib part n d = map (\<lambda>i. let (start, count) = part (length (tail_of lib d)) n (i + 1) in
     \<lparr>piece_job = d, piece_start = start, piece_count = count\<rparr>) [0..<n]"

definition crack2_start :: "crack_lib \<Rightarrow> (nat \<Rightarrow> nat \<Rightarrow> nat \<Rightarrow> nat \<times> nat) \<Rightarrow> crack_job list \<Rightarrow> nat \<Rightarrow> string \<Rightarrow> crack2_sys" where
  "crack2_start lib part users n junk =
     \<lparr>queue2 = concat (map (\<lambda>d. map Some (pieces lib part n d)) users) @ replicate n None, found = False, complete = True,
      hash_total = 0, answer = junk, pcs2 = replicate n Take, started_users = [], summaries = []\<rparr>"

inductive crack2_step :: "crack_lib \<Rightarrow> crack2_sys \<Rightarrow> crack2_sys \<Rightarrow> bool" for lib :: crack_lib where
  take_piece: "i < length (pcs2 s) \<Longrightarrow> pcs2 s ! i = Take \<Longrightarrow> queue2 s = Some d # q \<Longrightarrow>
    crack2_step lib s (s\<lparr>queue2 := q, pcs2 := (pcs2 s)[i := Begin d]\<rparr>)"
| take_end: "i < length (pcs2 s) \<Longrightarrow> pcs2 s ! i = Take \<Longrightarrow> queue2 s = None # q \<Longrightarrow>
    crack2_step lib s (s\<lparr>queue2 := q, pcs2 := (pcs2 s)[i := Gone]\<rparr>)"
| begin_user: "i < length (pcs2 s) \<Longrightarrow> pcs2 s ! i = Begin d \<Longrightarrow>
    crack2_step lib s (s\<lparr>started_users := (if complete s then started_users s @ [username (piece_job d)] else started_users s), complete := False,
      pcs2 := (pcs2 s)[i := Scan (piece_job d) (setStringPosition lib (tail_of lib (piece_job d)) (piece_start d)) (piece_count d) 0]\<rparr>)"
| scan_end: "i < length (pcs2 s) \<Longrightarrow> pcs2 s ! i = Scan d tmp 0 hc \<Longrightarrow>
    crack2_step lib s (s\<lparr>pcs2 := (pcs2 s)[i := Report d hc 2]\<rparr>)"
| scan_found: "i < length (pcs2 s) \<Longrightarrow> pcs2 s ! i = Scan d tmp c hc \<Longrightarrow> 0 < c \<Longrightarrow> found s \<Longrightarrow>
    crack2_step lib s (s\<lparr>pcs2 := (pcs2 s)[i := Report d hc 1]\<rparr>)"
| scan: "i < length (pcs2 s) \<Longrightarrow> pcs2 s ! i = Scan d tmp c hc \<Longrightarrow> 0 < c \<Longrightarrow> \<not> found s \<Longrightarrow>
    crack2_step lib s (s\<lparr>pcs2 := (pcs2 s)[i := Try d tmp c (hc + 1)]\<rparr>)"
| try_hit: "i < length (pcs2 s) \<Longrightarrow> pcs2 s ! i = Try d tmp c hc \<Longrightarrow> crypt_r lib (prefix_of lib d @ tmp) = user_hash d \<Longrightarrow>
    crack2_step lib s (s\<lparr>found := True, answer := prefix_of lib d @ tmp, pcs2 := (pcs2 s)[i := Report d hc 0]\<rparr>)"
| try_last: "i < length (pcs2 s) \<Longrightarrow> pcs2 s ! i = Try d tmp c hc \<Longrightarrow> crypt_r lib (prefix_of lib d @ tmp) \<noteq> user_hash d \<Longrightarrow>
    incrementString lib tmp = None \<Longrightarrow>
    crack2_step lib s (s\<lparr>pcs2 := (pcs2 s)[i := Report d hc 2]\<rparr>)"
| try_next: "i < length (pcs2 s) \<Longrightarrow> pcs2 s ! i = Try d tmp c hc \<Longrightarrow> crypt_r lib (prefix_of lib d @ tmp) \<noteq> user_hash d \<Longrightarrow>
    incrementString lib tmp = Some tmp' \<Longrightarrow>
    crack2_step lib s (s\<lparr>pcs2 := (pcs2 s)[i := Scan d tmp' (c - 1) hc]\<rparr>)"
| report: "i < length (pcs2 s) \<Longrightarrow> pcs2 s ! i = Report d hc status \<Longrightarrow>
    crack2_step lib s (s\<lparr>hash_total := hash_total s + hc, pcs2 := (pcs2 s)[i := First_barrier d status]\<rparr>)"
| first_barrier: "\<forall>p \<in> set (pcs2 s). \<exists>d status. p = First_barrier d status \<Longrightarrow> pcs2 s \<noteq> [] \<Longrightarrow>
    crack2_step lib s (s\<lparr>pcs2 := map (\<lambda>p. case p of First_barrier d status \<Rightarrow> Sum_up d | _ \<Rightarrow> p) (pcs2 s)\<rparr>)"
| sum_up: "i < length (pcs2 s) \<Longrightarrow> pcs2 s ! i = Sum_up d \<Longrightarrow>
    crack2_step lib s (if complete s then s\<lparr>pcs2 := (pcs2 s)[i := Second_barrier]\<rparr>
      else s\<lparr>summaries := summaries s @ [(username d, answer s, hash_total s, \<not> found s)], complete := True, hash_total := 0, found := False,
        pcs2 := (pcs2 s)[i := Second_barrier]\<rparr>)"
| second_barrier: "\<forall>p \<in> set (pcs2 s). p = Second_barrier \<Longrightarrow> pcs2 s \<noteq> [] \<Longrightarrow>
    crack2_step lib s (s\<lparr>pcs2 := map (\<lambda>p. Take) (pcs2 s)\<rparr>)"

section \<open>What the helpers promise\<close>

text \<open>For a user: \<open>sp\<close> are the tails, \<open>N\<close> of them, and the parts of the threads lie in them and cover them.\<close>

definition good_user :: "crack_lib \<Rightarrow> (nat \<Rightarrow> nat \<Rightarrow> nat \<Rightarrow> nat \<times> nat) \<Rightarrow> nat \<Rightarrow> (crack_job \<Rightarrow> nat) \<Rightarrow> (crack_job \<Rightarrow> nat \<Rightarrow> string) \<Rightarrow> crack_job \<Rightarrow> bool" where
  "good_user lib part n N sp d \<longleftrightarrow> tails lib (tail_of lib d) (N d) (sp d) \<and>
     (\<forall>x \<in> set (pieces lib part n d). piece_start x + piece_count x \<le> N d) \<and>
     (\<forall>k < N d. \<exists>x \<in> set (pieces lib part n d). piece_start x \<le> k \<and> k < piece_start x + piece_count x)"

definition hit :: "crack_lib \<Rightarrow> (crack_job \<Rightarrow> nat) \<Rightarrow> (crack_job \<Rightarrow> nat \<Rightarrow> string) \<Rightarrow> crack_job \<Rightarrow> nat \<Rightarrow> bool" where
  "hit lib N sp d k \<longleftrightarrow> k < N d \<and> crypt_r lib (prefix_of lib d @ sp d k) = user_hash d"

text \<open>A summary that is right: it reports a failure exactly when no candidate has the hash, and else a password
  that has it.\<close>

definition right_summary :: "crack_lib \<Rightarrow> (crack_job \<Rightarrow> nat) \<Rightarrow> (crack_job \<Rightarrow> nat \<Rightarrow> string) \<Rightarrow> crack_job \<Rightarrow> string \<times> string \<times> 32 word \<times> bool \<Rightarrow> bool" where
  "right_summary lib N sp d x \<longleftrightarrow> (case x of (name, pw, hashes, failed) \<Rightarrow>
     name = username d \<and> (failed \<longleftrightarrow> \<not> (\<exists>k. hit lib N sp d k)) \<and> (\<not> failed \<longrightarrow> crypt_r lib pw = user_hash d))"

section \<open>The invariant\<close>

text \<open>The candidates that a thread or a piece is still to try.\<close>

fun still :: "crack_lib \<Rightarrow> (crack_job \<Rightarrow> nat \<Rightarrow> string) \<Rightarrow> crack2_pc \<Rightarrow> nat \<Rightarrow> bool" where
  "still lib sp (Begin x) k \<longleftrightarrow> piece_start x \<le> k \<and> k < piece_start x + piece_count x"
| "still lib sp (Scan d tmp c hc) k \<longleftrightarrow> (\<exists>j. tmp = sp d j \<and> j \<le> k \<and> k < j + c)"
| "still lib sp (Try d tmp c hc) k \<longleftrightarrow> (\<exists>j. tmp = sp d j \<and> j \<le> k \<and> k < j + c)"
| "still lib sp p k \<longleftrightarrow> False"

fun early :: "crack2_pc \<Rightarrow> bool" where
  "early Take \<longleftrightarrow> True"
| "early (Begin x) \<longleftrightarrow> True"
| "early p \<longleftrightarrow> False"

text \<open>A thread at work for user \<open>d\<close>; \<open>f\<close> says that the password has been found.\<close>

fun at_work :: "crack_lib \<Rightarrow> (crack_job \<Rightarrow> nat) \<Rightarrow> (crack_job \<Rightarrow> nat \<Rightarrow> string) \<Rightarrow> crack_job \<Rightarrow> bool \<Rightarrow> crack2_pc \<Rightarrow> bool" where
  "at_work lib N sp d f Take \<longleftrightarrow> True"
| "at_work lib N sp d f (Begin x) \<longleftrightarrow> piece_job x = d \<and> piece_start x + piece_count x \<le> N d"
| "at_work lib N sp d f (Scan d' tmp c hc) \<longleftrightarrow> d' = d \<and> (0 < c \<longrightarrow> (\<exists>j. tmp = sp d j \<and> j + c \<le> N d))"
| "at_work lib N sp d f (Try d' tmp c hc) \<longleftrightarrow> d' = d \<and> 0 < c \<and> (\<exists>j. tmp = sp d j \<and> j + c \<le> N d)"
| "at_work lib N sp d f (Report d' hc status) \<longleftrightarrow> d' = d \<and> (status \<noteq> 2 \<longrightarrow> f)"
| "at_work lib N sp d f (First_barrier d' status) \<longleftrightarrow> d' = d \<and> (status \<noteq> 2 \<longrightarrow> f)"
| "at_work lib N sp d f p \<longleftrightarrow> False"

definition takers :: "crack2_pc list \<Rightarrow> nat" where
  "takers ps = over (\<lambda>p. if p = Take then 1 else 0) ps"

definition later :: "crack_lib \<Rightarrow> (nat \<Rightarrow> nat \<Rightarrow> nat \<Rightarrow> nat \<times> nat) \<Rightarrow> nat \<Rightarrow> crack_job list \<Rightarrow> piece option list" where
  "later lib part n users = concat (map (\<lambda>d. map Some (pieces lib part n d)) users) @ replicate n None"

text \<open>The three kinds of states: at work for a user, summing up for him, and at the end. \<open>past\<close> are the users
  before, \<open>users\<close> those after him.\<close>

definition working :: "crack_lib \<Rightarrow> (nat \<Rightarrow> nat \<Rightarrow> nat \<Rightarrow> nat \<times> nat) \<Rightarrow> nat \<Rightarrow> (crack_job \<Rightarrow> nat) \<Rightarrow> (crack_job \<Rightarrow> nat \<Rightarrow> string) \<Rightarrow>
    crack_job \<Rightarrow> crack_job list \<Rightarrow> crack2_sys \<Rightarrow> bool" where
  "working lib part n N sp d users s \<longleftrightarrow> (\<exists>xs. queue2 s = map Some xs @ later lib part n users \<and> length xs = takers (pcs2 s) \<and>
       (\<forall>x \<in> set xs. piece_job x = d \<and> piece_start x + piece_count x \<le> N d) \<and>
       (\<not> found s \<longrightarrow> (\<forall>k. hit lib N sp d k \<longrightarrow> (\<exists>p \<in> set (pcs2 s). still lib sp p k) \<or> (\<exists>x \<in> set xs. still lib sp (Begin x) k)))) \<and>
     (\<forall>p \<in> set (pcs2 s). at_work lib N sp d (found s) p) \<and>
     (complete s \<longleftrightarrow> (\<forall>p \<in> set (pcs2 s). early p)) \<and>
     (found s \<longrightarrow> (\<exists>k. hit lib N sp d k \<and> answer s = prefix_of lib d @ sp d k))"

definition summing :: "crack_lib \<Rightarrow> (nat \<Rightarrow> nat \<Rightarrow> nat \<Rightarrow> nat \<times> nat) \<Rightarrow> nat \<Rightarrow> (crack_job \<Rightarrow> nat) \<Rightarrow> (crack_job \<Rightarrow> nat \<Rightarrow> string) \<Rightarrow>
    crack_job \<Rightarrow> crack_job list \<Rightarrow> crack2_sys \<Rightarrow> bool" where
  "summing lib part n N sp d users s \<longleftrightarrow> queue2 s = later lib part n users \<and>
     (\<forall>p \<in> set (pcs2 s). p = Sum_up d \<or> p = Second_barrier) \<and> (complete s \<longleftrightarrow> Second_barrier \<in> set (pcs2 s)) \<and>
     (complete s \<longrightarrow> \<not> found s) \<and>
     (\<not> complete s \<longrightarrow> (found s \<longleftrightarrow> (\<exists>k. hit lib N sp d k)) \<and> (found s \<longrightarrow> (\<exists>k. hit lib N sp d k \<and> answer s = prefix_of lib d @ sp d k)))"

definition ending :: "crack2_sys \<Rightarrow> bool" where
  "ending s \<longleftrightarrow> queue2 s = replicate (takers (pcs2 s)) None \<and> (\<forall>p \<in> set (pcs2 s). p = Take \<or> p = Gone)"

definition crack2_inv :: "crack_lib \<Rightarrow> (nat \<Rightarrow> nat \<Rightarrow> nat \<Rightarrow> nat \<times> nat) \<Rightarrow> nat \<Rightarrow> (crack_job \<Rightarrow> nat) \<Rightarrow> (crack_job \<Rightarrow> nat \<Rightarrow> string) \<Rightarrow>
    crack_job list \<Rightarrow> crack2_sys \<Rightarrow> bool" where
  "crack2_inv lib part n N sp users s \<longleftrightarrow> length (pcs2 s) = n \<and> (\<exists>past rest.
     (list_all2 (right_summary lib N sp) past (summaries s) \<and>
      (ending s \<and> users = past \<or> (\<exists>d. users = past @ d # rest \<and> working lib part n N sp d rest s))) \<or>
     (\<exists>d. users = past @ d # rest \<and> summing lib part n N sp d rest s \<and>
       list_all2 (right_summary lib N sp) (if complete s then past @ [d] else past) (summaries s)))"

lemma takers_at: "i < length ps \<Longrightarrow> ps ! i = p \<Longrightarrow> takers (ps[i := p']) + (if p = Take then 1 else 0) = takers ps + (if p' = Take then 1 else 0)"
  unfolding takers_def by (rule over_at)

lemma takers_pos: "i < length ps \<Longrightarrow> ps ! i = Take \<Longrightarrow> 0 < takers ps"
  using elem_le_sum_list [of i "map (\<lambda>p. if p = Take then 1 else 0 :: nat) ps"] by (simp add: takers_def over_def)

lemma takers_zero: "Take \<notin> set ps \<Longrightarrow> takers ps = 0"
  by (induction ps) (auto simp: takers_def over_def)

lemma takers_all: "takers (replicate n Take) = n"
  by (induction n) (simp_all add: takers_def over_def)

section \<open>The steps\<close>

lemma workingE:
  assumes "working lib part n N sp d users s"
  obtains xs where "queue2 s = map Some xs @ later lib part n users" "length xs = takers (pcs2 s)"
    "\<forall>x \<in> set xs. piece_job x = d \<and> piece_start x + piece_count x \<le> N d"
    "\<not> found s \<longrightarrow> (\<forall>k. hit lib N sp d k \<longrightarrow> (\<exists>p \<in> set (pcs2 s). still lib sp p k) \<or> (\<exists>x \<in> set xs. still lib sp (Begin x) k))"
    "\<forall>p \<in> set (pcs2 s). at_work lib N sp d (found s) p" "complete s \<longleftrightarrow> (\<forall>p \<in> set (pcs2 s). early p)"
    "found s \<longrightarrow> (\<exists>k. hit lib N sp d k \<and> answer s = prefix_of lib d @ sp d k)"
  using assms unfolding working_def by blast

lemma all_update: "\<forall>p \<in> set ps. P p \<Longrightarrow> P x \<Longrightarrow> \<forall>p \<in> set (ps[i := x]). P p"
  using set_update_subset_insert [of ps i x] by blast

lemma early_update: "i < length ps \<Longrightarrow> early (ps ! i) = early x \<Longrightarrow> (\<forall>p \<in> set (ps[i := x]). early p) \<longleftrightarrow> (\<forall>p \<in> set ps. early p)"
proof -
  assume i: "i < length ps" "early (ps ! i) = early x"
  have "set ps = set (take i ps @ ps ! i # drop (Suc i) ps)" using id_take_nth_drop [OF i(1)] by (rule arg_cong)
  moreover have "set (ps[i := x]) = set (take i ps @ x # drop (Suc i) ps)" using upd_conv_take_nth_drop [OF i(1)] by (rule arg_cong)
  ultimately show ?thesis using i(2) by simp
qed

lemma still_update:
  assumes "i < length ps" "p \<in> set ps" "still lib sp p k" "still lib sp (ps ! i) k \<longrightarrow> still lib sp x k"
  shows "\<exists>p \<in> set (ps[i := x]). still lib sp p k"
proof (cases "p = ps ! i")
  case True
  then show ?thesis using assms set_update_memI [OF assms(1)] by blast
next
  case False
  then show ?thesis using set_update_at [OF assms(1,2)] assms(3) by blast
qed

text \<open>A thread moves on without touching the queue or the flags.\<close>

lemma working_pc:
  assumes w: "working lib part n N sp d users s" and i: "i < length (pcs2 s)" "p \<noteq> Take" "pcs2 s ! i = p"
    and p': "p' \<noteq> Take" "early p' = early p" "at_work lib N sp d (found s) p'"
    and k: "\<And>k. hit lib N sp d k \<Longrightarrow> \<not> found s \<Longrightarrow> still lib sp p k \<Longrightarrow> still lib sp p' k"
    and t: "queue2 t = queue2 s" "found t = found s" "complete t = complete s" "answer t = answer s" "pcs2 t = (pcs2 s)[i := p']"
  shows "working lib part n N sp d users t"
proof -
  from w obtain xs where xs: "queue2 s = map Some xs @ later lib part n users" "length xs = takers (pcs2 s)"
    "\<forall>x \<in> set xs. piece_job x = d \<and> piece_start x + piece_count x \<le> N d"
    "\<not> found s \<longrightarrow> (\<forall>k. hit lib N sp d k \<longrightarrow> (\<exists>p \<in> set (pcs2 s). still lib sp p k) \<or> (\<exists>x \<in> set xs. still lib sp (Begin x) k))"
    "\<forall>p \<in> set (pcs2 s). at_work lib N sp d (found s) p" "complete s \<longleftrightarrow> (\<forall>p \<in> set (pcs2 s). early p)"
    "found s \<longrightarrow> (\<exists>k. hit lib N sp d k \<and> answer s = prefix_of lib d @ sp d k)" by (rule workingE)
  have "takers ((pcs2 s)[i := p']) = takers (pcs2 s)" using takers_at [OF i(1,3), of p'] i(2) p'(1) by simp
  moreover have "(\<exists>p \<in> set ((pcs2 s)[i := p']). still lib sp p k) \<or> (\<exists>x \<in> set xs. still lib sp (Begin x) k)"
    if "\<not> found s" "hit lib N sp d k" for k
    using xs(4) that still_update [OF i(1), of _ lib sp k p'] k [OF that(2,1)] i(3) by blast
  moreover have "\<forall>p \<in> set ((pcs2 s)[i := p']). at_work lib N sp d (found s) p" by (rule all_update [OF xs(5) p'(3)])
  moreover have "(\<forall>p \<in> set ((pcs2 s)[i := p']). early p) \<longleftrightarrow> complete s" using early_update [OF i(1), of p'] i(3) p'(2) xs(6) by simp
  ultimately show ?thesis unfolding working_def t using xs(1-3,7) by auto
qed

lemma at_work_found: "at_work lib N sp d f p \<Longrightarrow> at_work lib N sp d True p"
  by (cases p) auto

lemma working_step:
  assumes good: "good_user lib part n N sp d" and w: "working lib part n N sp d users s" and step: "crack2_step lib s s'" and n: "0 < n" "length (pcs2 s) = n"
  shows "(working lib part n N sp d users s' \<or> summing lib part n N sp d users s' \<and> \<not> complete s') \<and> summaries s' = summaries s"
proof -
  from w obtain xs where xs: "queue2 s = map Some xs @ later lib part n users" "length xs = takers (pcs2 s)"
    "\<forall>x \<in> set xs. piece_job x = d \<and> piece_start x + piece_count x \<le> N d"
    "\<not> found s \<longrightarrow> (\<forall>k. hit lib N sp d k \<longrightarrow> (\<exists>p \<in> set (pcs2 s). still lib sp p k) \<or> (\<exists>x \<in> set xs. still lib sp (Begin x) k))"
    "\<forall>p \<in> set (pcs2 s). at_work lib N sp d (found s) p" "complete s \<longleftrightarrow> (\<forall>p \<in> set (pcs2 s). early p)"
    "found s \<longrightarrow> (\<exists>k. hit lib N sp d k \<and> answer s = prefix_of lib d @ sp d k)" by (rule workingE)
  have at: "at_work lib N sp d (found s) p" if "i < length (pcs2 s)" "pcs2 s ! i = p" for i p using xs(5) nth_mem [OF that(1)] that(2) by blast
  have T: "tails lib (tail_of lib d) (N d) (sp d)" using good by (simp add: good_user_def)
  show ?thesis
    using step
  proof cases
    case (take_piece i x q)
    obtain xs' where q: "xs = x # xs'" "q = map Some xs' @ later lib part n users"
      using xs(1,2) take_piece(4) takers_pos [OF take_piece(2,3)] by (cases xs) auto
    have "takers ((pcs2 s)[i := Begin x]) = length xs'" using takers_at [OF take_piece(2,3), of "Begin x"] q(1) xs(2) by simp
    moreover have "(\<exists>p \<in> set ((pcs2 s)[i := Begin x]). still lib sp p k) \<or> (\<exists>x \<in> set xs'. still lib sp (Begin x) k)"
      if "\<not> found s" "hit lib N sp d k" for k
      using xs(4) that q(1) still_update [OF take_piece(2), of _ lib sp k "Begin x"] take_piece(3) set_update_memI [OF take_piece(2), of "Begin x"] by fastforce
    moreover have "\<forall>p \<in> set ((pcs2 s)[i := Begin x]). at_work lib N sp d (found s) p" by (rule all_update [OF xs(5)]) (use xs(3) q(1) in simp)
    moreover have "(\<forall>p \<in> set ((pcs2 s)[i := Begin x]). early p) \<longleftrightarrow> complete s" using early_update [OF take_piece(2), of "Begin x"] take_piece(3) xs(6) by simp
    ultimately have "working lib part n N sp d users s'" unfolding working_def take_piece(1) using q xs(3,7) by auto
    then show ?thesis using take_piece(1) by simp
  next
    case (take_end i q)
    then show ?thesis using takers_pos [OF take_end(2,3)] xs(1,2) by (cases xs) auto
  next
    case (begin_user i x)
    have x: "piece_job x = d" "piece_start x + piece_count x \<le> N d" using at [OF begin_user(2,3)] by simp_all
    let ?p = "Scan d (setStringPosition lib (tail_of lib d) (piece_start x)) (piece_count x) 0"
    have pos: "setStringPosition lib (tail_of lib d) (piece_start x) = sp d (piece_start x)" if "0 < piece_count x"
      using T x(2) that by (auto simp: tails_def)
    have p: "still lib sp (Begin x) k \<Longrightarrow> still lib sp ?p k" for k using pos by auto
    have a: "at_work lib N sp d (found s) ?p" using pos x(2) by auto
    have "takers ((pcs2 s)[i := ?p]) = length xs" using takers_at [OF begin_user(2,3), of ?p] xs(2) by simp
    moreover have "(\<exists>p \<in> set ((pcs2 s)[i := ?p]). still lib sp p k) \<or> (\<exists>x \<in> set xs. still lib sp (Begin x) k)"
      if "\<not> found s" "hit lib N sp d k" for k
      using xs(4) that still_update [OF begin_user(2), of _ lib sp k ?p] begin_user(3) p by metis
    moreover have "\<forall>p \<in> set ((pcs2 s)[i := ?p]). at_work lib N sp d (found s) p" by (rule all_update [OF xs(5) a])
    moreover have "\<not> (\<forall>p \<in> set ((pcs2 s)[i := ?p]). early p)" using set_update_memI [OF begin_user(2), of ?p] by fastforce
    ultimately have "working lib part n N sp d users s'" unfolding working_def begin_user(1) x(1) using xs(1,3,7) by auto
    then show ?thesis using begin_user(1) by simp
  next
    case (scan_end i d' tmp hc)
    have "d' = d" using at [OF scan_end(2,3)] by simp
    then have "working lib part n N sp d users s'" unfolding scan_end(1)
      by (intro working_pc [OF w scan_end(2) _ scan_end(3)]) auto
    then show ?thesis using scan_end(1) by simp
  next
    case (scan_found i d' tmp c hc)
    have "d' = d" using at [OF scan_found(2,3)] by simp
    then have "working lib part n N sp d users s'" unfolding scan_found(1)
      using scan_found(5) by (intro working_pc [OF w scan_found(2) _ scan_found(3)]) auto
    then show ?thesis using scan_found(1) by simp
  next
    case (scan i d' tmp c hc)
    have "at_work lib N sp d (found s) (Try d' tmp c (hc + 1))" using at [OF scan(2,3)] scan(4) by simp
    moreover have "d' = d" using at [OF scan(2,3)] by simp
    ultimately have "working lib part n N sp d users s'" unfolding scan(1)
      by (intro working_pc [OF w scan(2) _ scan(3)]) auto
    then show ?thesis using scan(1) by simp
  next
    case (try_hit i d' tmp c hc)
    obtain j where j: "d' = d" "0 < c" "tmp = sp d j" "j + c \<le> N d" using at [OF try_hit(2,3)] by auto
    then have h: "hit lib N sp d j" using try_hit(4) by (simp add: hit_def)
    have "takers ((pcs2 s)[i := Report d hc 0]) = length xs" using takers_at [OF try_hit(2,3), of "Report d hc 0"] xs(2) by simp
    moreover have "\<forall>p \<in> set (pcs2 s). at_work lib N sp d True p" using xs(5) at_work_found by blast
    then have "\<forall>p \<in> set ((pcs2 s)[i := Report d hc 0]). at_work lib N sp d True p" by (rule all_update) simp
    moreover have "(\<forall>p \<in> set ((pcs2 s)[i := Report d hc 0]). early p) \<longleftrightarrow> complete s" using early_update [OF try_hit(2), of "Report d hc 0"] try_hit(3) xs(6) by simp
    ultimately have "working lib part n N sp d users s'" unfolding working_def try_hit(1) j(1) using xs(1,3) h j(3) by auto
    then show ?thesis using try_hit(1) by simp
  next
    case (try_last i d' tmp c hc)
    obtain j where j: "d' = d" "0 < c" "tmp = sp d j" "j + c \<le> N d" using at [OF try_last(2,3)] by auto
    have e: "\<not> (Suc j' < N d)" if "sp d j' = tmp" "j' < N d" for j' using try_last(5) T that by (auto simp: tails_def split: if_splits)
    have "\<not> hit lib N sp d k" if st: "still lib sp (Try d' tmp c hc) k" for k
    proof
      assume h: "hit lib N sp d k"
      obtain j' where j': "tmp = sp d j'" "j' \<le> k" "k < j' + c" using st j(1) by auto
      then have "k = j'" using e [of j'] h by (auto simp: hit_def)
      then show False using h j' try_last(4) j(1) by (simp add: hit_def)
    qed
    then have "working lib part n N sp d users s'" unfolding try_last(1)
      by (intro working_pc [OF w try_last(2) _ try_last(3)]) (use j(1) in auto)
    then show ?thesis using try_last(1) by simp
  next
    case (try_next i d' tmp c hc tmp')
    obtain j where j: "d' = d" "0 < c" "tmp = sp d j" "j + c \<le> N d" using at [OF try_next(2,3)] by auto
    have e: "tmp' = sp d (Suc j')" "Suc j' < N d" if "sp d j' = tmp" "j' < N d" for j'
      using try_next(5) T that by (auto simp: tails_def split: if_splits)
    have a: "at_work lib N sp d (found s) (Scan d' tmp' (c - 1) hc)" using e(1) [of j] j by (auto intro!: exI [of _ "Suc j"])
    have k: "still lib sp (Scan d' tmp' (c - 1) hc) k" if h: "hit lib N sp d k" "still lib sp (Try d' tmp c hc) k" for k
    proof -
      obtain j' where j': "tmp = sp d j'" "j' \<le> k" "k < j' + c" using h(2) j(1) by auto
      have "k \<noteq> j'" using h(1) j' try_next(4) j(1) by (auto simp: hit_def)
      then have "Suc j' \<le> k" "k < Suc j' + (c - 1)" "j' < N d" using j' h(1) by (auto simp: hit_def)
      then show ?thesis using e(1) [of j'] j'(1) j(1) by (auto intro!: exI [of _ "Suc j'"])
    qed
    then have "working lib part n N sp d users s'" unfolding try_next(1)
      by (intro working_pc [OF w try_next(2) _ try_next(3) _ _ a]) auto
    then show ?thesis using try_next(1) by simp
  next
    case (report i d' hc status)
    have "at_work lib N sp d (found s) (First_barrier d' status)" using at [OF report(2,3)] by simp
    then have "working lib part n N sp d users s'" unfolding report(1)
      by (intro working_pc [OF w report(2) _ report(3)]) auto
    then show ?thesis using report(1) by simp
  next
    case first_barrier
    have all: "\<exists>st. p = First_barrier d st" if "p \<in> set (pcs2 s)" for p using first_barrier(2) xs(5) that by fastforce
    then have "Take \<notin> set (pcs2 s)" "\<not> (\<forall>p \<in> set (pcs2 s). early p)" using first_barrier(3) by (fastforce, metis early.simps last_in_set)
    then have q: "queue2 s = later lib part n users" "\<not> complete s" "xs = []" using xs(1,2,6) takers_zero by auto
    have "found s \<longleftrightarrow> (\<exists>k. hit lib N sp d k)"
    proof
      assume "\<exists>k. hit lib N sp d k"
      then obtain k where "hit lib N sp d k" by blast
      moreover have "\<not> still lib sp p k" if "p \<in> set (pcs2 s)" for p using all [OF that] by auto
      ultimately show "found s" using xs(4) q(3) by auto
    qed (use xs(7) in blast)
    moreover have "\<forall>p \<in> set (map (\<lambda>p. case p of First_barrier d status \<Rightarrow> Sum_up d | _ \<Rightarrow> p) (pcs2 s)). p = Sum_up d" using all by fastforce
    ultimately have "summing lib part n N sp d users s'" unfolding summing_def first_barrier(1) using q xs(7) by fastforce
    then show ?thesis using first_barrier(1) q(2) by simp
  next
    case (sum_up i d')
    then show ?thesis using at [OF sum_up(2,3)] by simp
  next
    case second_barrier
    then show ?thesis using xs(5) by (metis at_work.simps(8) last_in_set)
  qed
qed

lemma pieces_working:
  assumes good: "good_user lib part n N sp d" and s: "queue2 s = later lib part n (d # users)" "pcs2 s = replicate n Take" "complete s" "\<not> found s"
  shows "working lib part n N sp d users s"
proof -
  let ?xs = "pieces lib part n d"
  have "queue2 s = map Some ?xs @ later lib part n users" using s(1) by (simp add: later_def)
  moreover have "length ?xs = takers (pcs2 s)" using s(2) takers_all by (simp add: pieces_def)
  moreover have "\<forall>x \<in> set ?xs. piece_job x = d \<and> piece_start x + piece_count x \<le> N d"
    using good by (auto simp: good_user_def pieces_def split: prod.splits)
  moreover have "\<forall>k. hit lib N sp d k \<longrightarrow> (\<exists>x \<in> set ?xs. still lib sp (Begin x) k)" using good by (simp add: good_user_def hit_def)
  ultimately show ?thesis unfolding working_def using s by auto
qed

lemma summing_step:
  assumes s: "summing lib part n N sp d users s" and step: "crack2_step lib s s'" and n: "0 < n" "length (pcs2 s) = n"
    and sums: "list_all2 (right_summary lib N sp) (if complete s then past @ [d] else past) (summaries s)"
  shows "summing lib part n N sp d users s' \<and> list_all2 (right_summary lib N sp) (if complete s' then past @ [d] else past) (summaries s') \<or>
    queue2 s' = later lib part n users \<and> pcs2 s' = replicate n Take \<and> complete s' \<and> \<not> found s' \<and> list_all2 (right_summary lib N sp) (past @ [d]) (summaries s')"
proof -
  have q: "queue2 s = later lib part n users" and at: "\<forall>p \<in> set (pcs2 s). p = Sum_up d \<or> p = Second_barrier" and
    c: "complete s \<longleftrightarrow> Second_barrier \<in> set (pcs2 s)" "complete s \<longrightarrow> \<not> found s"
    "\<not> complete s \<longrightarrow> (found s \<longleftrightarrow> (\<exists>k. hit lib N sp d k)) \<and> (found s \<longrightarrow> (\<exists>k. hit lib N sp d k \<and> answer s = prefix_of lib d @ sp d k))"
    using s unfolding summing_def by blast+
  have no: "False" if "i < length (pcs2 s)" "pcs2 s ! i = p" "p \<noteq> Sum_up d" "p \<noteq> Second_barrier" for i p
    using at nth_mem [OF that(1)] that(2-4) by blast
  show ?thesis
    using step
  proof cases
    case (sum_up i d')
    have d': "d' = d" using no [OF sum_up(2,3)] by auto
    have all: "\<forall>p \<in> set ((pcs2 s)[i := Second_barrier]). p = Sum_up d \<or> p = Second_barrier" by (rule all_update [OF at]) simp
    have mem: "Second_barrier \<in> set ((pcs2 s)[i := Second_barrier])" by (rule set_update_memI [OF sum_up(2)])
    show ?thesis
    proof (cases "complete s")
      case True
      then have "summing lib part n N sp d users s'" unfolding summing_def sum_up(1) using q all mem c(2) by simp
      then show ?thesis using sums True sum_up(1) by simp
    next
      case False
      have "right_summary lib N sp d (username d, answer s, hash_total s, \<not> found s)"
        using c(3) False by (auto simp: right_summary_def hit_def)
      then have "list_all2 (right_summary lib N sp) (past @ [d]) (summaries s @ [(username d, answer s, hash_total s, \<not> found s)])"
        using sums False by (intro list_all2_appendI) simp_all
      moreover have "summing lib part n N sp d users s'" unfolding summing_def sum_up(1) using False q all mem by simp
      ultimately show ?thesis using False sum_up(1) d' by simp
    qed
  next
    case second_barrier
    have "Second_barrier \<in> set (pcs2 s)" using second_barrier(2,3) by (metis last_in_set)
    then show ?thesis unfolding second_barrier(1) using q c sums n(2) by (simp add: map_replicate_const)
  next
    case first_barrier
    then show ?thesis using at by (metis crack2_pc.distinct last_in_set)
  next
    case (take_piece i x q)
    then show ?thesis using no [OF take_piece(2,3)] by simp
  next
    case (take_end i q)
    then show ?thesis using no [OF take_end(2,3)] by simp
  next
    case (begin_user i x)
    then show ?thesis using no [OF begin_user(2,3)] by simp
  next
    case (scan_end i d' tmp hc)
    then show ?thesis using no [OF scan_end(2,3)] by simp
  next
    case (scan_found i d' tmp c hc)
    then show ?thesis using no [OF scan_found(2,3)] by simp
  next
    case (scan i d' tmp c hc)
    then show ?thesis using no [OF scan(2,3)] by simp
  next
    case (try_hit i d' tmp c hc)
    then show ?thesis using no [OF try_hit(2,3)] by simp
  next
    case (try_last i d' tmp c hc)
    then show ?thesis using no [OF try_last(2,3)] by simp
  next
    case (try_next i d' tmp c hc tmp')
    then show ?thesis using no [OF try_next(2,3)] by simp
  next
    case (report i d' hc status)
    then show ?thesis using no [OF report(2,3)] by simp
  qed
qed

lemma ending_step:
  assumes e: "ending s" and step: "crack2_step lib s s'"
  shows "ending s' \<and> summaries s' = summaries s"
proof -
  have q: "queue2 s = replicate (takers (pcs2 s)) None" and at: "\<forall>p \<in> set (pcs2 s). p = Take \<or> p = Gone" using e by (auto simp: ending_def)
  have no: "False" if "i < length (pcs2 s)" "pcs2 s ! i = p" "p \<noteq> Take" "p \<noteq> Gone" for i p
    using at nth_mem [OF that(1)] that(2-4) by blast
  show ?thesis
    using step
  proof cases
    case (take_end i q')
    have "takers ((pcs2 s)[i := Gone]) + 1 = takers (pcs2 s)" using takers_at [OF take_end(2,3), of Gone] by simp
    then have "q' = replicate (takers ((pcs2 s)[i := Gone])) None" using q take_end(4) by (cases "takers (pcs2 s)") auto
    moreover have "\<forall>p \<in> set ((pcs2 s)[i := Gone]). p = Take \<or> p = Gone" by (rule all_update [OF at]) simp
    ultimately show ?thesis unfolding ending_def take_end(1) by simp
  next
    case (take_piece i x q')
    then show ?thesis using q by (cases "takers (pcs2 s)") auto
  next
    case second_barrier
    then show ?thesis using at by (metis crack2_pc.distinct last_in_set)
  next
    case first_barrier
    then show ?thesis using at by (metis crack2_pc.distinct last_in_set)
  next
    case (sum_up i d')
    then show ?thesis using no [OF sum_up(2,3)] by simp
  next
    case (begin_user i x)
    then show ?thesis using no [OF begin_user(2,3)] by simp
  next
    case (scan_end i d' tmp hc)
    then show ?thesis using no [OF scan_end(2,3)] by simp
  next
    case (scan_found i d' tmp c hc)
    then show ?thesis using no [OF scan_found(2,3)] by simp
  next
    case (scan i d' tmp c hc)
    then show ?thesis using no [OF scan(2,3)] by simp
  next
    case (try_hit i d' tmp c hc)
    then show ?thesis using no [OF try_hit(2,3)] by simp
  next
    case (try_last i d' tmp c hc)
    then show ?thesis using no [OF try_last(2,3)] by simp
  next
    case (try_next i d' tmp c hc tmp')
    then show ?thesis using no [OF try_next(2,3)] by simp
  next
    case (report i d' hc status)
    then show ?thesis using no [OF report(2,3)] by simp
  qed
qed

lemma next_round:
  assumes good: "\<forall>d \<in> set users. good_user lib part n N sp d" and s: "users = past @ rest" "queue2 s = later lib part n rest" "pcs2 s = replicate n Take"
    "complete s" "\<not> found s" "list_all2 (right_summary lib N sp) past (summaries s)"
  shows "crack2_inv lib part n N sp users s"
proof (cases rest)
  case Nil
  then have "ending s" using s(2,3) takers_all by (simp add: ending_def later_def)
  then show ?thesis unfolding crack2_inv_def using s Nil by auto
next
  case (Cons d rest')
  then have "working lib part n N sp d rest' s" using pieces_working [of lib part n N sp d s rest'] good s by simp
  then show ?thesis unfolding crack2_inv_def using s Cons by auto
qed

lemma crack2_step_threads: "crack2_step lib s s' \<Longrightarrow> length (pcs2 s') = length (pcs2 s)"
  by (cases rule: crack2_step.cases) auto

lemma crack2_inv_step:
  assumes good: "\<forall>d \<in> set users. good_user lib part n N sp d" and n: "0 < n" and inv: "crack2_inv lib part n N sp users s" and step: "crack2_step lib s s'"
  shows "crack2_inv lib part n N sp users s'"
proof -
  have len: "length (pcs2 s) = n" "length (pcs2 s') = n" using inv crack2_step_threads [OF step] by (auto simp: crack2_inv_def)
  obtain past rest where "(list_all2 (right_summary lib N sp) past (summaries s) \<and>
      (ending s \<and> users = past \<or> (\<exists>d. users = past @ d # rest \<and> working lib part n N sp d rest s))) \<or>
     (\<exists>d. users = past @ d # rest \<and> summing lib part n N sp d rest s \<and>
       list_all2 (right_summary lib N sp) (if complete s then past @ [d] else past) (summaries s))"
    using inv unfolding crack2_inv_def by blast
  then consider (final) "ending s" "users = past" "list_all2 (right_summary lib N sp) past (summaries s)"
    | (work) d where "users = past @ d # rest" "working lib part n N sp d rest s" "list_all2 (right_summary lib N sp) past (summaries s)"
    | (summing) d where "users = past @ d # rest" "summing lib part n N sp d rest s"
        "list_all2 (right_summary lib N sp) (if complete s then past @ [d] else past) (summaries s)" by blast
  then show ?thesis
  proof cases
    case final
    then show ?thesis using ending_step [OF final(1) step] len(2) final(2,3) unfolding crack2_inv_def by auto
  next
    case work
    have g: "good_user lib part n N sp d" using good work(1) by simp
    from working_step [OF g work(2) step n len(1)]
    have "(working lib part n N sp d rest s' \<or> summing lib part n N sp d rest s' \<and> \<not> complete s') \<and> summaries s' = summaries s" .
    then show ?thesis using work(1,3) len(2) unfolding crack2_inv_def by auto
  next
    case summing
    from summing_step [OF summing(2) step n len(1) summing(3)] show ?thesis
    proof
      assume "summing lib part n N sp d rest s' \<and> list_all2 (right_summary lib N sp) (if complete s' then past @ [d] else past) (summaries s')"
      then show ?thesis using summing(1) len(2) unfolding crack2_inv_def by blast
    next
      assume r: "queue2 s' = later lib part n rest \<and> pcs2 s' = replicate n Take \<and> complete s' \<and> \<not> found s' \<and> list_all2 (right_summary lib N sp) (past @ [d]) (summaries s')"
      show ?thesis by (rule next_round [OF good, of "past @ [d]" rest]) (use r summing(1) in simp_all)
    qed
  qed
qed

lemma crack2_start_inv:
  assumes "\<forall>d \<in> set users. good_user lib part n N sp d"
  shows "crack2_inv lib part n N sp users (crack2_start lib part users n junk)"
  by (rule next_round [OF assms, of "[]" users]) (simp_all add: crack2_start_def later_def)

section \<open>The work left\<close>

fun pc2_work :: "crack2_pc \<Rightarrow> nat" where
  "pc2_work Take = 2"
| "pc2_work (Begin x) = 2 * piece_count x + 9"
| "pc2_work (Scan d tmp c hc) = 2 * c + 8"
| "pc2_work (Try d tmp c hc) = 2 * (c - 1) + 9"
| "pc2_work (Report d hc status) = 6"
| "pc2_work (First_barrier d status) = 5"
| "pc2_work (Sum_up d) = 4"
| "pc2_work Second_barrier = 3"
| "pc2_work Gone = 0"

fun entry_work :: "piece option \<Rightarrow> nat" where
  "entry_work (Some x) = 2 * piece_count x + 10"
| "entry_work None = 0"

definition crack2_work :: "crack2_sys \<Rightarrow> nat" where
  "crack2_work s = over entry_work (queue2 s) + over pc2_work (pcs2 s)"

lemma over_Cons [simp]: "over f (x # xs) = f x + over f xs"
  by (simp add: over_def)

lemma over_map_less: "xs \<noteq> [] \<Longrightarrow> \<forall>x \<in> set xs. f (g x) < f x \<Longrightarrow> over f (map g xs) < over f xs"
proof (induction xs)
  case (Cons x xs)
  show ?case
  proof (cases "xs = []")
    case True
    then show ?thesis using Cons.prems by (simp add: over_def)
  next
    case False
    then have "over f (map g xs) < over f xs" "f (g x) < f x" using Cons by simp_all
    then show ?thesis by simp
  qed
qed simp

lemma crack2_step_work: "crack2_step lib s s' \<Longrightarrow> crack2_work s' < crack2_work s"
proof (induction rule: crack2_step.induct)
  case (take_piece i s x q)
  then show ?case using over_at [OF take_piece(1,2), of pc2_work "Begin x"] by (simp add: crack2_work_def)
next
  case (take_end i s q)
  then show ?case using over_at [OF take_end(1,2), of pc2_work Gone] by (simp add: crack2_work_def)
next
  case (begin_user i s x)
  then show ?case using over_at [OF begin_user(1,2), of pc2_work "Scan (piece_job x) (setStringPosition lib (tail_of lib (piece_job x)) (piece_start x)) (piece_count x) 0"]
    by (simp add: crack2_work_def)
next
  case (scan_end i s d tmp hc)
  then show ?case using over_at [OF scan_end(1,2), of pc2_work "Report d hc 2"] by (simp add: crack2_work_def)
next
  case (scan_found i s d tmp c hc)
  then show ?case using over_at [OF scan_found(1,2), of pc2_work "Report d hc 1"] by (simp add: crack2_work_def)
next
  case (scan i s d tmp c hc)
  then show ?case using over_at [OF scan(1,2), of pc2_work "Try d tmp c (hc + 1)"] by (simp add: crack2_work_def)
next
  case (try_hit i s d tmp c hc)
  then show ?case using over_at [OF try_hit(1,2), of pc2_work "Report d hc 0"] by (simp add: crack2_work_def)
next
  case (try_last i s d tmp c hc)
  then show ?case using over_at [OF try_last(1,2), of pc2_work "Report d hc 2"] by (simp add: crack2_work_def)
next
  case (try_next i s d tmp c hc tmp')
  then show ?case using over_at [OF try_next(1,2), of pc2_work "Scan d tmp' (c - 1) hc"] by (simp add: crack2_work_def)
next
  case (report i s d hc status)
  then show ?case using over_at [OF report(1,2), of pc2_work "First_barrier d status"] by (simp add: crack2_work_def)
next
  case (first_barrier s)
  have "over pc2_work (map (\<lambda>p. case p of First_barrier d status \<Rightarrow> Sum_up d | _ \<Rightarrow> p) (pcs2 s)) < over pc2_work (pcs2 s)"
    by (rule over_map_less [OF first_barrier(2)]) (use first_barrier(1) in fastforce)
  then show ?case by (simp add: crack2_work_def)
next
  case (sum_up i s d)
  then show ?case using over_at [OF sum_up(1,2), of pc2_work Second_barrier] by (simp add: crack2_work_def)
next
  case (second_barrier s)
  have "over pc2_work (map (\<lambda>p. Take) (pcs2 s)) < over pc2_work (pcs2 s)"
    by (rule over_map_less [OF second_barrier(2)]) (use second_barrier(1) in fastforce)
  then show ?case by (simp add: crack2_work_def)
qed

lemma thread2_steps:
  assumes "i < length (pcs2 s)" "\<And>x y. pcs2 s ! i \<noteq> First_barrier x y" "pcs2 s ! i \<noteq> Second_barrier" "pcs2 s ! i \<noteq> Gone"
    "pcs2 s ! i = Take \<Longrightarrow> queue2 s \<noteq> []"
  shows "\<exists>s'. crack2_step lib s s'"
proof (cases "pcs2 s ! i")
  case Take
  then obtain x q where "queue2 s = x # q" using assms(5) by (meson list.exhaust)
  then show ?thesis using Take assms(1) crack2_step.take_piece crack2_step.take_end by (cases x) blast+
next
  case (Begin x)
  then show ?thesis using assms(1) crack2_step.begin_user by blast
next
  case (Scan d tmp c hc)
  show ?thesis
  proof (cases "c = 0")
    case True
    then have "pcs2 s ! i = Scan d tmp 0 hc" using Scan by simp
    from crack2_step.scan_end [OF assms(1) this] show ?thesis by blast
  next
    case False
    then have "0 < c" by simp
    then show ?thesis using crack2_step.scan_found [OF assms(1) Scan] crack2_step.scan [OF assms(1) Scan] by (cases "found s") blast+
  qed
next
  case (Try d tmp c hc)
  then show ?thesis using crack2_step.try_hit [OF assms(1)] crack2_step.try_last [OF assms(1)] crack2_step.try_next [OF assms(1)]
    by (cases "crypt_r lib (prefix_of lib d @ tmp) = user_hash d"; cases "incrementString lib tmp") blast+
next
  case (Report d hc status)
  then show ?thesis using assms(1) crack2_step.report by blast
next
  case (Sum_up d)
  then show ?thesis using assms(1) crack2_step.sum_up by blast
qed (use assms in blast)+

lemma crack2_stuck:
  assumes inv: "crack2_inv lib part n N sp users s" and n: "0 < n" and stuck: "\<not> (\<exists>s'. crack2_step lib s s')"
  shows "(\<forall>p \<in> set (pcs2 s). p = Gone) \<and> list_all2 (right_summary lib N sp) users (summaries s)"
proof -
  have len: "length (pcs2 s) = n" using inv by (simp add: crack2_inv_def)
  then have ne: "pcs2 s \<noteq> []" using n by auto
  have stay: "(\<exists>x y. p = First_barrier x y) \<or> p = Second_barrier \<or> p = Gone \<or> p = Take \<and> queue2 s = []" if "p \<in> set (pcs2 s)" for p
    using that stuck thread2_steps [of _ s lib] by (metis in_set_conv_nth)
  obtain past rest where "(list_all2 (right_summary lib N sp) past (summaries s) \<and>
      (ending s \<and> users = past \<or> (\<exists>d. users = past @ d # rest \<and> working lib part n N sp d rest s))) \<or>
     (\<exists>d. users = past @ d # rest \<and> summing lib part n N sp d rest s \<and>
       list_all2 (right_summary lib N sp) (if complete s then past @ [d] else past) (summaries s))"
    using inv unfolding crack2_inv_def by blast
  then consider (final) "ending s" "users = past" "list_all2 (right_summary lib N sp) past (summaries s)"
    | (work) d where "working lib part n N sp d rest s" | (summing) d where "summing lib part n N sp d rest s" by blast
  then show ?thesis
  proof cases
    case final
    have "p = Gone" if p: "p \<in> set (pcs2 s)" for p
    proof (rule ccontr)
      assume "p \<noteq> Gone"
      then have "p = Take" using final(1) p by (auto simp: ending_def)
      then have "queue2 s = []" "0 < takers (pcs2 s)" using stay [OF p] takers_pos p by (auto simp: in_set_conv_nth)
      then show False using final(1) by (simp add: ending_def)
    qed
    then show ?thesis using final by simp
  next
    case work
    from work obtain xs where xs: "queue2 s = map Some xs @ later lib part n rest" "length xs = takers (pcs2 s)"
      "\<forall>p \<in> set (pcs2 s). at_work lib N sp d (found s) p" by (rule workingE)
    have "\<exists>x y. p = First_barrier x y" if p: "p \<in> set (pcs2 s)" for p
    proof -
      have "\<not> (p = Take \<and> queue2 s = [])"
      proof
        assume t: "p = Take \<and> queue2 s = []"
        then have "0 < takers (pcs2 s)" using takers_pos p by (auto simp: in_set_conv_nth)
        then show False using t xs(1,2) by simp
      qed
      moreover have "p \<noteq> Second_barrier" "p \<noteq> Gone" using xs(3) p by auto
      ultimately show ?thesis using stay [OF p] by blast
    qed
    then show ?thesis using stuck crack2_step.first_barrier [OF _ ne] by blast
  next
    case summing
    have "p = Second_barrier" if "p \<in> set (pcs2 s)" for p
      using summing that stay [OF that] unfolding summing_def by fastforce
    then show ?thesis using stuck crack2_step.second_barrier [OF _ ne] by blast
  qed
qed

text \<open>C25: every user gets one right summary. When the parts of the threads lie in the candidates and cover them,
  then in any interleaving a run has a bounded number of steps and can only stop when all threads are gone,
  and then the summaries are, in the order of the users, one for each: a failure exactly when no candidate of
  the user has the hash, and else a password that has it.\<close>

theorem crack2_summaries:
  assumes "\<forall>d \<in> set users. good_user lib part n N sp d" "0 < n" "(crack2_step lib ^^ k) (crack2_start lib part users n junk) s"
  shows "k \<le> crack2_work (crack2_start lib part users n junk) \<and>
    ((\<exists>s'. crack2_step lib s s') \<or> (\<forall>p \<in> set (pcs2 s). p = Gone) \<and> list_all2 (right_summary lib N sp) users (summaries s))"
proof -
  have "k + crack2_work s \<le> crack2_work (crack2_start lib part users n junk) \<and> crack2_inv lib part n N sp users s"
    using assms(3)
  proof (induction k arbitrary: s)
    case 0
    then have "s = crack2_start lib part users n junk" by simp
    then show ?case using crack2_start_inv [OF assms(1)] by simp
  next
    case (Suc k)
    then obtain u where u: "(crack2_step lib ^^ k) (crack2_start lib part users n junk) u" "crack2_step lib u s" by auto
    then show ?case using Suc.IH [OF u(1)] crack2_step_work [OF u(2)] crack2_inv_step [OF assms(1,2) _ u(2)] by fastforce
  qed
  then show ?thesis using crack2_stuck [OF _ assms(2)] by auto
qed

theorem crack2_summaries_witness:
  "\<exists>k s x. (crack2_step letter_lib ^^ k) (crack2_start letter_lib (\<lambda>l n i. (i - 1, if i = 1 then 1 else 2)) [\<lparr>username = ''u'', user_hash = ''xb'', user_password = ''x.''\<rparr>] 2 []) s \<and>
     summaries s = [x] \<and> fst x = ''u'' \<and> fst (snd x) = ''xb'' \<and> \<not> snd (snd (snd x))"
proof -
  let ?d = "\<lparr>username = ''u'', user_hash = ''xb'', user_password = ''x.''\<rparr>" and ?part = "\<lambda>l n i. (i - 1, if i = 1 then 1 else 2 :: nat)"
  let ?s = "crack2_start letter_lib ?part [?d] 2 []" and ?sp = "\<lambda>_ k. [''abc'' ! k]"
  have p: "pieces letter_lib ?part 2 ?d = [\<lparr>piece_job = ?d, piece_start = 0, piece_count = 1\<rparr>, \<lparr>piece_job = ?d, piece_start = 1, piece_count = 2\<rparr>]"
    by (simp add: pieces_def upt_rec)
  have "good_user letter_lib ?part 2 (\<lambda>_. 3) ?sp ?d"
    unfolding good_user_def p using letter_tails by auto
  then have g: "\<forall>d \<in> set [?d]. good_user letter_lib ?part 2 (\<lambda>_. 3) ?sp d" by simp
  define reach where "reach = (\<lambda>k. \<exists>s. (crack2_step letter_lib ^^ k) ?s s)"
  have "k \<le> crack2_work ?s" if r: "reach k" for k
  proof -
    obtain t where t: "(crack2_step letter_lib ^^ k) ?s t" using r unfolding reach_def by blast
    show ?thesis by (rule conjunct1 [OF crack2_summaries [OF g _ t]]) simp
  qed
  then have "{k. reach k} \<subseteq> {..crack2_work ?s}" by (auto simp only: mem_Collect_eq subset_iff atMost_iff)
  then have fin: "finite {k. reach k}" by (rule finite_subset) (rule finite_atMost)
  have "reach 0" by (simp add: reach_def)
  define k where "k = Max {k. reach k}"
  have k: "reach k" "\<And>k'. reach k' \<Longrightarrow> k' \<le> k"
    unfolding k_def using Max_in [OF fin] Max_ge [OF fin] \<open>reach 0\<close> by blast+
  from k(1) obtain s where s: "(crack2_step letter_lib ^^ k) ?s s" unfolding reach_def by blast
  have "\<not> crack2_step letter_lib s s'" for s'
  proof
    assume "crack2_step letter_lib s s'"
    then have "reach (Suc k)" unfolding reach_def using s by (intro exI [of _ s']) (rule relpowp_Suc_I)
    then show False using k(2) [of "Suc k"] by simp
  qed
  then have no: "\<not> (\<exists>s'. crack2_step letter_lib s s')" by blast
  have "(\<exists>s'. crack2_step letter_lib s s') \<or> (\<forall>p \<in> set (pcs2 s). p = Gone) \<and> list_all2 (right_summary letter_lib (\<lambda>_. 3) ?sp) [?d] (summaries s)"
    by (rule conjunct2 [OF crack2_summaries [OF g _ s]]) simp
  with no have "list_all2 (right_summary letter_lib (\<lambda>_. 3) ?sp) [?d] (summaries s)" by (elim disjE) (erule notE, assumption, erule conjunct2)
  then obtain x where x: "summaries s = [x]" "right_summary letter_lib (\<lambda>_. 3) ?sp ?d x" by (auto simp: list_all2_Cons1)
  have "hit letter_lib (\<lambda>_. 3) ?sp ?d 1" by (simp add: hit_def prefix_of_def letter_lib_def)
  then have "fst x = ''u'' \<and> fst (snd x) = ''xb'' \<and> \<not> snd (snd (snd x))"
    using x(2) by (auto simp: right_summary_def letter_lib_def)
  then show ?thesis using s x(1) by blast
qed

end
