(* ===== verification/Spec2Isabelle.thy ===== *)
theory Spec2Isabelle
  imports Prelude Vector_Impl Camel_Caser SString CQueue Monitor CQueue_Threads Semamore Barrier Malloc_Clients Scheduler Libdrm Net_Transfer Mini_Memcheck MMU_Runs Minixfs_Files Shell_Runs Parmake_Runs Chat_Runs Lookup Par_Reduce Rendezvous Dd Cracker2
begin

text \<open>
  A verification of the system programs of this repository: data structures and allocators, synchronisation
  primitives, a scheduler, a lock manager, a page table, a file system, a shell, a parallel make, a file server
  and its client, a chat room, a password cracker and some smaller tools.

  \<^bold>\<open>The parts.\<close> The directories of \<open>src\<close> are separate programs. What they share is the vector of \<open>vector/vector.c\<close>,
  used by \<open>sstring.c\<close>, \<open>libdrm.c\<close>, \<open>parmake.c\<close> and the file server, and the queue of
  \<open>critical_concurrency/queue.c\<close>, used by the crackers and by \<open>parmake.c\<close> through its interface only. Each theory models one source file or one
  layer of its proofs, and its opening text says what its state and operations stand for. A C function is the definition of
  the same name.

  \<^item> \<open>Prelude\<close>: faults and outcomes, arrays, counted loops, the type \<open>int\<close>. \<open>Interfaces\<close>: the contracts as locales
    (growable sequence, queue, state machine with an invariant), each interpreted where its provider is modelled.
    \<open>CString\<close>: C strings and character classes. \<open>Monitor\<close>: threads with one mutex and one condition variable.
  \<^item> \<open>Vector_Impl\<close>: \<open>vector/vector.c\<close>. \<open>SString\<close>: \<open>vector/sstring.c\<close>, on top of the vector.
    \<open>Camel_Caser\<close>: \<open>extreme_edge_cases/camelCaser.c\<close>.
  \<^item> \<open>CQueue\<close>, \<open>CQueue_Threads\<close>, \<open>Semamore\<close>, \<open>Barrier\<close>, \<open>Rendezvous\<close>: \<open>critical_concurrency/\<close>.
  \<^item> \<open>Malloc\<close>, \<open>Malloc_Blocks\<close>, \<open>Malloc_Free\<close>, \<open>Malloc_Clients\<close>: \<open>malloc/alloc.c\<close>, its block list, the proofs for
    \<open>free\<close> and \<open>realloc\<close>, and the programs that use it. \<open>Mini_Memcheck\<close>: \<open>mini_memcheck/mini_memcheck.c\<close>.
  \<^item> \<open>Scheduler\<close>: \<open>savvy_scheduler/libscheduler.c\<close>. \<open>Libdrm\<close>: \<open>deadlock_demolition/libdrm.c\<close>.
  \<^item> \<open>Net_Common\<close>, \<open>Net_Server\<close>, \<open>Net_Server_Runs\<close>, \<open>Net_Requests\<close>, \<open>Net_Client\<close>, \<open>Net_Transfer\<close>: \<open>nonstop_networking/\<close>,
    the loops that move a buffer, the server, its connections and whole requests, the client, and both together.
  \<^item> \<open>MMU\<close>, \<open>MMU_Tables\<close>, \<open>MMU_Access\<close>, \<open>MMU_Runs\<close>: \<open>ideal_indirection/mmu.c\<close>.
    \<open>Minixfs\<close>, \<open>Minixfs_Files\<close>: \<open>finding_filesystems/minixfs.c\<close>.
  \<^item> \<open>Shell\<close>, \<open>Shell_Runs\<close>: \<open>shell/shell.c\<close>. \<open>Parmake\<close>, \<open>Parmake_Graph\<close>, \<open>Parmake_Runs\<close>: \<open>parallel_make/parmake.c\<close>.
    \<open>Chat\<close>, \<open>Chat_Runs\<close>: \<open>utils.c\<close>, \<open>client.c\<close> and \<open>server.c\<close> of \<open>charming_chatroom/\<close>.
  \<^item> \<open>Lookup\<close>: \<open>mad_mad_access_patterns/\<close>. \<open>Par_Reduce\<close>: \<open>teaching_threads/par_reduce.c\<close>. \<open>Dd\<close>: \<open>deepfried_dd/dd.c\<close>.
    \<open>Cracker1\<close>, \<open>Cracker2\<close>: \<open>password_cracker/\<close>.

  \<^bold>\<open>How C is modelled.\<close> A structure is a record, a pointer to shared memory an address in a map or an index, a null pointer \<open>None\<close> or 0.
  An operation that can fail returns an outcome: a value, or the fault that stops the program (a failed assertion, a null or
  dangling pointer, an access outside a block, an overflow of \<open>int\<close>, a division by zero, a loop that does not end, \<open>exit\<close>). Machine numbers are
  words, or natural numbers with the wrap-around written out where the code can reach it. Threads are step relations:
  each step is a stretch of code that other threads cannot see inside, the runs are all interleavings, and properties
  of them are invariants proved by rule induction (locale \<open>state_machine\<close>). Loops that may not end are partial functions or take fuel.

  \<^bold>\<open>What the lemmas show.\<close>
  \<^item> Containers: the vector keeps its size within its capacity and its contents are those of the list operations; \<open>split\<close> and
    \<open>substitute\<close> agree with specifications on plain strings; camel casing agrees with a rule given for each letter.
  \<^item> Allocation: blocks never overlap and no call faults, \<open>malloc\<close>, \<open>free\<close> and \<open>realloc\<close> do what they promise while
    no stale back pointer is left at a freed block; that the code can leave one is shown too (\<open>malloc_overlapping_blocks\<close>).
  \<^item> Synchronisation: order, bounds, rounds and the absence of lost wake-ups for queue, semaphore, barrier and rendezvous,
    and the wake-up a bounded queue does lose.
  \<^item> Libraries with a state: the scheduler's choices; what \<open>drm_wait\<close> decides; that pages are disjoint, the translation cache invisible and memory reads what was
    written; which bytes reads and writes of files touch, and which a write inside a block gets wrong.
  \<^item> Programs: what a file transfer leaves on both sides, that the server's records stay consistent, where its arrays are
    overrun; that every chat client hears the same, and hears twice when a descriptor is reused too early; that make runs every rule once, after its
    dependencies, and ends; that a history line can make the shell run for ever; that a tree in a file is searched right; that the crackers' summaries are right.

  \<^bold>\<open>Fuel and bounds.\<close> The searches of \<open>Libdrm\<close> and \<open>Parmake\<close> have one unit of fuel for each vertex, which is enough since a
  vertex is entered once. The loops over the block list of \<open>Malloc\<close> have \<open>fuel env\<close>, assumed larger than the address space has blocks (\<open>good_env\<close>);
  the walks of \<open>Mini_Memcheck\<close> as many steps as there are blocks. \<open>Lookup\<close> needs more than the height of the tree, \<open>crack\<close> as many rounds as candidates.
  Results with too little fuel are \<open>Diverges\<close>, and the theorems say that it does not occur. Sizes of \<open>malloc\<close> are bounded by \<open>2 ^ 62\<close> where a
  theorem says so, above which the arithmetic of the code wraps (\<open>malloc_largest_sizes_wrap\<close>). Where the code counts in an \<open>int\<close>, strings are shorter than \<open>2 ^ 31\<close> bytes.

  \<^bold>\<open>What is assumed of absent code.\<close> Headers and libraries that are not in the repository are parameters, with laws as named hypotheses that instances in the
  witnesses satisfy: the graph and set libraries (\<open>graph_laws\<close>, \<open>make_laws\<close>), the priority queue (\<open>pq_laws\<close>), the translation cache and kernel
  (\<open>tlb_laws\<close>, \<open>kernel_laws\<close>), the layout and helpers of the file system (\<open>fs_lib\<close>), candidate strings and \<open>crypt_r\<close> (\<open>tails\<close>), the
  reducers of \<open>par_reduce\<close>, the constants of the vector. The operating system is a parameter or a script of results: \<open>sbrk\<close>, \<open>fork\<close> and \<open>fgets\<close> of the shell, \<open>send\<close>
  and \<open>recv\<close>. Conditions on it that matter stand in the theorems: the transfers of files need complete sends, since
  the code drops bytes after a short one; the order of the chat needs descriptors not reused while a slot holds them.
  Memory is taken to be granted where the code does not look at the result of \<open>malloc\<close>, unless the model has the null pointer as a value (\<open>enqueue\<close>, \<open>camel_caser\<close> and \<open>create_message\<close>
  for negative sizes).

  \<^bold>\<open>Not modelled.\<close> Calls that only set up sockets, threads, signal handlers and windows; the times that are only printed;
  the doubles of the scheduler are exact rationals, so nothing is claimed of the last bits of its averages; the loop of \<open>epoll\<close> events
  of the file server beyond its handlers; output formats; \<open>mapreduce.c\<close>, \<open>env.c\<close> and \<open>time.c\<close>, which are
  sequences of system calls; exercises and tests.
\<close>

end
